(* ===== verification/Prelude.thy ===== *)
theory Prelude
  imports Main "HOL-Library.Word" "HOL-Library.Monad_Syntax" "HOL-Library.Sublist"
begin

text \<open>
  Shared vocabulary of the development: C values, blocks of memory, C strings, and the
  generic lemmas on lists and words that the components use.

  \<^item> A block of memory is a HOL list: its length is what was allocated. A read or write
    outside it is \<open>None\<close>, as is every other undefined behaviour of C (a NULL
    dereference, signed overflow where the code relies on it not happening).
    \<open>malloc\<close>, \<open>calloc\<close> and \<open>realloc\<close> are taken to succeed: the modelled
    code never tests their result.
  \<^item> A C string is a \<open>char list\<close> without its terminator.
  \<^item> \<open>NULL\<close> is the \<open>None\<close> of an \<open>option\<close> type.
\<close>

unbundle bit_operations_syntax

named_theorems bounds_simps \<open>facts that reduce buffer bounds to arithmetic\<close>
named_theorems inv_intros \<open>one preservation lemma per operation\<close>

type_synonym byte = "8 word"
type_synonym u16 = "16 word"
type_synonym u32 = "32 word"
type_synonym u64 = "64 word"

section \<open>The range of a C int\<close>

abbreviation INT_MAX :: int where "INT_MAX \<equiv> 2147483647"
abbreviation INT_MIN :: int where "INT_MIN \<equiv> -2147483648"

definition in_int :: "int \<Rightarrow> bool" where
  "in_int x \<longleftrightarrow> INT_MIN \<le> x \<and> x \<le> INT_MAX"

section \<open>Blocks of memory\<close>

text \<open>\<open>splice i ys xs\<close> is the block \<open>xs\<close> after \<open>memcpy (xs + i, ys, length ys)\<close>.\<close>

definition splice :: "nat \<Rightarrow> 'a list \<Rightarrow> 'a list \<Rightarrow> 'a list" where
  "splice i ys xs = take i xs @ ys @ drop (i + length ys) xs"

definition mem_write :: "nat \<Rightarrow> 'a list \<Rightarrow> 'a list \<Rightarrow> 'a list option" where
  "mem_write i ys xs = (if i + length ys \<le> length xs then Some (splice i ys xs) else None)"

definition mem_read :: "nat \<Rightarrow> nat \<Rightarrow> 'a list \<Rightarrow> 'a list option" where
  "mem_read i n xs = (if i + n \<le> length xs then Some (take n (drop i xs)) else None)"

text \<open>\<open>memmove (xs + d, xs + s, n)\<close>: the source is read before the destination is written.\<close>

definition mem_move :: "nat \<Rightarrow> nat \<Rightarrow> nat \<Rightarrow> 'a list \<Rightarrow> 'a list option" where
  "mem_move d s n xs = do { ys \<leftarrow> mem_read s n xs; mem_write d ys xs }"

definition mem_get :: "nat \<Rightarrow> 'a list \<Rightarrow> 'a option" where
  "mem_get i xs = (if i < length xs then Some (xs ! i) else None)"

definition mem_set :: "nat \<Rightarrow> 'a \<Rightarrow> 'a list \<Rightarrow> 'a list option" where
  "mem_set i x xs = (if i < length xs then Some (xs[i := x]) else None)"

lemma length_splice [simp]: "i + length ys \<le> length xs \<Longrightarrow> length (splice i ys xs) = length xs"
  by (simp add: splice_def)

lemma nth_splice:
  "i + length ys \<le> length xs \<Longrightarrow> j < length xs \<Longrightarrow>
   splice i ys xs ! j = (if i \<le> j \<and> j < i + length ys then ys ! (j - i) else xs ! j)"
  by (auto simp: splice_def nth_append min_def)

lemma splice_Nil [simp]: "splice i [] xs = xs"
  by (simp add: splice_def)

lemma take_splice: "n \<le> i \<Longrightarrow> i \<le> length xs \<Longrightarrow> take n (splice i ys xs) = take n xs"
  by (simp add: splice_def min_def)

lemma drop_splice:
  "i + length ys \<le> n \<Longrightarrow> i \<le> length xs \<Longrightarrow> drop n (splice i ys xs) = drop n xs"
  by (simp add: splice_def)

lemma take_splice_end:
  "i \<le> length xs \<Longrightarrow> take (i + length ys) (splice i ys xs) = take i xs @ ys"
  by (simp add: splice_def)

lemma splice_single: "i < length xs \<Longrightarrow> splice i [x] xs = xs[i := x]"
  by (simp add: splice_def upd_conv_take_nth_drop)

lemma mem_write_Some [simp]:
  "mem_write i ys xs = Some zs \<longleftrightarrow> i + length ys \<le> length xs \<and> zs = splice i ys xs"
  by (auto simp: mem_write_def)

lemma mem_read_Some [simp]:
  "mem_read i n xs = Some zs \<longleftrightarrow> i + n \<le> length xs \<and> zs = take n (drop i xs)"
  by (auto simp: mem_read_def)

lemma mem_get_Some [simp]: "mem_get i xs = Some x \<longleftrightarrow> i < length xs \<and> x = xs ! i"
  by (auto simp: mem_get_def)

lemma mem_set_Some [simp]: "mem_set i x xs = Some ys \<longleftrightarrow> i < length xs \<and> ys = xs[i := x]"
  by (auto simp: mem_set_def)

lemma mem_move_Some [simp]:
  "mem_move d s n xs = Some ys \<longleftrightarrow>
     s + n \<le> length xs \<and> d + n \<le> length xs \<and> ys = splice d (take n (drop s xs)) xs"
  by (auto simp: mem_move_def bind_eq_Some_conv)

text \<open>The same facts as rewrite rules, for an access that is known to be in bounds.\<close>

lemma mem_write_ok: "i + length ys \<le> length xs \<Longrightarrow> mem_write i ys xs = Some (splice i ys xs)"
  by simp

lemma mem_read_ok: "i + n \<le> length xs \<Longrightarrow> mem_read i n xs = Some (take n (drop i xs))"
  by simp

lemma mem_get_ok: "i < length xs \<Longrightarrow> mem_get i xs = Some (xs ! i)"
  by simp

lemma mem_set_ok: "i < length xs \<Longrightarrow> mem_set i x xs = Some (xs[i := x])"
  by simp

lemmas mem_ok = mem_write_ok mem_read_ok mem_get_ok mem_set_ok

lemma mem_move_up:
  "i \<le> n \<Longrightarrow> n < length xs \<Longrightarrow>
   mem_move (Suc i) i (n - i) xs = Some (take (Suc i) xs @ take (n - i) (drop i xs) @ drop (Suc n) xs)"
  by (simp add: splice_def min_def)

lemma mem_move_down:
  "i < n \<Longrightarrow> n \<le> length xs \<Longrightarrow>
   mem_move i (Suc i) (n - Suc i) xs =
     Some (take i xs @ take (n - Suc i) (drop (Suc i) xs) @ drop (n - 1) xs)"
  by (cases "n = length xs") (auto simp: splice_def min_def)

text \<open>A \<open>memmove\<close> inside a block.\<close>

lemma length_move [simp]:
  "i + k \<le> length xs \<Longrightarrow> length (splice i (take k (drop j xs)) xs) = length xs"
  by (rule length_splice) auto

lemma nth_move:
  "i + k \<le> length xs \<Longrightarrow> j + k \<le> length xs \<Longrightarrow> m < length xs \<Longrightarrow>
   splice i (take k (drop j xs)) xs ! m = (if i \<le> m \<and> m < i + k then xs ! (j + (m - i)) else xs ! m)"
  by (subst nth_splice) auto

lemma take_move_up:
  assumes "i \<le> n" "n < length b"
  shows "take (Suc n) ((splice (Suc i) (take (n - i) (drop i b)) b)[i := e]) =
     take i (take n b) @ e # drop i (take n b)"
proof (rule nth_equalityI)
  have l: "length (splice (Suc i) (take (n - i) (drop i b)) b) = length b" using assms by simp
  then show "length (take (Suc n) ((splice (Suc i) (take (n - i) (drop i b)) b)[i := e])) =
      length (take i (take n b) @ e # drop i (take n b))" using assms by simp
  fix m assume "m < length (take (Suc n) ((splice (Suc i) (take (n - i) (drop i b)) b)[i := e]))"
  then have m: "m < Suc n" using l assms by simp
  show "take (Suc n) ((splice (Suc i) (take (n - i) (drop i b)) b)[i := e]) ! m =
      (take i (take n b) @ e # drop i (take n b)) ! m"
    using m assms l by (auto simp: nth_list_update nth_move nth_append nth_Cons' min_def)
qed

lemma take_move_down:
  assumes "i < n" "n \<le> length b"
  shows "take (n - 1) ((splice i (take (n - i - 1) (drop (Suc i) b)) b)[n - 1 := z]) =
     take i (take n b) @ drop (Suc i) (take n b)"
proof (rule nth_equalityI)
  have l: "length (splice i (take (n - i - 1) (drop (Suc i) b)) b) = length b" using assms by simp
  then show "length (take (n - 1) ((splice i (take (n - i - 1) (drop (Suc i) b)) b)[n - 1 := z])) =
      length (take i (take n b) @ drop (Suc i) (take n b))" using assms by simp
  fix m assume "m < length (take (n - 1) ((splice i (take (n - i - 1) (drop (Suc i) b)) b)[n - 1 := z]))"
  then have m: "m < n - 1" using l assms by simp
  show "take (n - 1) ((splice i (take (n - i - 1) (drop (Suc i) b)) b)[n - 1 := z]) ! m =
      (take i (take n b) @ drop (Suc i) (take n b)) ! m"
    using m assms l by (auto simp: nth_list_update nth_move nth_append min_def)
qed

section \<open>C strings\<close>

definition PATH_MAX :: nat where "PATH_MAX = 4096"

text \<open>\<open>snprintf (buffer, PATH_MAX, ...) >= PATH_MAX\<close>: the text does not fit.\<close>

definition fits :: "string \<Rightarrow> bool" where
  "fits s \<longleftrightarrow> length s < PATH_MAX"

definition absolute :: "string \<Rightarrow> bool" where
  "absolute s \<longleftrightarrow> (case s of [] \<Rightarrow> False | c # _ \<Rightarrow> c = CHR ''/'')"

lemma absolute_simps [simp]:
  "\<not> absolute []" "absolute (c # s) \<longleftrightarrow> c = CHR ''/''"
  by (simp_all add: absolute_def)

lemma absolute_append [simp]: "absolute s \<Longrightarrow> absolute (s @ t)"
  by (cases s) auto

section \<open>Little-endian integers in memory\<close>

definition le_bytes :: "nat \<Rightarrow> 'a::len word \<Rightarrow> byte list" where
  "le_bytes n w = map (\<lambda>i. ucast (drop_bit (8 * i) w)) [0..<n]"

fun le_word :: "byte list \<Rightarrow> 'a::len word" where
  "le_word [] = 0"
| "le_word (b # bs) = ucast b OR push_bit 8 (le_word bs)"

lemma length_le_bytes [simp]: "length (le_bytes n w) = n"
  by (simp add: le_bytes_def)

lemma le_bytes_0 [simp]: "le_bytes 0 w = []"
  by (simp add: le_bytes_def)

lemma le_bytes_Suc: "le_bytes (Suc n) w = ucast w # le_bytes n (drop_bit 8 w)"
proof -
  have "[0..<Suc n] = 0 # map Suc [0..<n]"
    by (metis map_Suc_upt upt_rec zero_less_Suc)
  then show ?thesis
    by (simp add: le_bytes_def o_def add.commute)
qed

lemma bit_le_word:
  "bit (le_word bs :: 'a::len word) k \<longleftrightarrow>
     k < LENGTH('a) \<and> k div 8 < length bs \<and> bit (bs ! (k div 8)) (k mod 8)"
proof (induction bs arbitrary: k)
  case Nil
  then show ?case by simp
next
  case (Cons b bs)
  show ?case
  proof (cases "k < 8")
    case True
    then show ?thesis
      by (auto simp: bit_or_iff bit_push_bit_iff bit_ucast_iff)
  next
    case False
    then obtain m where m: "k = 8 + m" using le_Suc_ex not_less by blast
    have "\<not> bit b k" using False bit_imp_le_length [of b k] by auto
    moreover have "(8 + m) div 8 = Suc (m div 8)" by simp
    ultimately show ?thesis
      using Cons.IH [of m] m by (auto simp: bit_or_iff bit_push_bit_iff bit_ucast_iff)
  qed
qed

lemma le_word_le_bytes:
  fixes w :: "'a::len word"
  assumes "LENGTH('a) \<le> 8 * n"
  shows "le_word (le_bytes n w) = w"
proof (rule bit_word_eqI)
  fix k assume k: "k < LENGTH('a)"
  then have "k div 8 < n" using assms by simp
  moreover have "bit (le_bytes n w ! (k div 8)) (k mod 8) = bit w k"
    using \<open>k div 8 < n\<close> by (simp add: le_bytes_def bit_ucast_iff bit_drop_bit_eq)
  ultimately show "bit (le_word (le_bytes n w) :: 'a word) k = bit w k"
    using k by (simp add: bit_le_word)
qed

section \<open>errno\<close>

datatype errno =
    EPERM | ENOENT | EINTR | EAGAIN | ENOMEM | EACCES | EFAULT | EEXIST | EXDEV | EINVAL
  | EMFILE | EFBIG | ENOSPC | ERANGE | ENAMETOOLONG | ENOSYS | EOPNOTSUPP | ENOTSUP | EIDRM
  | ETIMEDOUT | ENOEXEC | Errno nat

section \<open>Decimal text\<close>

text \<open>\<open>printf ("%lu", n)\<close>.\<close>

definition digit :: "nat \<Rightarrow> char" where
  "digit d = char_of (48 + d)"

fun dec :: "nat \<Rightarrow> string" where
  "dec n = (if n < 10 then [digit n] else dec (n div 10) @ [digit (n mod 10)])"

declare dec.simps [simp del]

text \<open>\<open>printf ("%d", i)\<close>.\<close>

definition dec_int :: "int \<Rightarrow> string" where
  "dec_int i = (if i < 0 then CHR ''-'' # dec (nat (- i)) else dec (nat i))"

lemma dec_nonempty [simp]: "dec n \<noteq> []"
  by (subst dec.simps) simp

lemma length_dec_le: "n < 10 ^ Suc k \<Longrightarrow> length (dec n) \<le> Suc k"
proof (induction k arbitrary: n)
  case 0
  then show ?case by (subst dec.simps) simp
next
  case (Suc k)
  then have "n div 10 < 10 ^ Suc k" by (simp add: less_mult_imp_div_less mult.commute)
  from Suc.IH [OF this] show ?case by (subst dec.simps) simp
qed

section \<open>List scanning\<close>

lemma takeWhile_upto [simp]: "x \<notin> set d \<Longrightarrow> takeWhile (\<lambda>c. c \<noteq> x) (d @ x # zs) = d"
  by (induction d) auto

lemma dropWhile_upto [simp]: "x \<notin> set d \<Longrightarrow> dropWhile (\<lambda>c. c \<noteq> x) (d @ x # zs) = x # zs"
  by (induction d) auto

lemma takeWhile_without [simp]: "x \<notin> set d \<Longrightarrow> takeWhile (\<lambda>c. c \<noteq> x) d = d"
  by (induction d) auto

lemma dropWhile_without [simp]: "x \<notin> set d \<Longrightarrow> dropWhile (\<lambda>c. c \<noteq> x) d = []"
  by (induction d) auto

section \<open>Hexadecimal text\<close>

text \<open>\<open>printf ("%08x", w)\<close>.\<close>

definition hex_digit :: "nat \<Rightarrow> char" where
  "hex_digit d = (if d < 10 then char_of (48 + d) else char_of (87 + d))"

definition nibble :: "nat \<Rightarrow> u32 \<Rightarrow> nat" where
  "nibble i w = unat (drop_bit (4 * i) w AND 15)"

definition hex8 :: "u32 \<Rightarrow> string" where
  "hex8 w = map (\<lambda>i. hex_digit (nibble i w)) (rev [0..<8])"

lemma length_hex8 [simp]: "length (hex8 w) = 8"
  by (simp add: hex8_def)

lemma nibble_less: "nibble i w < 16"
proof -
  have "drop_bit (4 * i) w AND 15 \<le> 15" by (rule word_and_le1)
  then have "nibble i w \<le> unat (15 :: u32)" unfolding nibble_def by (simp add: word_le_nat_alt)
  then show ?thesis by simp
qed

lemma hex_digit_inj: "d < 16 \<Longrightarrow> e < 16 \<Longrightarrow> hex_digit d = hex_digit e \<Longrightarrow> d = e"
  by (auto simp: hex_digit_def split: if_splits dest!: char_of_eq_iff [THEN iffD1])

lemma bit_nibble: "k < 4 \<Longrightarrow> bit (nibble i w) k = bit w (4 * i + k)"
proof -
  assume "k < 4"
  then have "k = 0 \<or> k = 1 \<or> k = 2 \<or> k = 3" by auto
  then have "bit (15 :: u32) k" by auto
  then show ?thesis
    by (auto simp: nibble_def bit_unsigned_iff bit_and_iff bit_drop_bit_eq dest: bit_imp_le_length)
qed

lemma hex8_inj: "hex8 a = hex8 b \<Longrightarrow> a = b"
proof (rule bit_word_eqI)
  fix k assume eq: "hex8 a = hex8 b" and "k < LENGTH(32)"
  then have "k div 4 \<in> set (rev [0..<8])" by auto
  then have "hex_digit (nibble (k div 4) a) = hex_digit (nibble (k div 4) b)"
    using eq unfolding hex8_def by (meson map_eq_conv)
  then have "nibble (k div 4) a = nibble (k div 4) b"
    by (intro hex_digit_inj nibble_less)
  moreover have "bit (nibble (k div 4) w) (k mod 4) = bit w k" for w
    by (subst bit_nibble) simp_all
  ultimately show "bit a k = bit b k" by metis
qed

section \<open>Circular positions\<close>

lemma mod_add_cancel:
  fixes h i j n :: nat
  assumes "i < n" "j < n"
  shows "(h + i) mod n = (h + j) mod n \<longleftrightarrow> i = j"
proof -
  have *: "a = b" if "(h + a) mod n = (h + b) mod n" "a \<le> b" "b < n" for a b
  proof -
    have "n dvd (h + b) - (h + a)"
      using that(1,2) by (metis add_le_cancel_left mod_eq_dvd_iff_nat)
    then have "n dvd b - a" by simp
    then show ?thesis using that(2,3) by (auto dest!: dvd_imp_le)
  qed
  show ?thesis using * [of i j] * [of j i] assms by (metis nat_le_linear)
qed

end
