(* ===== verification/SysvSem.thy ===== *)
theory SysvSem
  imports Prelude
begin

text \<open>
  System V semaphores emulated in user space, \<open>native/runtime/sysv-semaphore.c\<close>: a shared
  file mapping holds the set, \<open>fcntl\<close> locks serialise the critical sections, and a futex on
  the \<open>sequence\<close> word supplies the blocking waits.

  \<open>sem_state\<close> is \<open>struct bx_sem_state\<close>. The critical sections are functions on it; the
  interleaving of processes around them is the relation \<open>sem_step\<close>, in which the futex
  behaves as documented: \<open>FUTEX_WAIT\<close> sleeps only if the word still has the expected value,
  and \<open>FUTEX_WAKE (INT_MAX)\<close> wakes every sleeper.
\<close>

section \<open>State\<close>

definition BX_SEM_MAGIC :: u32 where "BX_SEM_MAGIC = 0x4258534d"
definition BX_SEM_VERSION :: u32 where "BX_SEM_VERSION = 1"
definition BX_SEM_MAX :: nat where "BX_SEM_MAX = 64"
definition BX_SEM_ID_BASE :: nat where "BX_SEM_ID_BASE = 0x42500000"

record sem_state =
  magic :: u32
  version :: u32
  sem_id :: nat
  sem_key :: int
  nsems :: nat
  removed :: bool
  sequence :: u32
  sem_values :: "int list"
  last_pid :: "int list"
  wait_negative :: "u32 list"
  wait_zero :: "u32 list"

record sembuf =
  sem_num :: nat
  sem_op :: int
  sem_undo :: bool
  ipc_nowait :: bool

text \<open>The state that \<open>create_state\<close> writes into a fresh file.\<close>

definition fresh_state :: "nat \<Rightarrow> int \<Rightarrow> nat \<Rightarrow> sem_state" where
  "fresh_state ident key n =
     \<lparr>magic = BX_SEM_MAGIC, version = BX_SEM_VERSION, sem_id = ident, sem_key = key, nsems = n,
      removed = False, sequence = 1,
      sem_values = replicate BX_SEM_MAX 0, last_pid = replicate BX_SEM_MAX 0,
      wait_negative = replicate BX_SEM_MAX 0, wait_zero = replicate BX_SEM_MAX 0\<rparr>"

section \<open>semop: one pass over the operations\<close>

text \<open>
  The inner loop of \<open>apply_operations\<close> on the local copy \<open>values\<close>. \<open>Undefined\<close> is the
  signed overflow of \<open>values[number] += operation\<close>.
\<close>

datatype attempt = Done "int list" | Blocked nat | Fails errno | Undefined

fun try_ops :: "nat \<Rightarrow> nat \<Rightarrow> sembuf list \<Rightarrow> int list \<Rightarrow> attempt" where
  "try_ops n i [] vs = Done vs"
| "try_ops n i (b # bs) vs =
     (if sem_num b \<ge> n then Fails EFBIG
      else if sem_undo b then Fails ENOTSUP
      else if sem_op b < 0 \<and> vs ! sem_num b < - sem_op b then Blocked i
      else if sem_op b = 0 \<and> vs ! sem_num b \<noteq> 0 then Blocked i
      else let v = vs ! sem_num b + sem_op b in
        if \<not> in_int v then Undefined else try_ops n (Suc i) bs (vs[sem_num b := v]))"

definition wake_waiters :: "sem_state \<Rightarrow> sem_state" where
  "wake_waiters st = st\<lparr>sequence := sequence st + 1\<rparr>"

definition stamp_pids :: "int \<Rightarrow> sembuf list \<Rightarrow> int list \<Rightarrow> int list" where
  "stamp_pids pid ops pids = foldl (\<lambda>ps b. ps[sem_num b := pid]) pids ops"

datatype sem_outcome = Success | Failure errno | Wait nat u32 | Undef

text \<open>
  One turn of the \<open>for (;;)\<close> loop up to the unlock: the operation set is applied as a whole,
  refused, or the caller registers as a waiter and remembers the sequence number.
\<close>

definition add_waiter :: "sembuf \<Rightarrow> u32 \<Rightarrow> sem_state \<Rightarrow> sem_state" where
  "add_waiter b d st =
     (if sem_op b = 0
      then st\<lparr>wait_zero := (wait_zero st)[sem_num b := wait_zero st ! sem_num b + d]\<rparr>
      else st\<lparr>wait_negative := (wait_negative st)[sem_num b := wait_negative st ! sem_num b + d]\<rparr>)"

definition locked_attempt :: "int \<Rightarrow> sembuf list \<Rightarrow> sem_state \<Rightarrow> sem_state \<times> sem_outcome" where
  "locked_attempt pid ops st =
     (if removed st then (st, Failure EIDRM)
      else case try_ops (nsems st) 0 ops (sem_values st) of
        Done vs \<Rightarrow> (wake_waiters (st\<lparr>sem_values := vs, last_pid := stamp_pids pid ops (last_pid st)\<rparr>),
                    Success)
      | Fails e \<Rightarrow> (st, Failure e)
      | Undefined \<Rightarrow> (st, Undef)
      | Blocked i \<Rightarrow>
          if ipc_nowait (ops ! i) then (st, Failure EAGAIN)
          else (add_waiter (ops ! i) 1 st, Wait i (sequence st)))"

section \<open>semctl\<close>

datatype sem_cmd =
    GETVAL | GETPID | GETNCNT | GETZCNT | SETVAL int | GETALL bool | SETALL "u16 list option"
  | IPC_STAT bool | IPC_SET | IPC_RMID | OtherCmd

datatype ctl_result = Value int | Array "u16 list" | Stat nat | OutOfBounds

text \<open>
  The argument of \<open>GETALL\<close> and \<open>IPC_STAT\<close> says whether the caller's buffer is not NULL; that of
  \<open>SETALL\<close> is the caller's array. \<open>semctl_locked\<close> is the critical section: it does not look
  at \<open>removed\<close> again, which \<open>open_id\<close> tested before the lock was taken.
\<close>

definition about_whole_set :: "sem_cmd \<Rightarrow> bool" where
  "about_whole_set cmd = (case cmd of IPC_RMID \<Rightarrow> True | IPC_STAT b \<Rightarrow> True | IPC_SET \<Rightarrow> True | _ \<Rightarrow> False)"

definition semctl_locked :: "int \<Rightarrow> int \<Rightarrow> sem_cmd \<Rightarrow> sem_state \<Rightarrow> sem_state \<times> (errno + ctl_result)" where
  "semctl_locked pid num cmd st =
     (let semnum = nat num in
      if \<not> about_whole_set cmd \<and> (num < 0 \<or> semnum \<ge> nsems st) then (st, Inl EINVAL)
      else case cmd of
        GETVAL \<Rightarrow> (st, Inr (Value (sem_values st ! semnum)))
      | GETPID \<Rightarrow> (st, Inr (Value (last_pid st ! semnum)))
      | GETNCNT \<Rightarrow> (st, Inr (Value (sint (wait_negative st ! semnum))))
      | GETZCNT \<Rightarrow> (st, Inr (Value (sint (wait_zero st ! semnum))))
      | SETVAL v \<Rightarrow>
          if v < 0 \<or> v > 32767 then (st, Inl ERANGE)
          else (wake_waiters (st\<lparr>sem_values := (sem_values st)[semnum := v],
                  last_pid := (last_pid st)[semnum := pid]\<rparr>), Inr (Value 0))
      | GETALL given \<Rightarrow>
          if \<not> given then (st, Inl EFAULT)
          else (st, Inr (Array (map (\<lambda>i. word_of_int (sem_values st ! i)) [0..<nsems st])))
      | SETALL arr \<Rightarrow>
          (case arr of None \<Rightarrow> (st, Inl EFAULT)
           | Some xs \<Rightarrow>
               if length xs < nsems st then (st, Inr OutOfBounds)
               else if \<exists>i \<in> set [0..<nsems st]. unat (xs ! i) > 32767 then (st, Inl ERANGE)
               else (wake_waiters (st\<lparr>
                   sem_values := map (\<lambda>x. uint x) (take (nsems st) xs) @ drop (nsems st) (sem_values st),
                   last_pid := replicate (nsems st) pid @ drop (nsems st) (last_pid st)\<rparr>),
                   Inr (Value 0)))
      | IPC_STAT given \<Rightarrow> if \<not> given then (st, Inl EFAULT) else (st, Inr (Stat (nsems st)))
      | IPC_SET \<Rightarrow> (st, Inr (Value 0))
      | IPC_RMID \<Rightarrow> (wake_waiters (st\<lparr>removed := True\<rparr>), Inr (Value 0))
      | OtherCmd \<Rightarrow> (st, Inl EINVAL))"

definition semctl :: "int \<Rightarrow> int \<Rightarrow> sem_cmd \<Rightarrow> sem_state \<Rightarrow> sem_state \<times> (errno + ctl_result)" where
  "semctl pid num cmd st =
     (if removed st then (st, Inl EINVAL) else semctl_locked pid num cmd st)"

section \<open>Well-formed sets\<close>

definition sem_wf :: "sem_state \<Rightarrow> bool" where
  "sem_wf st \<longleftrightarrow> nsems st \<le> BX_SEM_MAX \<and>
     length (sem_values st) = BX_SEM_MAX \<and> length (last_pid st) = BX_SEM_MAX \<and>
     length (wait_negative st) = BX_SEM_MAX \<and> length (wait_zero st) = BX_SEM_MAX \<and>
     (\<forall>v \<in> set (sem_values st). 0 \<le> v \<and> in_int v)"

lemma sem_wf_fresh [inv_intros]: "n \<le> BX_SEM_MAX \<Longrightarrow> sem_wf (fresh_state ident key n)"
  by (simp add: sem_wf_def fresh_state_def in_int_def)

lemma length_stamp_pids [simp]: "length (stamp_pids pid ops ps) = length ps"
  unfolding stamp_pids_def by (induction ops arbitrary: ps) auto

text \<open>The sum of the operations on one semaphore of the set.\<close>

definition net_effect :: "nat \<Rightarrow> sembuf list \<Rightarrow> int" where
  "net_effect k ops = sum_list (map sem_op (filter (\<lambda>b. sem_num b = k) ops))"

lemma net_effect_simps [simp]:
  "net_effect k [] = 0"
  "net_effect k (b # bs) = (if sem_num b = k then sem_op b else 0) + net_effect k bs"
  by (simp_all add: net_effect_def)

lemma try_ops_Done:
  assumes "try_ops n i ops vs = Done ws" "n \<le> length vs" "\<forall>v \<in> set vs. 0 \<le> v \<and> in_int v"
  shows "length ws = length vs \<and> (\<forall>v \<in> set ws. 0 \<le> v \<and> in_int v) \<and>
     (\<forall>k < length vs. ws ! k = vs ! k + net_effect k ops) \<and> (\<forall>b \<in> set ops. sem_num b < n)"
  using assms
proof (induction n i ops vs rule: try_ops.induct)
  case (1 n i vs)
  then show ?case by simp
next
  case (2 n i b bs vs)
  let ?v = "vs ! sem_num b + sem_op b"
  let ?vs = "vs[sem_num b := ?v]"
  from "2.prems"(1) have g: "sem_num b < n" "\<not> sem_undo b"
    "\<not> (sem_op b < 0 \<and> vs ! sem_num b < - sem_op b)" "in_int ?v"
    and r: "try_ops n (Suc i) bs ?vs = Done ws"
    by (auto simp: Let_def not_le split: if_splits)
  have "0 \<le> vs ! sem_num b" using "2.prems"(2,3) g(1) by auto
  then have "0 \<le> ?v" using g(3) by linarith
  then have ok: "\<forall>v \<in> set ?vs. 0 \<le> v \<and> in_int v"
    using "2.prems"(3) g(4) set_update_subset_insert [of vs "sem_num b" ?v] by auto
  have "length ws = length ?vs \<and> (\<forall>v \<in> set ws. 0 \<le> v \<and> in_int v) \<and>
     (\<forall>k < length ?vs. ws ! k = ?vs ! k + net_effect k bs) \<and> (\<forall>b \<in> set bs. sem_num b < n)"
    using "2.IH" [OF _ _ _ _ refl _ r] g "2.prems"(1,2) ok by (auto simp: Let_def split: if_splits)
  then show ?case using g(1) "2.prems"(2) by (auto simp: nth_list_update)
qed

lemma try_ops_Blocked:
  "try_ops n i ops vs = Blocked j \<Longrightarrow> i \<le> j \<and> j < i + length ops \<and> sem_num (ops ! (j - i)) < n"
proof (induction n i ops vs rule: try_ops.induct)
  case (2 n i b bs vs)
  show ?case
  proof (cases "i = j")
    case True
    with 2 show ?thesis by (auto simp: Let_def split: if_splits)
  next
    case False
    with 2 show ?thesis by (auto simp: Let_def nth_Cons' split: if_splits)
  qed
qed simp

lemma locked_attempt_wf [inv_intros]:
  assumes "sem_wf st"
  shows "sem_wf (fst (locked_attempt pid ops st))"
proof (cases "try_ops (nsems st) 0 ops (sem_values st)")
  case (Done vs)
  then show ?thesis
    using assms try_ops_Done [OF Done]
    by (auto simp: locked_attempt_def sem_wf_def wake_waiters_def)
qed (use assms in \<open>auto simp: locked_attempt_def sem_wf_def add_waiter_def\<close>)

lemma semctl_locked_wf [inv_intros]:
  assumes "sem_wf st"
  shows "sem_wf (fst (semctl_locked pid semnum cmd st))"
proof (cases cmd)
  case (SETVAL v)
  with assms show ?thesis
    by (auto simp: semctl_locked_def Let_def sem_wf_def wake_waiters_def in_int_def
        dest!: subsetD [OF set_update_subset_insert])
next
  case (SETALL arr)
  have "in_int (uint x)" if "x \<in> set xs" for x :: u16 and xs
  proof -
    have "0 \<le> uint x" "uint x < 65536" using uint_lt2p [of x] by simp_all
    then show ?thesis unfolding in_int_def by linarith
  qed
  with SETALL assms show ?thesis
    by (auto simp: semctl_locked_def Let_def sem_wf_def wake_waiters_def split: option.split
        dest!: in_set_takeD in_set_dropD)
qed (use assms in \<open>auto simp: semctl_locked_def Let_def sem_wf_def wake_waiters_def\<close>)

lemma semctl_wf [inv_intros]: "sem_wf st \<Longrightarrow> sem_wf (fst (semctl pid semnum cmd st))"
  by (simp add: semctl_def semctl_locked_wf)

text \<open>
C3: \<open>semop\<close> is all or nothing. When it succeeds, every semaphore has changed by exactly the
  sum of the operations on it, none is negative, and the set was not removed; in every other
  outcome (would block, \<open>EAGAIN\<close>, \<open>EFBIG\<close>, \<open>ENOTSUP\<close>, \<open>EIDRM\<close>) no semaphore value
  and no recorded pid changed.
\<close>
theorem semop_atomic:
  assumes "sem_wf st" "locked_attempt pid ops st = (st', r)"
  shows "(r = Success \<longrightarrow> \<not> removed st \<and>
            (\<forall>k < BX_SEM_MAX. sem_values st' ! k = sem_values st ! k + net_effect k ops \<and>
               0 \<le> sem_values st' ! k) \<and>
            sequence st' = sequence st + 1)
       \<and> (r \<noteq> Success \<longrightarrow> sem_values st' = sem_values st \<and> last_pid st' = last_pid st \<and>
            sequence st' = sequence st)"
proof (cases "try_ops (nsems st) 0 ops (sem_values st)")
  case (Done vs)
  then show ?thesis
    using assms try_ops_Done [OF Done]
    by (auto simp: locked_attempt_def sem_wf_def wake_waiters_def split: if_splits)
qed (use assms in \<open>auto simp: locked_attempt_def add_waiter_def split: if_splits\<close>)

definition demo_sem :: sem_state where
  "demo_sem = (fresh_state 7 1 2)\<lparr>sem_values := [1, 0] @ replicate 62 0\<rparr>"

definition take_and_give :: "sembuf list" where
  "take_and_give = [\<lparr>sem_num = 0, sem_op = -1, sem_undo = False, ipc_nowait = False\<rparr>,
     \<lparr>sem_num = 1, sem_op = 2, sem_undo = False, ipc_nowait = False\<rparr>]"

lemma demo_sem_wf: "sem_wf demo_sem"
  by code_simp

theorem semop_atomic_witness:
  "sem_values (fst (locked_attempt 5 take_and_give demo_sem)) ! 1 = 2"
proof -
  obtain st' r where e: "locked_attempt 5 take_and_give demo_sem = (st', r)" by fastforce
  have "snd (locked_attempt 5 take_and_give demo_sem) = Success" by code_simp
  with e semop_atomic [OF demo_sem_wf e]
  have "sem_values st' ! 1 = sem_values demo_sem ! 1 + net_effect 1 take_and_give"
    by (simp add: BX_SEM_MAX_def)
  also have "sem_values demo_sem ! 1 + net_effect 1 take_and_give = 2" by code_simp
  finally show ?thesis by (simp add: e)
qed

text \<open>
A set written by \<open>SETALL\<close> is read back unchanged by \<open>GETALL\<close>, every value it
  stores is at most 32767, and one value above that bound refuses the whole write.
\<close>
theorem setall_getall:
  assumes "sem_wf st" "\<not> removed st" "0 \<le> semnum" "nat semnum < nsems st" "length xs = nsems st"
  shows "if \<forall>x \<in> set xs. unat x \<le> 32767
         then snd (semctl pid semnum (GETALL True) (fst (semctl pid semnum (SETALL (Some xs)) st)))
                = Inr (Array xs)
         else semctl pid semnum (SETALL (Some xs)) st = (st, Inl ERANGE)"
proof -
  have bad: "(\<exists>i \<in> set [0..<nsems st]. unat (xs ! i) > 32767) \<longleftrightarrow> \<not> (\<forall>x \<in> set xs. unat x \<le> 32767)"
  proof -
    have s: "set xs = (!) xs ` set [0..<nsems st]"
      using assms(5) by (metis map_nth set_map)
    show ?thesis unfolding s by (simp add: not_le)
  qed
  have "map (\<lambda>i. word_of_int ((map uint xs @ zs) ! i)) [0..<nsems st] = xs" for zs :: "int list"
    using assms(5) by (intro nth_equalityI) (auto simp: nth_append)
  then show ?thesis
    using assms bad
    by (auto simp: semctl_def semctl_locked_def Let_def about_whole_set_def wake_waiters_def)
qed

theorem setall_getall_witness:
  "snd (semctl 9 0 (GETALL True) (fst (semctl 9 0 (SETALL (Some [3, 4])) demo_sem))) = Inr (Array [3, 4])"
proof -
  have "\<not> removed demo_sem" "0 \<le> (0 :: int)" "nat 0 < nsems demo_sem"
    "length [3, 4 :: u16] = nsems demo_sem"
    by code_simp+
  from setall_getall [OF demo_sem_wf this] show ?thesis by simp
qed

section \<open>Processes around one set\<close>

text \<open>
  Where a process is in \<open>apply_operations\<close>: about to take the lock; unlocked but not yet in
  the futex; asleep; out of the futex and about to deregister; back in the caller. The last
  component of \<open>Prepared\<close> and \<open>Sleeping\<close> and the counter \<open>wakes\<close> are ghosts: they count
  the wake-ups so far, of which \<open>sequence\<close> keeps the low 32 bits.
\<close>

datatype futex_result = WokenUp | ValueChanged | Interrupted | TimedOut | Refused errno

datatype pc =
    Idle
  | Ready "sembuf list"
  | Prepared "sembuf list" nat u32 nat
  | Sleeping "sembuf list" nat u32 nat
  | Leaving "sembuf list" nat futex_result
  | Returned "errno + unit"

record sem_sys =
  shared :: sem_state
  procs :: "pc list"
  wakes :: nat

fun woken :: "pc \<Rightarrow> pc" where
  "woken (Sleeping ops i e w) = Leaving ops i WokenUp"
| "woken p = p"

text \<open>After the futex: deregister, then loop or leave with the error.\<close>

fun after_futex :: "sembuf list \<Rightarrow> futex_result \<Rightarrow> pc" where
  "after_futex ops WokenUp = Ready ops"
| "after_futex ops ValueChanged = Ready ops"
| "after_futex ops Interrupted = Returned (Inl EINTR)"
| "after_futex ops TimedOut = Returned (Inl EAGAIN)"
| "after_futex ops (Refused e) = Returned (Inl e)"

inductive sem_step :: "sem_sys \<Rightarrow> sem_sys \<Rightarrow> bool" where
  call: "p < length (procs s) \<Longrightarrow> procs s ! p = Idle \<Longrightarrow> ops \<noteq> [] \<Longrightarrow> \<not> removed (shared s) \<Longrightarrow>
    sem_step s (s\<lparr>procs := (procs s)[p := Ready ops]\<rparr>)"
| call_invalid: "p < length (procs s) \<Longrightarrow> procs s ! p = Idle \<Longrightarrow>
    (ops :: sembuf list) = [] \<or> removed (shared s) \<Longrightarrow>
    sem_step s (s\<lparr>procs := (procs s)[p := Returned (Inl EINVAL)]\<rparr>)"
| attempt_success: "p < length (procs s) \<Longrightarrow> procs s ! p = Ready ops \<Longrightarrow>
    locked_attempt (int p) ops (shared s) = (st, Success) \<Longrightarrow>
    sem_step s \<lparr>shared = st, procs = map woken ((procs s)[p := Returned (Inr ())]),
                wakes = Suc (wakes s)\<rparr>"
| attempt_failure: "p < length (procs s) \<Longrightarrow> procs s ! p = Ready ops \<Longrightarrow>
    locked_attempt (int p) ops (shared s) = (st, Failure e) \<Longrightarrow>
    sem_step s \<lparr>shared = st, procs = (procs s)[p := Returned (Inl e)], wakes = wakes s\<rparr>"
| attempt_wait: "p < length (procs s) \<Longrightarrow> procs s ! p = Ready ops \<Longrightarrow>
    locked_attempt (int p) ops (shared s) = (st, Wait i e) \<Longrightarrow>
    sem_step s \<lparr>shared = st, procs = (procs s)[p := Prepared ops i e (wakes s)], wakes = wakes s\<rparr>"
| futex_sleep: "p < length (procs s) \<Longrightarrow> procs s ! p = Prepared ops i e w \<Longrightarrow>
    sequence (shared s) = e \<Longrightarrow>
    sem_step s (s\<lparr>procs := (procs s)[p := Sleeping ops i e w]\<rparr>)"
| futex_changed: "p < length (procs s) \<Longrightarrow> procs s ! p = Prepared ops i e w \<Longrightarrow>
    sequence (shared s) \<noteq> e \<Longrightarrow>
    sem_step s (s\<lparr>procs := (procs s)[p := Leaving ops i ValueChanged]\<rparr>)"
| futex_return: "p < length (procs s) \<Longrightarrow> procs s ! p = Sleeping ops i e w \<Longrightarrow>
    r = Interrupted \<or> r = TimedOut \<Longrightarrow>
    sem_step s (s\<lparr>procs := (procs s)[p := Leaving ops i r]\<rparr>)"
| futex_refused: "p < length (procs s) \<Longrightarrow> procs s ! p = Prepared ops i e w \<Longrightarrow>
    sem_step s (s\<lparr>procs := (procs s)[p := Leaving ops i (Refused err)]\<rparr>)"
| deregister: "p < length (procs s) \<Longrightarrow> procs s ! p = Leaving ops i r \<Longrightarrow>
    sem_step s \<lparr>shared = add_waiter (ops ! i) (-1) (shared s),
                procs = (procs s)[p := after_futex ops r], wakes = wakes s\<rparr>"
| control: "semctl_locked pid n cmd (shared s) = (st, r) \<Longrightarrow>
    sem_step s (if sequence st = sequence (shared s) then s
      else \<lparr>shared = st, procs = map woken (procs s), wakes = Suc (wakes s)\<rparr>)"
| finish: "p < length (procs s) \<Longrightarrow> procs s ! p = Returned r \<Longrightarrow>
    sem_step s (s\<lparr>procs := (procs s)[p := Idle]\<rparr>)"

inductive sem_reachable :: "nat \<Rightarrow> nat \<Rightarrow> sem_sys \<Rightarrow> bool" for n m where
  start: "sem_reachable n m \<lparr>shared = fresh_state ident key n, procs = replicate m Idle, wakes = 0\<rparr>"
| step: "sem_reachable n m s \<Longrightarrow> sem_step s t \<Longrightarrow> sem_reachable n m t"

section \<open>Waiter accounting\<close>

text \<open>The waiter counted in cell \<open>k\<close> of \<open>wait_negative\<close> or \<open>wait_zero\<close>.\<close>

fun registered :: "pc \<Rightarrow> sembuf option" where
  "registered (Prepared ops i e w) = Some (ops ! i)"
| "registered (Sleeping ops i e w) = Some (ops ! i)"
| "registered (Leaving ops i r) = Some (ops ! i)"
| "registered _ = None"

definition waits_on :: "bool \<Rightarrow> nat \<Rightarrow> pc \<Rightarrow> u32" where
  "waits_on zero k p = (case registered p of
      None \<Rightarrow> 0 | Some b \<Rightarrow> if sem_num b = k \<and> (sem_op b = 0) = zero then 1 else 0)"

definition waiters :: "bool \<Rightarrow> nat \<Rightarrow> pc list \<Rightarrow> u32" where
  "waiters zero k ps = sum_list (map (waits_on zero k) ps)"

lemma waits_on_simps [simp]:
  "waits_on z k Idle = 0" "waits_on z k (Ready ops) = 0" "waits_on z k (Returned r) = 0"
  "waits_on z k (after_futex ops fr) = 0"
  "waits_on z k (Sleeping ops i e w) = waits_on z k (Prepared ops i e w)"
  "waits_on z k (Leaving ops i fr) = waits_on z k (Prepared ops i e w)"
  by (cases fr; simp add: waits_on_def)+

lemma waits_on_woken [simp]: "waits_on z k (woken p) = waits_on z k p"
  by (cases p) (simp_all add: waits_on_def)

lemma waiters_woken [simp]: "waiters z k (map woken ps) = waiters z k ps"
  by (simp add: waiters_def o_def)

lemma sum_list_update_group:
  fixes f :: "'a \<Rightarrow> 'b::ab_group_add"
  shows "i < length xs \<Longrightarrow> sum_list (map f (xs[i := y])) = sum_list (map f xs) + (f y - f (xs ! i))"
  by (induction xs arbitrary: i) (auto split: nat.split simp: algebra_simps)

lemma waiters_update:
  "p < length ps \<Longrightarrow>
   waiters z k (ps[p := q]) = waiters z k ps + (waits_on z k q - waits_on z k (ps ! p))"
  unfolding waiters_def by (rule sum_list_update_group)

text \<open>The blocked operation of a registered process names a semaphore of the set.\<close>

definition pc_ok :: "nat \<Rightarrow> pc \<Rightarrow> bool" where
  "pc_ok n p \<longleftrightarrow> (case registered p of None \<Rightarrow> True | Some b \<Rightarrow> sem_num b < n)"

definition counters_ok :: "sem_sys \<Rightarrow> bool" where
  "counters_ok s \<longleftrightarrow>
     (\<forall>k < BX_SEM_MAX. wait_negative (shared s) ! k = waiters False k (procs s) \<and>
                       wait_zero (shared s) ! k = waiters True k (procs s))"

lemma add_waiter_fields [simp]:
  "sequence (add_waiter b d st) = sequence st" "sem_values (add_waiter b d st) = sem_values st"
  "nsems (add_waiter b d st) = nsems st" "removed (add_waiter b d st) = removed st"
  "last_pid (add_waiter b d st) = last_pid st"
  by (simp_all add: add_waiter_def)

lemma add_waiter_wf [inv_intros]: "sem_wf st \<Longrightarrow> sem_wf (add_waiter b d st)"
  by (auto simp: sem_wf_def add_waiter_def)

lemma add_waiter_cells:
  "sem_wf st \<Longrightarrow> k < BX_SEM_MAX \<Longrightarrow> sem_num b < BX_SEM_MAX \<Longrightarrow>
   wait_negative (add_waiter b d st) ! k =
     wait_negative st ! k + (if sem_num b = k \<and> (sem_op b = 0) = False then d else 0) \<and>
   wait_zero (add_waiter b d st) ! k =
     wait_zero st ! k + (if sem_num b = k \<and> (sem_op b = 0) = True then d else 0)"
  by (auto simp: add_waiter_def sem_wf_def nth_list_update)

text \<open>What one critical section does to the shared state, by outcome.\<close>

lemma locked_attempt_Success:
  "locked_attempt pid ops st = (st', Success) \<Longrightarrow>
   \<not> removed st \<and> sequence st' = sequence st + 1 \<and> nsems st' = nsems st \<and> removed st' = removed st \<and>
   wait_negative st' = wait_negative st \<and> wait_zero st' = wait_zero st"
  by (auto simp: locked_attempt_def wake_waiters_def split: if_splits attempt.splits)

lemma locked_attempt_Failure: "locked_attempt pid ops st = (st', Failure e) \<Longrightarrow> st' = st"
  by (auto simp: locked_attempt_def split: if_splits attempt.splits)

lemma locked_attempt_Wait:
  "locked_attempt pid ops st = (st', Wait i e) \<Longrightarrow>
   \<not> removed st \<and> try_ops (nsems st) 0 ops (sem_values st) = Blocked i \<and>
   st' = add_waiter (ops ! i) 1 st \<and> e = sequence st \<and> i < length ops \<and> sem_num (ops ! i) < nsems st"
  by (auto simp: locked_attempt_def split: if_splits attempt.splits dest: try_ops_Blocked)

lemma semctl_locked_frame:
  "semctl_locked pid n cmd st = (st', r) \<Longrightarrow>
   nsems st' = nsems st \<and> wait_negative st' = wait_negative st \<and> wait_zero st' = wait_zero st \<and>
   (st' = st \<or> sequence st' = sequence st + 1)"
  by (auto simp: semctl_locked_def wake_waiters_def Let_def split: if_splits sem_cmd.splits option.splits)

lemma semctl_frame:
  "semctl pid n cmd st = (st', r) \<Longrightarrow>
   nsems st' = nsems st \<and> wait_negative st' = wait_negative st \<and> wait_zero st' = wait_zero st \<and>
   (st' = st \<or> sequence st' = sequence st + 1)"
  by (auto simp: semctl_def split: if_splits dest: semctl_locked_frame)

section \<open>Invariants of the reachable states\<close>

definition sys_inv :: "nat \<Rightarrow> nat \<Rightarrow> sem_sys \<Rightarrow> bool" where
  "sys_inv n m s \<longleftrightarrow> sem_wf (shared s) \<and> nsems (shared s) = n \<and> length (procs s) = m \<and>
     (\<forall>p \<in> set (procs s). pc_ok n p) \<and> counters_ok s \<and>
     sequence (shared s) = of_nat (Suc (wakes s))"

lemma pc_ok_simps [simp]:
  "pc_ok n Idle" "pc_ok n (Ready ops)" "pc_ok n (Returned r)" "pc_ok n (after_futex ops fr)"
  "pc_ok n (Prepared ops i e w) \<longleftrightarrow> sem_num (ops ! i) < n"
  "pc_ok n (Sleeping ops i e w) \<longleftrightarrow> sem_num (ops ! i) < n"
  "pc_ok n (Leaving ops i fr) \<longleftrightarrow> sem_num (ops ! i) < n"
  by (cases fr; simp add: pc_ok_def)+

lemma pc_ok_woken [simp]: "pc_ok n (woken p) = pc_ok n p"
  by (cases p) simp_all

lemma ball_set_update:
  "\<forall>x \<in> set xs. P x \<Longrightarrow> P y \<Longrightarrow> \<forall>x \<in> set (xs[i := y]). P x"
  by (auto dest!: subsetD [OF set_update_subset_insert])

text \<open>
  Steps that neither touch the shared state nor change what process \<open>p\<close> is registered for.
\<close>

lemma sys_inv_local:
  assumes "sys_inv n m s" "p < length (procs s)" "pc_ok n q"
    "\<And>z k. waits_on z k q = waits_on z k (procs s ! p)"
  shows "sys_inv n m (s\<lparr>procs := (procs s)[p := q]\<rparr>)"
  using assms by (auto simp: sys_inv_def counters_ok_def waiters_update
      intro: ball_set_update [THEN bspec])

text \<open>Steps that add to or subtract from one waiter cell with the registration of \<open>p\<close>.\<close>

lemma waits_on_registered:
  "registered q = Some b \<Longrightarrow>
   waits_on z k q = (if sem_num b = k \<and> (sem_op b = 0) = z then 1 else 0)"
  by (simp add: waits_on_def)

lemma sys_inv_waiter:
  assumes "sys_inv n m s" "p < length (procs s)" "pc_ok n q" "sem_num b < n"
    "\<And>z k. waits_on z k q - waits_on z k (procs s ! p) =
       (if sem_num b = k \<and> (sem_op b = 0) = z then d else 0)"
  shows "sys_inv n m \<lparr>shared = add_waiter b d (shared s), procs = (procs s)[p := q], wakes = wakes s\<rparr>"
proof -
  have wf: "sem_wf (shared s)" and n: "sem_num b < BX_SEM_MAX"
    using assms(1,4) by (auto simp: sys_inv_def sem_wf_def)
  have "counters_ok \<lparr>shared = add_waiter b d (shared s), procs = (procs s)[p := q], wakes = wakes s\<rparr>"
    using assms(1) add_waiter_cells [OF wf _ n, of _ d]
    by (simp add: counters_ok_def sys_inv_def waiters_update [OF assms(2)] assms(5))
  then show ?thesis
    using assms(1,3) add_waiter_wf [OF wf]
    by (auto simp: sys_inv_def intro: ball_set_update [THEN bspec])
qed

text \<open>Critical sections that end by waking everybody.\<close>

lemma sys_inv_wake:
  assumes "sys_inv n m s" "sem_wf st" "nsems st = nsems (shared s)"
    "wait_negative st = wait_negative (shared s)" "wait_zero st = wait_zero (shared s)"
    "sequence st = sequence (shared s) + 1"
    "length ps = length (procs s)" "\<forall>q \<in> set ps. pc_ok n q" "\<And>z k. waiters z k ps = waiters z k (procs s)"
  shows "sys_inv n m \<lparr>shared = st, procs = map woken ps, wakes = Suc (wakes s)\<rparr>"
  using assms by (auto simp: sys_inv_def counters_ok_def add.commute)

lemma sys_inv_pc: "sys_inv n m s \<Longrightarrow> p < length (procs s) \<Longrightarrow> pc_ok n (procs s ! p)"
  by (simp add: sys_inv_def)

lemma sem_step_inv:
  assumes "sem_step s t" "sys_inv n m s"
  shows "sys_inv n m t"
  using assms
proof (induction rule: sem_step.induct)
  case (attempt_success p s ops st)
  note l = locked_attempt_Success [OF attempt_success.hyps(3)]
  show ?case
    by (rule sys_inv_wake)
      (use attempt_success l locked_attempt_wf [of "shared s" "int p" ops] in
        \<open>auto simp: sys_inv_def waiters_update dest!: subsetD [OF set_update_subset_insert]\<close>)
next
  case (attempt_failure p s ops st e)
  then show ?case
    using sys_inv_local [OF attempt_failure.prems attempt_failure.hyps(1), of "Returned (Inl e)"]
    by (cases s) (auto dest: locked_attempt_Failure)
next
  case (attempt_wait p s ops st i e)
  note l = locked_attempt_Wait [OF attempt_wait.hyps(3)]
  have n: "sem_num (ops ! i) < n" using l attempt_wait.prems by (simp add: sys_inv_def)
  have "sys_inv n m \<lparr>shared = add_waiter (ops ! i) 1 (shared s),
      procs = (procs s)[p := Prepared ops i e (wakes s)], wakes = wakes s\<rparr>"
    by (rule sys_inv_waiter [OF attempt_wait.prems attempt_wait.hyps(1) _ n])
      (simp_all add: n attempt_wait.hyps(2) waits_on_registered)
  then show ?case using l by simp
next
  case (deregister p s ops i r)
  have n: "sem_num (ops ! i) < n"
    using deregister nth_mem [OF deregister.hyps(1)] by (auto simp: sys_inv_def)
  show ?case
    by (rule sys_inv_waiter [OF deregister.prems deregister.hyps(1) _ n])
      (simp_all add: deregister.hyps(2) waits_on_registered)
next
  case (control pid k cmd s st r)
  note f = semctl_locked_frame [OF control.hyps]
  have "sem_wf st"
    using semctl_locked_wf [of "shared s" pid k cmd] control by (simp add: sys_inv_def)
  moreover have "\<forall>q \<in> set (procs s). pc_ok n q" using control.prems by (simp add: sys_inv_def)
  ultimately have "sequence st = sequence (shared s) + 1 \<longrightarrow>
      sys_inv n m \<lparr>shared = st, procs = map woken (procs s), wakes = Suc (wakes s)\<rparr>"
    using sys_inv_wake [OF control.prems, of st "procs s"] f by blast
  then show ?case using f control.prems by auto
next
  case (futex_sleep p s ops i e w)
  then show ?case
    using sys_inv_pc [OF futex_sleep.prems futex_sleep.hyps(1)]
    by (intro sys_inv_local) (auto simp: waits_on_def)
next
  case (futex_changed p s ops i e w)
  then show ?case
    using sys_inv_pc [OF futex_changed.prems futex_changed.hyps(1)]
    by (intro sys_inv_local) (auto simp: waits_on_def)
next
  case (futex_refused p s ops i e w err)
  then show ?case
    using sys_inv_pc [OF futex_refused.prems futex_refused.hyps(1)]
    by (intro sys_inv_local) (auto simp: waits_on_def)
next
  case (futex_return p s ops i e w r)
  then show ?case
    using sys_inv_pc [OF futex_return.prems futex_return.hyps(1)]
    by (intro sys_inv_local) (auto simp: waits_on_def)
qed (auto intro!: sys_inv_local)


lemma sem_reachable_inv:
  assumes "sem_reachable n m s" "n \<le> BX_SEM_MAX"
  shows "sys_inv n m s"
  using assms
proof (induction rule: sem_reachable.induct)
  case (start ident key)
  then show ?case
    by (auto simp: sys_inv_def counters_ok_def waiters_def fresh_state_def sem_wf_fresh [unfolded fresh_state_def]
        map_replicate_const sum_list_replicate)
qed (blast intro: sem_step_inv)

lemma waits_on_bool:
  "waits_on z k p = of_bool (\<exists>b. registered p = Some b \<and> sem_num b = k \<and> (sem_op b = 0) = z)"
  by (auto simp: waits_on_def split: option.splits)

lemma waiters_count:
  "waiters z k ps = of_nat (length (filter (\<lambda>p. waits_on z k p = 1) ps))"
  unfolding waiters_def by (induction ps) (auto simp: waits_on_bool)

lemma sint_of_small: "k < 2 ^ 31 \<Longrightarrow> sint (of_nat k :: u32) = int k"
  by (simp add: sint_uint unsigned_of_nat take_bit_nat_eq_self signed_take_bit_eq_take_bit_shift
      take_bit_int_eq_self)

text \<open>
C32: In every state reachable by any interleaving of calls, futex results and control operations,
  \<open>GETNCNT\<close> and \<open>GETZCNT\<close> report exactly the number of processes that are currently blocked
  on that semaphore (those between registering and deregistering), waiting for an increase or
  for zero respectively.
\<close>
theorem waiter_counts_exact:
  assumes "sem_reachable n m s" "n \<le> BX_SEM_MAX" "m < 2 ^ 31" "\<not> removed (shared s)" "k < n"
  shows "semctl pid (int k) GETNCNT (shared s) =
           (shared s, Inr (Value (int (length (filter (\<lambda>p. waits_on False k p = 1) (procs s))))))
       \<and> semctl pid (int k) GETZCNT (shared s) =
           (shared s, Inr (Value (int (length (filter (\<lambda>p. waits_on True k p = 1) (procs s))))))"
proof -
  have inv: "sys_inv n m s" by (rule sem_reachable_inv [OF assms(1,2)])
  have small: "length (filter P (procs s)) < 2 ^ 31" for P
    by (rule le_less_trans [OF length_filter_le]) (use inv assms(3) in \<open>simp add: sys_inv_def\<close>)
  show ?thesis
    using inv assms sint_of_small [OF small]
    by (simp add: semctl_def semctl_locked_def Let_def about_whole_set_def sys_inv_def
        counters_ok_def waiters_count)
qed

section \<open>No wake-up is lost\<close>

text \<open>
  The operations of the process still block in the present state, with the same element.
\<close>

definition blocks :: "sem_state \<Rightarrow> sembuf list \<Rightarrow> nat \<Rightarrow> bool" where
  "blocks st ops i \<longleftrightarrow> \<not> removed st \<and> try_ops (nsems st) 0 ops (sem_values st) = Blocked i"

fun parked :: "sem_state \<Rightarrow> nat \<Rightarrow> pc \<Rightarrow> bool" where
  "parked st k (Prepared ops i e w) \<longleftrightarrow> e = of_nat (Suc w) \<and> w \<le> k \<and> (w = k \<longrightarrow> blocks st ops i)"
| "parked st k (Sleeping ops i e w) \<longleftrightarrow> blocks st ops i"
| "parked st k _ \<longleftrightarrow> True"

lemma blocks_add_waiter [simp]: "blocks (add_waiter b d st) ops i = blocks st ops i"
  by (simp add: blocks_def)

lemma parked_add_waiter [simp]: "parked (add_waiter b d st) k p = parked st k p"
  by (cases p) simp_all

lemma parked_after_futex [simp]: "parked st k (after_futex ops r)"
  by (cases r) simp_all

text \<open>After a wake-up nobody sleeps, and whoever is about to sleep holds a stale number.\<close>

lemma parked_wake: "parked st k p \<Longrightarrow> parked st' (Suc k) (woken p)"
  by (cases p) auto

lemma of_nat_word_inj:
  "(of_nat a :: u32) = of_nat b \<Longrightarrow> a \<le> b \<Longrightarrow> b < 2 ^ 32 + a \<Longrightarrow> a = b"
proof -
  assume e: "(of_nat a :: u32) = of_nat b" and le: "a \<le> b" and lt: "b < 2 ^ 32 + a"
  have "(of_nat (b - a) :: u32) = 0" using e le by (simp add: of_nat_diff)
  then have "2 ^ 32 dvd b - a" by (simp add: word_of_nat_eq_0_iff)
  with lt le show "a = b" by (auto dest: dvd_imp_le)
qed

lemma sem_step_wakes: "sem_step s t \<Longrightarrow> wakes s \<le> wakes t"
  by (induction rule: sem_step.induct) auto


lemma all_parked_update:
  "\<forall>q \<in> set ps. parked st k q \<Longrightarrow> parked st' k p \<Longrightarrow> (\<And>q. parked st' k q = parked st k q) \<Longrightarrow>
   \<forall>q \<in> set (ps[i := p]). parked st' k q"
  by (auto dest!: subsetD [OF set_update_subset_insert])

lemma all_parked_wake:
  "\<forall>q \<in> set ps. parked st k q \<Longrightarrow> \<forall>q \<in> set (map woken ps). parked st' (Suc k) q"
  by (auto intro: parked_wake)

lemma sem_step_parked:
  assumes "sem_step s t" "sys_inv n m s" "\<forall>p \<in> set (procs s). parked (shared s) (wakes s) p"
    "wakes t < 2 ^ 32"
  shows "\<forall>p \<in> set (procs t). parked (shared t) (wakes t) p"
  using assms
proof (induction rule: sem_step.induct)
  case (attempt_success p s ops st)
  have "\<forall>q \<in> set ((procs s)[p := Returned (Inr ())]). parked (shared s) (wakes s) q"
    by (rule all_parked_update [OF attempt_success.prems(2)]) simp_all
  then show ?case by (auto intro: parked_wake)
next
  case (attempt_failure p s ops st e)
  then show ?case by (auto dest: locked_attempt_Failure dest!: subsetD [OF set_update_subset_insert])
next
  case (attempt_wait p s ops st i e)
  note l = locked_attempt_Wait [OF attempt_wait.hyps(3)]
  have "blocks (shared s) ops i" using l by (simp add: blocks_def)
  moreover have "e = of_nat (Suc (wakes s))" using l attempt_wait.prems(1) by (simp add: sys_inv_def)
  ultimately show ?case
    using l attempt_wait.prems(2) by (auto dest!: subsetD [OF set_update_subset_insert])
next
  case (futex_sleep p s ops i e w)
  have pk: "parked (shared s) (wakes s) (Prepared ops i e w)"
    using futex_sleep.prems(2) nth_mem [OF futex_sleep.hyps(1)] futex_sleep.hyps(2) by metis
  have "(of_nat (Suc w) :: u32) = of_nat (Suc (wakes s))"
    using pk futex_sleep.hyps(3) futex_sleep.prems(1) by (simp add: sys_inv_def)
  from of_nat_word_inj [OF this] have "w = wakes s"
    using pk futex_sleep.prems(3) by simp
  then show ?case
    using pk futex_sleep.prems(2) by (auto dest!: subsetD [OF set_update_subset_insert])
next
  case (deregister p s ops i r)
  then show ?case by (auto dest!: subsetD [OF set_update_subset_insert])
next
  case (control pid k cmd s st r)
  then show ?case by (auto intro: parked_wake)
qed (auto dest!: subsetD [OF set_update_subset_insert])

lemma sem_reachable_parked:
  assumes "sem_reachable n m s" "n \<le> BX_SEM_MAX" "wakes s < 2 ^ 32"
  shows "\<forall>p \<in> set (procs s). parked (shared s) (wakes s) p"
  using assms
proof (induction rule: sem_reachable.induct)
  case (step s t)
  have "wakes s < 2 ^ 32" using sem_step_wakes [OF step.hyps(2)] step.prems(2) by linarith
  then show ?case
    using step sem_step_parked [OF step.hyps(2) sem_reachable_inv] by blast
qed simp

text \<open>
C13: No wake-up is lost. In every reachable state, as long as fewer than \<open>2 ^ 32\<close> wake-ups have
  happened on the set, a process asleep in the futex is one whose operations still cannot proceed
  on the present values: whatever made them possible woke it. In particular nobody sleeps on a
  removed set, so \<open>IPC_RMID\<close> releases every waiter.
\<close>
theorem no_lost_wakeup:
  assumes "sem_reachable n m s" "n \<le> BX_SEM_MAX" "wakes s < 2 ^ 32"
    "p < length (procs s)" "procs s ! p = Sleeping ops i e w"
  shows "\<not> removed (shared s) \<and> try_ops n 0 ops (sem_values (shared s)) = Blocked i"
proof -
  have "parked (shared s) (wakes s) (Sleeping ops i e w)"
    using sem_reachable_parked [OF assms(1-3)] assms(4,5) by (metis nth_mem)
  then show ?thesis
    using sem_reachable_inv [OF assms(1,2)] by (simp add: blocks_def sys_inv_def)
qed

section \<open>A run with a waiter\<close>

definition take_one :: "sembuf list" where
  "take_one = [\<lparr>sem_num = 0, sem_op = -1, sem_undo = False, ipc_nowait = False\<rparr>]"

definition waiting_state :: sem_state where
  "waiting_state = add_waiter (take_one ! 0) 1 (fresh_state 7 1 2)"

definition waiting_sys :: sem_sys where
  "waiting_sys = \<lparr>shared = waiting_state, procs = [Sleeping take_one 0 1 0], wakes = 0\<rparr>"

lemma waiting_sys_reachable: "sem_reachable 2 1 waiting_sys"
proof -
  let ?s0 = "\<lparr>shared = fresh_state 7 1 2, procs = [Idle], wakes = 0\<rparr>"
  let ?s1 = "?s0\<lparr>procs := [Ready take_one]\<rparr>"
  let ?s2 = "\<lparr>shared = waiting_state, procs = [Prepared take_one 0 1 0], wakes = 0\<rparr>"
  have "sem_reachable 2 1 ?s0" using sem_reachable.start [of 2 1 7 1] by simp
  moreover have "sem_step ?s0 ?s1"
    using sem_step.call [of 0 ?s0 take_one] by (simp add: take_one_def fresh_state_def)
  moreover have "locked_attempt (int 0) take_one (fresh_state 7 1 2) = (waiting_state, Wait 0 1)"
    by code_simp
  then have "sem_step ?s1 ?s2"
    using sem_step.attempt_wait [of 0 ?s1 take_one waiting_state 0 1] by simp
  moreover have "sem_step ?s2 waiting_sys"
  proof -
    have "sequence waiting_state = 1" by code_simp
    then show ?thesis using sem_step.futex_sleep [of 0 ?s2 take_one 0 1 0]
      by (simp add: waiting_sys_def)
  qed
  ultimately show ?thesis by (blast intro: sem_reachable.step)
qed

theorem no_lost_wakeup_witness:
  "procs waiting_sys ! 0 = Sleeping take_one 0 1 0 \<and>
   try_ops 2 0 take_one (sem_values (shared waiting_sys)) = Blocked 0"
  using no_lost_wakeup [OF waiting_sys_reachable, of 0 take_one 0 1 0]
  by (simp add: BX_SEM_MAX_def waiting_sys_def)

theorem waiter_counts_exact_witness:
  "snd (semctl 5 0 GETNCNT (shared waiting_sys)) = Inr (Value 1)"
proof -
  have "\<not> removed (shared waiting_sys)" by code_simp
  then show ?thesis
    using waiter_counts_exact [OF waiting_sys_reachable, of 0 5]
    by (simp add: BX_SEM_MAX_def waiting_sys_def waits_on_def take_one_def)
qed

end
