(* ===== verification/SysvNames.thy ===== *)
theory SysvNames
  imports SysvSem
begin

text \<open>
  The name space of the emulated semaphores (\<open>semget\<close>, \<open>create_state\<close>, \<open>open_id\<close> and the
  removal in \<open>semctl\<close> of \<open>native/runtime/sysv-semaphore.c\<close>).

  A set is a file named by its identifier, \<open><tmpdir>/sysv-sem/id-%08x\<close>; a set with a key has a
  second hard link \<open>key-%08x\<close>. \<open>sem_ns\<close> is that directory: paths lead to inodes, inodes hold a
  \<open>sem_state\<close>. Failures of the file system are the fields of \<open>ns_env\<close>.
\<close>

section \<open>Paths\<close>

record ns_env =
  tmpdir :: "string option"
  mkdir_result :: "errno option"
  nanoseconds :: u32
  own_pid :: u32
  create_fault :: "string \<Rightarrow> errno option"
  lookup_fault :: "string \<Rightarrow> errno option"
  mapping_fault :: "errno option"
  link_fault :: "errno option"

record sem_ns =
  files :: "string \<Rightarrow> nat option"
  inodes :: "sem_state list"

abbreviation (input) IPC_PRIVATE :: int where "IPC_PRIVATE \<equiv> 0"

definition make_namespace :: "ns_env \<Rightarrow> errno + string" where
  "make_namespace E = (case tmpdir E of
      None \<Rightarrow> Inl ENOENT
    | Some t \<Rightarrow>
        if \<not> absolute t then Inl ENOENT
        else let directory = t @ ''/sysv-sem'' in
          if \<not> fits directory then Inl ENAMETOOLONG
          else case mkdir_result E of
              None \<Rightarrow> Inr directory
            | Some e \<Rightarrow> if e = EEXIST then Inr directory else Inl e)"

definition id_path :: "string \<Rightarrow> nat \<Rightarrow> string" where
  "id_path d ident = d @ ''/id-'' @ hex8 (of_nat ident)"

definition key_path :: "string \<Rightarrow> int \<Rightarrow> string" where
  "key_path d key = d @ ''/key-'' @ hex8 (word_of_int key)"

text \<open>The \<open>key_path\<close> argument of the source may be NULL: then \<open>key\<close> is \<open>None\<close>.\<close>

definition make_paths :: "ns_env \<Rightarrow> nat \<Rightarrow> int option \<Rightarrow> errno + (string \<times> string)" where
  "make_paths E ident key = (case make_namespace E of
      Inl e \<Rightarrow> Inl e
    | Inr d \<Rightarrow>
        if \<not> fits (id_path d ident) then Inl ENAMETOOLONG
        else case key of
            None \<Rightarrow> Inr (id_path d ident, [])
          | Some k \<Rightarrow> if \<not> fits (key_path d k) then Inl ENAMETOOLONG
                      else Inr (id_path d ident, key_path d k))"

section \<open>Files\<close>

definition unlink_ns :: "string \<Rightarrow> sem_ns \<Rightarrow> sem_ns" where
  "unlink_ns p ns = ns\<lparr>files := (files ns)(p := None)\<rparr>"

definition link_ns :: "ns_env \<Rightarrow> string \<Rightarrow> string \<Rightarrow> sem_ns \<Rightarrow> errno + sem_ns" where
  "link_ns E old new ns = (case files ns old of
      None \<Rightarrow> Inl ENOENT
    | Some i \<Rightarrow>
        if files ns new \<noteq> None then Inl EEXIST
        else case link_fault E of
            Some e \<Rightarrow> Inl e
          | None \<Rightarrow> Inr (ns\<lparr>files := (files ns)(new := Some i)\<rparr>))"

definition add_file :: "string \<Rightarrow> sem_state \<Rightarrow> sem_ns \<Rightarrow> sem_ns" where
  "add_file p st ns = ns\<lparr>files := (files ns)(p := Some (length (inodes ns))), inodes := inodes ns @ [st]\<rparr>"

definition open_id :: "ns_env \<Rightarrow> nat \<Rightarrow> sem_ns \<Rightarrow> errno + nat" where
  "open_id E ident ns = (case make_paths E ident None of
      Inl e \<Rightarrow> Inl e
    | Inr (ip, _) \<Rightarrow>
        (case lookup_fault E ip of Some e \<Rightarrow> Inl e | None \<Rightarrow>
          case files ns ip of
              None \<Rightarrow> Inl ENOENT
            | Some i \<Rightarrow>
                let st = inodes ns ! i in
                if mapping_fault E \<noteq> None then Inl (the (mapping_fault E))
                else if magic st \<noteq> BX_SEM_MAGIC \<or> version st \<noteq> BX_SEM_VERSION \<or> sem_id st \<noteq> ident
                  \<or> removed st then Inl EINVAL
                else Inr i))"

section \<open>Allocation of identifiers\<close>

definition BX_SEM_IDS :: nat where "BX_SEM_IDS = 0x100000"

definition allocate_id :: "ns_env \<Rightarrow> nat" where
  "allocate_id E = (let seed = nanoseconds E XOR (own_pid E * 2654435761) in
     BX_SEM_ID_BASE OR unat (seed AND 0xfffff))"

definition next_candidate :: "nat \<Rightarrow> nat \<Rightarrow> nat" where
  "next_candidate candidate att = BX_SEM_ID_BASE OR ((candidate + att) AND 0xfffff)"

text \<open>\<open>probe_ids\<close> is the loop of \<open>create_state\<close>; \<open>left\<close> is the number of turns that remain.\<close>

fun probe_ids ::
    "ns_env \<Rightarrow> int \<Rightarrow> nat \<Rightarrow> nat \<Rightarrow> nat \<Rightarrow> nat \<Rightarrow> sem_ns \<Rightarrow> sem_ns \<times> (errno + nat)" where
  "probe_ids E key n 0 att candidate ns = (ns, Inl ENOSPC)"
| "probe_ids E key n (Suc left) att candidate ns =
     (let c = next_candidate candidate att in
      case make_paths E c (Some key) of
        Inl e \<Rightarrow> (ns, Inl e)
      | Inr (ip, _) \<Rightarrow>
          if files ns ip \<noteq> None then probe_ids E key n left (Suc att) c ns
          else case create_fault E ip of
              Some e \<Rightarrow> (ns, Inl e)
            | None \<Rightarrow>
                case mapping_fault E of
                  Some e \<Rightarrow> (ns, Inl e)
                | None \<Rightarrow> (add_file ip (fresh_state c key n) ns, Inr c))"

definition create_state :: "ns_env \<Rightarrow> int \<Rightarrow> nat \<Rightarrow> sem_ns \<Rightarrow> sem_ns \<times> (errno + nat)" where
  "create_state E key n ns = probe_ids E key n BX_SEM_IDS 0 (allocate_id E) ns"

section \<open>semget\<close>

text \<open>The branch in which the key file exists.\<close>

definition existing_set :: "sem_state \<Rightarrow> int \<Rightarrow> bool \<Rightarrow> bool \<Rightarrow> errno + nat" where
  "existing_set st n creat excl =
     (if \<not> (magic st = BX_SEM_MAGIC \<and> \<not> removed st) then Inl EINVAL
      else if creat \<and> excl then Inl EEXIST
      else if n \<noteq> 0 \<and> nat n > nsems st then Inl EINVAL
      else Inr (sem_id st))"

text \<open>The last lines: a second name for the new set, which disappears again when that fails.\<close>

definition publish :: "ns_env \<Rightarrow> nat \<Rightarrow> int \<Rightarrow> sem_ns \<Rightarrow> sem_ns \<times> (errno + nat)" where
  "publish E ident key ns = (case make_paths E ident (Some key) of
      Inl e \<Rightarrow> (ns, Inl e)
    | Inr (ip, kp) \<Rightarrow>
        (case link_ns E ip kp ns of
          Inr ns' \<Rightarrow> (ns', Inr ident)
        | Inl e \<Rightarrow> (unlink_ns ip ns, Inl e)))"

text \<open>
  \<open>rivals\<close> is what other processes do to the directory between the creation of the set and the
  \<open>link\<close> that publishes its key, in one call of \<open>semget\<close> and in the calls it makes of itself
  when it lost that race. The result \<open>None\<close> means that the list of rivals was too short.
\<close>

fun semget :: "ns_env \<Rightarrow> (sem_ns \<Rightarrow> sem_ns) list \<Rightarrow> int \<Rightarrow> int \<Rightarrow> bool \<Rightarrow> bool \<Rightarrow> sem_ns \<Rightarrow>
    (sem_ns \<times> (errno + nat)) option" where
  "semget E rivals key n creat excl ns =
     (if n < 0 \<or> n > int BX_SEM_MAX \<or> (key = IPC_PRIVATE \<and> n = 0) then Some (ns, Inl EINVAL)
      else case make_namespace E of
        Inl e \<Rightarrow> Some (ns, Inl e)
      | Inr d \<Rightarrow>
          let kp = key_path d key in
          if key \<noteq> IPC_PRIVATE \<and> \<not> fits kp then Some (ns, Inl ENAMETOOLONG)
          else if key \<noteq> IPC_PRIVATE \<and> lookup_fault E kp \<noteq> None
            then Some (ns, Inl (the (lookup_fault E kp)))
          else if key \<noteq> IPC_PRIVATE \<and> files ns kp \<noteq> None
            then Some (ns, if mapping_fault E \<noteq> None then Inl (the (mapping_fault E))
                else existing_set (inodes ns ! the (files ns kp)) n creat excl)
          else if key \<noteq> IPC_PRIVATE \<and> \<not> creat then Some (ns, Inl ENOENT)
          else case create_state E key (nat n) ns of
              (ns1, Inl e) \<Rightarrow> Some (ns1, Inl e)
            | (ns1, Inr ident) \<Rightarrow>
                if key = IPC_PRIVATE then Some (ns1, Inr ident)
                else
                  let ns2 = (case rivals of [] \<Rightarrow> ns1 | r # _ \<Rightarrow> r ns1);
                      (ns3, res) = publish E ident key ns2 in
                  if res \<noteq> Inl EEXIST then Some (ns3, res)
                  else (case rivals of
                      [] \<Rightarrow> None
                    | _ # rs \<Rightarrow> semget E rs key n creat excl ns3))"

declare semget.simps [simp del]

text \<open>\<open>semctl\<close> on an identifier: the critical section and, for \<open>IPC_RMID\<close>, the removal of both names.\<close>

definition set_inode :: "nat \<Rightarrow> sem_state \<Rightarrow> sem_ns \<Rightarrow> sem_ns" where
  "set_inode i st ns = ns\<lparr>inodes := (inodes ns)[i := st]\<rparr>"

definition drop_names :: "ns_env \<Rightarrow> nat \<Rightarrow> int \<Rightarrow> sem_ns \<Rightarrow> sem_ns" where
  "drop_names E ident key ns = (case make_paths E ident (if key \<noteq> IPC_PRIVATE then Some key else None) of
      Inl e \<Rightarrow> (case make_paths E ident None of Inl e \<Rightarrow> ns | Inr (ip, _) \<Rightarrow> unlink_ns ip ns)
    | Inr (ip, kp) \<Rightarrow> if key \<noteq> IPC_PRIVATE then unlink_ns kp (unlink_ns ip ns) else unlink_ns ip ns)"

definition semctl_at :: "ns_env \<Rightarrow> int \<Rightarrow> nat \<Rightarrow> int \<Rightarrow> sem_cmd \<Rightarrow> sem_ns \<Rightarrow>
    sem_ns \<times> (errno + ctl_result)" where
  "semctl_at E pid ident num cmd ns = (case open_id E ident ns of
      Inl e \<Rightarrow> (ns, Inl e)
    | Inr i \<Rightarrow>
        let (st, r) = semctl_locked pid num cmd (inodes ns ! i); ns1 = set_inode i st ns in
        (if cmd = IPC_RMID then drop_names E ident (sem_key st) ns1 else ns1, r))"

section \<open>The probe sequence visits every identifier\<close>

lemma or_base: "x < 0x100000 \<Longrightarrow> BX_SEM_ID_BASE OR x = BX_SEM_ID_BASE + x"
proof -
  assume x: "x < 0x100000"
  have "BX_SEM_ID_BASE AND x = 0"
  proof (rule bit_eqI)
    fix k
    show "bit (BX_SEM_ID_BASE AND x) k = bit 0 k"
    proof (cases "k < 20")
      case True
      have "take_bit 20 BX_SEM_ID_BASE = 0" by (simp add: BX_SEM_ID_BASE_def take_bit_eq_mod)
      then have "\<not> bit BX_SEM_ID_BASE k" using True by (metis bit_0_eq bit_take_bit_iff bot_apply bot_bool_def)
      then show ?thesis by (simp add: bit_and_iff)
    next
      case False
      have "take_bit 20 x = x" using x by (simp add: take_bit_nat_eq_self)
      then have "\<not> bit x k" using False by (metis bit_take_bit_iff)
      then show ?thesis by (simp add: bit_and_iff)
    qed
  qed
  then show ?thesis by (simp add: disjunctive_add_eq_or)
qed

lemma and_mask20: "(x :: nat) AND 0xfffff = x mod 0x100000"
proof -
  have "(x :: nat) AND mask 20 = x mod 2 ^ 20" by (simp add: take_bit_eq_mask [symmetric] take_bit_eq_mod)
  moreover have "mask 20 = (0xfffff :: nat)" by (simp add: mask_eq_exp_minus_1)
  ultimately show ?thesis by simp
qed

lemma next_candidate_eq: "next_candidate c att = BX_SEM_ID_BASE + (c + att) mod 0x100000"
  unfolding next_candidate_def by (simp add: and_mask20 or_base)

text \<open>The distance travelled after \<open>i\<close> turns is the triangular number \<open>0 + 1 + ... + i\<close>.\<close>

definition triangle :: "nat \<Rightarrow> nat" where
  "triangle i = i * (i + 1) div 2"

lemma triangle_Suc: "triangle (Suc i) = triangle i + Suc i"
  by (simp add: triangle_def)

lemma triangle_double: "2 * triangle i = i * (i + 1)"
  by (simp add: triangle_def)

lemma triangle_distinct:
  assumes "i < j" "j < 2 ^ k"
  shows "triangle i mod 2 ^ k \<noteq> triangle j mod 2 ^ k"
proof
  assume "triangle i mod 2 ^ k = triangle j mod 2 ^ k"
  moreover have le: "triangle i \<le> triangle j"
    unfolding triangle_def using assms(1) by (intro div_le_mono mult_le_mono) simp_all
  ultimately have "2 ^ k dvd triangle j - triangle i" by (metis mod_eq_dvd_iff_nat)
  then have "2 * 2 ^ k dvd 2 * (triangle j - triangle i)" by simp
  also have "2 * (triangle j - triangle i) = (j - i) * (i + j + 1)"
  proof -
    obtain a where a: "j = i + a" using assms(1) less_imp_add_positive by blast
    have "2 * (triangle j - triangle i) = j * (j + 1) - i * (i + 1)"
      by (simp only: diff_mult_distrib2 triangle_double)
    then show ?thesis by (simp add: a algebra_simps)
  qed
  finally have dvd: "2 ^ Suc k dvd (j - i) * (i + j + 1)" by simp
  have "odd (j - i) \<or> odd (i + j + 1)" using assms(1) by (auto simp: odd_add even_diff_nat)
  then have "coprime (2 ^ Suc k) (j - i) \<or> coprime (2 ^ Suc k) (i + j + 1)"
    by (auto simp: coprime_power_left_iff)
  then have "2 ^ Suc k dvd i + j + 1 \<or> 2 ^ Suc k dvd j - i"
    using dvd coprime_dvd_mult_left_iff coprime_dvd_mult_right_iff by blast
  then have "2 ^ Suc k \<le> i + j + 1 \<or> 2 ^ Suc k \<le> j - i"
    using assms(1) by (auto dest!: dvd_imp_le)
  then show False using assms by auto
qed

lemma triangle_covers:
  assumes "x < 2 ^ k"
  shows "\<exists>i < 2 ^ k. (c + triangle i) mod 2 ^ k = x"
proof -
  let ?f = "\<lambda>i. (c + triangle i) mod 2 ^ k"
  have "inj_on ?f {..<2 ^ k}"
  proof (rule linorder_inj_onI)
    fix i j assume "i < j" "i \<in> {..<2 ^ k}" "j \<in> {..<(2 :: nat) ^ k}"
    then show "?f i \<noteq> ?f j" using triangle_distinct [of i j k]
      by (simp add: nat_mod_eq_iff)
  qed (auto)
  then have "card (?f ` {..<2 ^ k}) = 2 ^ k" by (simp add: card_image)
  then have "?f ` {..<2 ^ k} = {..<2 ^ k}"
    by (intro card_subset_eq) auto
  then show ?thesis using assms by (metis (no_types, lifting) imageE lessThan_iff)
qed


section \<open>Allocation\<close>

text \<open>The directory is usable: paths fit, and creating a set meets no error of the file system.\<close>

definition healthy :: "ns_env \<Rightarrow> string \<Rightarrow> bool" where
  "healthy E d \<longleftrightarrow> make_namespace E = Inr d \<and> length d + 13 < PATH_MAX \<and>
     mapping_fault E = None \<and> link_fault E = None \<and>
     create_fault E = (\<lambda>p. None) \<and> lookup_fault E = (\<lambda>p. None)"

lemma healthy_paths:
  "healthy E d \<Longrightarrow>
   make_paths E ident key = Inr (id_path d ident, case key of None \<Rightarrow> [] | Some k \<Rightarrow> key_path d k)"
  by (auto simp: healthy_def make_paths_def fits_def id_path_def key_path_def split: option.split)

definition candidate :: "nat \<Rightarrow> nat \<Rightarrow> nat" where
  "candidate c i = BX_SEM_ID_BASE + (c + triangle i) mod BX_SEM_IDS"

lemma next_candidate_triangle:
  assumes "(c + att) mod BX_SEM_IDS = (c0 + triangle att) mod BX_SEM_IDS"
  shows "next_candidate c att = candidate c0 att \<and>
     (next_candidate c att + Suc att) mod BX_SEM_IDS = (c0 + triangle (Suc att)) mod BX_SEM_IDS"
proof -
  have e: "next_candidate c att = BX_SEM_ID_BASE + (c0 + triangle att) mod BX_SEM_IDS"
    using assms by (simp add: next_candidate_eq BX_SEM_IDS_def)
  have "BX_SEM_ID_BASE = 0x425 * BX_SEM_IDS" by (simp add: BX_SEM_ID_BASE_def BX_SEM_IDS_def)
  then have "(next_candidate c att + Suc att) mod BX_SEM_IDS =
      ((c0 + triangle att) mod BX_SEM_IDS + Suc att) mod BX_SEM_IDS"
    unfolding e by (metis add.assoc add.commute mod_mult_self1)
  also have "\<dots> = (c0 + triangle att + Suc att) mod BX_SEM_IDS" by (rule mod_add_left_eq)
  finally show ?thesis
    using e by (simp add: candidate_def triangle_Suc add.assoc)
qed

lemma probe_ids_result:
  assumes "healthy E d" "(c + att) mod BX_SEM_IDS = (c0 + triangle att) mod BX_SEM_IDS"
  shows "(probe_ids E key n left att c ns = (ns, Inl ENOSPC) \<and>
            (\<forall>i < left. files ns (id_path d (candidate c0 (att + i))) \<noteq> None)) \<or>
         (\<exists>i < left. let ident = candidate c0 (att + i) in files ns (id_path d ident) = None \<and>
            probe_ids E key n left att c ns =
              (add_file (id_path d ident) (fresh_state ident key n) ns, Inr ident))"
  using assms(2)
proof (induction left arbitrary: att c)
  case 0
  then show ?case by simp
next
  case (Suc left)
  note nx = next_candidate_triangle [OF Suc.prems]
  have no: "create_fault E p = None" "mapping_fault E = None" for p
    using assms(1) by (auto simp: healthy_def)
  let ?c = "candidate c0 att"
  show ?case
  proof (cases "files ns (id_path d ?c)")
    case None
    then show ?thesis
      using nx no by (intro disjI2 exI [of _ 0]) (simp add: Let_def healthy_paths [OF assms(1)])
  next
    case (Some f)
    then have step: "probe_ids E key n (Suc left) att c ns =
        probe_ids E key n left (Suc att) (next_candidate c att) ns"
      using nx by (simp add: Let_def healthy_paths [OF assms(1)])
    have "(next_candidate c att + Suc att) mod BX_SEM_IDS = (c0 + triangle (Suc att)) mod BX_SEM_IDS"
      using nx by blast
    from Suc.IH [OF this] show ?thesis
      unfolding step using Some by (auto simp: Ex_less_Suc2 All_less_Suc2)
  qed
qed

lemma create_state_result:
  assumes "healthy E d"
  shows "if \<forall>x < BX_SEM_IDS. files ns (id_path d (BX_SEM_ID_BASE + x)) \<noteq> None
         then create_state E key n ns = (ns, Inl ENOSPC)
         else \<exists>ident. BX_SEM_ID_BASE \<le> ident \<and> ident < BX_SEM_ID_BASE + BX_SEM_IDS \<and>
                files ns (id_path d ident) = None \<and>
                create_state E key n ns =
                  (add_file (id_path d ident) (fresh_state ident key n) ns, Inr ident)"
proof -
  let ?c = "allocate_id E"
  have lt: "(?c + triangle i) mod BX_SEM_IDS < BX_SEM_IDS" for i by (simp add: BX_SEM_IDS_def)
  have cover: "\<exists>i < BX_SEM_IDS. candidate ?c i = BX_SEM_ID_BASE + x" if "x < BX_SEM_IDS" for x
    using triangle_covers [of x 20 ?c] that by (simp add: candidate_def BX_SEM_IDS_def)
  have "(?c + 0) mod BX_SEM_IDS = (?c + triangle 0) mod BX_SEM_IDS" by (simp add: triangle_def)
  from probe_ids_result [OF assms this, of key n BX_SEM_IDS ns] show ?thesis
  proof (elim disjE conjE exE)
    assume r: "probe_ids E key n BX_SEM_IDS 0 ?c ns = (ns, Inl ENOSPC)"
      and full: "\<forall>i < BX_SEM_IDS. files ns (id_path d (candidate ?c (0 + i))) \<noteq> None"
    have "\<forall>x < BX_SEM_IDS. files ns (id_path d (BX_SEM_ID_BASE + x)) \<noteq> None"
      using cover full by fastforce
    with r show ?thesis by (simp add: create_state_def)
  next
    fix i
    assume "i < BX_SEM_IDS" and found: "let ident = candidate ?c (0 + i) in
        files ns (id_path d ident) = None \<and>
        probe_ids E key n BX_SEM_IDS 0 ?c ns =
          (add_file (id_path d ident) (fresh_state ident key n) ns, Inr ident)"
    then have "\<not> (\<forall>x < BX_SEM_IDS. files ns (id_path d (BX_SEM_ID_BASE + x)) \<noteq> None)"
      using lt [of i] by (auto simp: candidate_def Let_def intro!: exI [of _ "(?c + triangle i) mod BX_SEM_IDS"])
    then show ?thesis
      using found lt [of i] by (auto simp: candidate_def Let_def create_state_def)
  qed
qed

text \<open>
Identifier allocation is complete. The quadratic probe of \<open>create_state\<close> starts anywhere and
  visits all \<open>0x100000\<close> identifiers, so in a usable directory it fails with \<open>ENOSPC\<close> exactly when
  every identifier is taken, and otherwise creates an initialised set under an identifier of the
  range that no file used.
\<close>
theorem create_state_complete:
  assumes "healthy E d"
  shows "if \<forall>x < BX_SEM_IDS. files ns (id_path d (BX_SEM_ID_BASE + x)) \<noteq> None
         then create_state E key n ns = (ns, Inl ENOSPC)
         else \<exists>ident. BX_SEM_ID_BASE \<le> ident \<and> ident < BX_SEM_ID_BASE + BX_SEM_IDS \<and>
                files ns (id_path d ident) = None \<and>
                create_state E key n ns =
                  (add_file (id_path d ident) (fresh_state ident key n) ns, Inr ident)"
  by (rule create_state_result [OF assms])

section \<open>The directory invariant\<close>

definition good_id :: "nat \<Rightarrow> bool" where
  "good_id ident \<longleftrightarrow> BX_SEM_ID_BASE \<le> ident \<and> ident < BX_SEM_ID_BASE + BX_SEM_IDS"

definition set_ok :: "sem_state \<Rightarrow> bool" where
  "set_ok st \<longleftrightarrow> magic st = BX_SEM_MAGIC \<and> version st = BX_SEM_VERSION \<and> \<not> removed st \<and>
     sem_wf st \<and> good_id (sem_id st) \<and> in_int (sem_key st)"

text \<open>
  Every name leads to a live set and is its identifier path or its key path, and its identifier
  path leads to it.
\<close>

definition ns_wf :: "string \<Rightarrow> sem_ns \<Rightarrow> bool" where
  "ns_wf d ns \<longleftrightarrow> (\<forall>p i. files ns p = Some i \<longrightarrow>
     i < length (inodes ns) \<and> set_ok (inodes ns ! i) \<and>
     files ns (id_path d (sem_id (inodes ns ! i))) = Some i \<and>
     (p = id_path d (sem_id (inodes ns ! i)) \<or>
      sem_key (inodes ns ! i) \<noteq> IPC_PRIVATE \<and> p = key_path d (sem_key (inodes ns ! i))))"

lemma id_path_inj:
  "good_id a \<Longrightarrow> good_id b \<Longrightarrow> id_path d a = id_path d b \<longleftrightarrow> a = b"
proof
  assume g: "good_id a" "good_id b" and "id_path d a = id_path d b"
  then have "(of_nat a :: u32) = of_nat b" by (auto simp: id_path_def dest: hex8_inj)
  then have "unat (of_nat a :: u32) = unat (of_nat b :: u32)" by simp
  then show "a = b"
    using g by (simp add: good_id_def BX_SEM_ID_BASE_def BX_SEM_IDS_def unat_of_nat)
qed simp

lemma key_path_inj:
  "in_int a \<Longrightarrow> in_int b \<Longrightarrow> key_path d a = key_path d b \<longleftrightarrow> a = b"
proof
  assume g: "in_int a" "in_int b" and "key_path d a = key_path d b"
  then have "(word_of_int a :: u32) = word_of_int b" by (auto simp: key_path_def dest: hex8_inj)
  then have "a mod 2 ^ 32 = b mod 2 ^ 32" by (simp add: word_of_int_eq_iff take_bit_eq_mod)
  then have "2 ^ 32 dvd a - b" by (simp add: mod_eq_dvd_iff)
  then obtain k where k: "a - b = 2 ^ 32 * k" by (rule dvdE)
  have "- (2 ^ 32) < a - b \<and> a - b < 2 ^ 32" using g by (simp add: in_int_def)
  then have "k = 0" unfolding k by auto
  then show "a = b" using k by simp
qed simp

lemma id_key_path [simp]: "id_path d a \<noteq> key_path d k" "key_path d k \<noteq> id_path d a"
proof -
  have "length (id_path d a) \<noteq> length (key_path d k)" by (simp add: id_path_def key_path_def)
  then show "id_path d a \<noteq> key_path d k" "key_path d k \<noteq> id_path d a" by auto
qed

lemma ns_wfD:
  "ns_wf d ns \<Longrightarrow> files ns p = Some i \<Longrightarrow>
   i < length (inodes ns) \<and> set_ok (inodes ns ! i) \<and>
   files ns (id_path d (sem_id (inodes ns ! i))) = Some i \<and>
   (p = id_path d (sem_id (inodes ns ! i)) \<or>
    sem_key (inodes ns ! i) \<noteq> IPC_PRIVATE \<and> p = key_path d (sem_key (inodes ns ! i)))"
  unfolding ns_wf_def by blast

lemma ns_wfI:
  "(\<And>p i. files ns p = Some i \<Longrightarrow>
     i < length (inodes ns) \<and> set_ok (inodes ns ! i) \<and>
     files ns (id_path d (sem_id (inodes ns ! i))) = Some i \<and>
     (p = id_path d (sem_id (inodes ns ! i)) \<or>
      sem_key (inodes ns ! i) \<noteq> IPC_PRIVATE \<and> p = key_path d (sem_key (inodes ns ! i)))) \<Longrightarrow>
   ns_wf d ns"
  unfolding ns_wf_def by blast

lemma ns_wf_id:
  "ns_wf d ns \<Longrightarrow> good_id ident \<Longrightarrow> files ns (id_path d ident) = Some i \<Longrightarrow>
   i < length (inodes ns) \<and> set_ok (inodes ns ! i) \<and> sem_id (inodes ns ! i) = ident"
  using ns_wfD [of d ns "id_path d ident" i] id_path_inj by (auto simp: set_ok_def)

lemma ns_wf_key:
  "ns_wf d ns \<Longrightarrow> in_int key \<Longrightarrow> files ns (key_path d key) = Some i \<Longrightarrow>
   i < length (inodes ns) \<and> set_ok (inodes ns ! i) \<and> sem_key (inodes ns ! i) = key \<and>
   files ns (id_path d (sem_id (inodes ns ! i))) = Some i"
  using ns_wfD [of d ns "key_path d key" i] key_path_inj by (auto simp: set_ok_def)

lemma set_ok_fresh: "good_id ident \<Longrightarrow> in_int key \<Longrightarrow> n \<le> BX_SEM_MAX \<Longrightarrow> set_ok (fresh_state ident key n)"
  using sem_wf_fresh [of n ident key] by (simp add: set_ok_def fresh_state_def)

lemma add_file_wf [inv_intros]:
  assumes "ns_wf d ns" "good_id ident" "in_int key" "n \<le> BX_SEM_MAX" "files ns (id_path d ident) = None"
  shows "ns_wf d (add_file (id_path d ident) (fresh_state ident key n) ns)"
proof (rule ns_wfI, goal_cases)
  case (1 p i)
  have f: "sem_id (fresh_state ident key n) = ident" by (simp add: fresh_state_def)
  show ?case
  proof (cases "p = id_path d ident")
    case True
    then show ?thesis using 1 f set_ok_fresh [OF assms(2-4)] by (auto simp: add_file_def)
  next
    case False
    then show ?thesis using 1 ns_wfD [OF assms(1), of p i] assms(5) by (auto simp: add_file_def nth_append)
  qed
qed

lemma link_wf [inv_intros]:
  assumes "ns_wf d ns" "link_ns E (id_path d ident) (key_path d key) ns = Inr ns'" "good_id ident"
    "\<And>i. files ns (id_path d ident) = Some i \<Longrightarrow> sem_key (inodes ns ! i) = key" "key \<noteq> IPC_PRIVATE"
  shows "ns_wf d ns'"
proof -
  from assms(2) obtain i where i: "files ns (id_path d ident) = Some i"
    and ns': "ns' = ns\<lparr>files := (files ns)(key_path d key := Some i)\<rparr>"
    by (auto simp: link_ns_def split: option.splits if_splits)
  show ?thesis
  proof (rule ns_wfI, goal_cases)
    case (1 p j)
    show ?case
    proof (cases "p = key_path d key")
      case True
      then show ?thesis using 1 i ns' assms(4,5) ns_wf_id [OF assms(1,3) i] by auto
    next
      case False
      then show ?thesis using 1 ns' ns_wfD [OF assms(1), of p j] by auto
    qed
  qed
qed

lemma unlink_wf [inv_intros]:
  assumes "ns_wf d ns" "\<And>p i. files ns q = Some i \<Longrightarrow> files ns p = Some i \<Longrightarrow> p = q"
  shows "ns_wf d (unlink_ns q ns)"
proof (rule ns_wfI, goal_cases)
  case (1 p i)
  then have p: "files ns p = Some i" "p \<noteq> q" by (auto simp: unlink_ns_def split: if_splits)
  with ns_wfD [OF assms(1) p(1)] assms(2) [of i p] show ?case by (auto simp: unlink_ns_def)
qed

section \<open>Removal\<close>

lemma drop_names_healthy:
  "healthy E d \<Longrightarrow> drop_names E ident key ns =
     (if key \<noteq> IPC_PRIVATE then unlink_ns (key_path d key) (unlink_ns (id_path d ident) ns)
      else unlink_ns (id_path d ident) ns)"
  by (simp add: drop_names_def healthy_paths)

lemma open_id_healthy:
  assumes "healthy E d" "ns_wf d ns" "good_id ident"
  shows "open_id E ident ns = (case files ns (id_path d ident) of None \<Rightarrow> Inl ENOENT | Some i \<Rightarrow> Inr i)"
  using assms ns_wf_id [OF assms(2,3)]
  by (auto simp: open_id_def healthy_paths healthy_def set_ok_def split: option.split)

lemma semctl_locked_keeps:
  "semctl_locked pid num cmd st = (st', r) \<Longrightarrow>
   magic st' = magic st \<and> version st' = version st \<and> sem_id st' = sem_id st \<and> sem_key st' = sem_key st \<and>
   (removed st' = (removed st \<or> cmd = IPC_RMID))"
  by (auto simp: semctl_locked_def Let_def about_whole_set_def wake_waiters_def
      split: if_splits sem_cmd.splits option.splits)

lemma set_inode_wf:
  assumes "ns_wf d ns" "set_ok st"
    "sem_id st = sem_id (inodes ns ! i)" "sem_key st = sem_key (inodes ns ! i)"
  shows "ns_wf d (set_inode i st ns)"
proof (rule ns_wfI, goal_cases)
  case (1 p j)
  with ns_wfD [OF assms(1), of p j] assms(2-4) show ?case
    by (cases "i = j") (auto simp: set_inode_def)
qed

lemma semctl_at_wf [inv_intros]:
  assumes "healthy E d" "ns_wf d ns" "good_id ident"
  shows "ns_wf d (fst (semctl_at E pid ident num cmd ns))"
proof (cases "files ns (id_path d ident)")
  case None
  then show ?thesis using assms by (simp add: semctl_at_def open_id_healthy)
next
  case (Some i)
  obtain st r where l: "semctl_locked pid num cmd (inodes ns ! i) = (st, r)" by fastforce
  note k = semctl_locked_keeps [OF l] and w = ns_wf_id [OF assms(2,3) Some]
  show ?thesis
  proof (cases "cmd = IPC_RMID")
    case False
    have "sem_wf st"
      using semctl_locked_wf [of "inodes ns ! i" pid num cmd] l w by (simp add: set_ok_def)
    then have "ns_wf d (set_inode i st ns)"
      using False k w by (intro set_inode_wf assms) (auto simp: set_ok_def)
    then show ?thesis using assms Some l False by (simp add: semctl_at_def open_id_healthy)
  next
    case True
    let ?key = "sem_key (inodes ns ! i)"
    have names: "p = id_path d ident \<or> ?key \<noteq> IPC_PRIVATE \<and> p = key_path d ?key"
      if "files ns p = Some i" for p
      using ns_wfD [OF assms(2) that] w by auto
    have e: "fst (semctl_at E pid ident num cmd ns) = drop_names E ident ?key (set_inode i st ns)"
      using assms Some l True k by (simp add: semctl_at_def open_id_healthy)
    show ?thesis
      unfolding e drop_names_healthy [OF assms(1)]
    proof (rule ns_wfI, goal_cases)
      case (1 p j)
      then have p: "files ns p = Some j" "p \<noteq> id_path d ident" "?key \<noteq> IPC_PRIVATE \<longrightarrow> p \<noteq> key_path d ?key"
        by (auto simp: unlink_ns_def set_inode_def split: if_splits)
      then have "j \<noteq> i" using names by auto
      with p ns_wfD [OF assms(2) p(1)] Some show ?case
        by (auto simp: unlink_ns_def set_inode_def)
    qed
  qed
qed

section \<open>semget under races\<close>

text \<open>
  What a rival may do: keep the directory well formed, remove names, and add names for sets it
  created itself; it does not give a new name to a set it did not create.
\<close>

definition tame :: "string \<Rightarrow> (sem_ns \<Rightarrow> sem_ns) \<Rightarrow> bool" where
  "tame d r \<longleftrightarrow> (\<forall>ns. ns_wf d ns \<longrightarrow> ns_wf d (r ns) \<and>
     (\<forall>p i. files ns p = Some i \<longrightarrow> files (r ns) p \<in> {None, Some i} \<and>
        (files (r ns) p = Some i \<longrightarrow> sem_key (inodes (r ns) ! i) = sem_key (inodes ns ! i) \<and>
           nsems (inodes (r ns) ! i) = nsems (inodes ns ! i))) \<and>
     (\<forall>p i. i < length (inodes ns) \<longrightarrow> files (r ns) p = Some i \<longrightarrow> files ns p = Some i))"

lemma tame_id [simp]: "tame d (\<lambda>ns. ns)"
  by (auto simp: tame_def)

lemma create_state_ok:
  assumes "healthy E d" "create_state E key n ns = (ns', Inr ident)"
  shows "good_id ident \<and> files ns (id_path d ident) = None \<and>
     ns' = add_file (id_path d ident) (fresh_state ident key n) ns"
  using create_state_result [OF assms(1), of ns key n] assms(2)
  by (auto simp: good_id_def split: if_splits)

lemma create_state_error:
  assumes "healthy E d" "create_state E key n ns = (ns', Inl e)"
  shows "ns' = ns \<and> e = ENOSPC"
  using create_state_result [OF assms(1), of ns key n] assms(2)
  by (auto split: if_splits)

text \<open>What the caller may rely on after success.\<close>

definition published :: "string \<Rightarrow> int \<Rightarrow> int \<Rightarrow> nat \<Rightarrow> sem_ns \<Rightarrow> bool" where
  "published d key n ident ns \<longleftrightarrow> good_id ident \<and>
     (case files ns (id_path d ident) of None \<Rightarrow> False
      | Some i \<Rightarrow> sem_key (inodes ns ! i) = key \<and> nat n \<le> nsems (inodes ns ! i) \<and>
          (key \<noteq> IPC_PRIVATE \<longrightarrow> files ns (key_path d key) = Some i))"

lemma existing_published:
  assumes "ns_wf d ns" "in_int key" "key \<noteq> IPC_PRIVATE" "files ns (key_path d key) = Some i"
    "existing_set (inodes ns ! i) n creat excl = Inr ident" "0 \<le> n"
  shows "published d key n ident ns"
  using ns_wf_key [OF assms(1,2,4)] assms
  by (auto simp: existing_set_def published_def set_ok_def split: if_splits)

text \<open>A set just created, after a rival has run: it may have been removed, nothing else names it.\<close>

lemma publish_spec:
  assumes "healthy E d" "ns_wf d ns" "good_id ident" "in_int key" "n \<le> BX_SEM_MAX" "key \<noteq> IPC_PRIVATE"
    "files ns (id_path d ident) = None" "tame d r"
    "publish E ident key (r (add_file (id_path d ident) (fresh_state ident key n) ns)) = (ns3, res)"
  shows "ns_wf d ns3 \<and> (\<forall>j. res = Inr j \<longrightarrow> published d key (int n) j ns3)"
proof -
  let ?i = "length (inodes ns)" and ?ip = "id_path d ident"
  let ?ns1 = "add_file ?ip (fresh_state ident key n) ns"
  let ?ns2 = "r ?ns1"
  have wf1: "ns_wf d ?ns1" by (rule add_file_wf [OF assms(2-5,7)])
  note t = assms(8) [unfolded tame_def, rule_format, OF wf1]
  have wf2: "ns_wf d ?ns2" using t by blast
  have f1: "files ?ns1 ?ip = Some ?i" "inodes ?ns1 ! ?i = fresh_state ident key n" "?i < length (inodes ?ns1)"
    by (simp_all add: add_file_def)
  have only: "p = ?ip" if "files ?ns1 p = Some ?i" for p
    using that ns_wfD [OF assms(2), of p] by (auto simp: add_file_def split: if_splits)
  have own: "j = ?i \<and> sem_key (inodes ?ns2 ! j) = key \<and> nsems (inodes ?ns2 ! j) = n"
    if "files ?ns2 ?ip = Some j" for j
    using t f1 that by (fastforce simp: fresh_state_def)
  show ?thesis
  proof (cases "link_ns E ?ip (key_path d key) ?ns2")
    case (Inl e)
    have "ns_wf d (unlink_ns ?ip ?ns2)"
      using own only t f1(3) by (intro unlink_wf [OF wf2]) metis
    then show ?thesis using assms(9) Inl by (auto simp: publish_def healthy_paths [OF assms(1)])
  next
    case (Inr ns4)
    then have "ns3 = ns4" "res = Inr ident"
      using assms(9) by (auto simp: publish_def healthy_paths [OF assms(1)])
    moreover have "ns_wf d ns4" using link_wf [OF wf2 Inr assms(3)] own assms(6) by blast
    moreover have "published d key (int n) ident ns4"
      using Inr own assms(3) by (auto simp: published_def link_ns_def split: option.splits if_splits)
    ultimately show ?thesis by simp
  qed
qed

text \<open>The three ways through \<open>semget\<close> in a usable directory.\<close>

lemma semget_refused:
  assumes "healthy E d" "n < 0 \<or> n > int BX_SEM_MAX \<or> (key = IPC_PRIVATE \<and> n = 0)"
  shows "semget E rivals key n creat excl ns = Some (ns, Inl EINVAL)"
  using assms by (auto simp: semget.simps)

lemma semget_lookup:
  assumes "healthy E d" "0 \<le> n" "n \<le> int BX_SEM_MAX" "key \<noteq> IPC_PRIVATE"
    "files ns (key_path d key) \<noteq> None \<or> \<not> creat"
  shows "semget E rivals key n creat excl ns =
    Some (ns, case files ns (key_path d key) of
       None \<Rightarrow> Inl ENOENT | Some i \<Rightarrow> existing_set (inodes ns ! i) n creat excl)"
  using assms by (auto simp: semget.simps healthy_def fits_def key_path_def split: option.split)

lemma semget_new:
  assumes "healthy E d" "0 \<le> n" "n \<le> int BX_SEM_MAX"
    "if key = IPC_PRIVATE then n \<noteq> 0 else files ns (key_path d key) = None \<and> creat"
  shows "semget E rivals key n creat excl ns = (case create_state E key (nat n) ns of
      (ns1, Inl e) \<Rightarrow> Some (ns1, Inl e)
    | (ns1, Inr ident) \<Rightarrow>
        if key = IPC_PRIVATE then Some (ns1, Inr ident)
        else let ns2 = (case rivals of [] \<Rightarrow> ns1 | r # _ \<Rightarrow> r ns1);
                 (ns3, res) = publish E ident key ns2 in
          if res \<noteq> Inl EEXIST then Some (ns3, res)
          else (case rivals of [] \<Rightarrow> None | _ # rs \<Rightarrow> semget E rs key n creat excl ns3))"
proof -
  have h: "make_namespace E = Inr d" "fits (key_path d key)" "lookup_fault E p = None" for p
    using assms(1) by (auto simp: healthy_def fits_def key_path_def)
  show ?thesis
    using assms(2-4) h by (subst semget.simps) (auto split: if_splits)
qed

lemma semget_spec:
  assumes "semget E rivals key n creat excl ns = Some (ns', res)"
    "healthy E d" "ns_wf d ns" "in_int key" "\<forall>r \<in> set rivals. tame d r"
  shows "ns_wf d ns' \<and> (\<forall>ident. res = Inr ident \<longrightarrow> published d key n ident ns')"
  using assms
proof (induction "length rivals" arbitrary: rivals ns rule: less_induct)
  case less
  consider "n < 0 \<or> n > int BX_SEM_MAX \<or> (key = IPC_PRIVATE \<and> n = 0)"
    | (look) "0 \<le> n" "n \<le> int BX_SEM_MAX" "key \<noteq> IPC_PRIVATE" "files ns (key_path d key) \<noteq> None \<or> \<not> creat"
    | (new) "0 \<le> n" "n \<le> int BX_SEM_MAX"
        "if key = IPC_PRIVATE then n \<noteq> 0 else files ns (key_path d key) = None \<and> creat"
    by (metis linorder_not_less)
  then show ?case
  proof cases
    case 1
    then show ?thesis using less.prems semget_refused [OF less.prems(2) 1] by auto
  next
    case look
    show ?thesis
      using less.prems(1,3) semget_lookup [OF less.prems(2) look]
        existing_published [OF less.prems(3,4) look(3) _ _ look(1)]
      by (auto split: option.splits)
  next
    case new
    have n64: "nat n \<le> BX_SEM_MAX" using new by simp
    note sg = semget_new [OF less.prems(2) new, of rivals excl]
    show ?thesis
    proof (cases "create_state E key (nat n) ns")
      case (Pair ns1 r)
      show ?thesis
      proof (cases r)
        case (Inl e)
        then show ?thesis
          using Pair sg less.prems create_state_error [OF less.prems(2), of key "nat n" ns ns1 e] by auto
      next
        case (Inr ident)
        note c = create_state_ok [OF less.prems(2) Pair [unfolded Inr]]
        let ?r2 = "case rivals of [] \<Rightarrow> (\<lambda>ns. ns) | r # _ \<Rightarrow> r"
        obtain ns3 r3 where p: "publish E ident key (?r2 ns1) = (ns3, r3)" by fastforce
        have tame2: "tame d ?r2" using less.prems(5) by (cases rivals) auto
        show ?thesis
        proof (cases "key = IPC_PRIVATE")
          case True
          have "ns_wf d ns1" using c add_file_wf [OF less.prems(3) _ less.prems(4) n64] by auto
          moreover have "published d key n ident ns1"
            using c True new by (simp add: published_def add_file_def fresh_state_def)
          moreover have "ns' = ns1 \<and> res = Inr ident" using sg Pair Inr True less.prems(1) by simp
          ultimately show ?thesis by simp
        next
          case False
          have ps: "ns_wf d ns3 \<and> (\<forall>j. r3 = Inr j \<longrightarrow> published d key n j ns3)"
            using publish_spec [OF less.prems(2,3) _ less.prems(4) n64 False _ tame2, of ident ns3 r3] c p new(1)
            by auto
          show ?thesis
          proof (cases rivals)
            case Nil
            then show ?thesis using sg Pair Inr False p ps less.prems(1) by (auto split: if_splits)
          next
            case (Cons r0 rs)
            then show ?thesis
              using sg Pair Inr False p ps less.prems less.hyps [of rs ns3]
              by (auto split: if_splits)
          qed
        qed
      qed
    qed
  qed
qed


lemma published_lookup:
  assumes "ns_wf d ns" "in_int key" "key \<noteq> IPC_PRIVATE" "published d key n ident ns" "0 \<le> m" "m \<le> n"
  shows "\<exists>i. files ns (key_path d key) = Some i \<and> files ns (id_path d ident) = Some i \<and>
     (\<forall>creat excl. existing_set (inodes ns ! i) m creat excl =
        (if creat \<and> excl then Inl EEXIST else Inr ident))"
proof -
  obtain i where i: "files ns (id_path d ident) = Some i" "good_id ident"
    "nat n \<le> nsems (inodes ns ! i)" "files ns (key_path d key) = Some i"
    using assms(3,4) by (auto simp: published_def split: option.splits)
  have "nat m \<le> nat n" using assms(6) by (rule nat_mono)
  then show ?thesis
    using i ns_wf_id [OF assms(1) i(2,1)] by (auto simp: existing_set_def set_ok_def)
qed

text \<open>
The life of a keyed set. Once \<open>semget\<close> has returned an identifier for a key, the same call
  returns the same identifier, \<open>IPC_CREAT | IPC_EXCL\<close> is refused with \<open>EEXIST\<close>, and after
  \<open>IPC_RMID\<close> neither the identifier nor the key can be found.
\<close>
theorem semget_lifecycle:
  assumes "healthy E d" "ns_wf d ns" "in_int key" "key \<noteq> IPC_PRIVATE" "0 \<le> n" "n \<le> int BX_SEM_MAX"
    "semget E [] key n creat excl ns = Some (ns', Inr ident)"
  shows "semget E [] key n c False ns' = Some (ns', Inr ident) \<and>
     semget E [] key n True True ns' = Some (ns', Inl EEXIST) \<and>
     (let gone = fst (semctl_at E pid ident 0 IPC_RMID ns') in
        open_id E ident gone = Inl ENOENT \<and>
        semget E [] key n False x gone = Some (gone, Inl ENOENT))"
proof -
  have sp: "ns_wf d ns'" "published d key n ident ns'"
    using semget_spec [OF assms(7,1-3)] by auto
  obtain i where i: "files ns' (key_path d key) = Some i" "files ns' (id_path d ident) = Some i"
    and ex: "existing_set (inodes ns' ! i) n c e = (if c \<and> e then Inl EEXIST else Inr ident)" for c e
    using published_lookup [OF sp(1) assms(3,4) sp(2) assms(5)] by auto
  have good: "good_id ident" using sp(2) by (simp add: published_def)
  have key: "sem_key (inodes ns' ! i) = key" using ns_wf_key [OF sp(1) assms(3) i(1)] by simp
  obtain st r where l: "semctl_locked pid 0 IPC_RMID (inodes ns' ! i) = (st, r)" by fastforce
  let ?gone = "fst (semctl_at E pid ident 0 IPC_RMID ns')"
  have gone: "?gone = unlink_ns (key_path d key) (unlink_ns (id_path d ident) (set_inode i st ns'))"
    using l key semctl_locked_keeps [OF l] assms(1,4) i(2) sp(1) good
    by (simp add: semctl_at_def open_id_healthy drop_names_healthy)
  have wf: "ns_wf d ?gone" by (rule semctl_at_wf [OF assms(1) sp(1) good])
  have "open_id E ident ?gone = Inl ENOENT"
    using open_id_healthy [OF assms(1) wf good] by (simp add: gone unlink_ns_def)
  then show ?thesis
    using semget_lookup [OF assms(1,5,6,4)] i ex gone
    by (auto simp: Let_def unlink_ns_def)
qed

section \<open>A usable directory\<close>

definition demo_ns_env :: ns_env where
  "demo_ns_env = \<lparr>tmpdir = Some ''/t'', mkdir_result = Some EEXIST, nanoseconds = 5, own_pid = 3,
     create_fault = (\<lambda>p. None), lookup_fault = (\<lambda>p. None), mapping_fault = None, link_fault = None\<rparr>"

definition empty_ns :: sem_ns where
  "empty_ns = \<lparr>files = (\<lambda>p. None), inodes = []\<rparr>"

lemma demo_healthy: "healthy demo_ns_env ''/t/sysv-sem''"
  by (simp add: healthy_def demo_ns_env_def make_namespace_def fits_def PATH_MAX_def)

lemma empty_ns_wf: "ns_wf d empty_ns"
  by (simp add: ns_wf_def empty_ns_def)

lemma empty_has_room:
  "\<not> (\<forall>x < BX_SEM_IDS. files empty_ns (id_path ''/t/sysv-sem'' (BX_SEM_ID_BASE + x)) \<noteq> None)"
proof -
  have "0 < BX_SEM_IDS" by (simp add: BX_SEM_IDS_def)
  then show ?thesis by (auto simp: empty_ns_def)
qed

lemma demo_created:
  "\<exists>ident. create_state demo_ns_env 1 2 empty_ns =
     (add_file (id_path ''/t/sysv-sem'' ident) (fresh_state ident 1 2) empty_ns, Inr ident)"
  using create_state_result [OF demo_healthy, of empty_ns 1 2] unfolding if_not_P [OF empty_has_room] by blast

theorem create_state_complete_witness:
  "\<exists>ident. create_state demo_ns_env 1 2 empty_ns =
     (add_file (id_path ''/t/sysv-sem'' ident) (fresh_state ident 1 2) empty_ns, Inr ident)"
  using create_state_complete [OF demo_healthy, of empty_ns 1 2] unfolding if_not_P [OF empty_has_room] by blast

lemma demo_semget:
  obtains ns ident where "semget demo_ns_env [] 1 2 True False empty_ns = Some (ns, Inr ident)"
proof -
  obtain ns1 r where c: "create_state demo_ns_env 1 2 empty_ns = (ns1, r)" by fastforce
  obtain ident where r: "r = Inr ident"
    using demo_created c by auto
  note ok = create_state_ok [OF demo_healthy c [unfolded r]]
  have "publish demo_ns_env ident 1 ns1 = (ns1\<lparr>files := (files ns1)(key_path ''/t/sysv-sem'' 1 := Some 0)\<rparr>, Inr ident)"
    using ok demo_healthy by (simp add: publish_def healthy_paths [OF demo_healthy] link_ns_def add_file_def
        empty_ns_def healthy_def)
  then have "semget demo_ns_env [] 1 2 True False empty_ns =
      Some (ns1\<lparr>files := (files ns1)(key_path ''/t/sysv-sem'' 1 := Some 0)\<rparr>, Inr ident)"
    using semget_new [OF demo_healthy, of 2 1 empty_ns True "[]" False] c r
    by (simp add: BX_SEM_MAX_def empty_ns_def)
  then show ?thesis by (rule that)
qed


theorem semget_lifecycle_witness:
  "\<exists>ns ident. semget demo_ns_env [] 1 2 True False empty_ns = Some (ns, Inr ident) \<and>
     semget demo_ns_env [] 1 2 True True ns = Some (ns, Inl EEXIST)"
proof -
  obtain ns ident where s: "semget demo_ns_env [] 1 2 True False empty_ns = Some (ns, Inr ident)"
    by (rule demo_semget)
  with semget_lifecycle [OF demo_healthy empty_ns_wf _ _ _ _ s] show ?thesis
    by (auto simp: in_int_def BX_SEM_MAX_def)
qed

end
