(* ===== verification/ListMset.thy ===== *)
theory ListMset
  imports Prelude "HOL-Library.Multiset"
begin

text \<open>
  The multiset of the elements of a list, when one element is replaced or removed: for tables and
  for the threads of a system, whose invariants do not depend on the order.
\<close>

lemma mset_at:
  assumes "i < length xs"
  obtains M where "mset xs = add_mset (xs ! i) M" "\<And>v. mset (xs[i := v]) = add_mset v M"
    "mset (take i xs @ drop (Suc i) xs) = M"
proof -
  have xs: "xs = take i xs @ xs ! i # drop (Suc i) xs" using assms by (simp add: id_take_nth_drop)
  let ?M = "mset (take i xs @ drop (Suc i) xs)"
  have "mset xs = add_mset (xs ! i) ?M" by (subst xs) simp
  moreover have "mset (xs[i := v]) = add_mset v ?M" for v
    using assms by (simp add: upd_conv_take_nth_drop)
  ultimately show ?thesis using that by blast
qed

end
