(* ===== verification/SysvShm.thy ===== *)
theory SysvShm
  imports ListMset
begin

text \<open>
  System V shared memory served by the process itself, from \<open>native/runtime/sysv-shm.c\<close>: a table
  of at most 64 segments, each with a memory file, under one mutex (so every operation is one step).

  What the kernel answers (a new memory file, the result of \<open>mmap\<close>, ...) is an argument of the
  operation. \<open>open_fds\<close> and \<open>mappings\<close> are the kernel's side: the memory files that are open and
  the addresses that are mapped; they show that nothing leaks.
\<close>

section \<open>State\<close>

record segment =
  id :: int
  fd :: int
  bytes :: nat
  addr :: nat
  mapped :: bool
  marked_for_deletion :: bool
  key :: int

record shm =
  segments :: "segment list"
  counter :: nat
  socket_id :: nat
  listening :: bool
  open_fds :: "int list"
  mappings :: "nat list"

definition initial_shm :: shm where
  "initial_shm = \<lparr>segments = [], counter = 0, socket_id = 0, listening = False, open_fds = [], mappings = []\<rparr>"

definition BX_SHM_MAX_SEGMENTS :: nat where "BX_SHM_MAX_SEGMENTS = 64"
definition BX_SHM_MAX_BYTES :: nat where "BX_SHM_MAX_BYTES = 64 * 1024 * 1024"
definition IPC_PRIVATE :: int where "IPC_PRIVATE = 0"

text \<open>The \<open>unsigned\<close> product and sum, read back as an \<open>int\<close>.\<close>

definition shmid_from_counter :: "nat \<Rightarrow> nat \<Rightarrow> int" where
  "shmid_from_counter sock c =
     (let w = (sock * 0x10000 + c mod 0x8000) mod 2 ^ 32 in if w < 2 ^ 31 then int w else int w - 2 ^ 32)"

definition find_local_index :: "int \<Rightarrow> shm \<Rightarrow> nat option" where
  "find_local_index shmid s =
     (let i = length (takeWhile (\<lambda>g. id g \<noteq> shmid) (segments s)) in
      if i < length (segments s) then Some i else None)"

definition delete_index :: "nat \<Rightarrow> shm \<Rightarrow> shm" where
  "delete_index i s =
     (let g = segments s ! i in
      s\<lparr>segments := take i (segments s) @ drop (Suc i) (segments s),
        mappings := (if addr g \<noteq> 0 then remove1 (addr g) (mappings s) else mappings s),
        open_fds := (if 0 \<le> fd g then remove1 (fd g) (open_fds s) else open_fds s)\<rparr>)"

section \<open>The listener\<close>

text \<open>
  \<open>free\<close> says which abstract socket names can be bound; the name is the pid plus at most 4095,
  modulo 65536. The other answers: \<open>socket\<close>, \<open>listen\<close> and \<open>pthread_create\<close>.
\<close>

definition probe_socket :: "(nat \<Rightarrow> bool) \<Rightarrow> nat \<Rightarrow> nat option" where
  "probe_socket free process =
     map_option (\<lambda>i. (process + i) mod 0x10000) (find (\<lambda>i. free ((process + i) mod 0x10000)) [0..<4096])"

definition ensure_listener ::
    "(errno + unit) \<Rightarrow> (nat \<Rightarrow> bool) \<Rightarrow> nat \<Rightarrow> (errno + unit) \<Rightarrow> (errno + unit) \<Rightarrow> shm \<Rightarrow> (errno + unit) \<times> shm" where
  "ensure_listener sock free process listened created s =
     (if listening s then (Inr (), s) else
      case sock of Inl e \<Rightarrow> (Inl e, s) | Inr _ \<Rightarrow>
      (case probe_socket free process of
         None \<Rightarrow> (Inl ENOMEM, s\<lparr>socket_id := (process + 4095) mod 0x10000\<rparr>)
       | Some n \<Rightarrow> let s = s\<lparr>socket_id := n\<rparr> in
           (case listened of Inl e \<Rightarrow> (Inl e, s) | Inr _ \<Rightarrow>
           (case created of Inl e \<Rightarrow> (Inl e, s) | Inr _ \<Rightarrow> (Inr (), s\<lparr>listening := True\<rparr>)))))"

text \<open>What the listener sends to a client that asks for \<open>shmid\<close>: the key, then the descriptor.\<close>

definition served :: "int \<Rightarrow> shm \<Rightarrow> (int \<times> int) option" where
  "served shmid s = map_option (\<lambda>i. (key (segments s ! i), fd (segments s ! i))) (find_local_index shmid s)"

section \<open>Memory files\<close>

text \<open>
  \<open>memfd\<close>: the answer of \<open>memfd_create\<close>. When it fails, an unlinked temporary file below the
  private temporary directory takes its place. The answers of \<open>mkdir\<close>, \<open>mkstemp\<close> and the two
  \<open>ftruncate\<close> follow.
\<close>

definition create_memory_fd ::
    "string option \<Rightarrow> (errno + int) \<Rightarrow> (errno + unit) \<Rightarrow> (errno + unit) \<Rightarrow> (errno + int) \<Rightarrow> (errno + unit) \<Rightarrow>
     errno + int" where
  "create_memory_fd temporary memfd sized made named sized' =
     (case memfd of
        Inr d \<Rightarrow> (case sized of Inr _ \<Rightarrow> Inr d | Inl e \<Rightarrow> Inl e)
      | Inl _ \<Rightarrow> (case temporary of
          None \<Rightarrow> Inl ENOENT
        | Some t \<Rightarrow> if \<not> absolute t then Inl ENOENT
            else if \<not> fits (t @ ''/sysv-shm'') then Inl ENAMETOOLONG
            else if (case made of Inr _ \<Rightarrow> False | Inl e \<Rightarrow> e \<noteq> EEXIST) then Inl (case made of Inl e \<Rightarrow> e | Inr _ \<Rightarrow> EEXIST)
            else if \<not> fits (t @ ''/sysv-shm/seg-XXXXXX'') then Inl ENAMETOOLONG
            else (case named of Inl e \<Rightarrow> Inl e
              | Inr d \<Rightarrow> (case sized' of Inr _ \<Rightarrow> Inr d | Inl e \<Rightarrow> Inl e))))"

text \<open>The page size is a power of two, so masking its low bits rounds down to a multiple.\<close>

definition round_up_page :: "nat \<Rightarrow> nat \<Rightarrow> nat" where
  "round_up_page page n = (let page = (if page = 0 then 4096 else page) in (n + page - 1) div page * page)"

section \<open>Operations\<close>

definition next_counter :: "nat \<Rightarrow> nat" where
  "next_counter c = (let c = (c + 1) mod 0x8000 in if c = 0 then 1 else c)"

text \<open>\<open>listener\<close> and \<open>memory\<close>: what \<open>ensure_listener\<close> and \<open>create_memory_fd\<close> return.\<close>

definition shmget ::
    "(shm \<Rightarrow> (errno + unit) \<times> shm) \<Rightarrow> (errno + int) \<Rightarrow> nat \<Rightarrow> int \<Rightarrow> nat \<Rightarrow> shm \<Rightarrow> (errno + int) \<times> shm" where
  "shmget listener memory page k n s =
     (if BX_SHM_MAX_BYTES < n then (Inl EINVAL, s) else
      let (l, s) = listener s in
      case l of Inl e \<Rightarrow> (Inl e, s) | Inr _ \<Rightarrow>
      (case (if k \<noteq> IPC_PRIVATE then find (\<lambda>g. key g = k) (segments s) else None) of
         Some g \<Rightarrow> (Inr (id g), s)
       | None \<Rightarrow>
           if BX_SHM_MAX_SEGMENTS \<le> length (segments s) then (Inl ENOSPC, s) else
           (case memory of
              Inl e \<Rightarrow> (Inl e, s)
            | Inr d \<Rightarrow>
                let c = next_counter (counter s);
                    g = \<lparr>id = shmid_from_counter (socket_id s) c, fd = d,
                         bytes = round_up_page page (if n = 0 then 1 else n),
                         addr = 0, mapped = False, marked_for_deletion = False, key = k\<rparr> in
                (Inr (id g), s\<lparr>counter := c, segments := segments s @ [g], open_fds := open_fds s @ [d]\<rparr>))))"

text \<open>\<open>mapping\<close>: the answer of \<open>mmap\<close>; only the first attachment asks for one.\<close>

definition shmat :: "(errno + nat) \<Rightarrow> int \<Rightarrow> shm \<Rightarrow> (errno + nat) \<times> shm" where
  "shmat mapping shmid s =
     (case find_local_index shmid s of
        None \<Rightarrow> (Inl EINVAL, s)
      | Some i \<Rightarrow> let g = segments s ! i in
          if addr g \<noteq> 0 then (Inr (addr g), s)
          else (case mapping of
              Inl e \<Rightarrow> (Inl e, s)
            | Inr a \<Rightarrow> (Inr a, s\<lparr>segments := (segments s)[i := g\<lparr>addr := a, mapped := True\<rparr>],
                               mappings := mappings s @ [a]\<rparr>)))"

definition shmdt :: "bool \<Rightarrow> nat \<Rightarrow> shm \<Rightarrow> bool \<times> shm" where
  "shmdt unmapped a s =
     (let i = length (takeWhile (\<lambda>g. addr g \<noteq> a) (segments s)) in
      if length (segments s) \<le> i then (True, s)
      else if \<not> unmapped then (False, s)
      else let g = segments s ! i;
               s = s\<lparr>segments := (segments s)[i := g\<lparr>addr := 0, mapped := False\<rparr>],
                     mappings := remove1 a (mappings s)\<rparr> in
        (True, if marked_for_deletion g then delete_index i s else s))"

datatype shm_cmd = IPC_RMID | IPC_STAT | IPC_INFO | Other_cmd

text \<open>The buffer of \<open>IPC_STAT\<close>: size, attachments, mode; of \<open>IPC_INFO\<close>: the limits.\<close>

datatype shm_answer = Done_cmd | Stat nat nat nat | Limits nat nat nat nat nat

definition shmctl :: "int \<Rightarrow> shm_cmd \<Rightarrow> bool \<Rightarrow> shm \<Rightarrow> (errno + shm_answer) \<times> shm" where
  "shmctl shmid cmd has_buffer s =
     (if cmd = IPC_INFO then
        (Inr (if has_buffer then Limits BX_SHM_MAX_BYTES 1 BX_SHM_MAX_SEGMENTS BX_SHM_MAX_SEGMENTS
                (BX_SHM_MAX_BYTES div 4096) else Done_cmd), s)
      else case find_local_index shmid s of
        None \<Rightarrow> (if cmd = IPC_RMID then Inr Done_cmd else Inl EINVAL, s)
      | Some i \<Rightarrow> let g = segments s ! i in
          (case cmd of
             IPC_RMID \<Rightarrow> (Inr Done_cmd,
               if mapped g then s\<lparr>segments := (segments s)[i := g\<lparr>marked_for_deletion := True\<rparr>]\<rparr>
               else delete_index i s)
           | IPC_STAT \<Rightarrow> (if has_buffer then Inr (Stat (bytes g) (if mapped g then 1 else 0) 438) else Inl EINVAL, s)
           | _ \<Rightarrow> (Inl EINVAL, s)))"

section \<open>Nothing leaks\<close>

text \<open>
  The table and the kernel agree: the open memory files are those of the segments, the mapped
  addresses those of the attached segments, and a segment waits for deletion only while attached.
\<close>

definition segment_ok :: "segment \<Rightarrow> bool" where
  "segment_ok g \<longleftrightarrow> 0 \<le> fd g \<and> (mapped g \<longleftrightarrow> addr g \<noteq> 0) \<and> (marked_for_deletion g \<longrightarrow> mapped g)"

definition agrees :: "segment multiset \<Rightarrow> int list \<Rightarrow> nat list \<Rightarrow> bool" where
  "agrees G fds maps \<longleftrightarrow> (\<forall>g\<in>#G. segment_ok g) \<and> mset fds = image_mset fd G \<and>
     mset maps = image_mset addr (filter_mset (\<lambda>g. addr g \<noteq> 0) G)"

lemma agrees_add: "agrees (add_mset g G) (d # fds) maps \<Longrightarrow> agrees (add_mset g G) (fds @ [d]) maps"
  by (simp add: agrees_def)

lemma agrees_close:
  assumes "agrees (add_mset g G) fds maps" "addr g = 0"
  shows "agrees G (remove1 (fd g) fds) maps"
  using assms by (simp add: agrees_def)

lemma agrees_attach:
  assumes "agrees (add_mset g G) fds maps" "addr g = 0" "a \<noteq> 0"
  shows "agrees (add_mset (g\<lparr>addr := a, mapped := True\<rparr>) G) fds (maps @ [a])"
  using assms by (auto simp: agrees_def segment_ok_def)

lemma agrees_mark:
  assumes "agrees (add_mset g G) fds maps" "mapped g"
  shows "agrees (add_mset (g\<lparr>marked_for_deletion := True\<rparr>) G) fds maps"
  using assms by (auto simp: agrees_def segment_ok_def)

lemma agrees_detach:
  assumes "agrees (add_mset g G) fds maps" "addr g \<noteq> 0"
  shows "mset fds = image_mset fd (add_mset g G) \<and>
    mset (remove1 (addr g) maps) = image_mset addr (filter_mset (\<lambda>g. addr g \<noteq> 0) G) \<and>
    0 \<le> fd g \<and> (\<forall>h\<in>#G. segment_ok h)"
  using assms by (auto simp: agrees_def segment_ok_def)

definition shm_inv :: "shm \<Rightarrow> bool" where
  "shm_inv s \<longleftrightarrow> agrees (mset (segments s)) (open_fds s) (mappings s) \<and>
     length (segments s) \<le> BX_SHM_MAX_SEGMENTS \<and> (segments s \<noteq> [] \<longrightarrow> listening s)"

lemma shm_inv_agrees: "shm_inv s \<Longrightarrow> agrees (mset (segments s)) (open_fds s) (mappings s)"
  by (simp add: shm_inv_def)

lemma listener_keeps:
  assumes "ensure_listener sock free p l c s = (x, s')"
  shows "segments s' = segments s \<and> open_fds s' = open_fds s \<and> mappings s' = mappings s \<and> counter s' = counter s \<and>
    (listening s \<longrightarrow> s' = s) \<and> (x = Inr () \<longrightarrow> listening s')"
  using assms by (auto simp: ensure_listener_def Let_def split: if_splits sum.splits option.splits)

lemma find_local: "find_local_index shmid s = Some i \<Longrightarrow> i < length (segments s) \<and> id (segments s ! i) = shmid"
  using nth_length_takeWhile [of "\<lambda>g. id g \<noteq> shmid" "segments s"]
  by (auto simp: find_local_index_def Let_def split: if_splits)

lemma shm_inv_get:
  assumes "shm_inv s" "\<forall>d. memory = Inr d \<longrightarrow> 0 \<le> d"
  shows "shm_inv (snd (shmget (ensure_listener sock free p l c) memory page k n s))"
proof -
  obtain x s1 where x: "ensure_listener sock free p l c s = (x, s1)" by fastforce
  note keep = listener_keeps [OF x]
  have 1: "shm_inv s1" using assms(1) keep by (auto simp: shm_inv_def)
  show ?thesis
  proof (cases x)
    case (Inl e)
    then show ?thesis using 1 assms(1) by (simp add: shmget_def x)
  next
    case (Inr u)
    show ?thesis
    proof (cases memory)
      case (Inl e)
      then show ?thesis using 1 assms(1) Inr
        by (auto simp: shmget_def x split: option.split)
    next
      case (Inr d)
      have d: "0 \<le> d" using assms(2) Inr by simp
      have "agrees (add_mset g (mset (segments s1))) (open_fds s1 @ [d]) (mappings s1)"
        if "fd g = d" "addr g = 0" "\<not> mapped g" "\<not> marked_for_deletion g" for g
        using shm_inv_agrees [OF 1] that d by (auto simp: agrees_def segment_ok_def)
      then show ?thesis using 1 assms(1) Inr \<open>x = Inr u\<close> keep
        by (auto simp: shmget_def x shm_inv_def Let_def split: option.split)
    qed
  qed
qed

lemma shm_inv_at:
  assumes "shm_inv s" "\<forall>a. mapping = Inr a \<longrightarrow> a \<noteq> 0"
  shows "shm_inv (snd (shmat mapping shmid s))"
proof (cases "find_local_index shmid s")
  case None
  then show ?thesis using assms by (simp add: shmat_def)
next
  case (Some i)
  note i = find_local [OF Some]
  obtain M where M: "mset (segments s) = add_mset (segments s ! i) M"
    "\<And>v. mset ((segments s)[i := v]) = add_mset v M" by (rule mset_at [OF conjunct1 [OF i]]) blast
  show ?thesis
    using assms agrees_attach [of "segments s ! i" M "open_fds s" "mappings s"] M
    by (auto simp: shmat_def Some shm_inv_def Let_def split: sum.split)
qed

lemma shm_inv_delete:
  assumes "i < length (segments s)" "mset (segments s) = add_mset (segments s ! i) M"
    and "addr (segments s ! i) = 0" "0 \<le> fd (segments s ! i)"
    and "mset (open_fds s) = image_mset fd (mset (segments s))"
    and "mset (mappings s) = image_mset addr (filter_mset (\<lambda>g. addr g \<noteq> 0) M)" "\<forall>g\<in>#M. segment_ok g"
    and "length (segments s) \<le> BX_SHM_MAX_SEGMENTS" "listening s"
  shows "shm_inv (delete_index i s)"
proof -
  obtain N where N: "mset (segments s) = add_mset (segments s ! i) N"
    "mset (take i (segments s) @ drop (Suc i) (segments s)) = N" by (rule mset_at [OF assms(1)]) blast
  then have "N = M" using assms(2) by simp
  then show ?thesis using assms N(2) by (auto simp: delete_index_def shm_inv_def agrees_def Let_def)
qed

lemma shm_inv_dt:
  assumes "shm_inv s"
  shows "shm_inv (snd (shmdt ok a s))"
proof -
  define i where "i = length (takeWhile (\<lambda>g. addr g \<noteq> a) (segments s))"
  show ?thesis
  proof (cases "length (segments s) \<le> i \<or> \<not> ok")
    case True
    then show ?thesis using assms by (auto simp: shmdt_def i_def Let_def)
  next
    case False
    then have i: "i < length (segments s)" by simp
    let ?g = "segments s ! i" and ?s = "s\<lparr>segments := (segments s)[i := (segments s ! i)\<lparr>addr := 0, mapped := False\<rparr>],
      mappings := remove1 a (mappings s)\<rparr>"
    have a: "addr ?g = a"
      using nth_length_takeWhile [of "\<lambda>g. addr g \<noteq> a" "segments s"] i by (simp add: i_def)
    obtain M where M: "mset (segments s) = add_mset ?g M"
      "\<And>v. mset ((segments s)[i := v]) = add_mset v M" by (rule mset_at [OF i]) blast
    note ag = shm_inv_agrees [OF assms, unfolded M(1)]
    have run: "snd (shmdt ok a s) = (if marked_for_deletion ?g then delete_index i ?s else ?s)"
      using False i by (auto simp: shmdt_def i_def [symmetric] Let_def)
    have maps: "mset (remove1 a (mappings s)) = image_mset addr (filter_mset (\<lambda>g. addr g \<noteq> 0) M)"
      using ag a by (cases "a = 0") (auto simp: agrees_def intro!: diff_single_trivial)
    have fds: "mset (open_fds s) = image_mset fd (add_mset ?g M)" "0 \<le> fd ?g" "\<forall>h\<in>#M. segment_ok h"
      using ag by (auto simp: agrees_def segment_ok_def)
    have "shm_inv (delete_index i ?s)"
      by (rule shm_inv_delete [of i ?s M])
        (use i M fds maps assms in \<open>auto simp: shm_inv_def\<close>)
    moreover have "shm_inv ?s" if "\<not> marked_for_deletion ?g"
      using assms M(2) fds maps that by (auto simp: shm_inv_def agrees_def segment_ok_def)
    ultimately show ?thesis by (simp add: run)
  qed
qed

lemma shm_inv_ctl:
  assumes "shm_inv s"
  shows "shm_inv (snd (shmctl shmid cmd b s))"
proof (cases "find_local_index shmid s")
  case None
  then show ?thesis using assms by (simp add: shmctl_def)
next
  case (Some i)
  note i = find_local [OF Some]
  obtain M where M: "mset (segments s) = add_mset (segments s ! i) M"
    "\<And>v. mset ((segments s)[i := v]) = add_mset v M" by (rule mset_at [OF conjunct1 [OF i]]) blast
  note ag = shm_inv_agrees [OF assms, unfolded M(1)]
  have "shm_inv (delete_index i s)" if "\<not> mapped (segments s ! i)"
    by (rule shm_inv_delete [OF conjunct1 [OF i] M(1)])
      (use that ag assms M(1) i in \<open>auto simp: shm_inv_def agrees_def segment_ok_def\<close>)
  moreover have "shm_inv (s\<lparr>segments := (segments s)[i := (segments s ! i)\<lparr>marked_for_deletion := True\<rparr>]\<rparr>)"
    if "mapped (segments s ! i)"
    using agrees_mark [OF ag that] assms M(2) by (auto simp: shm_inv_def)
  ultimately show ?thesis using assms by (cases cmd) (auto simp: shmctl_def Some Let_def)
qed


section \<open>Identifiers\<close>

text \<open>
  \<open>shm_run n s\<close>: the process reaches \<open>s\<close> with \<open>n\<close> calls of \<open>shmget\<close>. New descriptors are not
  negative and new mappings not at NULL.
\<close>

inductive shm_run :: "nat \<Rightarrow> shm \<Rightarrow> bool" where
  start: "shm_run 0 initial_shm"
| get: "shm_run m s \<Longrightarrow> \<forall>d. memory = Inr d \<longrightarrow> 0 \<le> d \<Longrightarrow>
    shm_run (Suc m) (snd (shmget (ensure_listener sock free p l c) memory page k n s))"
| attach: "shm_run m s \<Longrightarrow> \<forall>a. mapping = Inr a \<longrightarrow> a \<noteq> 0 \<Longrightarrow> shm_run m (snd (shmat mapping shmid s))"
| detach: "shm_run m s \<Longrightarrow> shm_run m (snd (shmdt ok a s))"
| control: "shm_run m s \<Longrightarrow> shm_run m (snd (shmctl shmid cmd b s))"

lemma shm_run_inv: "shm_run n s \<Longrightarrow> shm_inv s"
  by (induction rule: shm_run.induct)
    (auto simp: shm_inv_get shm_inv_at shm_inv_dt shm_inv_ctl, simp add: shm_inv_def initial_shm_def agrees_def)

lemma shmid_inj:
  assumes "sock < 0x10000" "c < 0x8000" "d < 0x8000" "shmid_from_counter sock c = shmid_from_counter sock d"
  shows "c = d"
proof -
  have w: "(sock * 0x10000 + e mod 0x8000) mod 2 ^ 32 = sock * 0x10000 + e" if "e < 0x8000" for e
    using assms(1) that by simp
  show ?thesis using assms(4) unfolding shmid_from_counter_def w [OF assms(2)] w [OF assms(3)] Let_def
    using assms(1-3) by (auto split: if_splits)
qed

definition numbered :: "shm \<Rightarrow> bool" where
  "numbered s \<longleftrightarrow> socket_id s < 0x10000 \<and>
     (\<exists>cs. map id (segments s) = map (shmid_from_counter (socket_id s)) cs \<and> distinct cs \<and>
       (\<forall>c\<in>set cs. 1 \<le> c \<and> c \<le> counter s))"

lemma numbered_distinct:
  assumes "numbered s" "counter s < 0x8000"
  shows "distinct (map id (segments s))"
proof -
  obtain cs where cs: "map id (segments s) = map (shmid_from_counter (socket_id s)) cs" "distinct cs"
    "\<forall>c\<in>set cs. c < 0x8000" using assms by (fastforce simp: numbered_def)
  have "inj_on (shmid_from_counter (socket_id s)) (set cs)"
    using cs(3) assms(1) by (intro inj_onI) (auto simp: numbered_def intro: shmid_inj)
  then show ?thesis unfolding cs(1) using cs(2) by (simp add: distinct_map)
qed

lemma numbered_cong:
  "numbered s \<Longrightarrow> map id (segments s') = map id (segments s) \<Longrightarrow> socket_id s' = socket_id s \<Longrightarrow>
   counter s' = counter s \<Longrightarrow> numbered s'"
  by (simp add: numbered_def)

lemma map_id_update [simp]:
  "i < length gs \<Longrightarrow> id v = id (gs ! i) \<Longrightarrow> map id (gs[i := v]) = map id gs"
  by (simp add: map_update list_update_same_conv)

lemma numbered_delete:
  assumes "numbered s"
  shows "numbered (delete_index i s)"
proof -
  obtain cs where cs: "map id (segments s) = map (shmid_from_counter (socket_id s)) cs" "distinct cs"
    "\<forall>c\<in>set cs. 1 \<le> c \<and> c \<le> counter s" "socket_id s < 0x10000" using assms by (auto simp: numbered_def)
  let ?cs = "take i cs @ drop (Suc i) cs"
  have "map id (take i (segments s) @ drop (Suc i) (segments s)) = map (shmid_from_counter (socket_id s)) ?cs"
    using cs(1) by (simp add: take_map [symmetric] drop_map [symmetric])
  moreover have "distinct ?cs"
    using cs(2) set_take_disj_set_drop_if_distinct [of cs i "Suc i"] by simp
  moreover have "set ?cs \<subseteq> set cs" using set_take_subset set_drop_subset by fastforce
  ultimately show ?thesis using cs(3,4) unfolding numbered_def
    by (intro conjI exI [of _ ?cs]) (auto simp: delete_index_def Let_def)
qed

lemma numbered_at: "numbered s \<Longrightarrow> numbered (snd (shmat mapping shmid s))"
  by (auto simp: shmat_def Let_def intro!: numbered_cong [of s] dest!: find_local split: option.split sum.split)

lemma numbered_dt: "numbered s \<Longrightarrow> numbered (snd (shmdt ok a s))"
proof -
  assume s: "numbered s"
  define i where "i = length (takeWhile (\<lambda>g. addr g \<noteq> a) (segments s))"
  let ?s = "s\<lparr>segments := (segments s)[i := (segments s ! i)\<lparr>addr := 0, mapped := False\<rparr>],
    mappings := remove1 a (mappings s)\<rparr>"
  have "numbered ?s" if "i < length (segments s)"
    by (rule numbered_cong [OF s]) (use that in simp_all)
  then show ?thesis using s numbered_delete [of ?s i]
    by (auto simp: shmdt_def i_def [symmetric] Let_def)
qed

lemma numbered_ctl: "numbered s \<Longrightarrow> numbered (snd (shmctl shmid cmd b s))"
  by (cases cmd) (auto simp: shmctl_def Let_def numbered_delete intro!: numbered_cong [of s] dest!: find_local
      split: option.split)

lemma counter_kept:
  "counter (snd (shmat mapping shmid s)) = counter s" "counter (snd (shmdt ok a s)) = counter s"
  "counter (snd (shmctl shmid cmd b s)) = counter s"
  by (auto simp: shmat_def shmdt_def shmctl_def delete_index_def Let_def
      split: option.split sum.split shm_cmd.split)

lemma listener_socket:
  assumes "ensure_listener sock free p l c s = (x, s')" "numbered s" "segments s \<noteq> [] \<longrightarrow> listening s"
  shows "numbered s'"
proof (cases "listening s")
  case True
  then show ?thesis using assms by (simp add: ensure_listener_def)
next
  case False
  then have "segments s = []" using assms(3) by blast
  then have "segments s' = []" using listener_keeps [OF assms(1)] by simp
  moreover have "socket_id s' < 0x10000"
    using assms(1,2) False
    by (auto simp: ensure_listener_def probe_socket_def numbered_def Let_def split: sum.splits option.splits)
  ultimately show ?thesis by (simp add: numbered_def)
qed

lemma numbered_get:
  assumes "numbered s" "segments s \<noteq> [] \<longrightarrow> listening s" "counter s < 0x7fff"
    and "s' = snd (shmget (ensure_listener sock free p l c) memory page k n s)"
  shows "numbered s' \<and> counter s' \<le> Suc (counter s)"
proof -
  obtain x s1 where x: "ensure_listener sock free p l c s = (x, s1)" by fastforce
  have 1: "numbered s1" "counter s1 = counter s"
    using listener_socket [OF x assms(1,2)] listener_keeps [OF x] by simp_all
  have nc: "next_counter (counter s) = Suc (counter s)" using assms(3) by (simp add: next_counter_def)
  obtain cs where cs: "map id (segments s1) = map (shmid_from_counter (socket_id s1)) cs" "distinct cs"
    "\<forall>c\<in>set cs. 1 \<le> c \<and> c \<le> counter s1" "socket_id s1 < 0x10000" using 1 by (auto simp: numbered_def)
  have "numbered (s1\<lparr>counter := Suc (counter s), segments := segments s1 @ [g], open_fds := f\<rparr>)"
    if "id g = shmid_from_counter (socket_id s1) (Suc (counter s))" for g f
    unfolding numbered_def using cs that 1(2)
    by (intro conjI exI [of _ "cs @ [Suc (counter s)]"]) auto
  then show ?thesis
    using 1 assms(1,4) by (auto simp: shmget_def x nc Let_def split: sum.split option.split)
qed


lemma probe_all: "probe_socket (\<lambda>_. True) p = Some (p mod 0x10000)"
proof -
  have "[0..<4096::nat] = 0 # [1..<4096]" using upt_conv_Cons [of 0 "4096::nat"] by simp
  then show ?thesis by (simp add: probe_socket_def)
qed



section \<open>The life of a segment\<close>

lemma takeWhile_last:
  "\<forall>g\<in>set gs. P g \<Longrightarrow> \<not> P x \<Longrightarrow> length (takeWhile P (gs @ [x])) = length gs"
  by (induction gs) auto

lemma find_last: "\<forall>g\<in>set gs. \<not> P g \<Longrightarrow> P x \<Longrightarrow> find P (gs @ [x]) = Some x"
  by (induction gs) auto

lemma remove1_last: "x \<notin> set xs \<Longrightarrow> remove1 x (xs @ [x]) = xs"
  by (induction xs) auto

lemma find_new: "\<forall>g\<in>set gs. id g \<noteq> id x \<Longrightarrow> segments s = gs @ [x] \<Longrightarrow> find_local_index (id x) s = Some (length gs)"
  by (simp add: find_local_index_def takeWhile_last)

text \<open>
A new segment can be attached any number of times at one address with one mapping; after
  \<open>IPC_RMID\<close> it stays attached and is still handed out under its key; detaching it then frees its
  memory file, its mapping and its slot: the table and the kernel are as before.
\<close>
theorem shm_lifecycle:
  assumes "listening s" "find (\<lambda>g. key g = k) (segments s) = None" "length (segments s) < 64"
    and "n \<le> BX_SHM_MAX_BYTES" "0 \<le> d" "d \<notin> set (open_fds s)" "a \<noteq> 0" "a \<notin> set (mappings s)"
    and "\<forall>g\<in>set (segments s). addr g \<noteq> a"
    and "i = shmid_from_counter (socket_id s) (next_counter (counter s))" "\<forall>g\<in>set (segments s). id g \<noteq> i"
  shows "\<exists>s1 s2 s3. shmget (\<lambda>s. (Inr (), s)) (Inr d) page k n s = (Inr i, s1) \<and>
    shmat (Inr a) i s1 = (Inr a, s2) \<and> shmat m i s2 = (Inr a, s2) \<and>
    shmctl i IPC_RMID b s2 = (Inr Done_cmd, s3) \<and> shmat m i s3 = (Inr a, s3) \<and>
    (k \<noteq> IPC_PRIVATE \<longrightarrow> shmget (\<lambda>s. (Inr (), s)) memory page k n s3 = (Inr i, s3)) \<and>
    shmdt True a s3 = (True, s\<lparr>counter := next_counter (counter s)\<rparr>)"
proof -
  let ?gs = "segments s"
  define g where "g = \<lparr>id = i, fd = d, bytes = round_up_page page (if n = 0 then 1 else n),
    addr = 0, mapped = False, marked_for_deletion = False, key = k\<rparr>"
  define g2 where "g2 = g\<lparr>addr := a, mapped := True\<rparr>"
  define g3 where "g3 = g2\<lparr>marked_for_deletion := True\<rparr>"
  note g_defs = g_def g2_def g3_def
  define s1 where "s1 = s\<lparr>counter := next_counter (counter s), segments := ?gs @ [g], open_fds := open_fds s @ [d]\<rparr>"
  define s2 where "s2 = s1\<lparr>segments := ?gs @ [g2], mappings := mappings s @ [a]\<rparr>"
  define s3 where "s3 = s2\<lparr>segments := ?gs @ [g3]\<rparr>"
  have seg: "segments s1 = ?gs @ [g]" "segments s2 = ?gs @ [g2]" "segments s3 = ?gs @ [g3]"
    by (simp_all add: s1_def s2_def s3_def)
  have at: "find_local_index i s1 = Some (length ?gs)" "find_local_index i s2 = Some (length ?gs)"
    "find_local_index i s3 = Some (length ?gs)"
    using find_new [of ?gs g s1] find_new [of ?gs g2 s2] find_new [of ?gs g3 s3] assms(11) seg
    by (simp_all add: g_defs)
  have 1: "shmget (\<lambda>s. (Inr (), s)) (Inr d) page k n s = (Inr i, s1)"
    using assms(1-4,10) by (simp add: shmget_def s1_def g_def BX_SHM_MAX_SEGMENTS_def Let_def)
  have 2: "shmat (Inr a) i s1 = (Inr a, s2)"
  proof -
    have "addr g = 0" by (simp add: g_def)
    then show ?thesis by (simp add: shmat_def at seg Let_def) (simp add: s2_def s1_def g2_def)
  qed
  have 3: "shmat m i s2 = (Inr a, s2)" "shmat m i s3 = (Inr a, s3)"
    using assms(7) by (simp_all add: shmat_def at seg Let_def g_defs)
  have 4: "shmctl i IPC_RMID b s2 = (Inr Done_cmd, s3)"
    by (simp add: shmctl_def at seg Let_def s3_def g_defs)
  have 5: "shmget (\<lambda>s. (Inr (), s)) memory page k n s3 = (Inr i, s3)" if "k \<noteq> IPC_PRIVATE"
  proof -
    have "find (\<lambda>g. key g = k) (?gs @ [g3]) = Some g3"
      by (rule find_last) (use assms(2) in \<open>auto simp: find_None_iff g_defs\<close>)
    then show ?thesis using that assms(4) by (simp add: shmget_def seg) (simp add: g_defs)
  qed
  have len: "length (takeWhile (\<lambda>g. addr g \<noteq> a) (?gs @ [g3])) = length ?gs"
    by (rule takeWhile_last) (use assms(9) in \<open>simp_all add: g_defs\<close>)
  have 6: "shmdt True a s3 = (True, s\<lparr>counter := next_counter (counter s)\<rparr>)"
    using assms(5,6,8) len
    by (simp add: shmdt_def seg Let_def delete_index_def g_defs)
      (simp add: s3_def s2_def s1_def remove1_last)
  show ?thesis using 1 2 3 4 5 6 by blast
qed

theorem shm_lifecycle_witness:
  "\<exists>s1 s2 s3. shmat (Inr 4096) (shmid_from_counter 0 1) s1 = (Inr 4096, s2) \<and>
     shmctl (shmid_from_counter 0 1) IPC_RMID False s2 = (Inr Done_cmd, s3) \<and>
     shmdt True 4096 s3 = (True, initial_shm\<lparr>listening := True, counter := 1\<rparr>)"
proof -
  let ?s = "initial_shm\<lparr>listening := True\<rparr>"
  from shm_lifecycle [of ?s 5 100 7 4096 "shmid_from_counter 0 1" 4096 "Inl EINVAL" False "Inl EINVAL"]
  show ?thesis by (auto simp: initial_shm_def BX_SHM_MAX_BYTES_def next_counter_def)
qed



end
