(* ===== verification/RingBuffer.thy ===== *)
theory RingBuffer
  imports Prelude
begin

text \<open>
  The shared-memory ring of the GL transport, \<open>winlator/src/ring_buffer.c\<close> and
  \<open>include/ring_buffer.h\<close>: one producer and one consumer, free-running 32-bit positions
  \<open>head\<close> and \<open>tail\<close>, a power-of-two buffer.

  A busy wait is run on the list of the states that it observes (one for the position test, one
  for the status test of each turn); the result \<open>None\<close> means that it is still waiting.
\<close>

section \<open>State and accessors\<close>

record ring =
  head :: u32
  tail :: u32
  status :: u32
  buffer :: "byte list"
  bufferSize :: u32

definition RING_STATUS_IDLE :: u32 where "RING_STATUS_IDLE = 1"
definition RING_STATUS_EXIT :: u32 where "RING_STATUS_EXIT = 2"
definition RING_STATUS_WAIT :: u32 where "RING_STATUS_WAIT = 4"

definition RingBuffer_setHead :: "u32 \<Rightarrow> ring \<Rightarrow> ring" where
  "RingBuffer_setHead h r = r\<lparr>head := h\<rparr>"

definition RingBuffer_setTail :: "u32 \<Rightarrow> ring \<Rightarrow> ring" where
  "RingBuffer_setTail t r = r\<lparr>tail := t\<rparr>"

definition RingBuffer_setStatus :: "u32 \<Rightarrow> ring \<Rightarrow> ring" where
  "RingBuffer_setStatus s r = r\<lparr>status := status r OR s\<rparr>"

definition RingBuffer_unsetStatus :: "u32 \<Rightarrow> ring \<Rightarrow> ring" where
  "RingBuffer_unsetStatus s r = r\<lparr>status := status r AND NOT s\<rparr>"

definition RingBuffer_hasStatus :: "u32 \<Rightarrow> ring \<Rightarrow> bool" where
  "RingBuffer_hasStatus s r \<longleftrightarrow> status r AND s \<noteq> 0"

text \<open>\<open>RingBuffer_create\<close> on a mapping of the size that it asks for.\<close>

definition RingBuffer_getSHMemSize :: "u32 \<Rightarrow> u32" where
  "RingBuffer_getSHMemSize n = n + 16"

definition RingBuffer_create :: "u32 \<Rightarrow> ring" where
  "RingBuffer_create n = RingBuffer_setStatus RING_STATUS_IDLE
     \<lparr>head = 0, tail = 0, status = 0, buffer = replicate (unat n) 0, bufferSize = n\<rparr>"

definition RingBuffer_size :: "ring \<Rightarrow> u32" where
  "RingBuffer_size r = tail r - head r"

definition RingBuffer_freeSpace :: "ring \<Rightarrow> u32" where
  "RingBuffer_freeSpace r = bufferSize r - RingBuffer_size r"

section \<open>Waiting\<close>

fun RingBuffer_waitForRead :: "(ring \<times> ring) list \<Rightarrow> u32 \<Rightarrow> bool option" where
  "RingBuffer_waitForRead [] n = None"
| "RingBuffer_waitForRead ((r, r') # rs) n =
     (if RingBuffer_size r \<ge> n then Some True
      else if RingBuffer_hasStatus RING_STATUS_EXIT r' then Some False
      else RingBuffer_waitForRead rs n)"

fun RingBuffer_waitForWrite :: "(ring \<times> ring) list \<Rightarrow> u32 \<Rightarrow> bool option" where
  "RingBuffer_waitForWrite [] n = None"
| "RingBuffer_waitForWrite ((r, r') # rs) n =
     (if RingBuffer_freeSpace r \<ge> n then Some True
      else if RingBuffer_hasStatus RING_STATUS_EXIT r' then Some False
      else RingBuffer_waitForWrite rs n)"

section \<open>Reading and writing\<close>

definition ring_offset :: "u32 \<Rightarrow> ring \<Rightarrow> u32" where
  "ring_offset p r = p AND (bufferSize r - 1)"

text \<open>The bytes of \<open>memcpy\<close>, in one piece or in two around the end of the buffer.\<close>

definition copy_out :: "u32 \<Rightarrow> u32 \<Rightarrow> ring \<Rightarrow> byte list option" where
  "copy_out p n r = (let off = ring_offset p r in
     if off + n \<le> bufferSize r then mem_read (unat off) (unat n) (buffer r)
     else let start = bufferSize r - off in
       do { xs \<leftarrow> mem_read (unat off) (unat start) (buffer r);
            ys \<leftarrow> mem_read 0 (unat (n - start)) (buffer r);
            Some (xs @ ys) })"

definition copy_in :: "u32 \<Rightarrow> byte list \<Rightarrow> ring \<Rightarrow> byte list option" where
  "copy_in p data r = (let off = ring_offset p r; n = of_nat (length data) in
     if off + n \<le> bufferSize r then mem_write (unat off) data (buffer r)
     else let start = bufferSize r - off in
       do { b \<leftarrow> mem_write (unat off) (take (unat start) data) (buffer r);
            mem_write 0 (drop (unat start) data) b })"

text \<open>What follows the wait in \<open>RingBuffer_read\<close> and \<open>RingBuffer_write\<close>.\<close>

definition ring_read :: "nat \<Rightarrow> ring \<Rightarrow> (byte list \<times> ring) option" where
  "ring_read n r = do { xs \<leftarrow> copy_out (head r) (of_nat n) r;
     Some (xs, RingBuffer_setHead (head r + of_nat n) r) }"

definition ring_write :: "byte list \<Rightarrow> ring \<Rightarrow> ring option" where
  "ring_write data r = do { b \<leftarrow> copy_in (tail r) data r;
     Some (RingBuffer_setTail (tail r + of_nat (length data)) (r\<lparr>buffer := b\<rparr>)) }"

text \<open>\<open>Refused\<close> is the result \<open>false\<close>, \<open>Spinning\<close> a wait that goes on, \<open>Crash\<close> an access out of bounds.\<close>

datatype 'a ring_result = Refused | Spinning | Crash | Done 'a

definition RingBuffer_read :: "(ring \<times> ring) list \<Rightarrow> u32 \<Rightarrow> ring \<Rightarrow> (byte list \<times> ring) ring_result" where
  "RingBuffer_read obs n r =
     (if n > bufferSize r then Refused
      else case RingBuffer_waitForRead obs n of
        None \<Rightarrow> Spinning
      | Some False \<Rightarrow> Refused
      | Some True \<Rightarrow> (case ring_read (unat n) r of None \<Rightarrow> Crash | Some x \<Rightarrow> Done x))"

definition RingBuffer_write :: "(ring \<times> ring) list \<Rightarrow> byte list \<Rightarrow> ring \<Rightarrow> ring ring_result" where
  "RingBuffer_write obs data r =
     (if of_nat (length data) > bufferSize r then Refused
      else case RingBuffer_waitForWrite obs (of_nat (length data)) of
        None \<Rightarrow> Spinning
      | Some False \<Rightarrow> Refused
      | Some True \<Rightarrow> (case ring_write data r of None \<Rightarrow> Crash | Some x \<Rightarrow> Done x))"

text \<open>
  The macros \<open>RING_READ_BEGIN\<close>/\<open>RING_READ_END\<close>: the data (in place, or gathered in a
  temporary block) and the local \<open>ringHead\<close>; the second macro publishes it if it is positive.
\<close>

definition RING_READ_BEGIN :: "(ring \<times> ring) list \<Rightarrow> u32 \<Rightarrow> ring \<Rightarrow> (byte list \<times> u32) ring_result" where
  "RING_READ_BEGIN obs n r =
     (if n = 0 then Done ([], 0)
      else case RingBuffer_waitForRead obs n of
        None \<Rightarrow> Spinning
      | Some False \<Rightarrow> Done ([], 0)
      | Some True \<Rightarrow> (case copy_out (head r) n r of None \<Rightarrow> Crash | Some xs \<Rightarrow> Done (xs, head r + n)))"

definition RING_READ_END :: "u32 \<Rightarrow> ring \<Rightarrow> ring" where
  "RING_READ_END ringHead r = (if ringHead > 0 then RingBuffer_setHead ringHead r else r)"

definition RING_WRITE_BEGIN :: "(ring \<times> ring) list \<Rightarrow> u32 \<Rightarrow> ring \<Rightarrow> u32 ring_result" where
  "RING_WRITE_BEGIN obs n r =
     (if n = 0 then Done 0
      else case RingBuffer_waitForWrite obs n of
        None \<Rightarrow> Spinning
      | Some False \<Rightarrow> Done 0
      | Some True \<Rightarrow> Done (tail r + n))"

definition RING_WRITE_END :: "u32 \<Rightarrow> byte list \<Rightarrow> ring \<Rightarrow> ring option" where
  "RING_WRITE_END ringTail data r = do { b \<leftarrow> copy_in (tail r) data r;
     Some (if ringTail > 0 then RingBuffer_setTail ringTail (r\<lparr>buffer := b\<rparr>) else r\<lparr>buffer := b\<rparr>) }"

text \<open>\<open>RingBuffer_free\<close>: \<open>sharedData\<close> says whether that field is set, which \<open>RingBuffer_create\<close> never does.\<close>

definition RingBuffer_free :: "bool \<Rightarrow> ring \<Rightarrow> ring \<times> bool" where
  "RingBuffer_free sharedData r =
     (if sharedData then (RingBuffer_setStatus RING_STATUS_EXIT r, True) else (r, False))"

section \<open>Well-formed rings\<close>

definition ring_cap :: "ring \<Rightarrow> nat" where
  "ring_cap r = unat (bufferSize r)"

definition ring_ok :: "ring \<Rightarrow> bool" where
  "ring_ok r \<longleftrightarrow> (\<exists>k < 32. ring_cap r = 2 ^ k) \<and> length (buffer r) = ring_cap r \<and>
     RingBuffer_size r \<le> bufferSize r"

text \<open>The cell of position \<open>p\<close>, and the bytes between \<open>head\<close> and \<open>tail\<close>.\<close>

definition cell :: "u32 \<Rightarrow> nat \<Rightarrow> ring \<Rightarrow> nat" where
  "cell p i r = (unat p + i) mod ring_cap r"

definition ring_items :: "ring \<Rightarrow> byte list" where
  "ring_items r = map (\<lambda>i. buffer r ! cell (head r) i r) [0..<unat (RingBuffer_size r)]"

definition ring_room :: "ring \<Rightarrow> nat" where
  "ring_room r = unat (RingBuffer_freeSpace r)"

lemma length_ring_items [simp]: "length (ring_items r) = unat (RingBuffer_size r)"
  by (simp add: ring_items_def)

lemma nth_ring_items:
  "i < unat (RingBuffer_size r) \<Longrightarrow> ring_items r ! i = buffer r ! cell (head r) i r"
  by (simp add: ring_items_def)

lemma ring_cap_dvd: "ring_ok r \<Longrightarrow> ring_cap r dvd 2 ^ 32"
proof -
  assume "ring_ok r"
  then obtain k where "k < 32" "ring_cap r = 2 ^ k" by (auto simp: ring_ok_def)
  then show ?thesis using le_imp_power_dvd [of k 32 "2 :: nat"] by simp
qed

lemma ring_cap_pos: "ring_ok r \<Longrightarrow> 0 < ring_cap r \<and> ring_cap r \<le> 2 ^ 31"
proof -
  assume "ring_ok r"
  then obtain k where "k < 32" "ring_cap r = 2 ^ k" by (auto simp: ring_ok_def)
  moreover have "(2 :: nat) ^ k \<le> 2 ^ 31" using \<open>k < 32\<close> by (intro power_increasing) auto
  ultimately show ?thesis by simp
qed

lemma ring_offset_cell: "ring_ok r \<Longrightarrow> unat (ring_offset p r) = cell p 0 r"
proof -
  assume r: "ring_ok r"
  then obtain k where k: "k < 32" "ring_cap r = 2 ^ k" by (auto simp: ring_ok_def)
  have "bufferSize r = of_nat (ring_cap r)" by (simp add: ring_cap_def)
  then have "bufferSize r = 2 ^ k" using k by simp
  then have "ring_offset p r = p AND mask k"
    by (simp add: ring_offset_def mask_eq_exp_minus_1)
  then have "ring_offset p r = take_bit k p" by (simp only: take_bit_eq_mask)
  then have "unat (ring_offset p r) = take_bit k (unat p)"
    by (simp only: unsigned_take_bit_eq)
  then have "unat (ring_offset p r) = unat p mod 2 ^ k" by (simp only: take_bit_eq_mod)
  then show ?thesis using k by (simp add: cell_def)
qed

lemma cell_less: "ring_ok r \<Longrightarrow> cell p i r < ring_cap r"
  by (simp add: cell_def ring_cap_pos)

text \<open>Positions wrap at \<open>2 ^ 32\<close>, which the capacity divides.\<close>

lemma cell_add: "ring_ok r \<Longrightarrow> cell (p + of_nat j) i r = cell p (j + i) r"
proof -
  assume r: "ring_ok r"
  have "unat (p + of_nat j) = (unat p + j) mod 2 ^ 32"
    by (simp add: unat_word_ariths unat_of_nat mod_add_right_eq)
  then have "cell (p + of_nat j) i r = ((unat p + j) mod 2 ^ 32 + i) mod ring_cap r"
    by (simp add: cell_def)
  also have "\<dots> = ((unat p + j) mod 2 ^ 32 mod ring_cap r + i) mod ring_cap r"
    by (simp only: mod_add_left_eq)
  also have "(unat p + j) mod 2 ^ 32 mod ring_cap r = (unat p + j) mod ring_cap r"
    by (rule mod_mod_cancel [OF ring_cap_dvd [OF r]])
  finally show ?thesis by (simp add: cell_def mod_add_left_eq add.assoc)
qed

lemma cell_distinct: "ring_ok r \<Longrightarrow> i < j \<Longrightarrow> j - i < ring_cap r \<Longrightarrow> cell p i r \<noteq> cell p j r"
proof
  assume "ring_ok r" "i < j" "j - i < ring_cap r" "cell p i r = cell p j r"
  then have "ring_cap r dvd (unat p + j) - (unat p + i)"
    unfolding cell_def by (metis add_le_cancel_left less_imp_le_nat mod_eq_dvd_iff_nat)
  with \<open>i < j\<close> \<open>j - i < ring_cap r\<close> show False by (auto dest: dvd_imp_le)
qed

lemma ring_room_eq: "ring_ok r \<Longrightarrow> ring_room r = ring_cap r - length (ring_items r)"
  by (simp add: ring_ok_def ring_room_def RingBuffer_freeSpace_def ring_cap_def unat_sub)

lemma length_ring_items_le: "ring_ok r \<Longrightarrow> length (ring_items r) \<le> ring_cap r"
  by (simp add: ring_ok_def ring_cap_def word_le_nat_alt)

text \<open>The cells from position \<open>p\<close> on, in the order of the stream.\<close>

definition window :: "u32 \<Rightarrow> nat \<Rightarrow> ring \<Rightarrow> byte list" where
  "window p n r = map (\<lambda>i. buffer r ! cell p i r) [0..<n]"

lemma ring_items_window: "ring_items r = window (head r) (unat (tail r - head r)) r"
  by (simp add: ring_items_def window_def RingBuffer_size_def)

lemma length_window [simp]: "length (window p n r) = n"
  by (simp add: window_def)

lemma nth_window [simp]: "i < n \<Longrightarrow> window p n r ! i = buffer r ! cell p i r"
  by (simp add: window_def)

lemma offset_sum:
  assumes "ring_ok r" "n \<le> ring_cap r"
  shows "unat (ring_offset p r + of_nat n) = cell p 0 r + n"
    "ring_offset p r + of_nat n \<le> bufferSize r \<longleftrightarrow> cell p 0 r + n \<le> ring_cap r"
    "unat (bufferSize r - ring_offset p r) = ring_cap r - cell p 0 r"
proof -
  have o: "unat (ring_offset p r) = cell p 0 r" by (rule ring_offset_cell [OF assms(1)])
  have c: "cell p 0 r < ring_cap r" "ring_cap r \<le> 2 ^ 31"
    using cell_less [OF assms(1)] ring_cap_pos [OF assms(1)] by auto
  then have n: "unat (of_nat n :: u32) = n" using assms(2) by (simp add: unat_of_nat)
  have "cell p 0 r + n < 2 ^ 32" using c assms(2) by simp
  then show s: "unat (ring_offset p r + of_nat n) = cell p 0 r + n"
    using o n by (simp add: unat_word_ariths)
  show "ring_offset p r + of_nat n \<le> bufferSize r \<longleftrightarrow> cell p 0 r + n \<le> ring_cap r"
    using s by (simp add: word_le_nat_alt ring_cap_def)
  have "ring_offset p r \<le> bufferSize r" using o c by (simp add: word_le_nat_alt ring_cap_def)
  then show "unat (bufferSize r - ring_offset p r) = ring_cap r - cell p 0 r"
    using o by (simp add: unat_sub ring_cap_def)
qed

lemma cell_split:
  assumes "ring_ok r" "i < ring_cap r" "c = cell p 0 r"
  shows "cell p i r = (if c + i < ring_cap r then c + i else c + i - ring_cap r)"
proof -
  have c: "c < ring_cap r" using cell_less [OF assms(1)] assms(3) by simp
  have "cell p i r = (c + i) mod ring_cap r" by (simp add: assms(3) cell_def mod_add_left_eq)
  then show ?thesis using c assms(2) by (simp add: mod_if)
qed

lemma copy_out_window:
  assumes "ring_ok r" "n \<le> ring_cap r"
  shows "copy_out p (of_nat n) r = Some (window p n r)"
proof -
  note s = offset_sum [OF assms, of p]
  let ?N = "ring_cap r"
  define c0 where "c0 = cell p 0 r"
  note s = s [folded c0_def] and o = ring_offset_cell [OF assms(1), of p, folded c0_def]
    and cell = cell_split [OF assms(1) _ c0_def]
  have len: "length (buffer r) = ?N" using assms(1) by (simp add: ring_ok_def)
  have c: "c0 < ?N" "?N \<le> 2 ^ 31" using cell_less [OF assms(1)] ring_cap_pos [OF assms(1)] by (auto simp: c0_def)
  have n: "unat (of_nat n :: u32) = n" using c assms(2) by (simp add: unat_of_nat)
  show ?thesis
  proof (cases "c0 + n \<le> ?N")
    case True
    have "take n (drop c0 (buffer r)) = window p n r"
      using True len assms(2) by (intro nth_equalityI) (auto simp: cell)
    then show ?thesis
      using True s o n len
      by (simp add: copy_out_def Let_def)
  next
    case False
    have d: "unat ((of_nat n :: u32) - (bufferSize r - ring_offset p r)) = n - (?N - c0)"
      using s(3) n False by (simp add: unat_sub word_le_nat_alt)
    have "drop c0 (buffer r) @ take (n - (?N - c0)) (buffer r) = window p n r"
      using False len assms(2) c
      by (intro nth_equalityI) (auto simp: cell nth_append add.commute)
    then show ?thesis
      using False s(2,3) o d len c assms(2)
      by (simp add: copy_out_def Let_def mem_read_def)
  qed
qed

text \<open>Writing \<open>data\<close> at position \<open>p\<close> changes the cells \<open>p\<close>, ..., \<open>p + length data - 1\<close> and no other.\<close>

lemma copy_in_cells:
  assumes "ring_ok r" "length data \<le> ring_cap r"
  shows "\<exists>b. copy_in p data r = Some b \<and> length b = ring_cap r \<and>
     (\<forall>i < ring_cap r. b ! cell p i r = (if i < length data then data ! i else buffer r ! cell p i r))"
proof -
  let ?N = "ring_cap r" and ?n = "length data"
  note s = offset_sum [OF assms, of p]
  define c0 where "c0 = cell p 0 r"
  note s = s [folded c0_def] and o = ring_offset_cell [OF assms(1), of p, folded c0_def]
    and cell = cell_split [OF assms(1) _ c0_def]
  have len: "length (buffer r) = ?N" using assms(1) by (simp add: ring_ok_def)
  have c: "c0 < ?N" using cell_less [OF assms(1)] by (simp add: c0_def)
  show ?thesis
  proof (cases "c0 + ?n \<le> ?N")
    case True
    then have "copy_in p data r = Some (splice c0 data (buffer r))"
      using s(2) o len by (simp add: copy_in_def Let_def)
    then show ?thesis
      using True len assms(2) by (auto simp: cell nth_splice)
  next
    case False
    let ?b1 = "splice c0 (take (?N - c0) data) (buffer r)"
    have b1: "length ?b1 = ?N" using False len c by simp
    have "copy_in p data r = Some (splice 0 (drop (?N - c0) data) ?b1)"
      using False s(2,3) o len b1 c assms(2) by (simp add: copy_in_def Let_def mem_write_def)
    moreover have "splice 0 (drop (?N - c0) data) ?b1 ! cell p i r =
        (if i < ?n then data ! i else buffer r ! cell p i r)" if "i < ?N" for i
      using that False len c assms(2) b1 by (auto simp: cell nth_splice add.commute)
    ultimately show ?thesis using b1 c assms(2) by simp
  qed
qed

lemma ring_read_items:
  assumes "ring_ok r" "n \<le> length (ring_items r)"
  shows "\<exists>r'. ring_read n r = Some (take n (ring_items r), r') \<and> ring_ok r' \<and>
     ring_items r' = drop n (ring_items r) \<and> ring_room r' = ring_room r + n \<and> bufferSize r' = bufferSize r"
proof -
  have n: "n \<le> ring_cap r" using assms length_ring_items_le [OF assms(1)] by simp
  let ?r = "r\<lparr>head := head r + of_nat n\<rparr>"
  have le: "(of_nat n :: u32) \<le> tail r - head r"
    using assms(2) ring_cap_pos [OF assms(1)] n
    by (simp add: RingBuffer_size_def word_le_nat_alt unat_of_nat)
  have u: "unat (of_nat n :: u32) = n" using ring_cap_pos [OF assms(1)] n by (simp add: unat_of_nat)
  have size: "unat (RingBuffer_size ?r) = unat (RingBuffer_size r) - n"
    using le u unat_sub [OF le] by (simp add: RingBuffer_size_def diff_diff_eq)
  have ok: "ring_ok ?r"
    using assms(1) size
    by (auto simp: ring_ok_def ring_cap_def word_le_nat_alt)
  have items: "ring_items ?r = drop n (ring_items r)"
  proof (rule nth_equalityI)
    fix i assume "i < length (ring_items ?r)"
    then show "ring_items ?r ! i = drop n (ring_items r) ! i"
      using size assms(2) cell_add [OF assms(1), of "head r" n i]
      by (simp add: nth_ring_items cell_def ring_cap_def)
  qed (simp add: size)
  have "window (head r) n r = take n (ring_items r)"
    using assms(2) by (intro nth_equalityI) (auto simp: ring_items_def)
  then have "ring_read n r = Some (take n (ring_items r), ?r)"
    using copy_out_window [OF assms(1) n] by (simp add: ring_read_def RingBuffer_setHead_def)
  moreover have "ring_room ?r = ring_room r + n"
    using size assms(2) length_ring_items_le [OF assms(1)] ring_room_eq [OF ok] ring_room_eq [OF assms(1)]
    by (simp add: ring_cap_def)
  ultimately show ?thesis using ok items by simp
qed

lemma ring_write_items:
  assumes "ring_ok r" "length data \<le> ring_room r"
  shows "\<exists>r'. ring_write data r = Some r' \<and> ring_ok r' \<and>
     ring_items r' = ring_items r @ data \<and> ring_room r' + length data = ring_room r \<and>
     bufferSize r' = bufferSize r"
proof -
  let ?n = "length data" and ?m = "length (ring_items r)"
  have room: "?m + ?n \<le> ring_cap r"
    using assms ring_room_eq [OF assms(1)] length_ring_items_le [OF assms(1)] by simp
  obtain b where b: "copy_in (tail r) data r = Some b" "length b = ring_cap r"
    "\<And>i. i < ring_cap r \<Longrightarrow> b ! cell (tail r) i r = (if i < ?n then data ! i else buffer r ! cell (tail r) i r)"
    using copy_in_cells [OF assms(1), of data "tail r"] room by auto
  let ?r = "r\<lparr>buffer := b, tail := tail r + of_nat ?n\<rparr>"
  have tl: "cell (tail r) i r = cell (head r) (?m + i) r" for i
    using cell_add [OF assms(1), of "head r" ?m i] by (simp add: RingBuffer_size_def)
  have "ring_cap r < 2 ^ 32" using ring_cap_pos [OF assms(1)] by simp
  then have "unat ((tail r - head r) + of_nat ?n) = ?m + ?n"
    using room by (simp add: unat_word_ariths unat_of_nat RingBuffer_size_def mod_add_right_eq)
  then have size: "unat (RingBuffer_size ?r) = ?m + ?n"
    by (simp add: RingBuffer_size_def algebra_simps)
  have ok: "ring_ok ?r"
    using assms(1) b(2) size room by (auto simp: ring_ok_def ring_cap_def word_le_nat_alt)
  have "ring_items ?r = ring_items r @ data"
  proof (rule nth_equalityI)
    fix i assume i: "i < length (ring_items ?r)"
    have cl: "cell (head r) i ?r = cell (head r) i r" by (simp add: cell_def ring_cap_def)
    show "ring_items ?r ! i = (ring_items r @ data) ! i"
    proof (cases "i < ?m")
      case True
      have old: "b ! cell (head r) i r = buffer r ! cell (head r) i r"
      proof -
        have "cell (head r) i r = cell (tail r) (ring_cap r - ?m + i) r"
          using True room unfolding tl by (simp add: cell_def) (metis add.left_commute mod_add_self1)
        then show ?thesis using b(3) [of "ring_cap r - ?m + i"] True room by auto
      qed
      then show ?thesis using True size cl by (simp add: ring_items_def nth_append)
    next
      case False
      then have "cell (head r) i r = cell (tail r) (i - ?m) r" unfolding tl by simp
      moreover have lt: "i - ?m < ?n" using i size False by simp
      then have "b ! cell (tail r) (i - ?m) r = data ! (i - ?m)" using b(3) [of "i - ?m"] room by simp
      ultimately show ?thesis
        using False i size cl by (simp add: nth_ring_items nth_append)
    qed
  qed (simp add: size)
  moreover have "ring_room ?r + ?n = ring_room r"
    using room size ring_room_eq [OF ok] ring_room_eq [OF assms(1)] by (simp add: ring_cap_def)
  ultimately show ?thesis
    using b(1) ok by (simp add: ring_write_def RingBuffer_setTail_def)
qed

lemma RingBuffer_create_ok:
  "k < 32 \<Longrightarrow> ring_ok (RingBuffer_create (2 ^ k)) \<and> ring_items (RingBuffer_create (2 ^ k)) = []"
proof -
  assume k: "k < 32"
  then have "(2 :: nat) ^ k < 2 ^ 32" by (intro power_strict_increasing) auto
  then have "unat (of_nat (2 ^ k) :: u32) = 2 ^ k" by (simp only: unat_of_nat) simp
  then show ?thesis using k
    by (auto simp: ring_ok_def RingBuffer_create_def RingBuffer_setStatus_def ring_cap_def
      RingBuffer_size_def ring_items_def)
qed

section \<open>The contract of a bounded byte queue\<close>

locale bounded_fifo =
  fixes ok :: "'q \<Rightarrow> bool"
    and items :: "'q \<Rightarrow> 'a list"
    and room :: "'q \<Rightarrow> nat"
    and push :: "'a list \<Rightarrow> 'q \<Rightarrow> 'q option"
    and pop :: "nat \<Rightarrow> 'q \<Rightarrow> ('a list \<times> 'q) option"
  assumes push_law: "ok q \<Longrightarrow> length xs \<le> room q \<Longrightarrow>
      \<exists>q'. push xs q = Some q' \<and> ok q' \<and> items q' = items q @ xs \<and> room q' + length xs = room q"
    and pop_law: "ok q \<Longrightarrow> n \<le> length (items q) \<Longrightarrow>
      \<exists>q'. pop n q = Some (take n (items q), q') \<and> ok q' \<and> items q' = drop n (items q) \<and>
        room q' = room q + n"
begin

text \<open>
  Any interleaving of whole requests by the two ends, each made when its wait is over:
  \<open>Inl xs\<close> pushes, \<open>Inr n\<close> pops; a request whose turn has not come leaves the queue alone.
\<close>

fun run :: "('a list + nat) list \<Rightarrow> 'q \<Rightarrow> ('a list \<times> 'a list \<times> 'q) option" where
  "run [] q = Some ([], [], q)"
| "run (Inl xs # rs) q =
     (if length xs \<le> room q
      then do { q' \<leftarrow> push xs q; (s, g, q'') \<leftarrow> run rs q'; Some (xs @ s, g, q'') }
      else run rs q)"
| "run (Inr n # rs) q =
     (if n \<le> length (items q)
      then do { (ys, q') \<leftarrow> pop n q; (s, g, q'') \<leftarrow> run rs q'; Some (s, ys @ g, q'') }
      else run rs q)"

lemma run_fifo:
  "ok q \<Longrightarrow> \<exists>s g q'. run rs q = Some (s, g, q') \<and> ok q' \<and> items q @ s = g @ items q'"
proof (induction rs q rule: run.induct)
  case (2 xs rs q)
  show ?case
  proof (cases "length xs \<le> room q")
    case True
    from push_law [OF "2.prems" this] obtain q1
      where q1: "push xs q = Some q1" "ok q1" "items q1 = items q @ xs" by blast
    with "2.IH"(1) [OF True q1(1,2)] show ?thesis using True by auto
  qed (use 2 in simp)
next
  case (3 n rs q)
  show ?case
  proof (cases "n \<le> length (items q)")
    case True
    from pop_law [OF "3.prems" this] obtain q1
      where q1: "pop n q = Some (take n (items q), q1)" "ok q1" "items q1 = drop n (items q)" by blast
    from "3.IH"(1) [OF True q1(1) refl q1(2)] q1 obtain s g q'
      where r: "run rs q1 = Some (s, g, q')" "ok q'" "drop n (items q) @ s = g @ items q'" by auto
    have "items q @ s = (take n (items q) @ g) @ items q'"
      using r(3) by (metis append.assoc append_take_drop_id)
    then show ?thesis using True q1(1) r(1,2) by auto
  qed (use 3 in simp)
qed auto

lemma run_bounded: "ok q \<Longrightarrow> run rs q = Some (s, g, q') \<Longrightarrow>
    length (items q') + room q' = length (items q) + room q"
proof (induction rs q arbitrary: s g q' rule: run.induct)
  case (2 xs rs q)
  show ?case
  proof (cases "length xs \<le> room q")
    case True
    from push_law [OF "2.prems"(1) this] obtain q1
      where q1: "push xs q = Some q1" "ok q1" "items q1 = items q @ xs" "room q1 + length xs = room q" by blast
    with "2.IH"(1) [OF True q1(1,2)] "2.prems"(2) True show ?thesis by (fastforce split: bind_splits)
  qed (use 2 in simp)
next
  case (3 n rs q)
  show ?case
  proof (cases "n \<le> length (items q)")
    case True
    from pop_law [OF "3.prems"(1) this] obtain q1
      where q1: "pop n q = Some (take n (items q), q1)" "ok q1" "items q1 = drop n (items q)"
        "room q1 = room q + n" by blast
    with "3.IH"(1) [OF True q1(1) refl q1(2)] "3.prems"(2) True show ?thesis by (fastforce split: bind_splits)
  qed (use 3 in simp)
qed auto

end

interpretation rb: bounded_fifo ring_ok ring_items ring_room ring_write ring_read
proof
  show "ring_ok q \<Longrightarrow> length xs \<le> ring_room q \<Longrightarrow>
      \<exists>q'. ring_write xs q = Some q' \<and> ring_ok q' \<and> ring_items q' = ring_items q @ xs \<and>
        ring_room q' + length xs = ring_room q" for q xs
    using ring_write_items by blast
  show "ring_ok q \<Longrightarrow> n \<le> length (ring_items q) \<Longrightarrow>
      \<exists>q'. ring_read n q = Some (take n (ring_items q), q') \<and> ring_ok q' \<and>
        ring_items q' = drop n (ring_items q) \<and> ring_room q' = ring_room q + n" for q n
    using ring_read_items by blast
qed

text \<open>
C16: The ring is a first-in first-out byte queue. Starting from a fresh ring of any power-of-two
  size up to \<open>2 ^ 31\<close>, whatever the two ends do and however often the 32-bit positions and the
  buffer wrap around, no access is out of bounds, what was read followed by what is still in the
  ring is exactly what was written, and the ring never holds more than its capacity.
\<close>
theorem ring_is_fifo:
  assumes "k < 32"
  shows "\<exists>sent got r. rb.run reqs (RingBuffer_create (2 ^ k)) = Some (sent, got, r) \<and>
    sent = got @ ring_items r \<and> length (ring_items r) \<le> 2 ^ k"
proof -
  note c = RingBuffer_create_ok [OF assms]
  obtain s g r where r: "rb.run reqs (RingBuffer_create (2 ^ k)) = Some (s, g, r)" "ring_ok r"
    "s = g @ ring_items r"
    using rb.run_fifo [of "RingBuffer_create (2 ^ k)" reqs] c by auto
  have "ring_cap (RingBuffer_create (2 ^ k)) = 2 ^ k"
  proof -
    have "(2 :: nat) ^ k < 2 ^ 32" using assms by (intro power_strict_increasing) auto
    then have "unat (of_nat (2 ^ k) :: u32) = 2 ^ k" by (simp only: unat_of_nat) simp
    then show ?thesis by (simp add: ring_cap_def RingBuffer_create_def RingBuffer_setStatus_def)
  qed
  then have "length (ring_items r) \<le> 2 ^ k"
    using rb.run_bounded [OF _ r(1)] c ring_room_eq [of "RingBuffer_create (2 ^ k)"] by simp
  with r show ?thesis by blast
qed

theorem ring_is_fifo_witness:
  "\<exists>sent got r. rb.run [Inl [1, 2, 3], Inr 2, Inl [4, 5, 6], Inr 4] (RingBuffer_create (2 ^ 2))
     = Some (sent, got, r) \<and> sent = got @ ring_items r"
  using ring_is_fifo [of 2] by fastforce

section \<open>The zero-copy macros\<close>

text \<open>
\<open>RING_READ_BEGIN\<close> followed by \<open>RING_READ_END\<close> hands the consumer the next bytes of the
  stream, as \<open>RingBuffer_read\<close> does, but the advance is published only if the new position is not
  zero: when the 32-bit position wraps to exactly 0 the ring is left as it was, and the next read
  returns the same bytes again.
\<close>
theorem ring_read_macros:
  assumes "ring_ok r" "0 < n" "n \<le> length (ring_items r)"
    "RING_READ_BEGIN [(r, r)] (of_nat n) r = Done (xs, h)"
  shows "xs = take n (ring_items r) \<and>
     (if head r + of_nat n = 0 then RING_READ_END h r = r
      else ring_read n r = Some (xs, RING_READ_END h r))"
proof -
  have n: "n \<le> ring_cap r" using assms length_ring_items_le [OF assms(1)] by simp
  then have u: "unat (of_nat n :: u32) = n" using ring_cap_pos [OF assms(1)] by (simp add: unat_of_nat)
  then have nz: "(of_nat n :: u32) \<noteq> 0" using assms(2) by auto
  have le: "(of_nat n :: u32) \<le> RingBuffer_size r" using assms(3) u by (simp add: word_le_nat_alt)
  have w: "window (head r) n r = take n (ring_items r)"
    using assms(3) by (intro nth_equalityI) (auto simp: nth_ring_items)
  have "xs = take n (ring_items r)" "h = head r + of_nat n"
    using assms(4) nz le copy_out_window [OF assms(1) n, of "head r"] w
    by (auto simp: RING_READ_BEGIN_def)
  moreover from copy_out_window [OF assms(1) n, of "head r"] w
  have "ring_read n r = Some (take n (ring_items r), RingBuffer_setHead (head r + of_nat n) r)"
    by (simp add: ring_read_def)
  ultimately show ?thesis by (auto simp: RING_READ_END_def word_gt_0)
qed

definition wrapping_ring :: ring where
  "wrapping_ring = \<lparr>head = 0xFFFFFFFE, tail = 1, status = 1, buffer = [30, 0, 10, 20], bufferSize = 4\<rparr>"

lemma wrapping_ring_ok: "ring_ok wrapping_ring"
proof -
  have "ring_cap wrapping_ring = 2 ^ 2" by (simp add: ring_cap_def wrapping_ring_def)
  then show ?thesis
    unfolding ring_ok_def by (intro conjI exI [of _ 2]) (simp_all add: wrapping_ring_def RingBuffer_size_def ring_cap_def)
qed

theorem ring_read_macros_witness:
  "\<exists>xs h. RING_READ_BEGIN [(wrapping_ring, wrapping_ring)] 2 wrapping_ring = Done (xs, h) \<and>
     xs = [10, 20] \<and> RING_READ_END h wrapping_ring = wrapping_ring"
proof -
  have b: "RING_READ_BEGIN [(wrapping_ring, wrapping_ring)] (of_nat 2) wrapping_ring = Done ([10, 20], 0)"
    by (simp add: RING_READ_BEGIN_def wrapping_ring_def RingBuffer_size_def copy_out_def ring_offset_def
        mem_read_def Let_def)
  have "2 \<le> length (ring_items wrapping_ring)" "head wrapping_ring + of_nat 2 = 0"
    by (simp_all add: wrapping_ring_def RingBuffer_size_def)
  then show ?thesis using ring_read_macros [OF wrapping_ring_ok _ _ b] b by auto
qed

section \<open>Producer and consumer at the granularity of one byte\<close>

text \<open>
  The producer waits for room, copies byte by byte and then stores \<open>tail\<close>; the consumer waits
  for data, copies byte by byte and then stores \<open>head\<close>. \<open>sent\<close> and \<open>received\<close> are ghosts: the
  published and the consumed stream. Writing to position \<open>tail + i\<close> in this order is what the one or
  two \<open>memcpy\<close> of \<open>copy_in\<close> do.
\<close>

datatype producer = PIdle | PCopy "byte list" nat

datatype consumer = CIdle | CCopy nat "byte list"

record ring_sys =
  ring :: ring
  prod :: producer
  cons :: consumer
  sent :: "byte list"
  received :: "byte list"

inductive ring_step :: "ring_sys \<Rightarrow> ring_sys \<Rightarrow> bool" where
  p_start: "prod s = PIdle \<Longrightarrow> of_nat (length data) \<le> RingBuffer_freeSpace (ring s) \<Longrightarrow>
     of_nat (length data) \<le> bufferSize (ring s) \<Longrightarrow> length data < 2 ^ 32 \<Longrightarrow>
     ring_step s (s\<lparr>prod := PCopy data 0\<rparr>)"
| p_copy: "prod s = PCopy data i \<Longrightarrow> i < length data \<Longrightarrow>
     ring_step s (s\<lparr>ring := (ring s)\<lparr>buffer := (buffer (ring s))[cell (tail (ring s)) i (ring s) := data ! i]\<rparr>,
                    prod := PCopy data (Suc i)\<rparr>)"
| p_done: "prod s = PCopy data (length data) \<Longrightarrow>
     ring_step s (s\<lparr>ring := RingBuffer_setTail (tail (ring s) + of_nat (length data)) (ring s),
                    prod := PIdle, sent := sent s @ data\<rparr>)"
| c_start: "cons s = CIdle \<Longrightarrow> of_nat n \<le> RingBuffer_size (ring s) \<Longrightarrow> n < 2 ^ 32 \<Longrightarrow>
     ring_step s (s\<lparr>cons := CCopy n []\<rparr>)"
| c_copy: "cons s = CCopy n got \<Longrightarrow> length got < n \<Longrightarrow>
     ring_step s (s\<lparr>cons := CCopy n (got @ [buffer (ring s) ! cell (head (ring s)) (length got) (ring s)])\<rparr>)"
| c_done: "cons s = CCopy n got \<Longrightarrow> length got = n \<Longrightarrow>
     ring_step s (s\<lparr>ring := RingBuffer_setHead (head (ring s) + of_nat n) (ring s),
                    cons := CIdle, received := received s @ got\<rparr>)"

inductive ring_reachable :: "nat \<Rightarrow> ring_sys \<Rightarrow> bool" for k where
  start: "ring_reachable k
     \<lparr>ring = RingBuffer_create (2 ^ k), prod = PIdle, cons = CIdle, sent = [], received = []\<rparr>"
| step: "ring_reachable k s \<Longrightarrow> ring_step s t \<Longrightarrow> ring_reachable k t"

fun producer_ok :: "ring \<Rightarrow> producer \<Rightarrow> bool" where
  "producer_ok r PIdle \<longleftrightarrow> True"
| "producer_ok r (PCopy data i) \<longleftrightarrow> i \<le> length data \<and> length (ring_items r) + length data \<le> ring_cap r \<and>
     (\<forall>j < i. buffer r ! cell (tail r) j r = data ! j)"

fun consumer_ok :: "ring \<Rightarrow> consumer \<Rightarrow> bool" where
  "consumer_ok r CIdle \<longleftrightarrow> True"
| "consumer_ok r (CCopy n got) \<longleftrightarrow> n \<le> length (ring_items r) \<and> length got \<le> n \<and> prefix got (ring_items r)"

definition ring_inv :: "ring_sys \<Rightarrow> bool" where
  "ring_inv s \<longleftrightarrow> ring_ok (ring s) \<and> producer_ok (ring s) (prod s) \<and> consumer_ok (ring s) (cons s) \<and>
     received s @ ring_items (ring s) = sent s"

lemma cell_tail: "ring_ok r \<Longrightarrow> cell (tail r) i r = cell (head r) (length (ring_items r) + i) r"
  using cell_add [of r "head r" "length (ring_items r)" i] by (simp add: RingBuffer_size_def)

text \<open>A byte of the producer lands outside the unread region.\<close>

lemma ring_poke:
  assumes "ring_ok r" "length (ring_items r) + i < ring_cap r"
  shows "ring_ok (r\<lparr>buffer := (buffer r)[cell (tail r) i r := b]\<rparr>) \<and>
     ring_items (r\<lparr>buffer := (buffer r)[cell (tail r) i r := b]\<rparr>) = ring_items r \<and>
     (\<forall>j < ring_cap r. j \<noteq> i \<longrightarrow>
        (buffer r)[cell (tail r) i r := b] ! cell (tail r) j r = buffer r ! cell (tail r) j r) \<and>
     (buffer r)[cell (tail r) i r := b] ! cell (tail r) i r = b"
proof -
  let ?r = "r\<lparr>buffer := (buffer r)[cell (tail r) i r := b]\<rparr>"
  have same: "cell p j ?r = cell p j r" "ring_cap ?r = ring_cap r" "RingBuffer_size ?r = RingBuffer_size r" for p j
    by (simp_all add: cell_def ring_cap_def RingBuffer_size_def)
  have ok: "ring_ok ?r" using assms(1) same by (simp add: ring_ok_def)
  have "ring_items ?r = ring_items r"
  proof (rule nth_equalityI)
    fix j assume j: "j < length (ring_items ?r)"
    then have "cell (head r) j r \<noteq> cell (tail r) i r"
      using assms same cell_distinct [OF assms(1), of j "length (ring_items r) + i" "head r"]
      by (simp add: cell_tail)
    then show "ring_items ?r ! j = ring_items r ! j"
      using j same by (simp add: nth_ring_items)
  qed (simp add: same)
  moreover have "cell (tail r) j r \<noteq> cell (tail r) i r" if "j < ring_cap r" "j \<noteq> i" for j
  proof -
    have "j - i < ring_cap r" "i - j < ring_cap r" using that assms(2) by linarith+
    then show ?thesis
      using that(2) cell_distinct [OF assms(1), of i j "tail r"] cell_distinct [OF assms(1), of j i "tail r"]
      by (cases "i < j") auto
  qed
  moreover have "cell (tail r) i r < length (buffer r)"
    using cell_less [OF assms(1)] assms(1) by (simp add: ring_ok_def)
  ultimately show ?thesis using ok by (metis nth_list_update_eq nth_list_update_neq)
qed

lemma ring_advance_tail:
  assumes "ring_ok r" "length (ring_items r) + length data \<le> ring_cap r"
    "\<forall>j < length data. buffer r ! cell (tail r) j r = data ! j"
  shows "ring_ok (r\<lparr>tail := tail r + of_nat (length data)\<rparr>) \<and>
     ring_items (r\<lparr>tail := tail r + of_nat (length data)\<rparr>) = ring_items r @ data"
proof -
  let ?n = "length data" and ?m = "length (ring_items r)"
  let ?r = "r\<lparr>tail := tail r + of_nat ?n\<rparr>"
  have "ring_cap r < 2 ^ 32" using ring_cap_pos [OF assms(1)] by simp
  then have "unat ((tail r - head r) + of_nat ?n) = ?m + ?n"
    using assms(2) by (simp add: unat_word_ariths unat_of_nat RingBuffer_size_def mod_add_right_eq)
  then have size: "unat (RingBuffer_size ?r) = ?m + ?n"
    by (simp add: RingBuffer_size_def algebra_simps)
  have same: "cell p j ?r = cell p j r" for p j by (simp add: cell_def ring_cap_def)
  have "ring_ok ?r" using assms(1,2) size by (auto simp: ring_ok_def ring_cap_def word_le_nat_alt)
  moreover have "ring_items ?r = ring_items r @ data"
  proof (rule nth_equalityI)
    fix i assume i: "i < length (ring_items ?r)"
    show "ring_items ?r ! i = (ring_items r @ data) ! i"
    proof (cases "i < ?m")
      case True
      then show ?thesis using i same by (simp add: nth_ring_items nth_append)
    next
      case False
      then have "cell (head r) i r = cell (tail r) (i - ?m) r"
        using cell_tail [OF assms(1), of "i - ?m"] by simp
      moreover have "i - ?m < ?n" using False i size by simp
      ultimately show ?thesis using False i same assms(3) by (simp add: nth_ring_items nth_append)
    qed
  qed (simp add: size)
  ultimately show ?thesis by simp
qed

lemma ring_advance_head:
  assumes "ring_ok r" "n \<le> length (ring_items r)"
  shows "ring_ok (r\<lparr>head := head r + of_nat n\<rparr>) \<and>
     ring_items (r\<lparr>head := head r + of_nat n\<rparr>) = drop n (ring_items r)"
  using ring_read_items [OF assms] by (auto simp: ring_read_def RingBuffer_setHead_def split: bind_splits)

lemma ring_step_inv:
  assumes "ring_step s t" "ring_inv s"
  shows "ring_inv t"
  using assms
proof (induction rule: ring_step.induct)
  case (p_start s data)
  have ok: "ring_ok (ring s)" using p_start.prems by (simp add: ring_inv_def)
  have "unat (of_nat (length data) :: u32) = length data"
    using p_start.hyps(4) by (simp add: unat_of_nat)
  then have "length data \<le> ring_room (ring s)"
    using p_start.hyps(2) by (simp add: ring_room_def word_le_nat_alt)
  then have "length (ring_items (ring s)) + length data \<le> ring_cap (ring s)"
    using ring_room_eq [OF ok] length_ring_items_le [OF ok] by simp
  then show ?case using p_start.prems by (simp add: ring_inv_def)
next
  case (p_copy s data i)
  then have ok: "ring_ok (ring s)" "length (ring_items (ring s)) + i < ring_cap (ring s)"
    "length data \<le> ring_cap (ring s)" "\<forall>j < i. buffer (ring s) ! cell (tail (ring s)) j (ring s) = data ! j"
    by (auto simp: ring_inv_def)
  note poke = ring_poke [OF ok(1,2), of "data ! i"]
  show ?case
    using p_copy ok poke
    by (cases "cons s") (auto simp: ring_inv_def less_Suc_eq cell_def ring_cap_def)
next
  case (p_done s data)
  then have ok: "ring_ok (ring s)" "length (ring_items (ring s)) + length data \<le> ring_cap (ring s)"
    "\<forall>j < length data. buffer (ring s) ! cell (tail (ring s)) j (ring s) = data ! j"
    by (auto simp: ring_inv_def)
  note adv = ring_advance_tail [OF ok]
  have len: "length (ring_items (ring s)) \<le>
      length (ring_items (ring s\<lparr>tail := tail (ring s) + of_nat (length data)\<rparr>))"
    using adv by simp
  show ?case
    using p_done.prems adv len
    by (cases "cons s") (auto simp: ring_inv_def RingBuffer_setTail_def simp del: length_ring_items)
next
  case (c_start s n)
  have "unat (of_nat n :: u32) = n" using c_start.hyps(3) by (simp add: unat_of_nat)
  then show ?case using c_start by (auto simp: ring_inv_def word_le_nat_alt)
next
  case (c_copy s n got)
  let ?i = "length got" and ?items = "ring_items (ring s)"
  have i: "?i < length ?items" and p: "prefix got ?items" using c_copy by (auto simp: ring_inv_def)
  have "got @ [?items ! ?i] = take (Suc ?i) ?items"
    using i p by (metis append_eq_conv_conj prefix_def take_Suc_conv_app_nth)
  then have "prefix (got @ [buffer (ring s) ! cell (head (ring s)) ?i (ring s)]) ?items"
    using i by (metis length_ring_items nth_ring_items take_is_prefix)
  then show ?case using c_copy by (auto simp: ring_inv_def)
next
  case (c_done s n got)
  let ?items = "ring_items (ring s)"
  have ok: "ring_ok (ring s)" "n \<le> length ?items" "prefix got ?items"
    using c_done by (auto simp: ring_inv_def)
  note adv = ring_advance_head [OF ok(1,2)]
  have "got = take n ?items" using ok(3) c_done.hyps(2) by (auto simp: prefix_def)
  then have "received s @ got @ drop n ?items = sent s"
    using c_done.prems by (simp add: ring_inv_def)
  moreover have "producer_ok (ring s\<lparr>head := head (ring s) + of_nat n\<rparr>) (prod s)"
  proof (cases "prod s")
    case (PCopy data i)
    have "length (ring_items (ring s\<lparr>head := head (ring s) + of_nat n\<rparr>)) \<le> length ?items"
      using adv by simp
    then show ?thesis using c_done.prems PCopy
      by (auto simp: ring_inv_def cell_def ring_cap_def simp del: length_ring_items)
  qed simp
  ultimately show ?case using c_done.prems adv by (simp add: ring_inv_def RingBuffer_setHead_def)
qed

text \<open>
C14: The lock-free protocol is safe. In every state that any interleaving of a producer and a
  consumer can reach, copying one byte at a time with no lock, the bytes received so far followed by
  the unread bytes of the ring are exactly the bytes published so far, and what the consumer has
  copied of a request in progress is a prefix of the unread bytes: nothing is torn, lost, repeated
  or overwritten before it was read.
\<close>
theorem ring_concurrent_fifo:
  assumes "ring_reachable k s" "k < 32"
  shows "received s @ ring_items (ring s) = sent s \<and>
    (\<forall>n got. cons s = CCopy n got \<longrightarrow> prefix (received s @ got) (sent s))"
proof -
  have "ring_inv s"
    using assms
  proof (induction rule: ring_reachable.induct)
    case start
    then show ?case using RingBuffer_create_ok by (simp add: ring_inv_def)
  qed (blast intro: ring_step_inv)
  then show ?thesis by (auto simp: ring_inv_def) (metis same_prefix_prefix)
qed

inductive_cases ring_stepE: "ring_step s t"

theorem ring_concurrent_fifo_witness:
  "\<exists>s. ring_reachable 2 s \<and> sent s = [9] \<and> ring_items (ring s) = [9]"
proof -
  let ?s0 = "\<lparr>ring = RingBuffer_create (2 ^ 2), prod = PIdle, cons = CIdle, sent = [], received = []\<rparr>"
  let ?s1 = "?s0\<lparr>prod := PCopy [9] 0\<rparr>"
  have r0: "ring_reachable 2 ?s0" by (rule ring_reachable.start)
  have "ring_step ?s0 ?s1"
    by (rule ring_step.p_start)
      (simp_all add: RingBuffer_create_def RingBuffer_setStatus_def RingBuffer_freeSpace_def RingBuffer_size_def)
  with r0 have r1: "ring_reachable 2 ?s1" by (blast intro: ring_reachable.step)
  obtain s2 where s2: "ring_step ?s1 s2" "prod s2 = PCopy [9] 1" "sent s2 = []" "received s2 = []" "cons s2 = CIdle"
    using ring_step.p_copy [of ?s1 "[9]" 0] by fastforce
  with r1 have r2: "ring_reachable 2 s2" by (blast intro: ring_reachable.step)
  obtain s3 where s3: "ring_step s2 s3" "sent s3 = [9]" "received s3 = []"
    using ring_step.p_done [of s2 "[9]"] s2 by fastforce
  with r2 have r3: "ring_reachable 2 s3" by (blast intro: ring_reachable.step)
  then show ?thesis using ring_concurrent_fifo [OF r3] s3 by auto
qed

end
