(* ===== verification/Arrays.thy ===== *)
theory Arrays
  imports Prelude "HOL-Library.Multiset"
begin

text \<open>
  The growable arrays of \<open>winlator/src/arrays.c\<close>: the macro \<open>ENSURE_ARRAY_CAPACITY\<close>,
  \<open>ArrayList\<close>, \<open>IntArray\<close> and \<open>ArrayBuffer\<close>.

  A pointer is a number and NULL is 0. The \<open>cells\<close> of an array are its allocated block
  (\<open>None\<close> before the first allocation), so an access past the end of the block is \<open>None\<close>, the
  outcome of undefined behaviour; so is a size that an \<open>int\<close> cannot hold. Cells that \<open>realloc\<close>
  leaves uninitialised are shown as zero: no operation reads them before they are written.
\<close>

section \<open>Growing\<close>

type_synonym ptr = nat

abbreviation (input) NULL :: ptr where "NULL \<equiv> 0"

record 'a carray =
  asize :: nat
  capacity :: nat
  cells :: "'a list option"

definition new_array :: "'a carray" where
  "new_array = \<lparr>asize = 0, capacity = 0, cells = None\<rparr>"

definition fits_int :: "nat \<Rightarrow> bool" where
  "fits_int n \<longleftrightarrow> n < 2 ^ 31"

definition DEFAULT_ARRAY_CAPACITY :: nat where "DEFAULT_ARRAY_CAPACITY = 4"

definition block :: "'a carray \<Rightarrow> 'a list" where
  "block a = (case cells a of None \<Rightarrow> [] | Some b \<Rightarrow> b)"

lemma block_update [simp]:
  "block (a\<lparr>cells := Some b\<rparr>) = b" "block (a\<lparr>cells := Some b, asize := n\<rparr>) = b"
  "block (a\<lparr>asize := n\<rparr>) = block a"
  by (simp_all add: block_def)

text \<open>\<open>realloc\<close> to \<open>n\<close> cells and the \<open>memset\<close> of the new ones.\<close>

definition resize :: "'a \<Rightarrow> nat \<Rightarrow> 'a list \<Rightarrow> 'a list" where
  "resize z n xs = take n xs @ replicate (n - length xs) z"

definition grown_capacity :: "nat \<Rightarrow> nat \<Rightarrow> nat \<Rightarrow> nat" where
  "grown_capacity elementSize target cap =
     (let new = (if elementSize > 1
            then (if cap < DEFAULT_ARRAY_CAPACITY then DEFAULT_ARRAY_CAPACITY else cap + cap div 2)
            else 0)
      in if new < target then target else new)"

definition ensure_capacity :: "'a \<Rightarrow> nat \<Rightarrow> nat \<Rightarrow> 'a carray \<Rightarrow> 'a carray option" where
  "ensure_capacity z elementSize target a =
     (if \<not> fits_int target then None
      else if target \<le> capacity a then Some a
      else let new = grown_capacity elementSize target (capacity a) in
        if \<not> fits_int new then None
        else Some (a\<lparr>capacity := new, cells := Some (resize z new (block a))\<rparr>))"

definition arr_ok :: "'a carray \<Rightarrow> bool" where
  "arr_ok a \<longleftrightarrow> asize a \<le> capacity a \<and> fits_int (capacity a) \<and> length (block a) = capacity a"

definition items :: "'a carray \<Rightarrow> 'a list" where
  "items a = take (asize a) (block a)"

lemma length_resize [simp]: "length (resize z n xs) = n"
  by (simp add: resize_def)

lemma take_resize: "k \<le> length xs \<Longrightarrow> k \<le> n \<Longrightarrow> take k (resize z n xs) = take k xs"
  by (simp add: resize_def)

lemma new_array_ok [simp]: "arr_ok new_array" "items new_array = []"
  by (simp_all add: arr_ok_def new_array_def block_def fits_int_def items_def)

lemma length_items [simp]: "arr_ok a \<Longrightarrow> length (items a) = asize a"
  by (simp add: arr_ok_def items_def)

lemma grown_capacity_bounds:
  "target > cap \<Longrightarrow> target \<le> grown_capacity es target cap \<and> cap < grown_capacity es target cap \<and>
   grown_capacity es target cap \<le> max (max target 4) (cap + cap div 2)"
  by (auto simp: grown_capacity_def DEFAULT_ARRAY_CAPACITY_def Let_def)

text \<open>Growing keeps the contents and makes room; it cannot fail below a third of the range of \<open>int\<close>.\<close>

lemma ensure_capacity_ok:
  assumes "arr_ok a" "target < 2 ^ 30" "asize a < 2 ^ 30" "capacity a \<le> 2 ^ 30"
  shows "\<exists>a'. ensure_capacity z es target a = Some a' \<and> arr_ok a' \<and> items a' = items a \<and>
     asize a' = asize a \<and> target \<le> capacity a' \<and> capacity a \<le> capacity a' \<and>
     (cells a \<noteq> None \<or> 0 < target \<longrightarrow> cells a' \<noteq> None)"
proof (cases "target \<le> capacity a")
  case True
  have "0 < target \<longrightarrow> cells a \<noteq> None"
    using assms(1) True by (auto simp: arr_ok_def block_def split: option.splits)
  then show ?thesis using True assms by (auto simp: ensure_capacity_def fits_int_def)
next
  case False
  let ?n = "grown_capacity es target (capacity a)"
  have b: "target \<le> ?n" "capacity a < ?n" "?n \<le> max (max target 4) (capacity a + capacity a div 2)"
    using grown_capacity_bounds [of "capacity a" target es] False by auto
  then have "fits_int ?n" using assms(2,4) by (auto simp: fits_int_def)
  moreover have "take (asize a) (resize z ?n (block a)) = take (asize a) (block a)"
    using assms(1) b(2) by (intro take_resize) (auto simp: arr_ok_def)
  ultimately show ?thesis
    using False b assms(1,2)
    by (auto simp: ensure_capacity_def arr_ok_def items_def Let_def block_def fits_int_def)
qed

section \<open>ArrayList\<close>

type_synonym array_list = "ptr carray"

definition PTR_SIZE :: nat where "PTR_SIZE = 8"

definition ArrayList_indexOf :: "array_list \<Rightarrow> ptr \<Rightarrow> int" where
  "ArrayList_indexOf a e =
     (case find (\<lambda>i. block a ! i = e) [0..<asize a] of None \<Rightarrow> -1 | Some i \<Rightarrow> int i)"

definition ArrayList_add :: "ptr \<Rightarrow> array_list \<Rightarrow> array_list option" where
  "ArrayList_add e a =
     (if e = NULL then Some a
      else do {
        a \<leftarrow> ensure_capacity NULL PTR_SIZE (asize a + 1) a;
        b \<leftarrow> mem_set (asize a) e (block a);
        Some (a\<lparr>cells := Some b, asize := asize a + 1\<rparr>) })"

definition ArrayList_addAt :: "int \<Rightarrow> ptr \<Rightarrow> array_list \<Rightarrow> array_list option" where
  "ArrayList_addAt index e a =
     (if e = NULL then Some a
      else if index < 0 \<or> index \<ge> int (asize a) then ArrayList_add e a
      else let i = nat index in do {
        a \<leftarrow> ensure_capacity NULL PTR_SIZE (asize a + 1) a;
        b \<leftarrow> mem_move (i + 1) i (asize a - i) (block a);
        b \<leftarrow> mem_set i e b;
        Some (a\<lparr>cells := Some b, asize := asize a + 1\<rparr>) })"

fun fill_cells :: "nat \<Rightarrow> 'a \<Rightarrow> 'a carray \<Rightarrow> 'a carray option" where
  "fill_cells 0 e a = Some a"
| "fill_cells (Suc n) e a = do {
     b \<leftarrow> mem_set (asize a) e (block a);
     fill_cells n e (a\<lparr>cells := Some b, asize := asize a + 1\<rparr>) }"

definition ArrayList_fill :: "nat \<Rightarrow> ptr \<Rightarrow> array_list \<Rightarrow> array_list option" where
  "ArrayList_fill n e a =
     (if e = NULL then Some a
      else do { a \<leftarrow> ensure_capacity NULL PTR_SIZE (asize a + n) a; fill_cells n e a })"

definition ArrayList_removeAt :: "int \<Rightarrow> array_list \<Rightarrow> (ptr \<times> array_list) option" where
  "ArrayList_removeAt index a =
     (if index < 0 \<or> index \<ge> int (asize a) then Some (NULL, a)
      else let i = nat index; moved = asize a - i - 1 in do {
        e \<leftarrow> mem_get i (block a);
        b \<leftarrow> (if moved > 0 then mem_move i (i + 1) moved (block a) else Some (block a));
        b \<leftarrow> mem_set (asize a - 1) NULL b;
        Some (e, a\<lparr>cells := Some b, asize := asize a - 1\<rparr>) })"

definition ArrayList_remove :: "ptr \<Rightarrow> array_list \<Rightarrow> array_list option" where
  "ArrayList_remove e a = (let index = ArrayList_indexOf a e in
     if index \<noteq> -1 then map_option snd (ArrayList_removeAt index a) else Some a)"

text \<open>The pointers that are freed, in order, and the empty list.\<close>

definition ArrayList_free :: "bool \<Rightarrow> array_list \<Rightarrow> ptr list \<times> array_list" where
  "ArrayList_free freeValues a =
     ((if cells a \<noteq> None \<and> freeValues then filter (\<lambda>p. p \<noteq> NULL) (items a) else []),
      \<lparr>asize = 0, capacity = 0, cells = None\<rparr>)"

text \<open>\<open>strdup\<close> is taken to return the given fresh pointers.\<close>

fun ArrayList_fromStrings :: "ptr list \<Rightarrow> array_list \<Rightarrow> array_list option" where
  "ArrayList_fromStrings [] a = Some a"
| "ArrayList_fromStrings (p # ps) a = do { a \<leftarrow> ArrayList_add p a; ArrayList_fromStrings ps a }"

subsection \<open>Refinement to lists\<close>

datatype list_op = Add ptr | AddAt int ptr | Fill nat ptr | RemoveAt int | Remove ptr

fun arraylist_step :: "list_op \<Rightarrow> array_list \<Rightarrow> (ptr \<times> array_list) option" where
  "arraylist_step (Add e) a = map_option (Pair NULL) (ArrayList_add e a)"
| "arraylist_step (AddAt i e) a = map_option (Pair NULL) (ArrayList_addAt i e a)"
| "arraylist_step (Fill n e) a = map_option (Pair NULL) (ArrayList_fill n e a)"
| "arraylist_step (RemoveAt i) a = ArrayList_removeAt i a"
| "arraylist_step (Remove e) a = map_option (Pair NULL) (ArrayList_remove e a)"

fun list_step :: "list_op \<Rightarrow> ptr list \<Rightarrow> ptr \<times> ptr list" where
  "list_step (Add e) xs = (NULL, if e = NULL then xs else xs @ [e])"
| "list_step (AddAt i e) xs =
     (NULL, if e = NULL then xs
            else if i < 0 \<or> i \<ge> int (length xs) then xs @ [e]
            else take (nat i) xs @ e # drop (nat i) xs)"
| "list_step (Fill n e) xs = (NULL, if e = NULL then xs else xs @ replicate n e)"
| "list_step (RemoveAt i) xs =
     (if i < 0 \<or> i \<ge> int (length xs) then (NULL, xs)
      else (xs ! nat i, take (nat i) xs @ drop (Suc (nat i)) xs))"
| "list_step (Remove e) xs = (NULL, remove1 e xs)"

text \<open>An invariant under which growing always works: the capacity never exceeds \<open>2 ^ 30\<close>.\<close>

definition al_ok :: "'a carray \<Rightarrow> bool" where
  "al_ok a \<longleftrightarrow> arr_ok a \<and> capacity a \<le> 2 ^ 30"

lemma ensure_al:
  assumes "al_ok a" "target < 2 ^ 29"
  obtains a' where "ensure_capacity z es target a = Some a'" "al_ok a'" "items a' = items a"
    "asize a' = asize a" "target \<le> length (block a')" "take (asize a) (block a') = items a"
    "asize a \<le> length (block a')"
proof -
  obtain a' where e: "ensure_capacity z es target a = Some a'" "arr_ok a'" "items a' = items a"
    "asize a' = asize a" "target \<le> capacity a'"
  proof (cases "target \<le> capacity a")
    case True
    then have "ensure_capacity z es target a = Some a"
      using assms by (simp add: ensure_capacity_def fits_int_def)
    then show ?thesis using that assms True by (simp add: al_ok_def)
  next
    case False
    then have "asize a < 2 ^ 30" "capacity a \<le> 2 ^ 30" "target < 2 ^ 30"
      using assms by (auto simp: al_ok_def arr_ok_def)
    with ensure_capacity_ok [of a target z es] assms(1) show ?thesis
      using that by (auto simp: al_ok_def)
  qed
  have "capacity a' \<le> 2 ^ 30"
  proof (cases "target \<le> capacity a")
    case True
    then show ?thesis using e(1) assms by (auto simp: ensure_capacity_def al_ok_def split: if_splits)
  next
    case False
    then have "capacity a' = grown_capacity es target (capacity a)"
      using e(1) by (auto simp: ensure_capacity_def Let_def split: if_splits)
    moreover have "grown_capacity es target (capacity a) \<le> max (max target 4) (capacity a + capacity a div 2)"
      using grown_capacity_bounds [of "capacity a" target es] False by simp
    moreover have "max (max target 4) (capacity a + capacity a div 2) \<le> 2 ^ 30"
      using False assms(2) by simp
    ultimately show ?thesis by linarith
  qed
  then show ?thesis
    using that [of a'] e by (auto simp: al_ok_def arr_ok_def items_def)
qed

lemma ArrayList_add_items:
  assumes "al_ok a" "asize a + 1 < 2 ^ 29" "e \<noteq> NULL"
  shows "\<exists>a'. ArrayList_add e a = Some a' \<and> al_ok a' \<and> items a' = items a @ [e]"
proof -
  obtain a1 where a1: "ensure_capacity NULL PTR_SIZE (asize a + 1) a = Some a1" "al_ok a1"
    "asize a1 = asize a" "asize a + 1 \<le> length (block a1)" "take (asize a) (block a1) = items a"
    using ensure_al [OF assms(1,2)] by metis
  then show ?thesis
    using assms(3)
    by (auto simp: ArrayList_add_def mem_set_def al_ok_def arr_ok_def items_def block_def
        take_Suc_conv_app_nth split: option.splits)
qed

lemma ArrayList_addAt_items:
  assumes "al_ok a" "asize a + 1 < 2 ^ 29" "e \<noteq> NULL" "i < asize a"
  shows "\<exists>a'. ArrayList_addAt (int i) e a = Some a' \<and> al_ok a' \<and>
     items a' = take i (items a) @ e # drop i (items a)"
proof -
  obtain a1 where a1: "ensure_capacity NULL PTR_SIZE (asize a + 1) a = Some a1" "al_ok a1"
    "asize a1 = asize a" "asize a + 1 \<le> length (block a1)" "take (asize a) (block a1) = items a"
    using ensure_al [OF assms(1,2)] by metis
  let ?b = "(splice (Suc i) (take (asize a - i) (drop i (block a1))) (block a1))[i := e]"
  have "ArrayList_addAt (int i) e a = Some (a1\<lparr>cells := Some ?b, asize := asize a + 1\<rparr>)"
    using a1 assms(3,4)
    by (simp add: ArrayList_addAt_def mem_move_def mem_read_def mem_write_def mem_set_def)
  moreover have "take (Suc (asize a)) ?b = take i (items a) @ e # drop i (items a)"
    using a1(4,5) assms(4) take_move_up [of i "asize a" "block a1" e] by simp
  moreover have "length ?b = length (block a1)"
    using a1(4) assms(4) by simp
  ultimately show ?thesis
    using a1(2,4) by (auto simp: al_ok_def arr_ok_def items_def block_def)
qed

lemma fill_cells_items:
  assumes "arr_ok a" "asize a + n \<le> length (block a)"
  shows "\<exists>a'. fill_cells n e a = Some a' \<and> arr_ok a' \<and> items a' = items a @ replicate n e \<and>
     capacity a' = capacity a"
  using assms
proof (induction n arbitrary: a)
  case 0
  then show ?case by simp
next
  case (Suc n)
  let ?a = "a\<lparr>cells := Some ((block a)[asize a := e]), asize := asize a + 1\<rparr>"
  have ok: "arr_ok ?a" "asize ?a + n \<le> length (block ?a)"
    using Suc.prems by (auto simp: arr_ok_def)
  have "items ?a = items a @ [e]"
    using Suc.prems by (simp add: items_def take_Suc_conv_app_nth)
  with Suc.IH [OF ok] Suc.prems(2) show ?case
    by (auto simp: mem_set_def replicate_app_Cons_same)
qed

lemma ArrayList_fill_items:
  assumes "al_ok a" "asize a + n < 2 ^ 29" "e \<noteq> NULL"
  shows "\<exists>a'. ArrayList_fill n e a = Some a' \<and> al_ok a' \<and> items a' = items a @ replicate n e"
proof -
  obtain a1 where a1: "ensure_capacity NULL PTR_SIZE (asize a + n) a = Some a1" "al_ok a1"
    "asize a1 = asize a" "asize a + n \<le> length (block a1)" "items a1 = items a"
    using ensure_al [OF assms(1,2)] by metis
  then show ?thesis
    using fill_cells_items [of a1 n e] assms(3) by (auto simp: ArrayList_fill_def al_ok_def)
qed

lemma ArrayList_removeAt_items:
  assumes "al_ok a" "i < asize a"
  shows "\<exists>a'. ArrayList_removeAt (int i) a = Some (items a ! i, a') \<and> al_ok a' \<and>
     items a' = take i (items a) @ drop (Suc i) (items a)"
proof -
  have len: "asize a \<le> length (block a)" using assms(1) by (simp add: al_ok_def arr_ok_def)
  let ?b = "(splice i (take (asize a - i - 1) (drop (Suc i) (block a))) (block a))[asize a - 1 := NULL]"
  have lb: "length ?b = length (block a)" using len assms(2) by simp
  have "ArrayList_removeAt (int i) a = Some (block a ! i, a\<lparr>cells := Some ?b, asize := asize a - 1\<rparr>)"
  proof (cases "asize a - i - 1 > 0")
    case True
    then show ?thesis using len assms(2) lb
      by (simp add: ArrayList_removeAt_def mem_get_def mem_move_def mem_read_def mem_write_def mem_set_def Let_def)
  next
    case False
    then show ?thesis using len assms(2)
      by (simp add: ArrayList_removeAt_def mem_get_def mem_set_def Let_def)
  qed
  moreover have "take (asize a - 1) ?b = take i (items a) @ drop (Suc i) (items a)"
    using take_move_down [of i "asize a" "block a" NULL] len assms(2) by (simp add: items_def)
  moreover have "items a ! i = block a ! i" using assms(2) by (simp add: items_def)
  ultimately show ?thesis
    using assms lb by (auto simp: al_ok_def arr_ok_def items_def block_def)
qed

lemma find_upt:
  "find (\<lambda>i. xs ! i = e) [0..<length xs] = Some i \<Longrightarrow> i < length xs \<and> xs ! i = e \<and> (\<forall>j < i. xs ! j \<noteq> e)"
  by (auto simp: find_Some_iff)

lemma remove1_split:
  "i < length xs \<Longrightarrow> xs ! i = e \<Longrightarrow> (\<forall>j < i. xs ! j \<noteq> e) \<Longrightarrow>
   remove1 e xs = take i xs @ drop (Suc i) xs"
proof (induction xs arbitrary: i)
  case (Cons x xs)
  then show ?case
  proof (cases i)
    case (Suc k)
    moreover have "x \<noteq> e" using Cons.prems(3) Suc by auto
    moreover have "\<forall>j < k. xs ! j \<noteq> e" using Cons.prems(3) Suc by auto
    ultimately show ?thesis using Cons by simp
  qed simp
qed simp

lemma ArrayList_remove_items:
  assumes "al_ok a"
  shows "\<exists>a'. ArrayList_remove e a = Some a' \<and> al_ok a' \<and> items a' = remove1 e (items a)"
proof -
  have len: "asize a = length (items a)" "asize a \<le> length (block a)"
    using assms by (auto simp: al_ok_def arr_ok_def items_def)
  have f: "find (\<lambda>i. block a ! i = e) [0..<asize a] = find (\<lambda>i. items a ! i = e) [0..<length (items a)]"
    using len by (intro find_cong) (auto simp: items_def)
  show ?thesis
  proof (cases "find (\<lambda>i. items a ! i = e) [0..<length (items a)]")
    case None
    then have "e \<notin> set (items a)" by (auto simp: find_None_iff in_set_conv_nth)
    then show ?thesis
      using None f assms by (simp add: ArrayList_remove_def ArrayList_indexOf_def remove1_idem)
  next
    case (Some i)
    note s = find_upt [OF Some]
    then have "ArrayList_remove e a = map_option snd (ArrayList_removeAt (int i) a)"
      using Some f by (simp add: ArrayList_remove_def ArrayList_indexOf_def)
    then show ?thesis
      using ArrayList_removeAt_items [OF assms, of i] remove1_split [of i "items a" e] s len by auto
  qed
qed

fun growth :: "list_op \<Rightarrow> nat" where
  "growth (Add e) = 1"
| "growth (AddAt i e) = 1"
| "growth (Fill n e) = n"
| "growth _ = 0"

text \<open>
\<open>ArrayList\<close> implements lists. As long as it holds fewer than \<open>2 ^ 29\<close> elements, every
  operation (append, insert at an index, fill, remove at an index, remove a value, with their early
  returns for NULL and for indices out of range) stays inside the allocated block, keeps the
  representation well formed, and changes the contents as the corresponding operation on lists.
\<close>
theorem arraylist_refines_list:
  assumes "al_ok a" "asize a + growth oper < 2 ^ 29"
  shows "\<exists>r a'. arraylist_step oper a = Some (r, a') \<and> al_ok a' \<and>
     list_step oper (items a) = (r, items a')"
proof (cases oper)
  case (Add e)
  then show ?thesis
    using assms ArrayList_add_items [of a e] by (cases "e = 0") (auto simp: ArrayList_add_def)
next
  case (AddAt i e)
  have len: "length (items a) = asize a" using assms(1) by (simp add: al_ok_def)
  show ?thesis
  proof (cases "e = 0 \<or> i < 0 \<or> i \<ge> int (asize a)")
    case True
    then show ?thesis
      using AddAt assms len ArrayList_add_items [of a e]
      by (auto simp: ArrayList_addAt_def)
  next
    case False
    then obtain k where "i = int k" "k < asize a" by (metis int_nat_eq nat_less_iff not_less)
    then show ?thesis
      using AddAt assms len False ArrayList_addAt_items [of a e k] by auto
  qed
next
  case (Fill n e)
  then show ?thesis
    using assms ArrayList_fill_items [of a n e] by (cases "e = 0") (auto simp: ArrayList_fill_def)
next
  case (RemoveAt i)
  have len: "length (items a) = asize a" using assms(1) by (simp add: al_ok_def)
  show ?thesis
  proof (cases "i < 0 \<or> i \<ge> int (asize a)")
    case True
    then show ?thesis using RemoveAt assms len by (auto simp: ArrayList_removeAt_def)
  next
    case False
    then obtain k where "i = int k" "k < asize a" by (metis int_nat_eq nat_less_iff not_less)
    then show ?thesis using RemoveAt assms len ArrayList_removeAt_items [of a k] by auto
  qed
next
  case (Remove e)
  then show ?thesis using assms ArrayList_remove_items [of a e] by auto
qed

definition demo_list :: array_list where
  "demo_list = \<lparr>asize = 3, capacity = 4, cells = Some [11, 22, 33, 0]\<rparr>"

theorem arraylist_refines_list_witness:
  "\<exists>r a'. arraylist_step (AddAt 1 44) demo_list = Some (r, a') \<and> items a' = [11, 44, 22, 33]"
proof -
  have "al_ok demo_list" "asize demo_list + growth (AddAt 1 44) < 2 ^ 29"
    by (simp_all add: al_ok_def arr_ok_def demo_list_def block_def fits_int_def)
  from arraylist_refines_list [OF this] show ?thesis
    by (auto simp: demo_list_def items_def block_def)
qed

section \<open>IntArray\<close>

text \<open>
  The \<open>capacity\<close> of an \<open>IntArray\<close> counts bytes (the macro is used with element size 1), its
  \<open>cells\<close> are \<open>int\<close>s.
\<close>

type_synonym int_array = "int carray"

definition ensure_int_capacity :: "nat \<Rightarrow> int_array \<Rightarrow> int_array option" where
  "ensure_int_capacity target a =
     (if \<not> fits_int target then None
      else if target \<le> capacity a then Some a
      else let new = grown_capacity 1 target (capacity a) in
        Some (a\<lparr>capacity := new, cells := Some (resize 0 (new div 4) (block a))\<rparr>))"

definition IntArray_add :: "int \<Rightarrow> int_array \<Rightarrow> int_array option" where
  "IntArray_add v a = do {
     a \<leftarrow> ensure_int_capacity ((asize a + 1) * 4) a;
     b \<leftarrow> mem_set (asize a) v (block a);
     Some (a\<lparr>cells := Some b, asize := asize a + 1\<rparr>) }"

definition IntArray_addAt :: "int \<Rightarrow> int \<Rightarrow> int_array \<Rightarrow> int_array option" where
  "IntArray_addAt index v a =
     (if index < 0 \<or> index \<ge> int (asize a) then IntArray_add v a
      else let i = nat index in do {
        a \<leftarrow> ensure_int_capacity ((asize a + 1) * 4) a;
        b \<leftarrow> mem_move (i + 1) i (asize a - i) (block a);
        b \<leftarrow> mem_set i v b;
        Some (a\<lparr>cells := Some b, asize := asize a + 1\<rparr>) })"

fun put_ints :: "int list \<Rightarrow> int_array \<Rightarrow> int_array option" where
  "put_ints [] a = Some a"
| "put_ints (v # vs) a = do {
     b \<leftarrow> mem_set (asize a) v (block a);
     put_ints vs (a\<lparr>cells := Some b, asize := asize a + 1\<rparr>) }"

definition IntArray_addAll :: "int list \<Rightarrow> int_array \<Rightarrow> int_array option" where
  "IntArray_addAll vs a = do {
     a \<leftarrow> ensure_int_capacity ((asize a + length vs) * 4) a; put_ints vs a }"

text \<open>\<open>memdel\<close> on a block: \<open>None\<close> is NULL, when nothing would remain after the deleted part.\<close>

definition memdel :: "'a list \<Rightarrow> nat \<Rightarrow> nat \<Rightarrow> nat \<Rightarrow> 'a list option" where
  "memdel src n off del =
     (if int n - int off - int del \<le> 0 then None
      else Some (take off src @ take (n - off - del) (drop (off + del) src)))"

definition IntArray_clear :: "int_array \<Rightarrow> int_array" where
  "IntArray_clear a = (if cells a \<noteq> None then \<lparr>asize = 0, capacity = 0, cells = None\<rparr> else a)"

definition IntArray_remove :: "nat \<Rightarrow> nat \<Rightarrow> int_array \<Rightarrow> int_array" where
  "IntArray_remove off del a = (case memdel (block a) (asize a) off del of
      Some b \<Rightarrow> a\<lparr>cells := Some b, asize := asize a - del\<rparr>
    | None \<Rightarrow> if asize a \<le> 1 then IntArray_clear a else a)"

definition IntArray_removeAt :: "int \<Rightarrow> int_array \<Rightarrow> (int \<times> int_array) option" where
  "IntArray_removeAt index a =
     (if index < 0 \<or> index \<ge> int (asize a) then Some (-1, a)
      else do {
        v \<leftarrow> mem_get (nat index) (block a);
        Some (v, IntArray_remove (nat index) 1 a) })"

text \<open>\<open>intCompare\<close> subtracts; \<open>None\<close> is the overflow of the subtraction.\<close>

definition intCompare :: "int \<Rightarrow> int \<Rightarrow> int option" where
  "intCompare x y = (if in_int (x - y) then Some (x - y) else None)"

text \<open>
  \<open>qsort\<close> of the first \<open>size\<close> cells: with a comparison that is defined and a total preorder on the
  elements, the standard gives the ascending rearrangement. Values whose difference overflows make
  \<open>intCompare\<close> undefined.
\<close>

definition IntArray_sort :: "int_array \<Rightarrow> int_array option" where
  "IntArray_sort a = (let vs = take (asize a) (block a) in
     if list_all (\<lambda>x. list_all (\<lambda>y. intCompare x y \<noteq> None) vs) vs
     then Some (if cells a = None then a else a\<lparr>cells := Some (sort vs @ drop (asize a) (block a))\<rparr>)
     else None)"

text \<open>The block holds \<open>capacity div 4\<close> cells, as after every operation but a removal.\<close>

definition ia_ok :: "int_array \<Rightarrow> bool" where
  "ia_ok a \<longleftrightarrow> asize a * 4 \<le> capacity a \<and> fits_int (capacity a) \<and>
     length (block a) = capacity a div 4 \<and> (capacity a = 0 \<longleftrightarrow> cells a = None)"

lemma ensure_int_ok:
  assumes "ia_ok a" "target < 2 ^ 31" "target mod 4 = 0"
  shows "\<exists>a'. ensure_int_capacity target a = Some a' \<and> ia_ok a' \<and> items a' = items a \<and>
     asize a' = asize a \<and> target div 4 \<le> length (block a') \<and> target \<le> capacity a' \<and>
     take (asize a) (block a') = items a"
proof (cases "target \<le> capacity a")
  case True
  then show ?thesis
    using assms by (auto simp: ensure_int_capacity_def fits_int_def ia_ok_def items_def div_le_mono)
next
  case False
  have "grown_capacity 1 target (capacity a) = target" using False by (simp add: grown_capacity_def)
  moreover have "take (asize a) (resize 0 (target div 4) (block a)) = take (asize a) (block a)"
    using assms(1) False by (intro take_resize) (auto simp: ia_ok_def)
  ultimately show ?thesis
    using False assms by (auto simp: ensure_int_capacity_def ia_ok_def items_def Let_def fits_int_def)
qed

text \<open>
\<open>IntArray_add\<close> and \<open>IntArray_addAt\<close> insert one value at the end or at the index, growing
  the block; \<open>IntArray_removeAt\<close> returns the element of a valid index and deletes it, except that
  the last element of an array of two or more is returned and left in place.
\<close>
theorem intarray_insert_remove:
  assumes "ia_ok a" "(asize a + 1) * 4 < 2 ^ 31"
  shows "(\<exists>a'. IntArray_add v a = Some a' \<and> ia_ok a' \<and> items a' = items a @ [v]) \<and>
    (\<forall>i < asize a. \<exists>a'. IntArray_addAt (int i) v a = Some a' \<and> ia_ok a' \<and>
       items a' = take i (items a) @ v # drop i (items a)) \<and>
    (\<forall>i < asize a. \<exists>a'. IntArray_removeAt (int i) a = Some (items a ! i, a') \<and>
       items a' = (if i + 1 = asize a \<and> 2 \<le> asize a then items a
                   else take i (items a) @ drop (Suc i) (items a)))"
proof (intro conjI allI impI)
  obtain a1 where a1: "ensure_int_capacity ((asize a + 1) * 4) a = Some a1" "ia_ok a1" "asize a1 = asize a"
    "asize a + 1 \<le> length (block a1)" "(asize a + 1) * 4 \<le> capacity a1" "take (asize a) (block a1) = items a"
    using ensure_int_ok [OF assms] by auto
  show "\<exists>a'. IntArray_add v a = Some a' \<and> ia_ok a' \<and> items a' = items a @ [v]"
    using a1 by (auto simp: IntArray_add_def mem_set_def ia_ok_def items_def take_Suc_conv_app_nth)
  show "\<exists>a'. IntArray_addAt (int i) v a = Some a' \<and> ia_ok a' \<and>
       items a' = take i (items a) @ v # drop i (items a)" if "i < asize a" for i
  proof -
    let ?b = "(splice (Suc i) (take (asize a - i) (drop i (block a1))) (block a1))[i := v]"
    have "IntArray_addAt (int i) v a = Some (a1\<lparr>cells := Some ?b, asize := asize a + 1\<rparr>)"
      using a1 that
      by (simp add: IntArray_addAt_def mem_move_def mem_read_def mem_write_def mem_set_def)
    moreover have "take (Suc (asize a)) ?b = take i (items a) @ v # drop i (items a)"
      using a1(4,6) that take_move_up [of i "asize a" "block a1" v] by simp
    moreover have "length ?b = length (block a1)" using a1(4) that by simp
    ultimately show ?thesis using a1(2,5) by (auto simp: ia_ok_def items_def)
  qed
  show "\<exists>a'. IntArray_removeAt (int i) a = Some (items a ! i, a') \<and>
       items a' = (if i + 1 = asize a \<and> 2 \<le> asize a then items a
                   else take i (items a) @ drop (Suc i) (items a))" if i: "i < asize a" for i
  proof -
    have len: "asize a \<le> length (block a)" "cells a \<noteq> None"
      using assms(1) i by (auto simp: ia_ok_def)
    have "items (IntArray_remove i 1 a) = (if i + 1 = asize a \<and> 2 \<le> asize a then items a
        else take i (items a) @ drop (Suc i) (items a))"
    proof (cases "i + 1 = asize a")
      case True
      then show ?thesis using len
        by (auto simp: IntArray_remove_def memdel_def IntArray_clear_def items_def block_def)
    next
      case False
      then show ?thesis using len i
        by (auto simp: IntArray_remove_def memdel_def items_def min_def drop_take)
    qed
    then show ?thesis using len i
      by (auto simp: IntArray_removeAt_def mem_get_def items_def)
  qed
qed

definition demo_ints :: int_array where
  "demo_ints = \<lparr>asize = 3, capacity = 12, cells = Some [5, 6, 7]\<rparr>"

lemma demo_ints_ok: "ia_ok demo_ints \<and> (asize demo_ints + 1) * 4 < 2 ^ 31"
  by (simp add: ia_ok_def demo_ints_def block_def fits_int_def)

theorem intarray_insert_remove_witness:
  "\<exists>a'. IntArray_removeAt 2 demo_ints = Some (7, a') \<and> items a' = [5, 6, 7]"
proof -
  have "asize demo_ints = 3" "items demo_ints = [5, 6, 7]"
    by (simp_all add: demo_ints_def items_def block_def)
  with conjunct2 [OF conjunct2 [OF intarray_insert_remove [of demo_ints 0]], rule_format, of 2] demo_ints_ok
  show ?thesis by auto
qed

text \<open>
\<open>IntArray_remove\<close> replaces the block by one of exactly the remaining size but keeps the
  old \<open>capacity\<close>, so after the removal of \<open>del\<close> elements from the middle of a full array the next
  \<open>IntArray_add\<close> does not grow the block and writes past its end.
\<close>
lemma remove_then_add:
  assumes "ia_ok a" "0 < del" "off + del < asize a"
  shows "IntArray_add v (IntArray_remove off del a) = None"
proof -
  have len: "asize a \<le> length (block a)" using assms(1) by (auto simp: ia_ok_def)
  let ?b = "take off (block a) @ take (asize a - off - del) (drop (off + del) (block a))"
  have r: "IntArray_remove off del a = a\<lparr>cells := Some ?b, asize := asize a - del\<rparr>"
    using assms(3) by (simp add: IntArray_remove_def memdel_def)
  have "length ?b = asize a - del" using assms(3) len by simp
  moreover have "(asize a - del + 1) * 4 \<le> capacity a" "fits_int ((asize a - del + 1) * 4)"
  proof -
    have "asize a - del + 1 \<le> asize a" using assms(2,3) by linarith
    then have "(asize a - del + 1) * 4 \<le> asize a * 4" by (rule mult_le_mono1)
    then show "(asize a - del + 1) * 4 \<le> capacity a" "fits_int ((asize a - del + 1) * 4)"
      using assms(1) by (auto simp: ia_ok_def fits_int_def)
  qed
  ultimately show ?thesis
    unfolding r by (simp add: IntArray_add_def ensure_int_capacity_def mem_set_def)
qed

section \<open>ArrayBuffer\<close>

text \<open>
  A byte buffer that grows at the end and is read from \<open>position\<close>. The typed accesses are those
  of a little-endian machine; a \<open>float\<close> or \<open>double\<close> is its bit pattern.
\<close>

record array_buffer = "byte carray" +
  position :: nat

definition new_buffer :: array_buffer where
  "new_buffer = \<lparr>asize = 0, capacity = 0, cells = None, position = 0\<rparr>"

definition buffer_block :: "array_buffer \<Rightarrow> byte list" where
  "buffer_block a = (case cells a of None \<Rightarrow> [] | Some b \<Rightarrow> b)"

definition ensure_buffer :: "nat \<Rightarrow> array_buffer \<Rightarrow> array_buffer option" where
  "ensure_buffer target a =
     (if \<not> fits_int target then None
      else if target \<le> capacity a then Some a
      else let new = grown_capacity 1 target (capacity a) in
        Some (a\<lparr>capacity := new, cells := Some (resize 0 new (buffer_block a))\<rparr>))"

text \<open>\<open>ArrayBuffer_putBytes\<close>; a NULL source writes zeros.\<close>

definition ArrayBuffer_putBytes :: "byte list option \<Rightarrow> nat \<Rightarrow> array_buffer \<Rightarrow> array_buffer option" where
  "ArrayBuffer_putBytes src n a = do {
     a \<leftarrow> ensure_buffer (asize a + n) a;
     data \<leftarrow> (case src of None \<Rightarrow> Some (replicate n 0) | Some s \<Rightarrow> mem_read 0 n s);
     b \<leftarrow> mem_write (asize a) data (buffer_block a);
     Some (a\<lparr>cells := Some b, asize := asize a + n\<rparr>) }"

definition ARRAY_BUFFER_PUT_TYPE :: "nat \<Rightarrow> 'a::len word \<Rightarrow> array_buffer \<Rightarrow> array_buffer option" where
  "ARRAY_BUFFER_PUT_TYPE n v a = do {
     let target = asize a + n;
     a \<leftarrow> ensure_buffer target a;
     b \<leftarrow> mem_write (asize a) (le_bytes n v) (buffer_block a);
     Some (a\<lparr>cells := Some b, asize := target\<rparr>) }"

definition ARRAY_BUFFER_GET_TYPE :: "nat \<Rightarrow> array_buffer \<Rightarrow> ('a::len word \<times> array_buffer) option" where
  "ARRAY_BUFFER_GET_TYPE n a = do {
     bs \<leftarrow> mem_read (position a) n (buffer_block a);
     Some (le_word bs, a\<lparr>position := position a + n\<rparr>) }"

definition ArrayBuffer_put :: "byte \<Rightarrow> array_buffer \<Rightarrow> array_buffer option" where
  "ArrayBuffer_put v a = do {
     a \<leftarrow> ensure_buffer (asize a + 1) a;
     b \<leftarrow> mem_set (asize a) v (buffer_block a);
     Some (a\<lparr>cells := Some b, asize := asize a + 1\<rparr>) }"

definition ArrayBuffer_putShort :: "u16 \<Rightarrow> array_buffer \<Rightarrow> array_buffer option" where
  "ArrayBuffer_putShort v = ARRAY_BUFFER_PUT_TYPE 2 v"

definition ArrayBuffer_putInt :: "u32 \<Rightarrow> array_buffer \<Rightarrow> array_buffer option" where
  "ArrayBuffer_putInt v = ARRAY_BUFFER_PUT_TYPE 4 v"

definition ArrayBuffer_putLong :: "u64 \<Rightarrow> array_buffer \<Rightarrow> array_buffer option" where
  "ArrayBuffer_putLong v = ARRAY_BUFFER_PUT_TYPE 8 v"

definition ArrayBuffer_putFloat :: "u32 \<Rightarrow> array_buffer \<Rightarrow> array_buffer option" where
  "ArrayBuffer_putFloat v = ARRAY_BUFFER_PUT_TYPE 4 v"

definition ArrayBuffer_putDouble :: "u64 \<Rightarrow> array_buffer \<Rightarrow> array_buffer option" where
  "ArrayBuffer_putDouble v = ARRAY_BUFFER_PUT_TYPE 8 v"

text \<open>\<open>ArrayBuffer_putFloat2\<close>, \<open>3\<close> and \<open>4\<close>: all components after one growth.\<close>

definition ArrayBuffer_putFloats :: "u32 list \<Rightarrow> array_buffer \<Rightarrow> array_buffer option" where
  "ArrayBuffer_putFloats vs a = do {
     let target = asize a + length vs * 4;
     a \<leftarrow> ensure_buffer target a;
     b \<leftarrow> mem_write (asize a) (concat (map (le_bytes 4) vs)) (buffer_block a);
     Some (a\<lparr>cells := Some b, asize := target\<rparr>) }"

text \<open>\<open>formatted\<close> is what \<open>vsprintf\<close> writes; the local buffer has \<open>strlen (string) + 128\<close> bytes.\<close>

definition ArrayBuffer_putString :: "byte list \<Rightarrow> byte list \<Rightarrow> array_buffer \<Rightarrow> array_buffer option" where
  "ArrayBuffer_putString string formatted a =
     (if length formatted + 1 > length string + 128 then None
      else ArrayBuffer_putBytes (Some formatted) (length formatted) a)"

definition ArrayBuffer_get :: "array_buffer \<Rightarrow> (byte \<times> array_buffer) option" where
  "ArrayBuffer_get a = do {
     v \<leftarrow> mem_get (position a) (buffer_block a);
     Some (v, a\<lparr>position := position a + 1\<rparr>) }"

definition ArrayBuffer_getShort :: "array_buffer \<Rightarrow> (u16 \<times> array_buffer) option" where
  "ArrayBuffer_getShort = ARRAY_BUFFER_GET_TYPE 2"

definition ArrayBuffer_getInt :: "array_buffer \<Rightarrow> (u32 \<times> array_buffer) option" where
  "ArrayBuffer_getInt = ARRAY_BUFFER_GET_TYPE 4"

definition ArrayBuffer_getLong :: "array_buffer \<Rightarrow> (u64 \<times> array_buffer) option" where
  "ArrayBuffer_getLong = ARRAY_BUFFER_GET_TYPE 8"

definition ArrayBuffer_getFloat :: "array_buffer \<Rightarrow> (u32 \<times> array_buffer) option" where
  "ArrayBuffer_getFloat = ARRAY_BUFFER_GET_TYPE 4"

definition ArrayBuffer_getDouble :: "array_buffer \<Rightarrow> (u64 \<times> array_buffer) option" where
  "ArrayBuffer_getDouble = ARRAY_BUFFER_GET_TYPE 8"

text \<open>\<open>ArrayBuffer_getBytes\<close> with the read of the \<open>n\<close> bytes it points to.\<close>

definition ArrayBuffer_getBytes :: "nat \<Rightarrow> array_buffer \<Rightarrow> (byte list \<times> array_buffer) option" where
  "ArrayBuffer_getBytes n a = do {
     bs \<leftarrow> mem_read (position a) n (buffer_block a);
     Some (bs, a\<lparr>position := position a + n\<rparr>) }"

definition ArrayBuffer_skip :: "nat \<Rightarrow> array_buffer \<Rightarrow> array_buffer" where
  "ArrayBuffer_skip n a = a\<lparr>position := position a + n\<rparr>"

definition ArrayBuffer_available :: "array_buffer \<Rightarrow> int" where
  "ArrayBuffer_available a = int (asize a) - int (position a)"

definition ArrayBuffer_rewind :: "array_buffer \<Rightarrow> array_buffer" where
  "ArrayBuffer_rewind a = a\<lparr>position := 0, asize := 0\<rparr>"

definition ArrayBuffer_free :: "array_buffer \<Rightarrow> array_buffer" where
  "ArrayBuffer_free a = \<lparr>asize = 0, capacity = 0, cells = None, position = 0\<rparr>"

definition ArrayBuffer_copy :: "array_buffer \<Rightarrow> array_buffer \<Rightarrow> array_buffer option" where
  "ArrayBuffer_copy src dst = do {
     bs \<leftarrow> mem_read 0 (asize src) (buffer_block src);
     Some ((ArrayBuffer_free dst)\<lparr>cells := Some bs, capacity := asize src, asize := asize src\<rparr>) }"

subsection \<open>What is written is read back\<close>

datatype datum = I8 byte | I16 u16 | I32 u32 | I64 u64 | F32 u32 | F64 u64 | Raw "byte list"

fun put_datum :: "datum \<Rightarrow> array_buffer \<Rightarrow> array_buffer option" where
  "put_datum (I8 v) a = ArrayBuffer_put v a"
| "put_datum (I16 v) a = ArrayBuffer_putShort v a"
| "put_datum (I32 v) a = ArrayBuffer_putInt v a"
| "put_datum (I64 v) a = ArrayBuffer_putLong v a"
| "put_datum (F32 v) a = ArrayBuffer_putFloat v a"
| "put_datum (F64 v) a = ArrayBuffer_putDouble v a"
| "put_datum (Raw bs) a = ArrayBuffer_putBytes (Some bs) (length bs) a"

text \<open>Reading a datum of the same type (and length) as the given one.\<close>

fun get_datum :: "datum \<Rightarrow> array_buffer \<Rightarrow> (datum \<times> array_buffer) option" where
  "get_datum (I8 v) a = map_option (apfst I8) (ArrayBuffer_get a)"
| "get_datum (I16 v) a = map_option (apfst I16) (ArrayBuffer_getShort a)"
| "get_datum (I32 v) a = map_option (apfst I32) (ArrayBuffer_getInt a)"
| "get_datum (I64 v) a = map_option (apfst I64) (ArrayBuffer_getLong a)"
| "get_datum (F32 v) a = map_option (apfst F32) (ArrayBuffer_getFloat a)"
| "get_datum (F64 v) a = map_option (apfst F64) (ArrayBuffer_getDouble a)"
| "get_datum (Raw bs) a = map_option (apfst Raw) (ArrayBuffer_getBytes (length bs) a)"

fun datum_bytes :: "datum \<Rightarrow> byte list" where
  "datum_bytes (I8 v) = [v]"
| "datum_bytes (I16 v) = le_bytes 2 v"
| "datum_bytes (I32 v) = le_bytes 4 v"
| "datum_bytes (I64 v) = le_bytes 8 v"
| "datum_bytes (F32 v) = le_bytes 4 v"
| "datum_bytes (F64 v) = le_bytes 8 v"
| "datum_bytes (Raw bs) = bs"

fun put_data :: "datum list \<Rightarrow> array_buffer \<Rightarrow> array_buffer option" where
  "put_data [] a = Some a"
| "put_data (x # xs) a = do { a \<leftarrow> put_datum x a; put_data xs a }"

fun get_data :: "datum list \<Rightarrow> array_buffer \<Rightarrow> (datum list \<times> array_buffer) option" where
  "get_data [] a = Some ([], a)"
| "get_data (x # xs) a = do { (y, a) \<leftarrow> get_datum x a; (ys, a) \<leftarrow> get_data xs a; Some (y # ys, a) }"

definition ab_ok :: "array_buffer \<Rightarrow> bool" where
  "ab_ok a \<longleftrightarrow> asize a \<le> length (buffer_block a) \<and> length (buffer_block a) = capacity a"

definition content :: "array_buffer \<Rightarrow> byte list" where
  "content a = take (asize a) (buffer_block a)"

lemma ensure_buffer_ok:
  assumes "ab_ok a" "target < 2 ^ 31"
  shows "\<exists>a'. ensure_buffer target a = Some a' \<and> ab_ok a' \<and> content a' = content a \<and>
     asize a' = asize a \<and> target \<le> length (buffer_block a') \<and> position a' = position a \<and>
     take (asize a) (buffer_block a') = content a"
proof (cases "target \<le> capacity a")
  case True
  then show ?thesis using assms by (auto simp: ensure_buffer_def fits_int_def ab_ok_def content_def)
next
  case False
  have "grown_capacity 1 target (capacity a) = target" using False by (simp add: grown_capacity_def)
  moreover have "take (asize a) (resize 0 target (buffer_block a)) = take (asize a) (buffer_block a)"
    using assms(1) False by (intro take_resize) (auto simp: ab_ok_def)
  ultimately show ?thesis
    using False assms
    by (auto simp: ensure_buffer_def ab_ok_def content_def Let_def fits_int_def buffer_block_def)
qed

lemma append_bytes:
  assumes "ab_ok a" "asize a + length bs < 2 ^ 31"
  obtains a1 b where "ensure_buffer (asize a + length bs) a = Some a1" "asize a1 = asize a"
    "mem_write (asize a) bs (buffer_block a1) = Some b"
    "ab_ok (a1\<lparr>cells := Some b, asize := asize a + length bs\<rparr>)"
    "content (a1\<lparr>cells := Some b, asize := asize a + length bs\<rparr>) = content a @ bs"
    "position a1 = position a"
proof -
  obtain a1 where a1: "ensure_buffer (asize a + length bs) a = Some a1" "ab_ok a1" "asize a1 = asize a"
    "asize a + length bs \<le> length (buffer_block a1)" "position a1 = position a"
    "take (asize a) (buffer_block a1) = content a"
    using ensure_buffer_ok [OF assms] by metis
  let ?b = "splice (asize a) bs (buffer_block a1)"
  have "take (asize a + length bs) ?b = content a @ bs"
    using a1(4,6) take_splice_end [of "asize a" "buffer_block a1" bs] by simp
  then show ?thesis
    using a1 by (intro that [of a1 ?b]) (auto simp: ab_ok_def content_def buffer_block_def)
qed

lemma put_datum_content:
  assumes "ab_ok a" "asize a + length (datum_bytes x) < 2 ^ 31"
  shows "\<exists>a'. put_datum x a = Some a' \<and> ab_ok a' \<and> content a' = content a @ datum_bytes x \<and>
     position a' = position a \<and> asize a' = asize a + length (datum_bytes x)"
proof -
  obtain a1 b where s: "ensure_buffer (asize a + length (datum_bytes x)) a = Some a1" "asize a1 = asize a"
    "mem_write (asize a) (datum_bytes x) (buffer_block a1) = Some b"
    "ab_ok (a1\<lparr>cells := Some b, asize := asize a + length (datum_bytes x)\<rparr>)"
    "content (a1\<lparr>cells := Some b, asize := asize a + length (datum_bytes x)\<rparr>) = content a @ datum_bytes x"
    "position a1 = position a"
    by (rule append_bytes [OF assms])
  have "put_datum x a = Some (a1\<lparr>cells := Some b, asize := asize a + length (datum_bytes x)\<rparr>)"
    using s(1-3) by (cases x)
      (auto simp: ArrayBuffer_put_def ArrayBuffer_putShort_def ArrayBuffer_putInt_def
        ArrayBuffer_putLong_def ArrayBuffer_putFloat_def ArrayBuffer_putDouble_def
        ArrayBuffer_putBytes_def ARRAY_BUFFER_PUT_TYPE_def mem_ok splice_single)
  then show ?thesis using s by simp
qed

definition data_bytes :: "datum list \<Rightarrow> byte list" where
  "data_bytes xs = concat (map datum_bytes xs)"

lemma put_data_content:
  assumes "ab_ok a" "asize a + length (data_bytes xs) < 2 ^ 31"
  shows "\<exists>a'. put_data xs a = Some a' \<and> ab_ok a' \<and> content a' = content a @ data_bytes xs \<and>
     position a' = position a"
  using assms
proof (induction xs arbitrary: a)
  case Nil
  then show ?case by (simp add: data_bytes_def)
next
  case (Cons x xs)
  have len: "asize a + length (datum_bytes x) + length (data_bytes xs) < 2 ^ 31"
    using Cons.prems(2) by (simp add: data_bytes_def)
  then have "asize a + length (datum_bytes x) < 2 ^ 31" by simp
  from put_datum_content [OF Cons.prems(1) this] obtain a1
    where a1: "put_datum x a = Some a1" "ab_ok a1" "content a1 = content a @ datum_bytes x"
      "position a1 = position a" "asize a1 = asize a + length (datum_bytes x)" by blast
  then show ?case using Cons.IH [of a1] len by (auto simp: data_bytes_def)
qed

lemma get_datum_content:
  assumes "drop (position a) (buffer_block a) = datum_bytes x @ rest"
    "position a \<le> length (buffer_block a)"
  shows "get_datum x a = Some (x, a\<lparr>position := position a + length (datum_bytes x)\<rparr>) \<and>
     drop (position a + length (datum_bytes x)) (buffer_block a) = rest \<and>
     position a + length (datum_bytes x) \<le> length (buffer_block a)"
proof -
  let ?n = "length (datum_bytes x)"
  have "length (buffer_block a) - position a = ?n + length rest"
    using arg_cong [OF assms(1), of length] by simp
  then have len: "position a + ?n \<le> length (buffer_block a)" using assms(2) by linarith
  have rd: "mem_read (position a) ?n (buffer_block a) = Some (datum_bytes x)"
    using len assms(1) by simp
  have w: "le_word (le_bytes 2 (v2 :: u16)) = v2" "le_word (le_bytes 4 (v4 :: u32)) = v4"
    "le_word (le_bytes 8 (v8 :: u64)) = v8" for v2 v4 v8
    by (simp_all add: le_word_le_bytes)
  have "get_datum x a = Some (x, a\<lparr>position := position a + ?n\<rparr>)"
  proof (cases x)
    case (I8 v)
    then have "position a < length (buffer_block a)" "buffer_block a ! position a = v"
      using len assms(1) by (auto simp: nth_via_drop)
    then show ?thesis using I8 by (simp add: ArrayBuffer_get_def mem_ok)
  qed (use rd w in \<open>auto simp: ArrayBuffer_getShort_def ArrayBuffer_getInt_def ArrayBuffer_getLong_def
        ArrayBuffer_getFloat_def ArrayBuffer_getDouble_def ArrayBuffer_getBytes_def
        ARRAY_BUFFER_GET_TYPE_def simp del: mem_read_Some\<close>)
  moreover have "drop (position a + ?n) (buffer_block a) = rest"
    using assms(1) by (metis add.commute append_eq_conv_conj drop_drop)
  ultimately show ?thesis using len by simp
qed

lemma get_data_content:
  "drop (position a) (buffer_block a) = data_bytes xs @ rest \<Longrightarrow> position a \<le> length (buffer_block a) \<Longrightarrow>
   get_data xs a = Some (xs, a\<lparr>position := position a + length (data_bytes xs)\<rparr>)"
proof (induction xs arbitrary: a)
  case Nil
  then show ?case by (simp add: data_bytes_def)
next
  case (Cons x xs)
  let ?a = "a\<lparr>position := position a + length (datum_bytes x)\<rparr>"
  have "drop (position a) (buffer_block a) = datum_bytes x @ (data_bytes xs @ rest)"
    using Cons.prems(1) by (simp add: data_bytes_def)
  note g = get_datum_content [OF this Cons.prems(2)]
  have "buffer_block ?a = buffer_block a" by (simp add: buffer_block_def)
  with Cons.IH [of ?a] g show ?case by (simp add: data_bytes_def add.assoc)
qed

text \<open>
\<open>ArrayBuffer\<close> round trip. Whatever sequence of bytes, shorts, ints, longs, floats, doubles and
  byte strings (less than \<open>2 ^ 31\<close> bytes in all) is appended to an empty buffer, every write stays
  in bounds, and the matching sequence of reads returns the same values and leaves nothing available.
\<close>
theorem array_buffer_roundtrip:
  assumes "length (data_bytes xs) < 2 ^ 31"
  shows "\<exists>a b. put_data xs new_buffer = Some a \<and> get_data xs a = Some (xs, b) \<and>
     ArrayBuffer_available b = 0"
proof -
  have ok: "ab_ok new_buffer" "content new_buffer = []" "asize new_buffer = 0" "position new_buffer = 0"
    by (simp_all add: ab_ok_def new_buffer_def buffer_block_def content_def)
  obtain a where a: "put_data xs new_buffer = Some a" "ab_ok a" "content a = data_bytes xs" "position a = 0"
    using put_data_content [OF ok(1), of xs] ok assms by auto
  have "buffer_block a = data_bytes xs @ drop (asize a) (buffer_block a)"
    using a(3) by (metis append_take_drop_id content_def)
  then have "get_data xs a = Some (xs, a\<lparr>position := length (data_bytes xs)\<rparr>)"
    using get_data_content [of a xs "drop (asize a) (buffer_block a)"] a(4) by simp
  moreover have "asize a = length (data_bytes xs)"
    using a(2,3) by (metis ab_ok_def content_def length_take min.absorb2)
  ultimately show ?thesis using a(1) by (simp add: ArrayBuffer_available_def)
qed

theorem array_buffer_roundtrip_witness:
  "\<exists>a b. put_data [I8 1, I32 0xDEADBEEF, Raw [7, 8]] new_buffer = Some a \<and>
     get_data [I8 1, I32 0xDEADBEEF, Raw [7, 8]] a = Some ([I8 1, I32 0xDEADBEEF, Raw [7, 8]], b)"
  using array_buffer_roundtrip [of "[I8 1, I32 0xDEADBEEF, Raw [7, 8]]"]
  by (auto simp: data_bytes_def)

section \<open>Sorting\<close>

lemma compare_defined:
  assumes "\<forall>v\<in>set vs. \<bar>v\<bar> < 2 ^ 30"
  shows "list_all (\<lambda>x. list_all (\<lambda>y. intCompare x y \<noteq> None) vs) vs"
proof -
  have "intCompare x y \<noteq> None" if "x \<in> set vs" "y \<in> set vs" for x y
    using assms [rule_format, OF that(1)] assms [rule_format, OF that(2)]
    by (auto simp: intCompare_def in_int_def)
  then show ?thesis by (simp add: list_all_iff)
qed

text \<open>
\<open>IntArray_sort\<close> rearranges the elements of an array of values below 2^30 in absolute value into
  ascending order, keeps their number and multiplicity, and touches nothing beyond them; with two
  elements more than \<open>INT_MAX\<close> apart the comparison overflows and the result is undefined.
\<close>
theorem intarray_sort:
  assumes "ia_ok a"
  shows "((\<forall>v\<in>set (items a). \<bar>v\<bar> < 2 ^ 30) \<longrightarrow>
           (\<exists>b. IntArray_sort a = Some b \<and> ia_ok b \<and> sorted (items b) \<and> mset (items b) = mset (items a) \<and>
               drop (asize b) (block b) = drop (asize a) (block a))) \<and>
         ((\<exists>x\<in>set (items a). \<exists>y\<in>set (items a). \<not> in_int (x - y)) \<longrightarrow> IntArray_sort a = None)"
proof (intro conjI impI)
  have len: "asize a \<le> length (block a)" using assms by (auto simp: ia_ok_def)
  assume small: "\<forall>v\<in>set (items a). \<bar>v\<bar> < 2 ^ 30"
  show "\<exists>b. IntArray_sort a = Some b \<and> ia_ok b \<and> sorted (items b) \<and> mset (items b) = mset (items a) \<and>
               drop (asize b) (block b) = drop (asize a) (block a)"
    using compare_defined [OF small] assms len
    by (cases "cells a = None") (auto simp: IntArray_sort_def Let_def items_def ia_ok_def block_def)
next
  assume "\<exists>x\<in>set (items a). \<exists>y\<in>set (items a). \<not> in_int (x - y)"
  then show "IntArray_sort a = None"
    by (auto simp: IntArray_sort_def Let_def items_def list_all_iff intCompare_def)
qed

theorem intarray_sort_witness:
  "ia_ok demo_ints \<and> (\<exists>b. IntArray_sort demo_ints = Some b \<and> sorted (items b))"
  using intarray_sort [of demo_ints] demo_ints_ok
  by (simp add: demo_ints_def items_def block_def) blast

end
