(* ===== verification/ArrayMaps.thy ===== *)
theory ArrayMaps
  imports Arrays
begin

text \<open>
  The maps of \<open>winlator/src/arrays.c\<close>: \<open>SparseArray\<close> and \<open>SparseIntArray\<close> (sorted by an
  \<open>int\<close> key) and \<open>ArrayMap\<close> (strings sorted by hash code), with their binary searches.

  The contract of a finite map is the locale \<open>finite_map\<close>; it is interpreted on all three.
\<close>

section \<open>The contract of a finite map\<close>

datatype ('k, 'v) map_op = Put 'k 'v | Get 'k | Delete 'k

fun spec_run :: "'v \<Rightarrow> ('k, 'v) map_op list \<Rightarrow> ('k \<Rightarrow> 'v option) \<Rightarrow> 'v list \<times> ('k \<Rightarrow> 'v option)" where
  "spec_run d [] m = ([], m)"
| "spec_run d (Put k v # os) m = spec_run d os (m(k \<mapsto> v))"
| "spec_run d (Get k # os) m = (case spec_run d os m of (vs, m') \<Rightarrow>
     ((case m k of None \<Rightarrow> d | Some v \<Rightarrow> v) # vs, m'))"
| "spec_run d (Delete k # os) m = spec_run d os (m(k := None))"

locale finite_map =
  fixes ok :: "'m \<Rightarrow> bool"
    and lookup :: "'m \<Rightarrow> 'k \<Rightarrow> 'v option"
    and entries :: "'m \<Rightarrow> nat"
    and limit :: nat
    and default :: 'v
    and put :: "'k \<Rightarrow> 'v \<Rightarrow> 'm \<Rightarrow> 'm option"
    and get :: "'k \<Rightarrow> 'm \<Rightarrow> 'v option"
    and del :: "'k \<Rightarrow> 'm \<Rightarrow> 'm option"
  assumes put_law: "ok m \<Longrightarrow> entries m < limit \<Longrightarrow>
      \<exists>m'. put k v m = Some m' \<and> ok m' \<and> lookup m' = (lookup m)(k \<mapsto> v) \<and> entries m' \<le> Suc (entries m)"
    and get_law: "ok m \<Longrightarrow> get k m = Some (case lookup m k of None \<Rightarrow> default | Some v \<Rightarrow> v)"
    and del_law: "ok m \<Longrightarrow>
      \<exists>m'. del k m = Some m' \<and> ok m' \<and> lookup m' = (lookup m)(k := None) \<and> entries m' \<le> entries m"
begin

fun run :: "('k, 'v) map_op list \<Rightarrow> 'm \<Rightarrow> ('v list \<times> 'm) option" where
  "run [] m = Some ([], m)"
| "run (Put k v # os) m = do { m \<leftarrow> put k v m; run os m }"
| "run (Get k # os) m = do { v \<leftarrow> get k m; (vs, m) \<leftarrow> run os m; Some (v # vs, m) }"
| "run (Delete k # os) m = do { m \<leftarrow> del k m; run os m }"

lemma run_refines:
  "ok m \<Longrightarrow> entries m + length os \<le> limit \<Longrightarrow>
   \<exists>vs m'. run os m = Some (vs, m') \<and> ok m' \<and> spec_run default os (lookup m) = (vs, lookup m')"
proof (induction os arbitrary: m)
  case (Cons oper os)
  show ?case
  proof (cases oper)
    case (Put k v)
    have "entries m < limit" using Cons.prems(2) by simp
    from put_law [OF Cons.prems(1) this, of k v] obtain m1
      where m1: "put k v m = Some m1" "ok m1" "lookup m1 = (lookup m)(k \<mapsto> v)" "entries m1 \<le> Suc (entries m)"
      by blast
    then have "entries m1 + length os \<le> limit" using Cons.prems(2) by simp
    from Cons.IH [OF m1(2) this] show ?thesis using Put m1 by (auto simp del: fun_upd_apply)
  next
    case (Get k)
    have "entries m + length os \<le> limit" using Cons.prems(2) by simp
    from Cons.IH [OF Cons.prems(1) this] show ?thesis
      using Get get_law [OF Cons.prems(1), of k] by auto
  next
    case (Delete k)
    from del_law [OF Cons.prems(1), of k] obtain m1
      where m1: "del k m = Some m1" "ok m1" "lookup m1 = (lookup m)(k := None)" "entries m1 \<le> entries m"
      by blast
    then have "entries m1 + length os \<le> limit" using Cons.prems(2) by simp
    from Cons.IH [OF m1(2) this] show ?thesis using Delete m1 by (auto simp del: fun_upd_apply)
  qed
qed auto

end

section \<open>Binary search\<close>

text \<open>The loop of \<open>SPARSEARRAY_BINARY_SEARCH\<close> and \<open>ArrayMap_binarySearch\<close>; \<open>~lo\<close> is \<open>- lo - 1\<close>.\<close>

function binary_search :: "(nat \<Rightarrow> int) \<Rightarrow> int \<Rightarrow> int \<Rightarrow> int \<Rightarrow> int" where
  "binary_search f key lo hi =
     (if lo \<le> hi
      then let mid = (lo + hi) div 2 in
        if f (nat mid) < key then binary_search f key (mid + 1) hi
        else if f (nat mid) > key then binary_search f key lo (mid - 1)
        else mid
      else - lo - 1)"
  by pat_completeness auto
termination
  by (relation "measure (\<lambda>(f, key, lo, hi). nat (hi - lo + 1))") auto

declare binary_search.simps [simp del]

lemma binary_search_spec:
  assumes "\<And>i j. i \<le> j \<Longrightarrow> j < n \<Longrightarrow> f i \<le> f j"
    "0 \<le> lo" "lo \<le> hi + 1" "hi < int n"
    "\<And>i. int i < lo \<Longrightarrow> f i < key" "\<And>i. hi < int i \<Longrightarrow> i < n \<Longrightarrow> key < f i"
  shows "let r = binary_search f key lo hi in
    if 0 \<le> r then nat r < n \<and> f (nat r) = key
    else nat (- r - 1) \<le> n \<and> (\<forall>i < nat (- r - 1). f i < key) \<and> (\<forall>i. nat (- r - 1) \<le> i \<and> i < n \<longrightarrow> key < f i)"
  using assms
proof (induction f key lo hi rule: binary_search.induct)
  case (1 f key lo hi)
  note sorted = "1.prems"(1) and below = "1.prems"(5) and above = "1.prems"(6)
  let ?mid = "(lo + hi) div 2"
  show ?case
  proof (cases "lo \<le> hi")
    case False
    then have "binary_search f key lo hi = - lo - 1" "hi = lo - 1"
      using "1.prems"(3) by (simp_all add: binary_search.simps)
    moreover obtain k where "lo = int k" using "1.prems"(2) nonneg_int_cases by blast
    ultimately show ?thesis using "1.prems"(4) below above by auto
  next
    case True
    then have mid: "lo \<le> ?mid" "?mid \<le> hi" "nat ?mid < n" "int (nat ?mid) = ?mid"
      using "1.prems"(2,4) by auto
    consider (less) "f (nat ?mid) < key" | (greater) "f (nat ?mid) > key" | (found) "f (nat ?mid) = key"
      by linarith
    then show ?thesis
    proof cases
      case less
      have "f i < key" if "int i < ?mid + 1" for i
      proof -
        have "i \<le> nat ?mid" using that mid by linarith
        from le_less_trans [OF sorted [OF this mid(3)] less] show ?thesis .
      qed
      moreover have "binary_search f key lo hi = binary_search f key (?mid + 1) hi"
        using True less by (subst binary_search.simps) (simp add: Let_def)
      ultimately show ?thesis
        using "1.IH"(1) [OF True refl less] sorted above "1.prems"(2,4) mid(1,2) by simp
    next
      case greater
      have "key < f i" if "?mid - 1 < int i" "i < n" for i
      proof -
        have "nat ?mid \<le> i" using that mid by linarith
        from less_le_trans [OF greater sorted [OF this that(2)]] show ?thesis .
      qed
      moreover have "binary_search f key lo hi = binary_search f key lo (?mid - 1)"
        using True greater by (subst binary_search.simps) (simp add: Let_def)
      moreover have "\<not> f (nat ?mid) < key" using greater by simp
      ultimately show ?thesis
        using "1.IH"(2) [OF True refl _ greater] sorted below "1.prems"(2,4) mid(1,2) by simp
    next
      case found
      then have "binary_search f key lo hi = ?mid"
        using True by (simp add: binary_search.simps)
      then show ?thesis using found mid "1.prems"(2) by simp
    qed
  qed
qed

section \<open>Blocks of entries\<close>

text \<open>
  What \<open>put\<close> and \<open>removeAt\<close> do to the block, in all three classes: \<open>z\<close> is the zeroed entry.
\<close>

definition insert_entry :: "'e \<Rightarrow> nat \<Rightarrow> 'e \<Rightarrow> 'e carray \<Rightarrow> 'e carray option" where
  "insert_entry z p e a = do {
     a \<leftarrow> ensure_capacity z 16 (asize a + 1) a;
     b \<leftarrow> (if p < asize a then mem_move (p + 1) p (asize a - p) (block a) else Some (block a));
     b \<leftarrow> mem_set p e b;
     Some (a\<lparr>cells := Some b, asize := asize a + 1\<rparr>) }"

definition remove_entry :: "'e \<Rightarrow> nat \<Rightarrow> 'e carray \<Rightarrow> ('e \<times> 'e carray) option" where
  "remove_entry z i a = do {
     e \<leftarrow> mem_get i (block a);
     b \<leftarrow> mem_move i (i + 1) (asize a - (i + 1)) (block a);
     b \<leftarrow> mem_set (asize a - 1) z b;
     Some (e, a\<lparr>cells := Some b, asize := asize a - 1\<rparr>) }"

text \<open>Beyond \<open>asize\<close> the block is zero.\<close>

definition clean :: "'e \<Rightarrow> 'e carray \<Rightarrow> bool" where
  "clean z a \<longleftrightarrow> (\<forall>e \<in> set (drop (asize a) (block a)). e = z)"

lemma ensure_capacity_clean:
  assumes "ensure_capacity z es t a = Some a'" "clean z a" "arr_ok a"
  shows "clean z a'"
proof (cases "t \<le> capacity a")
  case True
  then show ?thesis using assms by (auto simp: ensure_capacity_def split: if_splits)
next
  case False
  let ?n = "grown_capacity es t (capacity a)"
  have a': "a' = a\<lparr>capacity := ?n, cells := Some (resize z ?n (block a))\<rparr>"
    using assms(1) False by (auto simp: ensure_capacity_def Let_def split: if_splits)
  have "length (block a) \<le> ?n" "asize a \<le> length (block a)"
    using grown_capacity_bounds [of "capacity a" t es] False assms(3) by (auto simp: arr_ok_def)
  then show ?thesis
    using assms(2) unfolding a' by (auto simp: clean_def block_def resize_def)
qed

lemma insert_entry_items:
  assumes "al_ok a" "clean z a" "asize a + 1 < 2 ^ 29" "p \<le> asize a"
  shows "\<exists>a'. insert_entry z p e a = Some a' \<and> al_ok a' \<and> clean z a' \<and>
     items a' = take p (items a) @ e # drop p (items a) \<and> asize a' = Suc (asize a)"
proof -
  obtain a1 where a1: "ensure_capacity z 16 (asize a + 1) a = Some a1" "al_ok a1"
    "asize a1 = asize a" "asize a + 1 \<le> length (block a1)" "take (asize a) (block a1) = items a"
    using ensure_al [OF assms(1,3)] by metis
  have "arr_ok a" using assms(1) by (simp add: al_ok_def)
  then have cl: "clean z a1" using ensure_capacity_clean [OF a1(1) assms(2)] by simp
  let ?b = "(splice (Suc p) (take (asize a - p) (drop p (block a1))) (block a1))[p := e]"
  have lb: "length ?b = length (block a1)" using a1(4) assms(4) by simp
  have "insert_entry z p e a = Some (a1\<lparr>cells := Some ?b, asize := asize a + 1\<rparr>)"
  proof (cases "p < asize a")
    case True
    then show ?thesis using a1
      by (simp add: insert_entry_def mem_move_def mem_read_def mem_write_def mem_set_def)
  next
    case False
    then have "p = asize a" using assms(4) by simp
    then show ?thesis using a1 by (simp add: insert_entry_def mem_set_def)
  qed
  moreover have "take (Suc (asize a)) ?b = take p (items a) @ e # drop p (items a)"
    using a1(4,5) assms(4) take_move_up [of p "asize a" "block a1" e] by simp
  moreover have "drop (Suc (asize a)) ?b = drop (Suc (asize a)) (block a1)"
    using a1(4) assms(4) lb by (intro nth_equalityI) (auto simp: nth_list_update nth_move)
  then have "clean z (a1\<lparr>cells := Some ?b, asize := asize a + 1\<rparr>)"
    using cl a1(3) set_drop_subset_set_drop [of "asize a" "Suc (asize a)" "block a1"]
    by (auto simp: clean_def)
  ultimately show ?thesis
    using a1(2,4) lb by (auto simp: al_ok_def arr_ok_def items_def)
qed

lemma remove_entry_items:
  assumes "al_ok a" "clean z a" "i < asize a"
  shows "\<exists>a'. remove_entry z i a = Some (items a ! i, a') \<and> al_ok a' \<and> clean z a' \<and>
     items a' = take i (items a) @ drop (Suc i) (items a) \<and> asize a' = asize a - 1"
proof -
  have len: "asize a \<le> length (block a)" using assms(1) by (simp add: al_ok_def arr_ok_def)
  let ?s = "splice i (take (asize a - i - 1) (drop (Suc i) (block a))) (block a)"
  let ?b = "?s[asize a - 1 := z]"
  have lb: "length ?b = length (block a)" using len assms(3) by simp
  have "remove_entry z i a = Some (block a ! i, a\<lparr>cells := Some ?b, asize := asize a - 1\<rparr>)"
    using len assms(3) lb
    by (simp add: remove_entry_def mem_get_def mem_move_def mem_read_def mem_write_def mem_set_def)
  moreover have "take (asize a - 1) ?b = take i (items a) @ drop (Suc i) (items a)"
    using take_move_down [of i "asize a" "block a" z] len assms(3) by (simp add: items_def)
  moreover have "clean z (a\<lparr>cells := Some ?b, asize := asize a - 1\<rparr>)"
  proof -
    have "drop (asize a - 1) ?b = z # drop (asize a) (block a)"
      using len assms(3) lb
      by (intro nth_equalityI) (auto simp: nth_list_update nth_move nth_Cons')
    then show ?thesis using assms(2) by (auto simp: clean_def)
  qed
  moreover have "items a ! i = block a ! i" using assms(3) by (simp add: items_def)
  ultimately show ?thesis
    using assms lb by (auto simp: al_ok_def arr_ok_def items_def)
qed

lemma update_entry_items:
  assumes "al_ok a" "clean z a" "i < asize a"
  shows "al_ok (a\<lparr>cells := Some ((block a)[i := e])\<rparr>) \<and> clean z (a\<lparr>cells := Some ((block a)[i := e])\<rparr>) \<and>
     items (a\<lparr>cells := Some ((block a)[i := e])\<rparr>) = (items a)[i := e]"
  using assms by (auto simp: al_ok_def arr_ok_def clean_def items_def take_update_swap)

section \<open>SparseArray and SparseIntArray\<close>

text \<open>
  The two classes are the same code on different value types: the macros
  \<open>SPARSEARRAY_BINARY_SEARCH\<close> and \<open>SPARSEARRAY_PUT\<close> and the functions written out after them.
\<close>

type_synonym 'v sparse = "(int \<times> 'v) carray"

definition sparse_indexOfKey :: "int \<Rightarrow> 'v sparse \<Rightarrow> int" where
  "sparse_indexOfKey key a =
     (if cells a = None then -1
      else binary_search (\<lambda>i. fst (block a ! i)) key 0 (int (asize a) - 1))"

definition sparse_put :: "int \<Rightarrow> 'v::zero \<Rightarrow> 'v sparse \<Rightarrow> 'v sparse option" where
  "sparse_put key value a =
     (let index = sparse_indexOfKey key a in
      if index \<ge> 0 then do {
        (k, _) \<leftarrow> mem_get (nat index) (block a);
        b \<leftarrow> mem_set (nat index) (k, value) (block a);
        Some (a\<lparr>cells := Some b\<rparr>) }
      else insert_entry (0, 0) (nat (- index - 1)) (key, value) a)"

definition sparse_get :: "int \<Rightarrow> 'v::zero sparse \<Rightarrow> 'v option" where
  "sparse_get key a =
     (let index = sparse_indexOfKey key a in
      if index \<ge> 0 then map_option snd (mem_get (nat index) (block a)) else Some 0)"

definition sparse_removeAt :: "int \<Rightarrow> 'v::zero sparse \<Rightarrow> ('v \<times> 'v sparse) option" where
  "sparse_removeAt index a =
     (if index \<ge> int (asize a) then Some (0, a)
      else if index < 0 then None
      else do { (e, a) \<leftarrow> remove_entry (0, 0) (nat index) a; Some (snd e, a) })"

definition sparse_remove :: "int \<Rightarrow> 'v::zero sparse \<Rightarrow> ('v \<times> 'v sparse) option" where
  "sparse_remove key a =
     (let index = sparse_indexOfKey key a in
      if index \<ge> 0 then sparse_removeAt index a else Some (0, a))"

definition SparseArray_put :: "int \<Rightarrow> ptr \<Rightarrow> ptr sparse \<Rightarrow> ptr sparse option" where
  "SparseArray_put = sparse_put"

definition SparseArray_get :: "int \<Rightarrow> ptr sparse \<Rightarrow> ptr option" where
  "SparseArray_get = sparse_get"

definition SparseArray_removeAt :: "int \<Rightarrow> ptr sparse \<Rightarrow> (ptr \<times> ptr sparse) option" where
  "SparseArray_removeAt = sparse_removeAt"

definition SparseArray_remove :: "int \<Rightarrow> ptr sparse \<Rightarrow> (ptr \<times> ptr sparse) option" where
  "SparseArray_remove = sparse_remove"

definition SparseIntArray_put :: "int \<Rightarrow> int \<Rightarrow> int sparse \<Rightarrow> int sparse option" where
  "SparseIntArray_put = sparse_put"

definition SparseIntArray_get :: "int \<Rightarrow> int sparse \<Rightarrow> int option" where
  "SparseIntArray_get = sparse_get"

definition SparseIntArray_removeAt :: "int \<Rightarrow> int sparse \<Rightarrow> int sparse option" where
  "SparseIntArray_removeAt index a = map_option snd (sparse_removeAt index a)"

definition SparseIntArray_remove :: "int \<Rightarrow> int sparse \<Rightarrow> int sparse option" where
  "SparseIntArray_remove key a = map_option snd (sparse_remove key a)"

text \<open>The values that \<open>SparseArray_free\<close> frees: it scans the whole block, to the capacity.\<close>

definition SparseArray_free :: "bool \<Rightarrow> ptr sparse \<Rightarrow> ptr list \<times> ptr sparse" where
  "SparseArray_free freeValues a =
     ((if cells a \<noteq> None \<and> freeValues then filter (\<lambda>p. p \<noteq> NULL) (map snd (block a)) else []),
      \<lparr>asize = 0, capacity = 0, cells = None\<rparr>)"

definition SparseArray_indexOfValue :: "ptr \<Rightarrow> ptr sparse \<Rightarrow> int" where
  "SparseArray_indexOfValue v a =
     (case find (\<lambda>i. snd (block a ! i) = v) [0..<asize a] of None \<Rightarrow> -1 | Some i \<Rightarrow> int i)"

definition SparseIntArray_free :: "int sparse \<Rightarrow> int sparse" where
  "SparseIntArray_free a = \<lparr>asize = 0, capacity = 0, cells = None\<rparr>"

subsection \<open>Correctness\<close>

definition sparse_ok :: "'v::zero sparse \<Rightarrow> bool" where
  "sparse_ok a \<longleftrightarrow> al_ok a \<and> clean (0, 0) a \<and> sorted_wrt (<) (map fst (items a)) \<and>
     (cells a = None \<longrightarrow> asize a = 0)"

definition sparse_lookup :: "'v sparse \<Rightarrow> int \<Rightarrow> 'v option" where
  "sparse_lookup a = map_of (items a)"

lemma sparse_ok_new: "sparse_ok new_array"
  by (simp add: sparse_ok_def al_ok_def clean_def) (simp add: new_array_def block_def)

lemma sparse_index:
  assumes "sparse_ok a"
  shows "let r = sparse_indexOfKey key a in
    if 0 \<le> r then nat r < asize a \<and> fst (items a ! nat r) = key
    else nat (- r - 1) \<le> asize a \<and> (\<forall>i < nat (- r - 1). fst (items a ! i) < key) \<and>
      (\<forall>i. nat (- r - 1) \<le> i \<and> i < asize a \<longrightarrow> key < fst (items a ! i))"
proof (cases "cells a = None")
  case True
  then show ?thesis using assms by (simp add: sparse_indexOfKey_def sparse_ok_def)
next
  case False
  let ?f = "\<lambda>i. fst (block a ! i)"
  have len: "length (items a) = asize a" using assms by (simp add: sparse_ok_def al_ok_def)
  have same: "fst (items a ! i) = ?f i" if "i < asize a" for i using that by (simp add: items_def)
  have sorted: "?f i \<le> ?f j" if "i \<le> j" "j < asize a" for i j
  proof (cases "i = j")
    case False
    then have "map fst (items a) ! i < map fst (items a) ! j"
      using assms that len by (intro sorted_wrt_nth_less [of "(<)"]) (auto simp: sparse_ok_def)
    then show ?thesis using that len same by simp
  qed simp
  have "sparse_indexOfKey key a = binary_search ?f key 0 (int (asize a) - 1)"
    unfolding sparse_indexOfKey_def by (rule if_not_P [OF False])
  then show ?thesis
    using binary_search_spec [of "asize a" ?f 0 "int (asize a) - 1" key] sorted same
    by (auto simp: Let_def split: if_splits)
qed

lemma sorted_distinct: "sorted_wrt (<) (ks :: int list) \<Longrightarrow> distinct ks"
  using strict_sorted_iff by blast

lemma map_of_insert:
  "k \<notin> fst ` set xs \<Longrightarrow> map_of (take p xs @ (k, v) # drop p xs) = (map_of xs)(k \<mapsto> v)"
proof
  fix x
  assume k: "k \<notin> fst ` set xs"
  then have "map_of (take p xs) k = None" by (force simp: map_of_eq_None_iff dest: in_set_takeD)
  moreover have "map_of xs = map_of (drop p xs) ++ map_of (take p xs)"
    by (metis append_take_drop_id map_of_append)
  ultimately show "map_of (take p xs @ (k, v) # drop p xs) x = ((map_of xs)(k \<mapsto> v)) x"
    by (auto simp: map_add_def split: option.splits)
qed

lemma map_of_split:
  assumes "distinct (map fst xs)" "i < length xs" "fst (xs ! i) = k"
  shows "map_of (xs[i := (k, v)]) = (map_of xs)(k \<mapsto> v)"
    "map_of (take i xs @ drop (Suc i) xs) = (map_of xs)(k := None)"
    "map_of xs k = Some (snd (xs ! i))"
proof -
  define ys zs w where "ys = take i xs" and "zs = drop (Suc i) xs" and "w = snd (xs ! i)"
  have "(k, w) = xs ! i" using assms(3) by (auto simp: w_def)
  then have xs: "xs = ys @ (k, w) # zs"
    using id_take_nth_drop [OF assms(2)] by (simp add: ys_def zs_def)
  have up: "xs[i := (k, v)] = ys @ (k, v) # zs"
    using assms(2) by (simp add: upd_conv_take_nth_drop ys_def zs_def)
  have k: "k \<notin> fst ` set ys" "k \<notin> fst ` set zs"
    using assms(1) by (simp_all add: xs)
  then have none: "map_of ys k = None" "map_of zs k = None" by (simp_all add: map_of_eq_None_iff)
  show "map_of (xs[i := (k, v)]) = (map_of xs)(k \<mapsto> v)"
    unfolding up unfolding xs using none by (auto simp: map_add_def fun_eq_iff split: option.splits)
  show "map_of (take i xs @ drop (Suc i) xs) = (map_of xs)(k := None)"
    unfolding ys_def [symmetric] zs_def [symmetric] unfolding xs using none
    by (auto simp: map_add_def fun_eq_iff split: option.splits)
  show "map_of xs k = Some (snd (xs ! i))"
    unfolding w_def [symmetric] unfolding xs using none by (simp add: map_add_def)
qed

lemma sorted_insert:
  assumes "sorted_wrt (<) (map fst xs)" "p \<le> length xs"
    "\<And>i. i < p \<Longrightarrow> fst (xs ! i) < k" "\<And>i. p \<le> i \<Longrightarrow> i < length xs \<Longrightarrow> k < fst (xs ! i)"
  shows "sorted_wrt (<) (map fst (take p xs @ (k, v) # drop p xs))"
proof -
  have lo: "fst e < k" if "e \<in> set (take p xs)" for e
    using that assms(2,3) unfolding in_set_conv_nth by auto
  have hi: "k < fst e" if e: "e \<in> set (drop p xs)" for e
  proof -
    from e obtain i where "i < length xs - p" "e = xs ! (p + i)"
      unfolding in_set_conv_nth using assms(2) by auto
    then show ?thesis using assms(4) [of "p + i"] by simp
  qed
  have "sorted_wrt (<) (map fst (take p xs) @ map fst (drop p xs))"
    using assms(1) by (simp flip: map_append)
  then show ?thesis
    using lo hi by (fastforce simp: sorted_wrt_append)
qed

lemma sorted_delete:
  assumes "sorted_wrt R (map f xs)"
  shows "sorted_wrt R (map f (take i xs @ drop (Suc i) xs))"
proof -
  have "sorted_wrt R (map f (take i xs @ drop i xs))" using assms by simp
  then have s: "sorted_wrt R (map f (take i xs))" "sorted_wrt R (map f (drop i xs))"
    "\<forall>x \<in> set (take i xs). \<forall>y \<in> set (drop i xs). R (f x) (f y)"
    unfolding map_append sorted_wrt_append by auto
  have "drop (Suc i) xs = drop 1 (drop i xs)" by simp
  then have "set (drop (Suc i) xs) \<subseteq> set (drop i xs)" "sorted_wrt R (map f (drop (Suc i) xs))"
    using s(2) by (simp_all only: set_drop_subset drop_map [symmetric] sorted_wrt_drop)
  then show ?thesis using s by (auto simp: sorted_wrt_append)
qed

text \<open>The two outcomes of a search.\<close>

lemma sparse_index_cases:
  assumes "sparse_ok a"
  obtains (found) r where "sparse_indexOfKey key a = int r" "r < asize a" "fst (items a ! r) = key"
      "items a ! r = block a ! r" "sparse_lookup a key = Some (snd (items a ! r))"
  | (missing) p where "sparse_indexOfKey key a = - int p - 1" "p \<le> asize a"
      "\<And>i. i < p \<Longrightarrow> fst (items a ! i) < key" "\<And>i. p \<le> i \<Longrightarrow> i < asize a \<Longrightarrow> key < fst (items a ! i)"
      "key \<notin> fst ` set (items a)" "sparse_lookup a key = None"
proof -
  note ix = sparse_index [OF assms, of key]
  have len: "length (items a) = asize a" using assms by (simp add: sparse_ok_def al_ok_def)
  show thesis
  proof (cases "0 \<le> sparse_indexOfKey key a")
    case True
    then obtain r where r: "sparse_indexOfKey key a = int r" by (metis nonneg_int_cases)
    then have i: "r < asize a" "fst (items a ! r) = key" using ix by (simp_all add: Let_def)
    moreover have "sparse_lookup a key = Some (snd (items a ! r))"
      using map_of_split(3) [of "items a" r key] i len assms sorted_distinct
      by (simp add: sparse_lookup_def sparse_ok_def)
    ultimately show ?thesis using r by (intro found) (auto simp: items_def)
  next
    case False
    define p where "p = nat (- sparse_indexOfKey key a - 1)"
    have p: "sparse_indexOfKey key a = - int p - 1" using False by (simp add: p_def)
    have i: "p \<le> asize a" "\<forall>i < p. fst (items a ! i) < key" "\<forall>i. p \<le> i \<and> i < asize a \<longrightarrow> key < fst (items a ! i)"
      using ix False unfolding p_def by (simp_all add: Let_def)
    have no: "key \<notin> fst ` set (items a)"
    proof
      assume "key \<in> fst ` set (items a)"
      then obtain i where "i < asize a" "fst (items a ! i) = key"
        using len unfolding set_conv_nth by auto
      then show False using i(2,3) by (metis less_irrefl not_less)
    qed
    then have "sparse_lookup a key = None" by (simp add: sparse_lookup_def map_of_eq_None_iff)
    with no i p show ?thesis by (intro missing) auto
  qed
qed

lemma sparse_put_lookup:
  assumes "sparse_ok a" "asize a < 2 ^ 29 - 1"
  shows "\<exists>a'. sparse_put key v a = Some a' \<and> sparse_ok a' \<and>
     sparse_lookup a' = (sparse_lookup a)(key \<mapsto> v) \<and> asize a' \<le> Suc (asize a)"
proof -
  have ok: "al_ok a" "clean (0, 0) a" "sorted_wrt (<) (map fst (items a))"
    using assms(1) by (auto simp: sparse_ok_def)
  have len: "length (items a) = asize a" "asize a \<le> length (block a)"
    using ok(1) by (auto simp: al_ok_def arr_ok_def)
  from assms(1) show ?thesis
  proof (cases rule: sparse_index_cases [where key = key])
    case (found r)
    let ?a = "a\<lparr>cells := Some ((block a)[r := (key, v)])\<rparr>"
    obtain w where "block a ! r = (key, w)" using found(3,4) by (metis prod.collapse)
    then have put: "sparse_put key v a = Some ?a"
      using found(1,2) len(2) by (simp add: sparse_put_def mem_ok)
    have "map fst ((items a)[r := (key, v)]) = (map fst (items a))[r := map fst (items a) ! r]"
      using found(2,3) len(1) by (simp add: map_update)
    then have "map fst ((items a)[r := (key, v)]) = map fst (items a)" by simp
    then show ?thesis
      using put update_entry_items [OF ok(1,2) found(2), of "(key, v)"] ok(3) found(2,3) len(1)
        map_of_split(1) [of "items a" r key v] sorted_distinct [OF ok(3)]
      by (simp add: sparse_ok_def sparse_lookup_def)
  next
    case (missing p)
    have "asize a + 1 < 2 ^ 29" using assms(2) by simp
    from insert_entry_items [OF ok(1,2) this missing(2), of "(key, v)"] obtain a'
      where a': "insert_entry (0, 0) p (key, v) a = Some a'" "al_ok a'" "clean (0, 0) a'"
        "items a' = take p (items a) @ (key, v) # drop p (items a)" "asize a' = Suc (asize a)" by blast
    have "sparse_lookup a' = (sparse_lookup a)(key \<mapsto> v)"
      unfolding sparse_lookup_def a'(4) by (rule map_of_insert [OF missing(5)])
    moreover have "cells a' \<noteq> None" using a'(1) by (auto simp: insert_entry_def split: bind_splits)
    then have "sparse_ok a'"
      using a' sorted_insert [OF ok(3) _ missing(3,4), where v = v] missing(2) len(1) by (simp add: sparse_ok_def)
    ultimately show ?thesis using a' missing(1) by (simp add: sparse_put_def)
  qed
qed

lemma sparse_get_lookup:
  assumes "sparse_ok a"
  shows "sparse_get key a = Some (case sparse_lookup a key of None \<Rightarrow> 0 | Some v \<Rightarrow> v)"
  using assms
proof (cases rule: sparse_index_cases [where key = key])
  case (found r)
  have "asize a \<le> length (block a)" using assms by (auto simp: sparse_ok_def al_ok_def arr_ok_def)
  then show ?thesis using found by (simp add: sparse_get_def mem_ok)
next
  case (missing p)
  then show ?thesis by (simp add: sparse_get_def)
qed

lemma sparse_remove_lookup:
  assumes "sparse_ok a"
  shows "\<exists>a'. sparse_remove key a = Some (case sparse_lookup a key of None \<Rightarrow> 0 | Some v \<Rightarrow> v, a') \<and>
     sparse_ok a' \<and> sparse_lookup a' = (sparse_lookup a)(key := None) \<and> asize a' \<le> asize a"
proof -
  have ok: "al_ok a" "clean (0, 0) a" "sorted_wrt (<) (map fst (items a))"
    using assms(1) by (auto simp: sparse_ok_def)
  have len: "length (items a) = asize a" using ok(1) by (simp add: al_ok_def)
  from assms show ?thesis
  proof (cases rule: sparse_index_cases [where key = key])
    case (found r)
    from remove_entry_items [OF ok(1,2) found(2)] obtain a'
      where a': "remove_entry (0, 0) r a = Some (items a ! r, a')" "al_ok a'" "clean (0, 0) a'"
        "items a' = take r (items a) @ drop (Suc r) (items a)" "asize a' = asize a - 1" by blast
    have c: "cells a' \<noteq> None"
      using a'(1) by (auto simp: remove_entry_def split: bind_splits)
    have s: "sorted_wrt (<) (map fst (items a'))"
      unfolding a'(4) by (rule sorted_delete [OF ok(3)])
    have "sparse_ok a'" unfolding sparse_ok_def using a'(2,3) c s by blast
    moreover have "sparse_lookup a' = (sparse_lookup a)(key := None)"
      unfolding sparse_lookup_def a'(4)
      using map_of_split(2) [of "items a" r key] sorted_distinct [OF ok(3)] found(2,3) len by simp
    ultimately show ?thesis
      using a' found by (simp add: sparse_remove_def sparse_removeAt_def)
  next
    case (missing p)
    then show ?thesis using assms by (simp add: sparse_remove_def fun_upd_idem)
  qed
qed

definition SPARSE_LIMIT :: nat where "SPARSE_LIMIT = 2 ^ 29 - 1"

definition sparse_del :: "int \<Rightarrow> 'v::zero sparse \<Rightarrow> 'v sparse option" where
  "sparse_del key a = map_option snd (sparse_remove key a)"

interpretation sa: finite_map sparse_ok sparse_lookup asize SPARSE_LIMIT NULL
    SparseArray_put SparseArray_get sparse_del
  by unfold_locales
    (auto simp: SparseArray_put_def SparseArray_get_def SPARSE_LIMIT_def sparse_get_lookup sparse_del_def
      dest: sparse_put_lookup, use sparse_remove_lookup in fastforce)

interpretation si: finite_map sparse_ok sparse_lookup asize SPARSE_LIMIT 0
    SparseIntArray_put SparseIntArray_get SparseIntArray_remove
  by unfold_locales
    (auto simp: SparseIntArray_put_def SparseIntArray_get_def SparseIntArray_remove_def SPARSE_LIMIT_def
      sparse_get_lookup dest: sparse_put_lookup, use sparse_remove_lookup in fastforce)

text \<open>
\<open>SparseArray\<close> is a map from \<open>int\<close> keys. Any sequence of at most \<open>2 ^ 29 - 1\<close> insertions,
  lookups and removals on an empty array runs without an access out of bounds and returns what the
  same operations return on a mathematical map, NULL standing for an absent key; the binary search
  and the sorted block behind it cannot be observed.
\<close>
theorem sparse_array_is_map:
  assumes "length ops \<le> SPARSE_LIMIT"
  shows "\<exists>vs a. sa.run ops new_array = Some (vs, a) \<and>
    spec_run NULL ops (\<lambda>k. None) = (vs, sparse_lookup a)"
proof -
  have "sparse_lookup (new_array :: ptr sparse) = (\<lambda>k. None)" "asize (new_array :: ptr sparse) = 0"
    by (simp_all add: sparse_lookup_def, simp add: new_array_def)
  then show ?thesis
    using sa.run_refines [OF sparse_ok_new, of ops] assms by auto
qed

theorem sparse_array_is_map_witness:
  "\<exists>a. sa.run [Put 5 50, Put (-3) 30, Get 5, Delete 5, Get 5, Get (-3)] new_array = Some ([50, 0, 30], a)"
  using sparse_array_is_map [of "[Put 5 50, Put (-3) 30, Get 5, Delete 5, Get 5, Get (-3)]"]
  by (auto simp: SPARSE_LIMIT_def)

text \<open>
\<open>SparseIntArray\<close> behaves as a total map with default 0 under any sequence of operations.
\<close>
theorem sparse_int_array_is_map:
  assumes "length ops \<le> SPARSE_LIMIT"
  shows "\<exists>vs a. si.run ops new_array = Some (vs, a) \<and>
    spec_run 0 ops (\<lambda>k. None) = (vs, sparse_lookup a)"
proof -
  have "sparse_lookup (new_array :: int sparse) = (\<lambda>k. None)" "asize (new_array :: int sparse) = 0"
    by (simp_all add: sparse_lookup_def, simp add: new_array_def)
  then show ?thesis
    using si.run_refines [OF sparse_ok_new, of ops] assms by auto
qed

theorem sparse_int_array_is_map_witness:
  "\<exists>a. si.run [Put 5 (-1), Get 5, Delete 5, Get 5] new_array = Some ([-1, 0], a)"
  using sparse_int_array_is_map [of "[Put 5 (-1), Get 5, Delete 5, Get 5]"]
  by (auto simp: SPARSE_LIMIT_def)

lemma sparse_free_values:
  assumes "sparse_ok a"
  shows "fst (SparseArray_free True a) = filter (\<lambda>p. p \<noteq> NULL) (map snd (items a))"
proof -
  have b: "block a = items a @ drop (asize a) (block a)" by (simp add: items_def)
  have "filter (\<lambda>p. p \<noteq> NULL) (map snd (drop (asize a) (block a))) = []"
    using assms by (auto simp: sparse_ok_def clean_def filter_empty_conv)
  then have f: "filter (\<lambda>p. p \<noteq> NULL) (map snd (block a)) = filter (\<lambda>p. p \<noteq> NULL) (map snd (items a))"
    by (subst b) (simp del: append_take_drop_id)
  show ?thesis
  proof (cases "cells a")
    case None
    then show ?thesis by (simp add: SparseArray_free_def items_def block_def)
  next
    case (Some x)
    then show ?thesis using f by (simp add: SparseArray_free_def)
  qed
qed

section \<open>ArrayMap\<close>

text \<open>
  Keys are C strings, sorted by the signed value of their hash code; several keys may share a hash
  code. The key pointer of an unused entry is NULL. \<open>hashCode\<close> wraps at 32 bits and reads the
  characters unsigned, as on the AArch64 targets of the project.
\<close>

type_synonym array_map = "(string option \<times> ptr) carray"

definition hashCode :: "string \<Rightarrow> int" where
  "hashCode key = sint (foldl (\<lambda>h c. 31 * h + of_nat (of_char c)) (0 :: u32) key)"

definition entry_hash :: "string option \<times> ptr \<Rightarrow> int" where
  "entry_hash e = (case fst e of None \<Rightarrow> 0 | Some k \<Rightarrow> hashCode k)"

definition ArrayMap_binarySearch :: "string \<Rightarrow> array_map \<Rightarrow> int" where
  "ArrayMap_binarySearch key a =
     binary_search (\<lambda>i. entry_hash (block a ! i)) (hashCode key) 0 (int (asize a) - 1)"

text \<open>
  The two scans around the hit, over the entries with the same hash code: upwards (the result says
  where it stopped and whether it found the key) and downwards.
\<close>

function scan_up :: "(string option \<times> ptr) list \<Rightarrow> nat \<Rightarrow> string \<Rightarrow> nat \<Rightarrow> (nat \<times> bool) option" where
  "scan_up b n key e =
     (if e < n
      then case fst (b ! e) of
          None \<Rightarrow> None
        | Some k \<Rightarrow>
            if hashCode k \<noteq> hashCode key then Some (e, False)
            else if k = key then Some (e, True)
            else scan_up b n key (Suc e)
      else Some (e, False))"
  by pat_completeness auto
termination
  by (relation "measure (\<lambda>(b, n, key, e). n - e)") auto

declare scan_up.simps [simp del]

fun scan_down :: "(string option \<times> ptr) list \<Rightarrow> string \<Rightarrow> nat \<Rightarrow> nat option option" where
  "scan_down b key 0 = Some None"
| "scan_down b key (Suc i) = (case fst (b ! i) of
      None \<Rightarrow> None
    | Some k \<Rightarrow>
        if hashCode k \<noteq> hashCode key then Some None
        else if k = key then Some (Some i)
        else scan_down b key i)"

definition ArrayMap_indexOfKey :: "string \<Rightarrow> array_map \<Rightarrow> int option" where
  "ArrayMap_indexOfKey key a =
     (if asize a = 0 then Some (-1)
      else let index = ArrayMap_binarySearch key a in
        if index < 0 then Some index
        else do {
          k \<leftarrow> fst (block a ! nat index);
          if key = k then Some index
          else do {
            (e, hit) \<leftarrow> scan_up (block a) (asize a) key (nat index + 1);
            if hit then Some (int e)
            else do {
              below \<leftarrow> scan_down (block a) key (nat index);
              case below of Some i \<Rightarrow> Some (int i) | None \<Rightarrow> Some (- int e - 1) } } })"

definition ArrayMap_put :: "string \<Rightarrow> ptr \<Rightarrow> array_map \<Rightarrow> array_map option" where
  "ArrayMap_put key value a = do {
     index \<leftarrow> ArrayMap_indexOfKey key a;
     if index \<ge> 0 then do {
       (k, _) \<leftarrow> mem_get (nat index) (block a);
       b \<leftarrow> mem_set (nat index) (k, value) (block a);
       Some (a\<lparr>cells := Some b\<rparr>) }
     else insert_entry (None, NULL) (nat (- index - 1)) (Some key, value) a }"

definition ArrayMap_get :: "string \<Rightarrow> array_map \<Rightarrow> ptr option" where
  "ArrayMap_get key a = do {
     index \<leftarrow> ArrayMap_indexOfKey key a;
     if index \<ge> 0 then map_option snd (mem_get (nat index) (block a)) else Some NULL }"

definition ArrayMap_removeAt :: "int \<Rightarrow> array_map \<Rightarrow> (ptr \<times> array_map) option" where
  "ArrayMap_removeAt index a =
     (if index \<ge> int (asize a) then Some (NULL, a)
      else if index < 0 then None
      else do { (e, a) \<leftarrow> remove_entry (None, NULL) (nat index) a; Some (snd e, a) })"

definition ArrayMap_remove :: "string \<Rightarrow> array_map \<Rightarrow> (ptr \<times> array_map) option" where
  "ArrayMap_remove key a = do {
     index \<leftarrow> ArrayMap_indexOfKey key a;
     if index \<ge> 0 then ArrayMap_removeAt index a else Some (NULL, a) }"

text \<open>The keys and values that \<open>ArrayMap_free\<close> frees, over the whole capacity.\<close>

definition ArrayMap_free :: "bool \<Rightarrow> bool \<Rightarrow> array_map \<Rightarrow> string list \<times> ptr list \<times> array_map" where
  "ArrayMap_free freeKeys freeValues a =
     ((if freeKeys then List.map_filter fst (block a) else []),
      (if freeValues then filter (\<lambda>p. p \<noteq> NULL) (map snd (block a)) else []),
      \<lparr>asize = 0, capacity = 0, cells = None\<rparr>)"

subsection \<open>Correctness\<close>

definition am_ok :: "array_map \<Rightarrow> bool" where
  "am_ok a \<longleftrightarrow> al_ok a \<and> clean (None, NULL) a \<and> sorted_wrt (\<le>) (map entry_hash (items a)) \<and>
     distinct (map fst (items a)) \<and> None \<notin> fst ` set (items a)"

definition am_lookup :: "array_map \<Rightarrow> string \<Rightarrow> ptr option" where
  "am_lookup a key = map_of (items a) (Some key)"

lemma am_ok_new: "am_ok new_array"
  by (simp add: am_ok_def al_ok_def clean_def) (simp add: new_array_def block_def)

lemma entry_hash_Some [simp]: "entry_hash (Some k, v) = hashCode k"
  by (simp add: entry_hash_def)

lemma scan_up_spec:
  assumes "\<And>i. i < n \<Longrightarrow> fst (b ! i) \<noteq> None" "e \<le> n"
  shows "\<exists>e' hit. scan_up b n key e = Some (e', hit) \<and> e \<le> e' \<and> e' \<le> n \<and>
     (if hit then e' < n \<and> fst (b ! e') = Some key
      else (\<forall>i. e \<le> i \<and> i < e' \<longrightarrow> entry_hash (b ! i) = hashCode key \<and> fst (b ! i) \<noteq> Some key) \<and>
        (e' < n \<longrightarrow> entry_hash (b ! e') \<noteq> hashCode key))"
  using assms
proof (induction b n key e rule: scan_up.induct)
  case (1 b n key e)
  show ?case
  proof (cases "e < n")
    case False
    then have "scan_up b n key e = Some (e, False)" by (subst scan_up.simps) simp
    then show ?thesis using "1.prems"(2) False by (intro exI [of _ e] exI [of _ False]) auto
  next
    case True
    then obtain k where k: "fst (b ! e) = Some k" using "1.prems"(1) by blast
    consider "hashCode k \<noteq> hashCode key" | "k = key" | (same) "hashCode k = hashCode key" "k \<noteq> key" by blast
    then show ?thesis
    proof cases
      case 1
      then have "scan_up b n key e = Some (e, False)" using True k by (subst scan_up.simps) simp
      then show ?thesis
        using True k 1 by (intro exI [of _ e] exI [of _ False]) (auto simp: entry_hash_def)
    next
      case 2
      then have "scan_up b n key e = Some (e, True)" using True k by (subst scan_up.simps) simp
      then show ?thesis using True k 2 by (intro exI [of _ e] exI [of _ True]) simp
    next
      case same
      have eq: "scan_up b n key e = scan_up b n key (Suc e)"
        using True k same by (subst scan_up.simps) simp
      have "entry_hash (b ! e) = hashCode key" using k same by (simp add: entry_hash_def)
      then have here: "entry_hash (b ! i) = hashCode key \<and> fst (b ! i) \<noteq> Some key"
        if "e \<le> i" "i < Suc e" for i
        using that same k by (metis le_less_Suc_eq option.inject)
      obtain e' hit where r: "scan_up b n key (Suc e) = Some (e', hit)" "Suc e \<le> e'" "e' \<le> n"
        "if hit then e' < n \<and> fst (b ! e') = Some key
         else (\<forall>i. Suc e \<le> i \<and> i < e' \<longrightarrow> entry_hash (b ! i) = hashCode key \<and> fst (b ! i) \<noteq> Some key) \<and>
           (e' < n \<longrightarrow> entry_hash (b ! e') \<noteq> hashCode key)"
        using "1.IH" [OF True k _ same(2)] same(1) "1.prems"(1) True by auto
      show ?thesis
      proof -
        have "entry_hash (b ! i) = hashCode key \<and> fst (b ! i) \<noteq> Some key"
          if "\<not> hit" "e \<le> i" "i < e'" for i
          using that r(4) here [of i] by (cases "Suc e \<le> i") simp_all
        then show ?thesis
          unfolding eq using r by (intro exI [of _ e'] exI [of _ hit]) (cases hit, simp_all)
      qed
    qed
  qed
qed

lemma scan_down_spec:
  assumes "\<And>j. j < i \<Longrightarrow> fst (b ! j) \<noteq> None"
  shows "\<exists>r. scan_down b key i = Some r \<and>
     (case r of Some j \<Rightarrow> j < i \<and> fst (b ! j) = Some key
      | None \<Rightarrow> \<exists>l \<le> i. (\<forall>j. l \<le> j \<and> j < i \<longrightarrow> fst (b ! j) \<noteq> Some key) \<and>
          (0 < l \<longrightarrow> entry_hash (b ! (l - 1)) \<noteq> hashCode key))"
  using assms
proof (induction i)
  case 0
  then show ?case by simp
next
  case (Suc i)
  then obtain k where k: "fst (b ! i) = Some k" by blast
  consider "hashCode k \<noteq> hashCode key" | "k = key" | (same) "hashCode k = hashCode key" "k \<noteq> key" by blast
  then show ?case
  proof cases
    case 1
    then show ?thesis using k by (auto simp: entry_hash_def intro!: exI [of _ "Suc i"])
  next
    case 2
    then show ?thesis using k by auto
  next
    case same
    obtain r where r: "scan_down b key i = Some r" "case r of Some j \<Rightarrow> j < i \<and> fst (b ! j) = Some key
      | None \<Rightarrow> \<exists>l \<le> i. (\<forall>j. l \<le> j \<and> j < i \<longrightarrow> fst (b ! j) \<noteq> Some key) \<and>
          (0 < l \<longrightarrow> entry_hash (b ! (l - 1)) \<noteq> hashCode key)"
      using Suc by force
    show ?thesis
    proof (cases r)
      case None
      then obtain l where "l \<le> i" "\<forall>j. l \<le> j \<and> j < i \<longrightarrow> fst (b ! j) \<noteq> Some key"
        "0 < l \<longrightarrow> entry_hash (b ! (l - 1)) \<noteq> hashCode key" using r(2) by auto
      then show ?thesis
        using None r(1) k same by (auto simp: less_Suc_eq intro!: exI [of _ l])
    next
      case (Some j)
      then show ?thesis using r k same by auto
    qed
  qed
qed

lemma am_entries:
  assumes "am_ok a"
  shows "length (items a) = asize a" "asize a \<le> length (block a)"
    "i < asize a \<Longrightarrow> items a ! i = block a ! i" "i < asize a \<Longrightarrow> fst (block a ! i) \<noteq> None"
    "i \<le> j \<Longrightarrow> j < asize a \<Longrightarrow> entry_hash (block a ! i) \<le> entry_hash (block a ! j)"
proof -
  show len: "length (items a) = asize a" "asize a \<le> length (block a)"
    using assms by (auto simp: am_ok_def al_ok_def arr_ok_def)
  show same: "items a ! i = block a ! i" if "i < asize a" for i using that by (simp add: items_def)
  have "None \<notin> fst ` set (items a)" using assms by (simp add: am_ok_def)
  then show "fst (block a ! i) \<noteq> None" if "i < asize a"
    using that len(1) same by (metis image_eqI nth_mem)
  show "entry_hash (block a ! i) \<le> entry_hash (block a ! j)" if "i \<le> j" "j < asize a"
  proof (cases "i = j")
    case False
    then have "map entry_hash (items a) ! i \<le> map entry_hash (items a) ! j"
      using assms that len(1) by (intro sorted_wrt_nth_less [of "(\<le>)"]) (auto simp: am_ok_def)
    then show ?thesis using that len(1) same [of i] same [of j] by simp
  qed simp
qed

lemma not_in_keys:
  "length xs = n \<Longrightarrow> (\<And>i. i < n \<Longrightarrow> fst (xs ! i) \<noteq> k) \<Longrightarrow> k \<notin> fst ` set xs"
  by (metis image_iff in_set_conv_nth)

lemma am_index_cases:
  assumes "am_ok a"
  obtains (found) r where "ArrayMap_indexOfKey key a = Some (int r)" "r < asize a"
      "fst (block a ! r) = Some key"
  | (missing) p where "ArrayMap_indexOfKey key a = Some (- int p - 1)" "p \<le> asize a"
      "\<And>i. i < p \<Longrightarrow> entry_hash (block a ! i) \<le> hashCode key"
      "\<And>i. p \<le> i \<Longrightarrow> i < asize a \<Longrightarrow> hashCode key \<le> entry_hash (block a ! i)"
      "\<And>i. i < asize a \<Longrightarrow> fst (block a ! i) \<noteq> Some key"
proof -
  note en = am_entries [OF assms]
  let ?h = "\<lambda>i. entry_hash (block a ! i)" and ?n = "asize a"
  have keyhash: "fst (block a ! i) = Some key \<Longrightarrow> ?h i = hashCode key" for i
    by (simp add: entry_hash_def)
  show thesis
  proof (cases "?n = 0")
    case True
    then show ?thesis by (intro missing [of 0]) (auto simp: ArrayMap_indexOfKey_def)
  next
    case nz: False
    define index where "index = ArrayMap_binarySearch key a"
    have bs: "if 0 \<le> index then nat index < ?n \<and> ?h (nat index) = hashCode key
      else nat (- index - 1) \<le> ?n \<and> (\<forall>i < nat (- index - 1). ?h i < hashCode key) \<and>
        (\<forall>i. nat (- index - 1) \<le> i \<and> i < ?n \<longrightarrow> hashCode key < ?h i)"
      using binary_search_spec [of ?n ?h 0 "int ?n - 1" "hashCode key"] en(5)
      by (simp add: index_def ArrayMap_binarySearch_def Let_def)
    show ?thesis
    proof (cases "0 \<le> index")
      case False
      define p where "p = nat (- index - 1)"
      have b: "p \<le> ?n" "\<And>i. i < p \<Longrightarrow> ?h i < hashCode key" "\<And>i. p \<le> i \<Longrightarrow> i < ?n \<Longrightarrow> hashCode key < ?h i"
        using bs False by (auto simp: p_def)
      have r: "ArrayMap_indexOfKey key a = Some (- int p - 1)"
        using nz False by (simp add: ArrayMap_indexOfKey_def index_def [symmetric] p_def Let_def)
      show ?thesis
      proof (rule missing [OF r b(1)])
        show "fst (block a ! i) \<noteq> Some key" if "i < ?n" for i
          using b(2) [of i] b(3) [of i] that keyhash [of i] by (cases "i < p") auto
      qed (use b in \<open>auto intro: less_imp_le\<close>)
    next
      case True
      then obtain m where m: "index = int m" by (metis nonneg_int_cases)
      then have mn: "m < ?n" "?h m = hashCode key" using bs by auto
      then obtain k where k: "fst (block a ! m) = Some k" using en(4) by blast
      show ?thesis
      proof (cases "k = key")
        case True
        then have "ArrayMap_indexOfKey key a = Some (int m)"
          using nz m k by (simp add: ArrayMap_indexOfKey_def index_def [symmetric] Let_def)
        then show ?thesis using found mn(1) k True by blast
      next
        case other: False
        obtain e hit where up: "scan_up (block a) ?n key (Suc m) = Some (e, hit)" "Suc m \<le> e" "e \<le> ?n"
          "if hit then e < ?n \<and> fst (block a ! e) = Some key
           else (\<forall>i. Suc m \<le> i \<and> i < e \<longrightarrow> ?h i = hashCode key \<and> fst (block a ! i) \<noteq> Some key) \<and>
             (e < ?n \<longrightarrow> ?h e \<noteq> hashCode key)"
          using scan_up_spec [of ?n "block a" "Suc m" key] en(4) mn(1) by auto
        obtain r where down: "scan_down (block a) key m = Some r" "case r of
            Some j \<Rightarrow> j < m \<and> fst (block a ! j) = Some key
          | None \<Rightarrow> \<exists>l \<le> m. (\<forall>j. l \<le> j \<and> j < m \<longrightarrow> fst (block a ! j) \<noteq> Some key) \<and>
              (0 < l \<longrightarrow> ?h (l - 1) \<noteq> hashCode key)"
          using scan_down_spec [of m "block a" key] en(4) mn(1) by (meson less_trans)
        have ix: "ArrayMap_indexOfKey key a = (if hit then Some (int e)
            else case r of Some i \<Rightarrow> Some (int i) | None \<Rightarrow> Some (- int e - 1))"
          using nz m k other up(1) down(1)
          by (simp add: ArrayMap_indexOfKey_def index_def [symmetric] Let_def)
        consider (hit) hit | (below) j where "\<not> hit" "r = Some j" | (none) "\<not> hit" "r = None"
          by (cases r) auto
        then show ?thesis
        proof cases
          case hit
          then show ?thesis using found [of e] ix up(4) by simp
        next
          case below
          then show ?thesis using found [of j] ix down(2) mn(1) by simp
        next
          case none
          then obtain l where l: "l \<le> m" "\<And>j. l \<le> j \<Longrightarrow> j < m \<Longrightarrow> fst (block a ! j) \<noteq> Some key"
            "0 < l \<Longrightarrow> ?h (l - 1) \<noteq> hashCode key" using down(2) by auto
          have up': "\<And>i. Suc m \<le> i \<Longrightarrow> i < e \<Longrightarrow> ?h i = hashCode key \<and> fst (block a ! i) \<noteq> Some key"
            "e < ?n \<Longrightarrow> ?h e \<noteq> hashCode key" using up(4) none by auto
          have above: "hashCode key < ?h i" if "e \<le> i" "i < ?n" for i
            using en(5) [of m e] en(5) [OF that] up'(2) mn up(2) that by fastforce
          have low: "?h i < hashCode key" if "i < l" for i
            using en(5) [of i "l - 1"] en(5) [of "l - 1" m] l(1,3) mn that by fastforce
          have upto: "?h i \<le> hashCode key" if "i < e" for i
            using en(5) [of i m] up'(1) [of i] mn that by (cases "i \<le> m") auto
          have "fst (block a ! i) \<noteq> Some key" if i: "i < ?n" for i
          proof -
            consider "e \<le> i" | "Suc m \<le> i" "i < e" | "i = m" | "l \<le> i" "i < m" | "i < l" by linarith
            then show ?thesis
              by cases (use above i keyhash [of i] up'(1) k other l(2) low in fastforce)+
          qed
          then show ?thesis
            using missing [of e] ix none up(3) upto above by (simp add: less_imp_le)
        qed
      qed
    qed
  qed
qed

lemma sorted_le_insert:
  assumes "sorted_wrt (\<le>) (map f xs)" "p \<le> length xs"
    "\<And>i. i < p \<Longrightarrow> f (xs ! i) \<le> f e" "\<And>i. p \<le> i \<Longrightarrow> i < length xs \<Longrightarrow> f e \<le> (f (xs ! i) :: int)"
  shows "sorted_wrt (\<le>) (map f (take p xs @ e # drop p xs))"
proof -
  have lo: "f x \<le> f e" if "x \<in> set (take p xs)" for x
    using that assms(2,3) unfolding in_set_conv_nth by auto
  have hi: "f e \<le> f x" if x: "x \<in> set (drop p xs)" for x
  proof -
    from x obtain i where "i < length xs - p" "x = xs ! (p + i)"
      unfolding in_set_conv_nth using assms(2) by auto
    then show ?thesis using assms(4) [of "p + i"] by simp
  qed
  have "sorted_wrt (\<le>) (map f (take p xs) @ map f (drop p xs))"
    using assms(1) by (simp flip: map_append)
  then show ?thesis
    using lo hi by (fastforce simp: sorted_wrt_append)
qed

lemma am_found:
  assumes "am_ok a" "r < asize a" "fst (block a ! r) = Some key"
  shows "items a ! r = block a ! r" "fst (items a ! r) = Some key"
    "am_lookup a key = Some (snd (block a ! r))"
    "am_lookup a = (\<lambda>k. map_of (items a) (Some k))"
proof -
  show i: "items a ! r = block a ! r" using assms(2) by (simp add: items_def)
  then show f: "fst (items a ! r) = Some key" using assms(3) by simp
  show "am_lookup a key = Some (snd (block a ! r))"
    using map_of_split(3) [of "items a" r "Some key"] f i assms am_entries(1) [OF assms(1)]
    by (simp add: am_lookup_def am_ok_def)
qed (auto simp: am_lookup_def)

lemma am_missing:
  assumes "am_ok a" "\<And>i. i < asize a \<Longrightarrow> fst (block a ! i) \<noteq> Some key"
  shows "Some key \<notin> fst ` set (items a)" "am_lookup a key = None"
proof -
  show n: "Some key \<notin> fst ` set (items a)"
    using not_in_keys [OF am_entries(1) [OF assms(1)], of "Some key"] am_entries(3) [OF assms(1)] assms(2)
    by metis
  then show "am_lookup a key = None" by (simp add: am_lookup_def map_of_eq_None_iff)
qed

lemma ArrayMap_put_lookup:
  assumes "am_ok a" "asize a < SPARSE_LIMIT"
  shows "\<exists>a'. ArrayMap_put key v a = Some a' \<and> am_ok a' \<and>
     am_lookup a' = (am_lookup a)(key \<mapsto> v) \<and> asize a' \<le> Suc (asize a)"
proof -
  have ok: "al_ok a" "clean (None, NULL) a" "sorted_wrt (\<le>) (map entry_hash (items a))"
    "distinct (map fst (items a))" "None \<notin> fst ` set (items a)"
    using assms(1) by (auto simp: am_ok_def)
  note len = am_entries(1,2) [OF assms(1)]
  from assms(1) show ?thesis
  proof (cases rule: am_index_cases [where key = key])
    case (found r)
    let ?a = "a\<lparr>cells := Some ((block a)[r := (Some key, v)])\<rparr>"
    note f = am_found [OF assms(1) found(2,3)]
    obtain w where "block a ! r = (Some key, w)" using found(3) by (metis prod.collapse)
    then have put: "ArrayMap_put key v a = Some ?a"
      using found(1,2) len(2) by (simp add: ArrayMap_put_def mem_ok)
    note u = update_entry_items [OF ok(1,2) found(2), of "(Some key, v)"]
    have "map fst ((items a)[r := (Some key, v)]) = (map fst (items a))[r := map fst (items a) ! r]"
      using found(2) f(2) len(1) by (simp add: map_update)
    then have keys: "map fst (items ?a) = map fst (items a)" using u by simp
    have "map entry_hash ((items a)[r := (Some key, v)]) = (map entry_hash (items a))[r := map entry_hash (items a) ! r]"
      using found(2) f(2) len(1) by (simp add: map_update entry_hash_def)
    then have hashes: "map entry_hash (items ?a) = map entry_hash (items a)" using u by simp
    have "fst ` set (items ?a) = fst ` set (items a)" using keys by (metis set_map)
    then have "am_ok ?a" using u keys hashes ok by (simp add: am_ok_def)
    moreover have "am_lookup ?a = (am_lookup a)(key \<mapsto> v)"
      using u map_of_split(1) [OF ok(4), of r "Some key" v] f(2) found(2) len(1)
      by (auto simp: am_lookup_def fun_eq_iff)
    ultimately show ?thesis using put by simp
  next
    case (missing p)
    note miss = am_missing [OF assms(1) missing(5)]
    have "asize a + 1 < 2 ^ 29" using assms(2) by (simp add: SPARSE_LIMIT_def)
    from insert_entry_items [OF ok(1,2) this missing(2), of "(Some key, v)"] obtain a'
      where a': "insert_entry (None, NULL) p (Some key, v) a = Some a'" "al_ok a'" "clean (None, NULL) a'"
        "items a' = take p (items a) @ (Some key, v) # drop p (items a)" "asize a' = Suc (asize a)" by blast
    have keys: "set (map fst (items a')) = insert (Some key) (fst ` set (items a))"
      unfolding a'(4) by (metis append_take_drop_id image_Un image_insert fst_conv list.simps(15)
          set_append set_map Un_insert_right)
    have "distinct (map fst (take p (items a)) @ map fst (drop p (items a)))"
      using ok(4) by (simp flip: map_append)
    then have "distinct (map fst (items a'))"
      using miss(1) unfolding a'(4) by (auto dest: in_set_takeD in_set_dropD)
    moreover have "sorted_wrt (\<le>) (map entry_hash (items a'))"
      unfolding a'(4) using am_entries(3) [OF assms(1)] missing(2-4) len(1)
      by (intro sorted_le_insert [OF ok(3)]) auto
    ultimately have "am_ok a'"
      using a'(2,3) keys ok(5) by (simp add: am_ok_def)
    moreover have "map_of (items a') = (map_of (items a))(Some key \<mapsto> v)"
      unfolding a'(4) by (rule map_of_insert [OF miss(1)])
    then have "am_lookup a' = (am_lookup a)(key \<mapsto> v)"
      by (simp add: am_lookup_def fun_eq_iff)
    ultimately show ?thesis using a' missing(1) by (simp add: ArrayMap_put_def)
  qed
qed

lemma ArrayMap_get_lookup:
  assumes "am_ok a"
  shows "ArrayMap_get key a = Some (case am_lookup a key of None \<Rightarrow> NULL | Some v \<Rightarrow> v)"
  using assms
proof (cases rule: am_index_cases [where key = key])
  case (found r)
  then show ?thesis
    using am_found(3) [OF assms found(2,3)] am_entries(2) [OF assms] by (simp add: ArrayMap_get_def mem_ok)
next
  case (missing p)
  then show ?thesis using am_missing(2) [OF assms missing(5)] by (simp add: ArrayMap_get_def)
qed

definition am_del :: "string \<Rightarrow> array_map \<Rightarrow> array_map option" where
  "am_del key a = map_option snd (ArrayMap_remove key a)"

lemma ArrayMap_remove_lookup:
  assumes "am_ok a"
  shows "\<exists>a'. ArrayMap_remove key a = Some (case am_lookup a key of None \<Rightarrow> NULL | Some v \<Rightarrow> v, a') \<and>
     am_ok a' \<and> am_lookup a' = (am_lookup a)(key := None) \<and> asize a' \<le> asize a"
proof -
  have ok: "al_ok a" "clean (None, NULL) a" "sorted_wrt (\<le>) (map entry_hash (items a))"
    "distinct (map fst (items a))" "None \<notin> fst ` set (items a)"
    using assms(1) by (auto simp: am_ok_def)
  note len = am_entries(1,2) [OF assms(1)]
  from assms show ?thesis
  proof (cases rule: am_index_cases [where key = key])
    case (found r)
    note f = am_found [OF assms(1) found(2,3)]
    from remove_entry_items [OF ok(1,2) found(2)] obtain a'
      where a': "remove_entry (None, NULL) r a = Some (items a ! r, a')" "al_ok a'" "clean (None, NULL) a'"
        "items a' = take r (items a) @ drop (Suc r) (items a)" "asize a' = asize a - 1" by blast
    have "distinct (map fst (items a'))"
      unfolding a'(4) map_append take_map [symmetric] drop_map [symmetric]
      using ok(4) by (simp add: set_take_disj_set_drop_if_distinct)
    moreover have "None \<notin> fst ` set (items a')"
      using ok(5) unfolding a'(4) by (auto dest: in_set_takeD in_set_dropD)
    moreover have "sorted_wrt (\<le>) (map entry_hash (items a'))"
      unfolding a'(4) by (rule sorted_delete [OF ok(3)])
    ultimately have "am_ok a'" using a'(2,3) by (simp add: am_ok_def)
    moreover have "am_lookup a' = (am_lookup a)(key := None)"
      unfolding am_lookup_def a'(4)
      using map_of_split(2) [OF ok(4), of r "Some key"] f(2) found(2) len(1) by (auto simp: fun_eq_iff)
    ultimately show ?thesis
      using a' found f(1,3) by (simp add: ArrayMap_remove_def ArrayMap_removeAt_def)
  next
    case (missing p)
    then show ?thesis using assms am_missing(2) [OF assms(1) missing(5)]
      by (simp add: ArrayMap_remove_def fun_upd_idem)
  qed
qed

interpretation am: finite_map am_ok am_lookup asize SPARSE_LIMIT NULL ArrayMap_put ArrayMap_get am_del
  by unfold_locales
    (auto simp: ArrayMap_get_lookup am_del_def dest: ArrayMap_put_lookup, use ArrayMap_remove_lookup in fastforce)

text \<open>
C40: \<open>ArrayMap\<close> is a map from strings whatever the hash codes of the keys are. Any sequence of at
  most \<open>2 ^ 29 - 1\<close> insertions, lookups and removals on an empty map runs without an access out of
  bounds and returns what the same operations return on a mathematical map from strings: colliding
  keys are neither confused nor lost.
\<close>
theorem array_map_is_map:
  assumes "length ops \<le> SPARSE_LIMIT"
  shows "\<exists>vs a. am.run ops new_array = Some (vs, a) \<and>
    spec_run NULL ops (\<lambda>k. None) = (vs, am_lookup a)"
proof -
  have "am_lookup new_array = (\<lambda>k. None)" "asize (new_array :: array_map) = 0"
    by (simp add: am_lookup_def fun_eq_iff, simp add: new_array_def)
  then show ?thesis using am.run_refines [OF am_ok_new, of ops] assms by auto
qed

text \<open>The strings \<open>AaAa\<close> and \<open>BBBB\<close> collide.\<close>

theorem array_map_is_map_witness:
  "hashCode ''AaAa'' = hashCode ''BBBB'' \<and>
   (\<exists>a. am.run [Put ''AaAa'' 1, Put ''BBBB'' 2, Get ''AaAa'', Get ''BBBB''] new_array = Some ([1, 2], a))"
proof -
  have "hashCode ''AaAa'' = hashCode ''BBBB''" by (simp add: hashCode_def)
  then show ?thesis
    using array_map_is_map [of "[Put ''AaAa'' 1, Put ''BBBB'' 2, Get ''AaAa'', Get ''BBBB'']"]
    by (auto simp: SPARSE_LIMIT_def)
qed

end
