(* ===== verification/ArrayDeque.thy ===== *)
theory ArrayDeque
  imports Arrays
begin

text \<open>
  \<open>ArrayDeque\<close> of \<open>winlator/src/arrays.c\<close>: a double-ended queue of non-NULL pointers in a
  circular block whose size is a power of two. The contract of a deque is the locale \<open>deque\<close>.
\<close>

section \<open>The contract of a deque\<close>

datatype 'e deque_op = AddFirst 'e | AddLast 'e | RemoveFirst | RemoveLast | GetFirst | GetLast

text \<open>On lists; the default \<open>z\<close> is the answer of an empty deque.\<close>

fun deque_spec :: "'e \<Rightarrow> 'e deque_op \<Rightarrow> 'e list \<Rightarrow> 'e \<times> 'e list" where
  "deque_spec z (AddFirst e) xs = (z, e # xs)"
| "deque_spec z (AddLast e) xs = (z, xs @ [e])"
| "deque_spec z RemoveFirst xs = (case xs of [] \<Rightarrow> (z, []) | y # ys \<Rightarrow> (y, ys))"
| "deque_spec z RemoveLast xs = (if xs = [] then (z, []) else (last xs, butlast xs))"
| "deque_spec z GetFirst xs = ((case xs of [] \<Rightarrow> z | y # ys \<Rightarrow> y), xs)"
| "deque_spec z GetLast xs = ((if xs = [] then z else last xs), xs)"

fun added :: "'e deque_op \<Rightarrow> 'e list" where
  "added (AddFirst e) = [e]"
| "added (AddLast e) = [e]"
| "added _ = []"

fun spec_run :: "'e \<Rightarrow> 'e deque_op list \<Rightarrow> 'e list \<Rightarrow> 'e list \<times> 'e list" where
  "spec_run z [] xs = ([], xs)"
| "spec_run z (oper # os) xs = (case deque_spec z oper xs of (v, ys) \<Rightarrow>
     (case spec_run z os ys of (vs, zs) \<Rightarrow> (v # vs, zs)))"

locale deque =
  fixes rep :: "'d \<Rightarrow> 'e list \<Rightarrow> bool"
    and z :: 'e
    and limit :: nat
    and step :: "'e deque_op \<Rightarrow> 'd \<Rightarrow> ('e \<times> 'd) option"
  assumes step_law: "rep d xs \<Longrightarrow> z \<notin> set (added oper) \<Longrightarrow> length xs + length (added oper) \<le> limit \<Longrightarrow>
      \<exists>d'. step oper d = Some (fst (deque_spec z oper xs), d') \<and> rep d' (snd (deque_spec z oper xs))"
begin

fun run :: "'e deque_op list \<Rightarrow> 'd \<Rightarrow> ('e list \<times> 'd) option" where
  "run [] d = Some ([], d)"
| "run (oper # os) d = do { (v, d) \<leftarrow> step oper d; (vs, d) \<leftarrow> run os d; Some (v # vs, d) }"

lemma length_spec: "length (snd (deque_spec z oper xs)) \<le> length xs + length (added oper)"
  by (cases oper) (auto split: list.split)

lemma run_refines:
  "rep d xs \<Longrightarrow> z \<notin> (\<Union>oper \<in> set os. set (added oper)) \<Longrightarrow> length xs + length os \<le> limit \<Longrightarrow>
   \<exists>d'. run os d = Some (fst (spec_run z os xs), d') \<and> rep d' (snd (spec_run z os xs))"
proof (induction os arbitrary: d xs)
  case (Cons oper os)
  have one: "length (added oper) \<le> 1" by (cases oper) simp_all
  then have "length xs + length (added oper) \<le> limit" using Cons.prems(3) by simp
  moreover have "z \<notin> set (added oper)" using Cons.prems(2) by simp
  ultimately obtain d1 where d1: "step oper d = Some (fst (deque_spec z oper xs), d1)"
    "rep d1 (snd (deque_spec z oper xs))"
    using step_law [OF Cons.prems(1)] by blast
  have "length (snd (deque_spec z oper xs)) + length os \<le> limit"
    using length_spec [of oper xs] one Cons.prems(3) by simp
  with Cons.IH [OF d1(2)] Cons.prems(2) show ?case
    using d1(1) by (fastforce split: prod.splits)
qed simp

end

section \<open>The code\<close>

record array_deque =
  dhead :: nat
  dtail :: nat
  dsize :: nat
  elements :: "ptr list option"

definition new_deque :: array_deque where
  "new_deque = \<lparr>dhead = 0, dtail = 0, dsize = 0, elements = None\<rparr>"

text \<open>\<open>x & (size - 1)\<close> on \<open>int\<close>.\<close>

definition wrap :: "int \<Rightarrow> nat \<Rightarrow> nat" where
  "wrap x n = nat (x AND (int n - 1))"

definition elems :: "array_deque \<Rightarrow> ptr list" where
  "elems d = (case elements d of None \<Rightarrow> [] | Some es \<Rightarrow> es)"

definition ArrayDeque_ensureCapacity :: "array_deque \<Rightarrow> array_deque" where
  "ArrayDeque_ensureCapacity d =
     (if elements d = None then \<lparr>dhead = 0, dtail = 0, dsize = 8, elements = Some (replicate 8 NULL)\<rparr> else d)"

text \<open>A doubled size that an \<open>int\<close> cannot hold leaves the deque as it is.\<close>

definition ArrayDeque_doubleCapacity :: "array_deque \<Rightarrow> array_deque option" where
  "ArrayDeque_doubleCapacity d =
     (let h = dhead d; n = dsize d in
      if \<not> fits_int (2 * n) then Some d
      else do {
        xs \<leftarrow> mem_read h (n - h) (elems d);
        ys \<leftarrow> mem_read 0 h (elems d);
        b \<leftarrow> mem_write 0 xs (replicate (2 * n) NULL);
        b \<leftarrow> mem_write (n - h) ys b;
        Some \<lparr>dhead = 0, dtail = n, dsize = 2 * n, elements = Some b\<rparr> })"

definition ArrayDeque_isEmpty :: "array_deque \<Rightarrow> bool" where
  "ArrayDeque_isEmpty d \<longleftrightarrow> dhead d = dtail d"

definition ArrayDeque_addFirst :: "ptr \<Rightarrow> array_deque \<Rightarrow> array_deque option" where
  "ArrayDeque_addFirst e d =
     (let d = ArrayDeque_ensureCapacity d; h = wrap (int (dhead d) - 1) (dsize d) in do {
       b \<leftarrow> mem_set h e (elems d);
       let d = d\<lparr>dhead := h, elements := Some b\<rparr>;
       (if h = dtail d then ArrayDeque_doubleCapacity d else Some d) })"

definition ArrayDeque_addLast :: "ptr \<Rightarrow> array_deque \<Rightarrow> array_deque option" where
  "ArrayDeque_addLast e d =
     (let d = ArrayDeque_ensureCapacity d in do {
       b \<leftarrow> mem_set (dtail d) e (elems d);
       let d = d\<lparr>dtail := wrap (int (dtail d) + 1) (dsize d), elements := Some b\<rparr>;
       (if dtail d = dhead d then ArrayDeque_doubleCapacity d else Some d) })"

definition ArrayDeque_removeFirst :: "array_deque \<Rightarrow> (ptr \<times> array_deque) option" where
  "ArrayDeque_removeFirst d =
     (let d = ArrayDeque_ensureCapacity d; h = dhead d in do {
       r \<leftarrow> mem_get h (elems d);
       if r \<noteq> NULL then do {
         b \<leftarrow> mem_set h NULL (elems d);
         Some (r, d\<lparr>dhead := wrap (int h + 1) (dsize d), elements := Some b\<rparr>) }
       else Some (r, d) })"

definition ArrayDeque_removeLast :: "array_deque \<Rightarrow> (ptr \<times> array_deque) option" where
  "ArrayDeque_removeLast d =
     (let d = ArrayDeque_ensureCapacity d; t = wrap (int (dtail d) - 1) (dsize d) in do {
       r \<leftarrow> mem_get t (elems d);
       if r \<noteq> NULL then do {
         b \<leftarrow> mem_set t NULL (elems d);
         Some (r, d\<lparr>dtail := t, elements := Some b\<rparr>) }
       else Some (r, d) })"

definition ArrayDeque_getFirst :: "array_deque \<Rightarrow> (ptr \<times> array_deque) option" where
  "ArrayDeque_getFirst d = (let d = ArrayDeque_ensureCapacity d in
     map_option (\<lambda>r. (r, d)) (mem_get (dhead d) (elems d)))"

definition ArrayDeque_getLast :: "array_deque \<Rightarrow> (ptr \<times> array_deque) option" where
  "ArrayDeque_getLast d = (let d = ArrayDeque_ensureCapacity d in
     map_option (\<lambda>r. (r, d)) (mem_get (wrap (int (dtail d) - 1) (dsize d)) (elems d)))"

definition ArrayDeque_free :: "bool \<Rightarrow> array_deque \<Rightarrow> ptr list \<times> array_deque" where
  "ArrayDeque_free freeValues d =
     ((if freeValues then filter (\<lambda>p. p \<noteq> NULL) (elems d) else []), new_deque)"

fun array_deque_step :: "ptr deque_op \<Rightarrow> array_deque \<Rightarrow> (ptr \<times> array_deque) option" where
  "array_deque_step (AddFirst e) d = map_option (Pair NULL) (ArrayDeque_addFirst e d)"
| "array_deque_step (AddLast e) d = map_option (Pair NULL) (ArrayDeque_addLast e d)"
| "array_deque_step RemoveFirst d = ArrayDeque_removeFirst d"
| "array_deque_step RemoveLast d = ArrayDeque_removeLast d"
| "array_deque_step GetFirst d = ArrayDeque_getFirst d"
| "array_deque_step GetLast d = ArrayDeque_getLast d"

section \<open>Correctness\<close>

text \<open>
  Read from \<open>dhead\<close> on and around, the block is the contents followed by NULLs. There is always
  at least one NULL, so that equal positions mean empty.
\<close>

definition deque_rep :: "array_deque \<Rightarrow> ptr list \<Rightarrow> bool" where
  "deque_rep d xs \<longleftrightarrow> NULL \<notin> set xs \<and>
     (case elements d of
       None \<Rightarrow> xs = []
     | Some es \<Rightarrow> (\<exists>k. 3 \<le> k \<and> k \<le> 30 \<and> dsize d = 2 ^ k) \<and> length es = dsize d \<and>
         dhead d < dsize d \<and> length xs < dsize d \<and> dtail d = (dhead d + length xs) mod dsize d \<and>
         rotate (dhead d) es = xs @ replicate (dsize d - length xs) NULL)"

lemma wrap_mod: "wrap x (2 ^ k) = nat (x mod 2 ^ k)"
proof -
  have "int (2 ^ k) - 1 = mask k" by (simp add: mask_eq_exp_minus_1)
  then show ?thesis by (simp add: wrap_def take_bit_eq_mask [symmetric] take_bit_eq_mod)
qed

lemma rotate_update:
  assumes "i < length es"
  shows "rotate h (es[(h + i) mod length es := e]) = (rotate h es)[i := e]"
proof (rule nth_equalityI)
  fix j assume "j < length (rotate h (es[(h + i) mod length es := e]))"
  then have j: "j < length es" by simp
  have "(h + i) mod length es = (h + j) mod length es \<longleftrightarrow> i = j"
    using mod_add_cancel [of i "length es" j h] assms j by simp
  moreover have "(h + i) mod length es < length es" using assms by (intro mod_less_divisor) auto
  ultimately show "rotate h (es[(h + i) mod length es := e]) ! j = (rotate h es)[i := e] ! j"
    using assms j by (simp add: nth_rotate nth_list_update)
qed simp

text \<open>The deque after the lazy allocation.\<close>

lemma ensure_rep:
  assumes "deque_rep d xs"
  obtains h es k where "ArrayDeque_ensureCapacity d =
      \<lparr>dhead = h, dtail = (h + length xs) mod 2 ^ k, dsize = 2 ^ k, elements = Some es\<rparr>"
    "3 \<le> k" "k \<le> 30" "length es = 2 ^ k" "h < 2 ^ k" "length xs < 2 ^ k"
    "rotate h es = xs @ replicate (2 ^ k - length xs) NULL" "NULL \<notin> set xs"
proof (cases "elements d")
  case None
  then have "xs = []" using assms by (simp add: deque_rep_def)
  then show ?thesis
    using None that [of 0 3 "replicate 8 NULL"] by (simp add: ArrayDeque_ensureCapacity_def)
next
  case (Some es)
  then obtain k where "3 \<le> k" "k \<le> 30" "dsize d = 2 ^ k"
    using assms by (auto simp: deque_rep_def)
  then show ?thesis
    using Some assms that [of "dhead d" k es] by (cases d) (auto simp: deque_rep_def ArrayDeque_ensureCapacity_def)
qed

lemma deque_repI:
  assumes "3 \<le> k" "k \<le> 30" "length es = 2 ^ k" "h < 2 ^ k" "length xs < 2 ^ k"
    "rotate h es = xs @ replicate (2 ^ k - length xs) NULL" "NULL \<notin> set xs"
  shows "deque_rep \<lparr>dhead = h, dtail = (h + length xs) mod 2 ^ k, dsize = 2 ^ k, elements = Some es\<rparr> xs"
  using assms by (auto simp: deque_rep_def)

text \<open>Doubling a full block.\<close>

lemma double_rep:
  assumes "3 \<le> k" "k < 30" "length es = 2 ^ k" "h < 2 ^ k" "rotate h es = xs" "NULL \<notin> set xs"
  shows "\<exists>d'. ArrayDeque_doubleCapacity \<lparr>dhead = h, dtail = t, dsize = 2 ^ k, elements = Some es\<rparr> = Some d' \<and>
     deque_rep d' xs"
proof -
  let ?n = "2 ^ k :: nat"
  have fit: "fits_int (2 * ?n)"
  proof -
    have "(2 :: nat) ^ Suc k < 2 ^ 31" using assms(2) by (intro power_strict_increasing) auto
    then show ?thesis by (simp add: fits_int_def)
  qed
  have xs: "xs = drop h es @ take h es"
    using assms(3-5) by (simp add: rotate_drop_take)
  let ?b1 = "splice 0 (drop h es) (replicate (2 * ?n) NULL)"
  let ?b = "splice (?n - h) (take h es) ?b1"
  have b1: "length ?b1 = 2 * ?n" using assms(3) by simp
  have "ArrayDeque_doubleCapacity \<lparr>dhead = h, dtail = t, dsize = 2 ^ k, elements = Some es\<rparr> =
      Some \<lparr>dhead = 0, dtail = ?n, dsize = 2 * ?n, elements = Some ?b\<rparr>"
    using fit assms(3,4) b1 by (simp add: ArrayDeque_doubleCapacity_def elems_def mem_ok Let_def)
  moreover have b: "?b = xs @ replicate ?n NULL"
    using assms(3,4) unfolding xs by (simp add: splice_def)
  moreover have "deque_rep \<lparr>dhead = 0, dtail = (0 + length xs) mod 2 ^ Suc k, dsize = 2 ^ Suc k, elements = Some ?b\<rparr> xs"
    unfolding b using assms xs by (intro deque_repI) auto
  moreover have "length xs = ?n" using xs assms(3,4) by simp
  ultimately show ?thesis by auto
qed

lemma wrap_up: "wrap (int t + 1) (2 ^ k) = (t + 1) mod 2 ^ k"
proof -
  have "int t + 1 = int (t + 1)" by simp
  then show ?thesis unfolding wrap_mod by (metis nat_int of_nat_numeral of_nat_power zmod_int)
qed

lemma wrap_down: "wrap (int t - 1) (2 ^ k) = (t + (2 ^ k - 1)) mod 2 ^ k"
proof -
  have "(int t - 1) mod 2 ^ k = (int t - 1 + 2 ^ k) mod 2 ^ k" by simp
  also have "int t - 1 + 2 ^ k = int (t + (2 ^ k - 1))"
  proof -
    have "int (2 ^ k - 1) = 2 ^ k - 1" by (simp add: of_nat_diff)
    then show ?thesis unfolding of_nat_add by simp
  qed
  finally show ?thesis unfolding wrap_mod by (metis nat_int of_nat_numeral of_nat_power zmod_int)
qed

text \<open>Publishing a block with one more element: it is full or it is not.\<close>

lemma after_add:
  assumes "3 \<le> k" "k \<le> 30" "length es = 2 ^ k" "h < 2 ^ k" "length ys \<le> 2 ^ k" "length ys < 2 ^ 30"
    "0 < length ys" "rotate h es = ys @ replicate (2 ^ k - length ys) NULL" "NULL \<notin> set ys"
  shows "\<exists>d'. (let d = \<lparr>dhead = h, dtail = (h + length ys) mod 2 ^ k, dsize = 2 ^ k, elements = Some es\<rparr> in
      if dtail d = dhead d then ArrayDeque_doubleCapacity d else Some d) = Some d' \<and> deque_rep d' ys"
proof (cases "length ys = 2 ^ k")
  case True
  then have "k < 30" using assms(2,6) by (cases "k = 30") auto
  then show ?thesis
    using double_rep [of k es h ys] assms True by (simp add: Let_def)
next
  case False
  then have "(h + length ys) mod 2 ^ k \<noteq> h"
    using mod_add_cancel [of "length ys" "2 ^ k" 0 h] assms(4,5,7) by simp
  then show ?thesis using deque_repI [of k es h ys] assms False by (simp add: Let_def)
qed

lemma ArrayDeque_addLast_rep:
  assumes "deque_rep d xs" "e \<noteq> NULL" "length xs + 1 < 2 ^ 30"
  shows "\<exists>d'. ArrayDeque_addLast e d = Some d' \<and> deque_rep d' (xs @ [e])"
proof (rule ensure_rep [OF assms(1)])
  fix h es k
  let ?t = "(h + length xs) mod 2 ^ k" and ?ys = "xs @ [e]"
  assume d: "ArrayDeque_ensureCapacity d = \<lparr>dhead = h, dtail = ?t, dsize = 2 ^ k, elements = Some es\<rparr>"
    and k: "3 \<le> k" "k \<le> 30" and len: "length es = 2 ^ k" "h < 2 ^ k" "length xs < 2 ^ k"
    and rot: "rotate h es = xs @ replicate (2 ^ k - length xs) NULL" and nn: "NULL \<notin> set xs"
  obtain m where m: "2 ^ k - length xs = Suc m" using len(3) by (metis Suc_diff_Suc)
  then have "2 ^ k - length ?ys = m" by simp
  then have rot': "rotate h (es[?t := e]) = ?ys @ replicate (2 ^ k - length ?ys) NULL"
    using rotate_update [of "length xs" es h e] rot len m by (simp add: list_update_append)
  have "wrap (int ?t + 1) (2 ^ k) = (h + length ?ys) mod 2 ^ k"
    unfolding wrap_up by (simp add: mod_simps)
  moreover have "?t < length es" using len by simp
  ultimately have "ArrayDeque_addLast e d = (let d = \<lparr>dhead = h, dtail = (h + length ?ys) mod 2 ^ k,
        dsize = 2 ^ k, elements = Some (es[?t := e])\<rparr> in
      if dtail d = dhead d then ArrayDeque_doubleCapacity d else Some d)"
    by (simp add: ArrayDeque_addLast_def d elems_def Let_def mem_set_ok)
  then show ?thesis
    using after_add [of k "es[?t := e]" h ?ys] k len rot' nn assms(2,3) by simp
qed

lemma rotate_back:
  assumes "length es = 2 ^ k" "rotate h es = xs @ [y]"
  shows "rotate ((h + (2 ^ k - 1)) mod 2 ^ k) es = y # xs"
proof -
  have l: "2 ^ k - 1 = length xs"
    using arg_cong [OF assms(2), of length] assms(1) by simp
  have "rotate ((h + (2 ^ k - 1)) mod 2 ^ k) es = rotate (length xs) (rotate h es)"
    using assms(1) l by (metis add.commute rotate_conv_mod rotate_rotate)
  then show ?thesis by (simp add: assms(2) rotate_append)
qed

lemma ArrayDeque_addFirst_rep:
  assumes "deque_rep d xs" "e \<noteq> NULL" "length xs + 1 < 2 ^ 30"
  shows "\<exists>d'. ArrayDeque_addFirst e d = Some d' \<and> deque_rep d' (e # xs)"
proof (rule ensure_rep [OF assms(1)])
  fix h es k
  let ?t = "(h + length xs) mod 2 ^ k" and ?h = "(h + (2 ^ k - 1)) mod 2 ^ k" and ?ys = "e # xs"
  assume d: "ArrayDeque_ensureCapacity d = \<lparr>dhead = h, dtail = ?t, dsize = 2 ^ k, elements = Some es\<rparr>"
    and k: "3 \<le> k" "k \<le> 30" and len: "length es = 2 ^ k" "h < 2 ^ k" "length xs < 2 ^ k"
    and rot: "rotate h es = xs @ replicate (2 ^ k - length xs) NULL" and nn: "NULL \<notin> set xs"
  obtain m where m: "2 ^ k - length xs = Suc m" using len(3) by (metis Suc_diff_Suc)
  then have "rotate h es = (xs @ replicate m NULL) @ [NULL]"
    using rot by (simp add: replicate_append_same)
  from rotate_back [OF len(1) this] have "rotate ?h es = NULL # xs @ replicate m NULL" by simp
  moreover have hl: "?h < 2 ^ k" by simp
  ultimately have rot': "rotate ?h (es[?h := e]) = ?ys @ replicate (2 ^ k - length ?ys) NULL"
    using rotate_update [of 0 es ?h e] len(1) m by simp
  have "(?h + length ?ys) mod 2 ^ k = (h + (2 ^ k - 1) + length ?ys) mod 2 ^ k"
    by (rule mod_add_left_eq)
  also have "h + (2 ^ k - 1) + length ?ys = h + length xs + 2 ^ k" by simp
  finally have t: "?t = (?h + length ?ys) mod 2 ^ k" by simp
  have "?h < length es" using len by simp
  then have "ArrayDeque_addFirst e d = (let d = \<lparr>dhead = ?h, dtail = (?h + length ?ys) mod 2 ^ k,
        dsize = 2 ^ k, elements = Some (es[?h := e])\<rparr> in
      if dtail d = dhead d then ArrayDeque_doubleCapacity d else Some d)"
    unfolding t [symmetric] by (auto simp: ArrayDeque_addFirst_def d elems_def Let_def wrap_down mem_set_ok)
  then show ?thesis
    using after_add [of k "es[?h := e]" ?h ?ys] k len rot' nn assms(2,3) by simp
qed

text \<open>Cell \<open>h\<close> is the first element, the cell before \<open>t\<close> the last, or NULL when there is none.\<close>

lemma end_cells:
  assumes "length es = 2 ^ k" "h < 2 ^ k" "length xs < 2 ^ k"
    "rotate h es = xs @ replicate (2 ^ k - length xs) NULL"
  shows "es ! h = (case xs of [] \<Rightarrow> NULL | y # ys \<Rightarrow> y)"
    "xs = [] \<Longrightarrow> es ! ((h + length xs + (2 ^ k - 1)) mod 2 ^ k) = NULL"
    "xs \<noteq> [] \<Longrightarrow> (h + length xs + (2 ^ k - 1)) mod 2 ^ k = (h + (length xs - 1)) mod 2 ^ k"
    "xs \<noteq> [] \<Longrightarrow> es ! ((h + (length xs - 1)) mod 2 ^ k) = last xs"
proof -
  have nth: "es ! ((h + i) mod 2 ^ k) = (if i < length xs then xs ! i else NULL)" if "i < 2 ^ k" for i
    using nth_rotate [of i es h] assms that by (auto simp: nth_append split: if_splits)
  show "es ! h = (case xs of [] \<Rightarrow> NULL | y # ys \<Rightarrow> y)"
    using nth [of 0] assms(2) by (cases xs) simp_all
  show "es ! ((h + length xs + (2 ^ k - 1)) mod 2 ^ k) = NULL" if "xs = []"
    using nth [of "2 ^ k - 1"] that by simp
  show "(h + length xs + (2 ^ k - 1)) mod 2 ^ k = (h + (length xs - 1)) mod 2 ^ k" if "xs \<noteq> []"
  proof -
    have "h + length xs + (2 ^ k - 1) = (h + (length xs - 1)) + 2 ^ k" using that by (cases xs) auto
    then show ?thesis by (simp only: mod_add_self2)
  qed
  show "es ! ((h + (length xs - 1)) mod 2 ^ k) = last xs" if "xs \<noteq> []"
    using nth [of "length xs - 1"] that assms(3) by (cases xs) (auto simp: last_conv_nth)
qed

lemma ArrayDeque_removeFirst_rep:
  assumes "deque_rep d xs"
  shows "\<exists>d'. ArrayDeque_removeFirst d = Some (fst (deque_spec NULL RemoveFirst xs), d') \<and>
     deque_rep d' (snd (deque_spec NULL RemoveFirst xs))"
proof (rule ensure_rep [OF assms])
  fix h es k
  let ?t = "(h + length xs) mod 2 ^ k"
  assume d: "ArrayDeque_ensureCapacity d = \<lparr>dhead = h, dtail = ?t, dsize = 2 ^ k, elements = Some es\<rparr>"
    and k: "3 \<le> k" "k \<le> 30" and len: "length es = 2 ^ k" "h < 2 ^ k" "length xs < 2 ^ k"
    and rot: "rotate h es = xs @ replicate (2 ^ k - length xs) NULL" and nn: "NULL \<notin> set xs"
  note ends = end_cells [OF len rot]
  have hl: "h < length es" using len by simp
  show ?thesis
  proof (cases xs)
    case Nil
    then have "ArrayDeque_removeFirst d = Some (NULL, ArrayDeque_ensureCapacity d)"
      using ends(1) hl by (simp add: ArrayDeque_removeFirst_def d elems_def Let_def mem_ok)
    moreover have "deque_rep (ArrayDeque_ensureCapacity d) xs"
      unfolding d by (rule deque_repI [OF k len rot nn])
    ultimately show ?thesis using Nil by auto
  next
    case (Cons y ys)
    let ?h = "(h + 1) mod 2 ^ k"
    have y: "y \<noteq> NULL" "NULL \<notin> set ys" using nn Cons by auto
    have "rotate h (es[h := NULL]) = NULL # ys @ replicate (2 ^ k - length xs) NULL"
      using rotate_update [of 0 es h NULL] rot len Cons by simp
    moreover have "rotate ?h (es[h := NULL]) = rotate1 (rotate h (es[h := NULL]))"
    proof -
      have "rotate ?h (es[h := NULL]) = rotate (h + 1) (es[h := NULL])"
        using len(1) rotate_conv_mod [of "h + 1" "es[h := NULL]"] by simp
      then show ?thesis by (simp add: rotate_def)
    qed
    moreover have "2 ^ k - length ys = Suc (2 ^ k - length xs)" using Cons len(3) by simp
    ultimately have rot': "rotate ?h (es[h := NULL]) = ys @ replicate (2 ^ k - length ys) NULL"
      by (simp add: replicate_append_same)
    have "(?h + length ys) mod 2 ^ k = ?t" using Cons by (simp add: mod_simps)
    then have "ArrayDeque_removeFirst d = Some (y, \<lparr>dhead = ?h, dtail = (?h + length ys) mod 2 ^ k,
        dsize = 2 ^ k, elements = Some (es[h := NULL])\<rparr>)"
      using ends(1) hl y Cons by (simp add: ArrayDeque_removeFirst_def d elems_def Let_def mem_ok wrap_up)
    moreover have "deque_rep \<lparr>dhead = ?h, dtail = (?h + length ys) mod 2 ^ k,
        dsize = 2 ^ k, elements = Some (es[h := NULL])\<rparr> ys"
      using k len y Cons by (intro deque_repI [OF _ _ _ _ _ rot']) auto
    ultimately show ?thesis using Cons by auto
  qed
qed

lemma ArrayDeque_removeLast_rep:
  assumes "deque_rep d xs"
  shows "\<exists>d'. ArrayDeque_removeLast d = Some (fst (deque_spec NULL RemoveLast xs), d') \<and>
     deque_rep d' (snd (deque_spec NULL RemoveLast xs))"
proof (rule ensure_rep [OF assms])
  fix h es k
  let ?t = "(h + length xs) mod 2 ^ k"
  assume d: "ArrayDeque_ensureCapacity d = \<lparr>dhead = h, dtail = ?t, dsize = 2 ^ k, elements = Some es\<rparr>"
    and k: "3 \<le> k" "k \<le> 30" and len: "length es = 2 ^ k" "h < 2 ^ k" "length xs < 2 ^ k"
    and rot: "rotate h es = xs @ replicate (2 ^ k - length xs) NULL" and nn: "NULL \<notin> set xs"
  note ends = end_cells [OF len rot]
  have w: "wrap (int ?t - 1) (2 ^ k) = (h + length xs + (2 ^ k - 1)) mod 2 ^ k"
    unfolding wrap_down by (rule mod_add_left_eq)
  have wl: "(h + length xs + (2 ^ k - 1)) mod 2 ^ k < length es" using len by simp
  show ?thesis
  proof (cases "xs = []")
    case True
    then have "ArrayDeque_removeLast d = Some (NULL, ArrayDeque_ensureCapacity d)"
      using ends(2) wl w by (simp add: ArrayDeque_removeLast_def d elems_def Let_def mem_ok)
    moreover have "deque_rep (ArrayDeque_ensureCapacity d) xs"
      unfolding d by (rule deque_repI [OF k len rot nn])
    ultimately show ?thesis using True by auto
  next
    case False
    let ?l = "(h + (length xs - 1)) mod 2 ^ k" and ?ys = "butlast xs"
    have w': "wrap (int ?t - 1) (2 ^ k) = ?l" using w ends(3) [OF False] by simp
    have ll: "?l < length es" using len by simp
    have y: "last xs \<noteq> NULL" "NULL \<notin> set ?ys" using nn False by (metis last_in_set, metis in_set_butlastD)
    have "rotate h (es[?l := NULL]) = (xs @ replicate (2 ^ k - length xs) NULL)[length xs - 1 := NULL]"
      using rotate_update [of "length xs - 1" es h NULL] rot len by simp
    also have "\<dots> = ?ys @ NULL # replicate (2 ^ k - length xs) NULL"
      using False by (cases xs rule: rev_cases) (simp_all add: list_update_append)
    also have "\<dots> = ?ys @ replicate (2 ^ k - length ?ys) NULL"
    proof -
      have "2 ^ k - length ?ys = Suc (2 ^ k - length xs)" using False len(3) by (cases xs) auto
      then show ?thesis by simp
    qed
    finally have rot': "rotate h (es[?l := NULL]) = ?ys @ replicate (2 ^ k - length ?ys) NULL" .
    have "ArrayDeque_removeLast d = Some (last xs, \<lparr>dhead = h, dtail = (h + length ?ys) mod 2 ^ k,
        dsize = 2 ^ k, elements = Some (es[?l := NULL])\<rparr>)"
      using ends(4) [OF False] ll y w'
      by (simp add: ArrayDeque_removeLast_def d elems_def Let_def mem_ok)
    moreover have "deque_rep \<lparr>dhead = h, dtail = (h + length ?ys) mod 2 ^ k,
        dsize = 2 ^ k, elements = Some (es[?l := NULL])\<rparr> ?ys"
      using k len y by (intro deque_repI [OF _ _ _ _ _ rot']) auto
    ultimately show ?thesis using False by auto
  qed
qed

lemma ArrayDeque_get_rep:
  assumes "deque_rep d xs"
  shows "\<exists>d'. ArrayDeque_getFirst d = Some (fst (deque_spec NULL GetFirst xs), d') \<and> deque_rep d' xs"
    "\<exists>d'. ArrayDeque_getLast d = Some (fst (deque_spec NULL GetLast xs), d') \<and> deque_rep d' xs"
proof (atomize (full), rule ensure_rep [OF assms])
  fix h es k
  let ?t = "(h + length xs) mod 2 ^ k"
  assume d: "ArrayDeque_ensureCapacity d = \<lparr>dhead = h, dtail = ?t, dsize = 2 ^ k, elements = Some es\<rparr>"
    and k: "3 \<le> k" "k \<le> 30" and len: "length es = 2 ^ k" "h < 2 ^ k" "length xs < 2 ^ k"
    and rot: "rotate h es = xs @ replicate (2 ^ k - length xs) NULL" and nn: "NULL \<notin> set xs"
  note ends = end_cells [OF len rot]
  have w: "wrap (int ?t - 1) (2 ^ k) = (h + length xs + (2 ^ k - 1)) mod 2 ^ k"
    unfolding wrap_down by (rule mod_add_left_eq)
  have r: "deque_rep (ArrayDeque_ensureCapacity d) xs"
    unfolding d by (rule deque_repI [OF k len rot nn])
  have f: "ArrayDeque_getFirst d = Some (fst (deque_spec NULL GetFirst xs), ArrayDeque_ensureCapacity d)"
    using ends(1) len by (simp add: ArrayDeque_getFirst_def d elems_def Let_def mem_ok)
  have "ArrayDeque_getLast d = Some (fst (deque_spec NULL GetLast xs), ArrayDeque_ensureCapacity d)"
    using ends(2-4) len w by (cases "xs = []") (simp_all add: ArrayDeque_getLast_def d elems_def Let_def mem_ok)
  with f r show "(\<exists>d'. ArrayDeque_getFirst d = Some (fst (deque_spec NULL GetFirst xs), d') \<and> deque_rep d' xs) \<and>
    (\<exists>d'. ArrayDeque_getLast d = Some (fst (deque_spec NULL GetLast xs), d') \<and> deque_rep d' xs)" by blast
qed

definition DEQUE_LIMIT :: nat where "DEQUE_LIMIT = 2 ^ 30 - 1"

interpretation ad: deque deque_rep NULL DEQUE_LIMIT array_deque_step
proof
  fix d xs oper
  assume r: "deque_rep d xs" and nn: "NULL \<notin> set (added oper)" and lim: "length xs + length (added oper) \<le> DEQUE_LIMIT"
  show "\<exists>d'. array_deque_step oper d = Some (fst (deque_spec NULL oper xs), d') \<and>
      deque_rep d' (snd (deque_spec NULL oper xs))"
    using r nn lim ArrayDeque_addFirst_rep [OF r] ArrayDeque_addLast_rep [OF r]
      ArrayDeque_removeFirst_rep [OF r] ArrayDeque_removeLast_rep [OF r] ArrayDeque_get_rep [OF r]
    by (cases oper) (fastforce simp: DEQUE_LIMIT_def)+
qed

text \<open>
C39: \<open>ArrayDeque\<close> is a double-ended queue. Any sequence of at most \<open>2 ^ 30 - 1\<close> operations at both
  ends, starting from an empty deque and adding non-NULL pointers, runs without an access out of
  bounds (through the lazy allocation, every wrap-around and every doubling of the block) and returns
  what the same operations return on a list, NULL standing for the end of an empty deque.
\<close>
theorem array_deque_is_deque:
  assumes "length ops \<le> DEQUE_LIMIT" "\<forall>oper \<in> set ops. NULL \<notin> set (added oper)"
  shows "\<exists>d. ad.run ops new_deque = Some (fst (spec_run NULL ops []), d) \<and>
    deque_rep d (snd (spec_run NULL ops []))"
proof -
  have "deque_rep new_deque []" by (simp add: deque_rep_def new_deque_def)
  then show ?thesis using ad.run_refines [of new_deque "[]" ops] assms by auto
qed

theorem array_deque_is_deque_witness:
  "\<exists>d. ad.run [AddLast 1, AddFirst 2, AddLast 3, RemoveLast, RemoveFirst, GetFirst, RemoveLast, RemoveLast]
     new_deque = Some ([0, 0, 0, 3, 2, 1, 1, 0], d)"
  using array_deque_is_deque
    [of "[AddLast 1, AddFirst 2, AddLast 3, RemoveLast, RemoveFirst, GetFirst, RemoveLast, RemoveLast]"]
  by (auto simp: DEQUE_LIMIT_def)

end
