(* ===== verification/RuntimeEnv.thy ===== *)
theory RuntimeEnv
  imports Prelude
begin

text \<open>
  The environment half of the mandatory runtime contract: \<open>native/runtime/fhs-exec.c\<close>
  captures seventeen variables when the library is loaded, and makes them survive
  \<open>clearenv\<close>, \<open>unsetenv\<close> and a sanitised \<open>execve\<close> environment; it also rewrites
  the argument vector of Chromium-style helper processes (\<open>BIONICX_CHILD_FLAGS\<close>).

  \<open>environ\<close> is the process's list of \<open>NAME=value\<close> entries, \<open>captured\<close> the static
  array \<open>captured_runtime_environment\<close>, whose empty entries mean "not captured".
  The libc functions reached through \<open>dlsym (RTLD_NEXT, ...)\<close> are
  \<open>libc_getenv\<close>, \<open>libc_setenv\<close> (with overwrite) and \<open>libc_unsetenv\<close>.
\<close>

section \<open>The environment of libc\<close>

record renv =
  environ :: "string list"
  captured :: "string list"

definition environment_has_name :: "string \<Rightarrow> string \<Rightarrow> bool" where
  "environment_has_name entry name \<longleftrightarrow> prefix (name @ ''='') entry"

fun bionicx_getenv :: "string list \<Rightarrow> string \<Rightarrow> string option" where
  "bionicx_getenv [] name = None"
| "bionicx_getenv (item # items) name =
     (if environment_has_name item name then Some (drop (length name + 1) item)
      else bionicx_getenv items name)"

definition libc_getenv :: "string list \<Rightarrow> string \<Rightarrow> string option" where
  "libc_getenv env name = bionicx_getenv env name"

definition env_entry :: "string \<Rightarrow> string \<Rightarrow> string" where
  "env_entry name value = name @ ''='' @ value"

fun libc_setenv :: "string \<Rightarrow> string \<Rightarrow> string list \<Rightarrow> string list" where
  "libc_setenv name value [] = [env_entry name value]"
| "libc_setenv name value (e # es) =
     (if environment_has_name e name then env_entry name value # es
      else e # libc_setenv name value es)"

definition libc_unsetenv :: "string \<Rightarrow> string list \<Rightarrow> string list" where
  "libc_unsetenv name env = filter (\<lambda>e. \<not> environment_has_name e name) env"

section \<open>The captured values\<close>

definition runtime_environment_names :: "string list" where
  "runtime_environment_names =
     [''LD_PRELOAD'', ''BIONICX_ROOTFS'', ''BIONICX_TMPDIR'', ''BIONICX_DNS_SERVERS'',
      ''BIONICX_VIRTUAL_ROOT'', ''BIONICX_REWRITE_ABSOLUTE_SYMLINKS'',
      ''BIONICX_CHILD_FLAGS'', ''BIONICX_CHILD_DROP_FLAGS'', ''BIONICX_LOG_EXEC'',
      ''SSL_CERT_FILE'', ''SSL_CERT_DIR'', ''NODE_EXTRA_CA_CERTS'',
      ''SHELL'', ''HOME'', ''PATH'', ''LANG'', ''TERM'']"

fun captured_lookup :: "string list \<Rightarrow> string list \<Rightarrow> string \<Rightarrow> string option" where
  "captured_lookup (n # ns) (v # vs) name =
     (if n \<noteq> name then captured_lookup ns vs name
      else if v \<noteq> '''' then Some v else None)"
| "captured_lookup _ _ name = None"

definition captured_runtime_value :: "renv \<Rightarrow> string \<Rightarrow> string option" where
  "captured_runtime_value st name = captured_lookup runtime_environment_names (captured st) name"

definition bionicx_captured_rootfs :: "renv \<Rightarrow> string option" where
  "bionicx_captured_rootfs st = captured_runtime_value st ''BIONICX_ROOTFS''"

definition bionicx_captured_tmpdir :: "renv \<Rightarrow> string option" where
  "bionicx_captured_tmpdir st = captured_runtime_value st ''BIONICX_TMPDIR''"

text \<open>The interposed \<open>getenv\<close> (and \<open>secure_getenv\<close>): a live non-empty value wins.\<close>

definition getenv :: "renv \<Rightarrow> string \<Rightarrow> string option" where
  "getenv st name =
     (case libc_getenv (environ st) name of
        Some live \<Rightarrow> if live \<noteq> '''' then Some live else captured_runtime_value st name
      | None \<Rightarrow> captured_runtime_value st name)"

text \<open>
  The constructor runs over the names with the interposed \<open>getenv\<close>; a longer value is
  cut at \<open>PATH_MAX - 1\<close> characters by \<open>snprintf\<close>.
\<close>

fun capture_from :: "nat \<Rightarrow> string list \<Rightarrow> renv \<Rightarrow> renv" where
  "capture_from i [] st = st"
| "capture_from i (n # ns) st =
     capture_from (Suc i) ns
       (st\<lparr>captured := (captured st)[i := (case getenv st n of
            None \<Rightarrow> '''' | Some value \<Rightarrow> take (PATH_MAX - 1) value)]\<rparr>)"

definition capture_runtime_environment :: "renv \<Rightarrow> renv" where
  "capture_runtime_environment st = capture_from 0 runtime_environment_names st"

text \<open>The process as the loader starts it: an environment, and a zeroed static array.\<close>

definition initial_renv :: "string list \<Rightarrow> renv" where
  "initial_renv env = \<lparr>environ = env, captured = replicate (length runtime_environment_names) ''''\<rparr>"

fun restore_from :: "string list \<Rightarrow> string list \<Rightarrow> string list \<Rightarrow> string list" where
  "restore_from (n # ns) (v # vs) env =
     restore_from ns vs (if v = '''' then env else libc_setenv n v env)"
| "restore_from _ _ env = env"

definition restore_runtime_environment :: "renv \<Rightarrow> renv" where
  "restore_runtime_environment st =
     st\<lparr>environ := restore_from runtime_environment_names (captured st) (environ st)\<rparr>"

definition clearenv :: "renv \<Rightarrow> renv" where
  "clearenv st = restore_runtime_environment (st\<lparr>environ := []\<rparr>)"

definition unsetenv :: "renv \<Rightarrow> string \<Rightarrow> renv" where
  "unsetenv st name =
     (if captured_runtime_value st name \<noteq> None then st
      else st\<lparr>environ := libc_unsetenv name (environ st)\<rparr>)"

section \<open>The environment of a child\<close>

definition is_runtime_environment_entry :: "string \<Rightarrow> bool" where
  "is_runtime_environment_entry entry \<longleftrightarrow>
     list_ex (environment_has_name entry) runtime_environment_names"

definition captured_entries :: "renv \<Rightarrow> string list" where
  "captured_entries st =
     concat (map (\<lambda>n. case captured_runtime_value st n of
         None \<Rightarrow> [] | Some v \<Rightarrow> [env_entry n v]) runtime_environment_names)"

text \<open>
  The result is the merged vector and \<open>owned_from\<close>; \<open>None\<close> is the NULL that stands for
  a NULL input.
\<close>

definition with_runtime_environment ::
    "renv \<Rightarrow> string list option \<Rightarrow> (string list \<times> nat) option" where
  "with_runtime_environment st environment =
     (case environment of
        None \<Rightarrow> None
      | Some env \<Rightarrow>
          let kept = filter (\<lambda>e. \<not> is_runtime_environment_entry e) env
          in Some (kept @ captured_entries st, length kept))"

section \<open>Helper-process arguments\<close>

definition CHILD_FLAG_SLOTS :: nat where "CHILD_FLAG_SLOTS = 16"

definition arguments_have_prefix :: "string list \<Rightarrow> string \<Rightarrow> bool" where
  "arguments_have_prefix arguments pre \<longleftrightarrow> list_ex (prefix pre) arguments"

fun split_words :: "nat \<Rightarrow> string \<Rightarrow> string list" where
  "split_words 0 cursor = []"
| "split_words (Suc slots) cursor =
     (let start = dropWhile (\<lambda>c. c = CHR '' '') cursor
      in if start = '''' then []
         else takeWhile (\<lambda>c. c \<noteq> CHR '' '') start #
              split_words slots (tl (dropWhile (\<lambda>c. c \<noteq> CHR '' '') start)))"

definition split_child_flags :: "string option \<Rightarrow> nat \<Rightarrow> nat \<Rightarrow> string list" where
  "split_child_flags extra copy_size slots =
     (case extra of
        None \<Rightarrow> []
      | Some e \<Rightarrow> if e = '''' then [] else split_words slots (take (copy_size - 1) e))"

definition flag_key :: "string \<Rightarrow> string" where
  "flag_key flag = takeWhile (\<lambda>c. c \<noteq> CHR ''='') flag"

definition same_flag_key :: "string \<Rightarrow> string \<Rightarrow> bool" where
  "same_flag_key l r \<longleftrightarrow> flag_key l = flag_key r"

definition flag_key_in_list :: "string \<Rightarrow> string list \<Rightarrow> bool" where
  "flag_key_in_list flag flags \<longleftrightarrow> list_ex (same_flag_key flag) flags"

definition with_child_flags :: "renv \<Rightarrow> string list \<Rightarrow> string list option" where
  "with_child_flags st arguments =
     (case captured_runtime_value st ''BIONICX_CHILD_FLAGS'' of
        None \<Rightarrow> None
      | Some extra \<Rightarrow>
          if extra = '''' \<or> \<not> arguments_have_prefix arguments ''--type='' then None
          else
            let flags = split_child_flags (Some extra) PATH_MAX CHILD_FLAG_SLOTS;
                drops = split_child_flags
                  (captured_runtime_value st ''BIONICX_CHILD_DROP_FLAGS'')
                  PATH_MAX CHILD_FLAG_SLOTS
            in if flags = [] then None
               else Some (filter (\<lambda>a. \<not> flag_key_in_list a drops \<and> \<not> flag_key_in_list a flags)
                            arguments @ flags))"

text \<open>Every caller goes on with the original vector when the rewrite returned NULL.\<close>

definition child_arguments :: "renv \<Rightarrow> string list \<Rightarrow> string list" where
  "child_arguments st arguments =
     (case with_child_flags st arguments of None \<Rightarrow> arguments | Some merged \<Rightarrow> merged)"

section \<open>Lookup in an environment\<close>

definition has_entry :: "string list \<Rightarrow> string \<Rightarrow> bool" where
  "has_entry env name \<longleftrightarrow> list_ex (\<lambda>e. environment_has_name e name) env"

lemma has_name_entry_drop:
  "environment_has_name (env_entry n v) n \<and> drop (length n + 1) (env_entry n v) = v"
  by (simp add: environment_has_name_def env_entry_def)

lemma has_name_env_entry [simp]: "environment_has_name (env_entry n v) n"
  by (simp add: environment_has_name_def env_entry_def)

lemma drop_env_entry [simp]: "drop (Suc (length n)) (env_entry n v) = v"
  by (simp add: env_entry_def)

text \<open>Two different names, neither with \<open>=\<close> inside, are never confused.\<close>

definition plain_name :: "string \<Rightarrow> bool" where
  "plain_name n \<longleftrightarrow> CHR ''='' \<notin> set n"

lemma plain_name_prefix_unique:
  assumes "plain_name m" "plain_name n" "prefix (m @ ''='') e" "prefix (n @ ''='') e"
  shows "m = n"
proof -
  have key: "takeWhile (\<lambda>c. c \<noteq> CHR ''='') e = k" if "plain_name k" "prefix (k @ ''='') e" for k
    using that by (auto simp: plain_name_def prefix_def takeWhile_append)
  from key [OF assms(1,3)] key [OF assms(2,4)] show ?thesis by simp
qed

lemma has_name_unique:
  "plain_name m \<Longrightarrow> plain_name n \<Longrightarrow> environment_has_name e m \<Longrightarrow> environment_has_name e n \<Longrightarrow> m = n"
  unfolding environment_has_name_def by (rule plain_name_prefix_unique)

lemma has_name_env_entry_iff:
  "plain_name m \<Longrightarrow> plain_name n \<Longrightarrow> environment_has_name (env_entry m v) n \<longleftrightarrow> m = n"
  using has_name_unique has_name_env_entry by blast

lemma getenv_append:
  "bionicx_getenv (xs @ ys) n =
     (if has_entry xs n then bionicx_getenv xs n else bionicx_getenv ys n)"
  by (induction xs) (auto simp: has_entry_def)

lemma getenv_None_iff: "bionicx_getenv env n = None \<longleftrightarrow> \<not> has_entry env n"
  by (induction env) (auto simp: has_entry_def)

lemma getenv_setenv_same [simp]: "bionicx_getenv (libc_setenv n v env) n = Some v"
  by (induction env) auto

lemma getenv_setenv_other:
  "plain_name m \<Longrightarrow> plain_name n \<Longrightarrow> m \<noteq> n \<Longrightarrow>
   bionicx_getenv (libc_setenv n v env) m = bionicx_getenv env m"
  by (induction env) (auto simp: has_name_env_entry_iff dest: has_name_unique)

lemma getenv_filter:
  "(\<And>e. e \<in> set env \<Longrightarrow> environment_has_name e n \<Longrightarrow> P e) \<Longrightarrow>
   bionicx_getenv (filter P env) n = bionicx_getenv env n"
  by (induction env) auto

lemma plain_runtime_names: "n \<in> set runtime_environment_names \<Longrightarrow> plain_name n"
  by (auto simp: runtime_environment_names_def plain_name_def)

lemma distinct_runtime_names: "distinct runtime_environment_names"
  by (simp add: runtime_environment_names_def)

lemma length_runtime_names: "length runtime_environment_names = 17"
  by (simp add: runtime_environment_names_def)

section \<open>What capture, restore and merge do to a lookup\<close>

definition env_wf :: "renv \<Rightarrow> bool" where
  "env_wf st \<longleftrightarrow> length (captured st) = length runtime_environment_names \<and>
     (\<forall>v \<in> set (captured st). length v < PATH_MAX)"

lemma captured_lookup_nth:
  "distinct ns \<Longrightarrow> length vs = length ns \<Longrightarrow> i < length ns \<Longrightarrow>
   captured_lookup ns vs (ns ! i) = (if vs ! i = '''' then None else Some (vs ! i))"
proof (induction ns vs "ns ! i" arbitrary: i rule: captured_lookup.induct)
  case (1 n ns v vs)
  then show ?case by (cases i) auto
qed auto

lemma captured_lookup_notin: "m \<notin> set ns \<Longrightarrow> captured_lookup ns vs m = None"
  by (induction ns vs m rule: captured_lookup.induct) auto

lemma captured_lookup_value: "captured_lookup ns vs m = Some v \<Longrightarrow> v \<noteq> '''' \<and> v \<in> set vs"
  by (induction ns vs m rule: captured_lookup.induct) (auto split: if_splits)

lemma captured_nonempty: "captured_runtime_value st n = Some v \<Longrightarrow> v \<noteq> ''''"
  unfolding captured_runtime_value_def by (drule captured_lookup_value) simp

lemma captured_in_names: "captured_runtime_value st n = Some v \<Longrightarrow> n \<in> set runtime_environment_names"
  unfolding captured_runtime_value_def using captured_lookup_notin by fastforce

lemma captured_short:
  "env_wf st \<Longrightarrow> captured_runtime_value st n = Some v \<Longrightarrow> length v < PATH_MAX"
  unfolding captured_runtime_value_def env_wf_def by (drule captured_lookup_value) simp

lemma getenv_entries:
  "\<forall>n \<in> set ns. plain_name n \<Longrightarrow> plain_name m \<Longrightarrow> distinct ns \<Longrightarrow>
   bionicx_getenv (concat (map (\<lambda>n. case f n of None \<Rightarrow> [] | Some v \<Rightarrow> [env_entry n v]) ns)) m =
     (if m \<in> set ns then f m else None)"
  by (induction ns) (auto simp: has_name_env_entry_iff split: option.split)

lemma getenv_captured_entries:
  "plain_name m \<Longrightarrow> bionicx_getenv (captured_entries st) m = captured_runtime_value st m"
  using getenv_entries [of runtime_environment_names m "captured_runtime_value st"]
    plain_runtime_names distinct_runtime_names captured_in_names [of st m]
  by (cases "captured_runtime_value st m") (auto simp: captured_entries_def)

lemma getenv_restore:
  "distinct ns \<Longrightarrow> \<forall>n \<in> set ns. plain_name n \<Longrightarrow> plain_name m \<Longrightarrow> length vs = length ns \<Longrightarrow>
   bionicx_getenv (restore_from ns vs env) m =
     (case captured_lookup ns vs m of Some v \<Rightarrow> Some v | None \<Rightarrow> bionicx_getenv env m)"
proof (induction ns vs env rule: restore_from.induct)
  case (1 n ns v vs env)
  show ?case
  proof (cases "n = m")
    case True
    with 1 show ?thesis by (cases "v = ''''") (simp_all add: captured_lookup_notin)
  next
    case False
    with 1 show ?thesis by (simp add: getenv_setenv_other split: option.split)
  qed
qed auto

lemma getenv_restore_runtime:
  "env_wf st \<Longrightarrow> plain_name m \<Longrightarrow>
   bionicx_getenv (environ (restore_runtime_environment st)) m =
     (case captured_runtime_value st m of Some v \<Rightarrow> Some v
      | None \<Rightarrow> bionicx_getenv (environ st) m)"
  unfolding restore_runtime_environment_def captured_runtime_value_def env_wf_def
  by (simp add: getenv_restore distinct_runtime_names plain_runtime_names)

definition capval :: "string list \<Rightarrow> string \<Rightarrow> string" where
  "capval env n = (case libc_getenv env n of None \<Rightarrow> '''' | Some v \<Rightarrow> take (PATH_MAX - 1) v)"

lemma capture_from_spec:
  "drop i runtime_environment_names = ns \<Longrightarrow>
   length (captured st) = length runtime_environment_names \<Longrightarrow>
   (\<forall>j. i \<le> j \<and> j < length (captured st) \<longrightarrow> captured st ! j = '''') \<Longrightarrow>
   environ (capture_from i ns st) = environ st \<and>
   captured (capture_from i ns st) = take i (captured st) @ map (capval (environ st)) ns"
proof (induction ns arbitrary: i st)
  case Nil
  then show ?case by simp
next
  case (Cons n ns)
  let ?N = runtime_environment_names
  have i: "i < length ?N" using Cons.prems(1) by (cases "i < length ?N") auto
  then have n: "?N ! i = n" and ns: "drop (Suc i) ?N = ns"
    using Cons.prems(1) by (auto simp flip: Cons_nth_drop_Suc)
  have "captured_runtime_value st n = None"
    using captured_lookup_nth [OF distinct_runtime_names _ i] Cons.prems(2,3) n i
    by (simp add: captured_runtime_value_def)
  then have v: "(case getenv st n of None \<Rightarrow> '''' | Some v \<Rightarrow> take (PATH_MAX - 1) v)
      = capval (environ st) n"
    by (auto simp: getenv_def capval_def split: option.split)
  let ?st = "st\<lparr>captured := (captured st)[i := capval (environ st) n]\<rparr>"
  have "environ (capture_from (Suc i) ns ?st) = environ st \<and>
    captured (capture_from (Suc i) ns ?st) =
      take (Suc i) (captured ?st) @ map (capval (environ st)) ns"
    using Cons.IH [of "Suc i" ?st] ns Cons.prems(2,3) by simp
  moreover have "take (Suc i) (captured ?st) = take i (captured st) @ [capval (environ st) n]"
    using i Cons.prems(2) by (simp add: take_Suc_conv_app_nth)
  ultimately show ?case using v by simp
qed

lemma capture_initial:
  "environ (capture_runtime_environment (initial_renv env)) = env"
  "captured (capture_runtime_environment (initial_renv env)) = map (capval env) runtime_environment_names"
  using capture_from_spec [of 0 runtime_environment_names "initial_renv env"]
  by (simp_all add: capture_runtime_environment_def initial_renv_def)

lemma captured_initial:
  assumes "n \<in> set runtime_environment_names"
  shows "captured_runtime_value (capture_runtime_environment (initial_renv env)) n =
    (if capval env n = '''' then None else Some (capval env n))"
proof -
  obtain i where "i < length runtime_environment_names" "runtime_environment_names ! i = n"
    using assms by (auto simp: in_set_conv_nth)
  then show ?thesis
    using captured_lookup_nth [OF distinct_runtime_names, of "map (capval env) runtime_environment_names" i]
    by (simp add: captured_runtime_value_def capture_initial)
qed

lemma env_wf_initial [inv_intros]: "env_wf (capture_runtime_environment (initial_renv env))"
  by (auto simp: env_wf_def capture_initial capval_def PATH_MAX_def split: option.split)

lemma env_wf_cong: "captured st' = captured st \<Longrightarrow> env_wf st' = env_wf st"
  by (simp add: env_wf_def)

lemma captured_cong: "captured st' = captured st \<Longrightarrow> captured_runtime_value st' n = captured_runtime_value st n"
  by (simp add: captured_runtime_value_def)

lemma captured_restore [simp]: "captured (restore_runtime_environment st) = captured st"
  by (simp add: restore_runtime_environment_def)

lemma captured_clearenv [simp]: "captured (clearenv st) = captured st"
  by (simp add: clearenv_def)

lemma captured_unsetenv [simp]: "captured (unsetenv st n) = captured st"
  by (simp add: unsetenv_def)

section \<open>The contract survives\<close>

lemma not_runtime_entry:
  "plain_name m \<Longrightarrow> m \<notin> set runtime_environment_names \<Longrightarrow> environment_has_name e m \<Longrightarrow>
   \<not> is_runtime_environment_entry e"
  using plain_runtime_names has_name_unique
  by (auto simp: is_runtime_environment_entry_def list_ex_iff)

lemma kept_has_no_runtime_entry:
  "n \<in> set runtime_environment_names \<Longrightarrow>
   \<not> has_entry (filter (\<lambda>e. \<not> is_runtime_environment_entry e) env) n"
  by (auto simp: has_entry_def list_ex_iff is_runtime_environment_entry_def)

lemma getenv_merged:
  assumes "with_runtime_environment st (Some env) = Some (merged, k)" "plain_name m"
  shows "bionicx_getenv merged m =
    (if m \<in> set runtime_environment_names then captured_runtime_value st m
     else bionicx_getenv env m)"
proof (cases "m \<in> set runtime_environment_names")
  case True
  with assms show ?thesis
    by (auto simp: with_runtime_environment_def Let_def getenv_append
        kept_has_no_runtime_entry getenv_captured_entries)
next
  case False
  then have c: "captured_runtime_value st m = None"
    using captured_in_names by fastforce
  have f: "bionicx_getenv (filter (\<lambda>e. \<not> is_runtime_environment_entry e) env) m = bionicx_getenv env m"
    using assms(2) False by (intro getenv_filter) (rule not_runtime_entry)
  show ?thesis
    using assms False c f getenv_None_iff [of "filter (\<lambda>e. \<not> is_runtime_environment_entry e) env" m]
    by (auto simp: with_runtime_environment_def Let_def getenv_append getenv_captured_entries)
qed

lemma captured_entry_is_runtime:
  "e \<in> set (captured_entries st) \<Longrightarrow> is_runtime_environment_entry e"
  unfolding captured_entries_def is_runtime_environment_entry_def list_ex_iff
  by (auto split: option.splits) (metis has_name_env_entry)

lemma merged_idempotent:
  "with_runtime_environment st (Some env) = Some (merged, k) \<Longrightarrow>
   with_runtime_environment st (Some merged) = Some (merged, k)"
proof -
  have "filter (\<lambda>e. \<not> is_runtime_environment_entry e) (captured_entries st) = []"
    by (auto simp: filter_empty_conv captured_entry_is_runtime)
  then show "with_runtime_environment st (Some env) = Some (merged, k) \<Longrightarrow>
   with_runtime_environment st (Some merged) = Some (merged, k)"
    by (auto simp: with_runtime_environment_def Let_def)
qed

text \<open>
C17: \<open>execve\<close> hands the child an environment in which every runtime-owned variable has
  exactly the captured value (or is absent), whatever the caller passed, every other variable
  keeps the caller's value, entries kept from the caller come first and in order, and merging
  twice changes nothing.
\<close>
theorem exec_environment_contract:
  assumes "with_runtime_environment st (Some env) = Some (merged, owned_from)"
  shows "(\<forall>n \<in> set runtime_environment_names.
            bionicx_getenv merged n = captured_runtime_value st n)
       \<and> (\<forall>n. plain_name n \<and> n \<notin> set runtime_environment_names \<longrightarrow>
            bionicx_getenv merged n = bionicx_getenv env n)
       \<and> take owned_from merged = filter (\<lambda>e. \<not> is_runtime_environment_entry e) env
       \<and> with_runtime_environment st (Some merged) = Some (merged, owned_from)"
  using assms merged_idempotent [OF assms] getenv_merged [OF assms] plain_runtime_names
  by (auto simp: with_runtime_environment_def Let_def)

definition demo_env :: renv where
  "demo_env = capture_runtime_environment
     (initial_renv [''BIONICX_ROOTFS=/data/r'', ''TERM=xterm'', ''USER=u''])"

theorem exec_environment_contract_witness:
  "bionicx_getenv [''USER=v'', ''BIONICX_ROOTFS=/data/r'', ''TERM=xterm''] ''BIONICX_ROOTFS''
     = captured_runtime_value demo_env ''BIONICX_ROOTFS''"
proof -
  have "with_runtime_environment demo_env (Some [''TERM=dumb'', ''USER=v'', ''HOME=/x'']) =
     Some ([''USER=v'', ''BIONICX_ROOTFS=/data/r'', ''TERM=xterm''], 1)"
    by code_simp
  from exec_environment_contract [OF this] show ?thesis
    by (simp add: runtime_environment_names_def)
qed

text \<open>
  What a process can do to its environment through the library: \<open>clearenv\<close>,
  \<open>unsetenv\<close>, libc's own \<open>setenv\<close>, and the restore that precedes an \<open>execv\<close>.
\<close>

datatype env_op = Clear | Unset string | Set string string | Restore

fun env_step :: "renv \<Rightarrow> env_op \<Rightarrow> renv" where
  "env_step st Clear = clearenv st"
| "env_step st (Unset n) = unsetenv st n"
| "env_step st (Set n v) = st\<lparr>environ := libc_setenv n v (environ st)\<rparr>"
| "env_step st Restore = restore_runtime_environment st"

definition env_run :: "renv \<Rightarrow> env_op list \<Rightarrow> renv" where
  "env_run st ops = foldl env_step st ops"

lemma captured_env_run [simp]: "captured (env_run st ops) = captured st"
proof -
  have "captured (env_step st op) = captured st" for st op by (cases op) auto
  then show ?thesis by (induction ops arbitrary: st) (auto simp: env_run_def)
qed

lemma getenv_captured_some:
  "captured_runtime_value st n = Some v \<Longrightarrow> \<exists>w. getenv st n = Some w \<and> w \<noteq> ''''"
  by (auto simp: getenv_def captured_nonempty split: option.split)

text \<open>
  The contract is inherited for ever: whatever sequence of \<open>clearenv\<close>,
  \<open>unsetenv\<close>, \<open>setenv\<close> and restores a process runs, every captured variable is
  still visible to \<open>getenv\<close>, and a child started through \<open>execve\<close> with any
  environment captures the very same runtime values as its parent.
\<close>
theorem runtime_contract_inherited:
  assumes "env_wf st"
    and "with_runtime_environment (env_run st ops) (Some env) = Some (merged, owned_from)"
    and "n \<in> set runtime_environment_names"
  shows "captured_runtime_value (capture_runtime_environment (initial_renv merged)) n =
           captured_runtime_value st n
       \<and> (captured_runtime_value st n \<noteq> None \<longrightarrow> getenv (env_run st ops) n \<noteq> None)"
proof (intro conjI impI)
  have c: "captured_runtime_value (env_run st ops) n = captured_runtime_value st n"
    by (rule captured_cong) simp
  have m: "libc_getenv merged n = captured_runtime_value st n"
    using getenv_merged [OF assms(2)] assms(3) plain_runtime_names c by (simp add: libc_getenv_def)
  show "captured_runtime_value (capture_runtime_environment (initial_renv merged)) n =
      captured_runtime_value st n"
  proof (cases "captured_runtime_value st n")
    case None
    then show ?thesis using m by (simp add: captured_initial [OF assms(3)] capval_def)
  next
    case (Some v)
    then have "v \<noteq> ''''" "length v < PATH_MAX"
      using captured_nonempty captured_short [OF assms(1)] by auto
    then show ?thesis using m Some
      by (auto simp: captured_initial [OF assms(3)] capval_def)
  qed
  show "getenv (env_run st ops) n \<noteq> None" if "captured_runtime_value st n \<noteq> None"
    using that c getenv_captured_some [of "env_run st ops" n] by fastforce
qed

theorem runtime_contract_inherited_witness:
  "captured_runtime_value (capture_runtime_environment (initial_renv
      [''A=b'', ''BIONICX_ROOTFS=/data/r'', ''TERM=xterm''])) ''TERM'' = Some ''xterm''"
proof -
  have m: "with_runtime_environment (env_run demo_env [Clear, Unset ''TERM'', Set ''TERM'' ''x''])
     (Some [''A=b'', ''TERM=x'']) = Some ([''A=b'', ''BIONICX_ROOTFS=/data/r'', ''TERM=xterm''], 1)"
    by code_simp
  have "env_wf demo_env" unfolding demo_env_def by (rule env_wf_initial)
  from runtime_contract_inherited [OF this m, of "''TERM''"]
  have "captured_runtime_value (capture_runtime_environment (initial_renv
      [''A=b'', ''BIONICX_ROOTFS=/data/r'', ''TERM=xterm''])) ''TERM''
      = captured_runtime_value demo_env ''TERM''"
    by (simp add: runtime_environment_names_def)
  also have "captured_runtime_value demo_env ''TERM'' = Some ''xterm''" by code_simp
  finally show ?thesis .
qed

section \<open>Helper-process switches\<close>

text \<open>The switch that wins when a helper scans its arguments and the last one counts.\<close>

fun last_switch :: "string \<Rightarrow> string list \<Rightarrow> string option" where
  "last_switch k [] = None"
| "last_switch k (a # as) =
     (case last_switch k as of Some b \<Rightarrow> Some b
      | None \<Rightarrow> if flag_key a = k then Some a else None)"

lemma last_switch_append:
  "last_switch k (as @ bs) =
     (case last_switch k bs of Some b \<Rightarrow> Some b | None \<Rightarrow> last_switch k as)"
  by (induction as) (auto split: option.split)

lemma last_switch_None: "last_switch k as = None \<longleftrightarrow> (\<forall>a \<in> set as. flag_key a \<noteq> k)"
  by (induction as) (auto split: option.splits)

lemma last_switch_filter_None:
  "(\<And>a. a \<in> set as \<Longrightarrow> flag_key a = k \<Longrightarrow> \<not> P a) \<Longrightarrow> last_switch k (filter P as) = None"
  by (auto simp: last_switch_None)

lemma last_switch_filter_id:
  "(\<And>a. a \<in> set as \<Longrightarrow> flag_key a = k \<Longrightarrow> P a) \<Longrightarrow> last_switch k (filter P as) = last_switch k as"
  by (induction as) (auto split: option.split)

lemma key_in_list_iff: "flag_key_in_list a fs \<longleftrightarrow> flag_key a \<in> flag_key ` set fs"
  by (auto simp: flag_key_in_list_def same_flag_key_def list_ex_iff)

abbreviation child_flags :: "renv \<Rightarrow> string list" where
  "child_flags st \<equiv> split_child_flags (captured_runtime_value st ''BIONICX_CHILD_FLAGS'')
     PATH_MAX CHILD_FLAG_SLOTS"

abbreviation drop_flags :: "renv \<Rightarrow> string list" where
  "drop_flags st \<equiv> split_child_flags (captured_runtime_value st ''BIONICX_CHILD_DROP_FLAGS'')
     PATH_MAX CHILD_FLAG_SLOTS"

lemma last_switch_override:
  "last_switch k (filter (\<lambda>a. \<not> flag_key_in_list a ds \<and> \<not> flag_key_in_list a fs) as @ fs) =
     (if k \<in> flag_key ` set fs then last_switch k fs
      else if k \<in> flag_key ` set ds then None else last_switch k as)"
proof (cases "k \<in> flag_key ` set fs")
  case True
  then have "last_switch k fs \<noteq> None" by (auto simp: last_switch_None)
  with True show ?thesis by (auto simp: last_switch_append)
next
  case False
  then have n: "last_switch k fs = None" by (auto simp: last_switch_None)
  let ?P = "\<lambda>a. \<not> flag_key_in_list a ds \<and> \<not> flag_key_in_list a fs"
  show ?thesis
  proof (cases "k \<in> flag_key ` set ds")
    case True
    then have "last_switch k (filter ?P as) = None"
      by (intro last_switch_filter_None) (simp add: key_in_list_iff)
    with n False True show ?thesis by (simp add: last_switch_append)
  next
    case notin: False
    then have "last_switch k (filter ?P as) = last_switch k as"
      using False by (intro last_switch_filter_id) (simp add: key_in_list_iff)
    with n False notin show ?thesis by (simp add: last_switch_append)
  qed
qed

lemma with_child_flags_Some:
  "with_child_flags st args = Some m \<longleftrightarrow>
     arguments_have_prefix args ''--type='' \<and> child_flags st \<noteq> [] \<and>
     m = filter (\<lambda>a. \<not> flag_key_in_list a (drop_flags st) \<and> \<not> flag_key_in_list a (child_flags st))
           args @ child_flags st"
  by (auto simp: with_child_flags_def Let_def split_child_flags_def split: option.split)

lemma child_arguments_again:
  "child_arguments st (child_arguments st args) = child_arguments st args"
proof (cases "with_child_flags st args")
  case None
  then show ?thesis by (simp add: child_arguments_def)
next
  case (Some m)
  have "filter (\<lambda>a. \<not> flag_key_in_list a (drop_flags st) \<and> \<not> flag_key_in_list a (child_flags st))
      (child_flags st) = []"
    by (auto simp: filter_empty_conv key_in_list_iff)
  then have "with_child_flags st m = Some m \<or> with_child_flags st m = None"
    using Some by (auto simp: with_child_flags_Some not_Some_eq [symmetric])
  with Some show ?thesis by (auto simp: child_arguments_def)
qed

text \<open>
Rewriting the arguments of a helper makes the configured switches win: for every switch
  key, the last argument with that key is the configured one if there is one, none at all if the
  key is to be dropped, and otherwise the caller's; a program started without \<open>--type=\<close> keeps
  its arguments, and rewriting twice is the same as rewriting once.
\<close>
theorem child_flags_last_win:
  "child_arguments st (child_arguments st args) = child_arguments st args
   \<and> (\<not> arguments_have_prefix args ''--type='' \<longrightarrow> child_arguments st args = args)
   \<and> (arguments_have_prefix args ''--type='' \<and> child_flags st \<noteq> [] \<longrightarrow>
       last_switch k (child_arguments st args) =
         (if k \<in> flag_key ` set (child_flags st) then last_switch k (child_flags st)
          else if k \<in> flag_key ` set (drop_flags st) then None
          else last_switch k args))"
proof -
  have "last_switch k (child_arguments st args) =
      (if k \<in> flag_key ` set (child_flags st) then last_switch k (child_flags st)
       else if k \<in> flag_key ` set (drop_flags st) then None
       else last_switch k args)"
    if "arguments_have_prefix args ''--type=''" "child_flags st \<noteq> []"
  proof -
    have "with_child_flags st args = Some (filter (\<lambda>a. \<not> flag_key_in_list a (drop_flags st) \<and>
        \<not> flag_key_in_list a (child_flags st)) args @ child_flags st)"
      using that by (simp only: with_child_flags_Some simp_thms)
    then show ?thesis by (simp only: child_arguments_def option.case last_switch_override)
  qed
  moreover have "child_arguments st args = args" if "\<not> arguments_have_prefix args ''--type=''"
    using that by (auto simp: child_arguments_def with_child_flags_def split: option.split)
  ultimately show ?thesis using child_arguments_again by blast
qed

definition demo_flags :: renv where
  "demo_flags = capture_runtime_environment (initial_renv
     [''BIONICX_CHILD_FLAGS=--use-angle=gl  --no-zygote'', ''BIONICX_CHILD_DROP_FLAGS=--disable-gpu''])"

theorem child_flags_last_win_witness:
  "last_switch ''--use-angle'' (child_arguments demo_flags
      [''x'', ''--type=gpu'', ''--use-angle=sw'', ''--disable-gpu'']) = Some ''--use-angle=gl''"
proof -
  let ?a = "[''x'', ''--type=gpu'', ''--use-angle=sw'', ''--disable-gpu'']"
  have p: "arguments_have_prefix ?a ''--type=''" by code_simp
  have f: "child_flags demo_flags = [''--use-angle=gl'', ''--no-zygote'']" by code_simp
  from child_flags_last_win [of demo_flags ?a "''--use-angle''"] p f show ?thesis
    by (simp add: flag_key_def)
qed

lemma length_split_words: "length (split_words n s) \<le> n"
  by (induction n s rule: split_words.induct) (simp_all add: Let_def)

lemma split_words_no_space:
  "w \<in> set (split_words n s) \<Longrightarrow> w \<noteq> '''' \<and> CHR '' '' \<notin> set w"
proof (induction n s rule: split_words.induct)
  case (2 n s)
  let ?t = "dropWhile (\<lambda>c. c = CHR '' '') s"
  have "takeWhile (\<lambda>c. c \<noteq> CHR '' '') ?t \<noteq> ''''" if "?t \<noteq> ''''"
    using that hd_dropWhile [of "\<lambda>c. c = CHR '' ''" s] by (cases ?t) auto
  moreover have "CHR '' '' \<notin> set (takeWhile (\<lambda>c. c \<noteq> CHR '' '') ?t)"
    by (metis (mono_tags, lifting) set_takeWhileD)
  ultimately show ?case using 2 by (auto simp: Let_def split: if_splits)
qed simp

end
