(* ===== verification/FhsPath.thy ===== *)
theory FhsPath
  imports RuntimeEnv
begin

text \<open>
  Path redirection, the core of \<open>native/runtime/fhs-path.c\<close>: Linux FHS paths are rewritten
  into the app-private rootfs and temporary directory.

  The kernel is not part of the repository: \<open>'k\<close> is its state and the record \<open>'k kernel\<close>
  holds the calls that redirection makes through \<open>dlsym (RTLD_NEXT, ...)\<close> as parameters.
  \<open>'k proc\<close> is the state of the library in one process. The \<open>const char *\<close> result is
  \<open>Null\<close>, \<open>Same\<close> (the caller's own pointer) or \<open>Buf b\<close> (the caller's buffer).
\<close>

section \<open>Kernel calls and process state\<close>

unbundle bit_operations_syntax

text \<open>The flags of \<open>open\<close> on AArch64 Linux.\<close>

definition O_RDONLY :: u32 where "O_RDONLY = 0"
definition O_WRONLY :: u32 where "O_WRONLY = 1"
definition O_CREAT :: u32 where "O_CREAT = 0x40"
definition O_EXCL :: u32 where "O_EXCL = 0x80"
definition O_TRUNC :: u32 where "O_TRUNC = 0x200"
definition O_NOFOLLOW :: u32 where "O_NOFOLLOW = 0x8000"
definition O_CLOEXEC :: u32 where "O_CLOEXEC = 0x80000"
definition O_TMPFILE :: u32 where "O_TMPFILE = 0x404000"

record 'k kernel =
  k_stat :: "string \<Rightarrow> 'k \<Rightarrow> bool"
  k_mkdir :: "string \<Rightarrow> nat \<Rightarrow> 'k \<Rightarrow> errno option \<times> 'k"
  k_chmod :: "string \<Rightarrow> nat \<Rightarrow> 'k \<Rightarrow> 'k"
  k_open :: "string \<Rightarrow> u32 \<Rightarrow> nat \<Rightarrow> 'k \<Rightarrow> (errno + nat) \<times> 'k"
  k_write :: "nat \<Rightarrow> string \<Rightarrow> 'k \<Rightarrow> int \<times> 'k"
  k_close :: "nat \<Rightarrow> 'k \<Rightarrow> 'k"
  k_time :: "'k \<Rightarrow> u64"

record 'k proc =
  renv :: renv
  kern :: 'k
  ticks :: u64

datatype cptr = Null | Same | Buf string

definition runtime_rootfs :: "renv \<Rightarrow> string option" where
  "runtime_rootfs e = (case bionicx_captured_rootfs e of
      Some r \<Rightarrow> Some r | None \<Rightarrow> bionicx_getenv (environ e) ''BIONICX_ROOTFS'')"

definition runtime_tmpdir :: "renv \<Rightarrow> string option" where
  "runtime_tmpdir e = (case bionicx_captured_tmpdir e of
      Some r \<Rightarrow> Some r | None \<Rightarrow> bionicx_getenv (environ e) ''BIONICX_TMPDIR'')"

text \<open>A directory that redirection can use: set, and absolute.\<close>

definition usable :: "string option \<Rightarrow> string option" where
  "usable d = (case d of None \<Rightarrow> None | Some s \<Rightarrow> if absolute s then Some s else None)"

section \<open>The synthetic files\<close>

definition inotify_sysctl_value :: "string \<Rightarrow> string option" where
  "inotify_sysctl_value name =
     (if name = ''max_user_watches'' then Some (''65536'' @ [CHR 0x0A])
      else if name = ''max_user_instances'' then Some (''128'' @ [CHR 0x0A])
      else if name = ''max_queued_events'' then Some (''16384'' @ [CHR 0x0A])
      else None)"

definition redirect_inotify_sysctl ::
    "'k kernel \<Rightarrow> string \<Rightarrow> 'k proc \<Rightarrow> cptr \<times> 'k proc" where
  "redirect_inotify_sysctl K path st =
     (if \<not> prefix ''/proc/sys/fs/inotify/'' path then (Null, st)
      else let name = drop 21 path in
        case inotify_sysctl_value name of
          None \<Rightarrow> (Null, st)
        | Some value \<Rightarrow>
            if CHR ''/'' \<in> set name then (Null, st) else
            case usable (runtime_tmpdir (renv st)) of
              None \<Rightarrow> (Same, st)
            | Some tmp \<Rightarrow>
                let directory = tmp @ ''/inotify-sysctl''; buffer = directory @ ''/'' @ name in
                if \<not> fits directory \<or> \<not> fits buffer then (Null, st)
                else if k_stat K buffer (kern st) then (Buf buffer, st)
                else let (err, k1) = k_mkdir K directory 448 (kern st); st1 = st\<lparr>kern := k1\<rparr> in
                  if err \<noteq> None \<and> err \<noteq> Some EEXIST then (Same, st1)
                  else case k_open K buffer (O_WRONLY OR O_CREAT OR O_EXCL) 384 k1 of
                    (Inl e, k2) \<Rightarrow> (if e = EEXIST then Buf buffer else Same, st\<lparr>kern := k2\<rparr>)
                  | (Inr fd, k2) \<Rightarrow>
                      let (wrote, k3) = k_write K fd value k2; st3 = st\<lparr>kern := k_close K fd k3\<rparr> in
                      (if wrote \<noteq> int (length value) then Same else Buf buffer, st3))"

definition login_shells :: "string list" where
  "login_shells = [''/bin/sh'', ''/usr/bin/sh'', ''/bin/bash'', ''/usr/bin/bash'',
     ''/bin/rbash'', ''/usr/bin/rbash'', ''/usr/bin/dash'']"

fun write_shells :: "'k kernel \<Rightarrow> nat \<Rightarrow> string \<Rightarrow> string list \<Rightarrow> 'k \<Rightarrow> bool \<times> 'k" where
  "write_shells K fd root [] k = (True, k)"
| "write_shells K fd root (shell # shells) k =
     (let line = root @ shell @ [CHR 0x0A] in
      if \<not> fits line then (False, k)
      else let (n, k') = k_write K fd line k in
        if n \<noteq> int (length line) then (False, k') else write_shells K fd root shells k')"

definition redirect_etc_shells ::
    "'k kernel \<Rightarrow> string \<Rightarrow> 'k proc \<Rightarrow> cptr \<times> 'k proc" where
  "redirect_etc_shells K path st =
     (if path \<noteq> ''/etc/shells'' then (Null, st)
      else case (usable (runtime_rootfs (renv st)), usable (runtime_tmpdir (renv st))) of
        (Some root, Some tmp) \<Rightarrow>
          let buffer = tmp @ ''/etc-shells'' in
          if \<not> fits buffer then (Null, st)
          else if k_stat K buffer (kern st) then (Buf buffer, st)
          else (case k_open K buffer (O_WRONLY OR O_CREAT OR O_EXCL) 384 (kern st) of
              (Inl e, k1) \<Rightarrow> (if e = EEXIST then Buf buffer else Null, st\<lparr>kern := k1\<rparr>)
            | (Inr fd, k1) \<Rightarrow>
                let (ok, k2) = write_shells K fd root login_shells k1 in
                (if ok then Buf buffer else Null, st\<lparr>kern := k_close K fd k2\<rparr>))
      | _ \<Rightarrow> (Null, st))"

definition proc_stat_text :: "u64 \<Rightarrow> string" where
  "proc_stat_text idle =
     ''cpu  0 0 0 '' @ dec (unat idle) @ '' 0 0 0 0 0 0'' @ [CHR 0x0A] @
     ''cpu0 0 0 0 '' @ dec (unat idle) @ '' 0 0 0 0 0 0'' @ [CHR 0x0A] @
     ''intr 0'' @ [CHR 0x0A] @ ''ctxt 0'' @ [CHR 0x0A] @ ''btime 0'' @ [CHR 0x0A] @
     ''processes 1'' @ [CHR 0x0A] @ ''procs_running 1'' @ [CHR 0x0A] @
     ''procs_blocked 0'' @ [CHR 0x0A] @ ''softirq 0'' @ [CHR 0x0A]"

text \<open>\<open>idle = 1000000 + time (NULL) + ++ticks * 10\<close>, in \<open>unsigned long\<close> arithmetic.\<close>

definition proc_stat_idle :: "u64 \<Rightarrow> u64 \<Rightarrow> u64" where
  "proc_stat_idle now t = 1000000 + now + t * 10"

definition redirect_proc_stat ::
    "'k kernel \<Rightarrow> string \<Rightarrow> 'k proc \<Rightarrow> cptr \<times> 'k proc" where
  "redirect_proc_stat K path st =
     (if path \<noteq> ''/proc/stat'' then (Null, st)
      else case usable (runtime_tmpdir (renv st)) of
        None \<Rightarrow> (Same, st)
      | Some tmp \<Rightarrow>
          let buffer = tmp @ ''/proc-stat'' in
          if \<not> fits buffer then (Null, st)
          else case k_open K buffer (O_WRONLY OR O_CREAT OR O_TRUNC) 384 (kern st) of
            (Inl e, k1) \<Rightarrow> (Same, st\<lparr>kern := k1\<rparr>)
          | (Inr fd, k1) \<Rightarrow>
              let t = ticks st + 1;
                  text = proc_stat_text (proc_stat_idle (k_time K k1) t);
                  (wrote, k2) = k_write K fd text k1;
                  st2 = st\<lparr>kern := k_close K fd k2, ticks := t\<rparr> in
              (if wrote \<noteq> int (length text) then Same else Buf buffer, st2))"

definition redirect_dev_shm ::
    "'k kernel \<Rightarrow> string \<Rightarrow> 'k proc \<Rightarrow> cptr \<times> 'k proc" where
  "redirect_dev_shm K path st =
     (if path \<noteq> ''/dev/shm'' \<and> \<not> prefix ''/dev/shm/'' path then (Null, st)
      else case usable (runtime_tmpdir (renv st)) of
        None \<Rightarrow> (Same, st)
      | Some tmp \<Rightarrow>
          let directory = tmp @ ''/dev-shm'' in
          if \<not> fits directory then (Null, st)
          else let (err, k1) = k_mkdir K directory 1023 (kern st) in
            if err \<noteq> None \<and> err \<noteq> Some EEXIST then (Same, st\<lparr>kern := k1\<rparr>)
            else let st2 = st\<lparr>kern := k_chmod K directory 1023 k1\<rparr>;
                     buffer = directory @ drop 8 path in
              (if \<not> fits buffer then Null else Buf buffer, st2))"

section \<open>The redirection table\<close>

text \<open>\<open>strcmp (path, d) == 0 || strncmp (path, d "/", ...) == 0\<close>.\<close>

definition at_or_below :: "string \<Rightarrow> string \<Rightarrow> bool" where
  "at_or_below d path \<longleftrightarrow> path = d \<or> prefix (d @ ''/'') path"

definition rootfs_directories :: "string list" where
  "rootfs_directories = [''/usr'', ''/bin'', ''/sbin'', ''/etc'', ''/opt'', ''/var'']"

text \<open>The last part of \<open>bionicx_redirect_path\<close>, a pure function of the two directories.\<close>

definition fhs_rewrite :: "string option \<Rightarrow> string option \<Rightarrow> string \<Rightarrow> cptr" where
  "fhs_rewrite root tmp path =
     (let join = (\<lambda>target suffix. case usable target of
            None \<Rightarrow> Same
          | Some t \<Rightarrow> if fits (t @ suffix) then Buf (t @ suffix) else Null) in
      if at_or_below ''/tmp'' path then join tmp (drop 4 path)
      else if at_or_below ''/run'' path then join tmp path
      else if list_ex (\<lambda>d. at_or_below d path) rootfs_directories then join root path
      else Same)"

definition bionicx_redirect_path ::
    "'k kernel \<Rightarrow> string \<Rightarrow> 'k proc \<Rightarrow> cptr \<times> 'k proc" where
  "bionicx_redirect_path K path st =
     (let (inotify, st1) = redirect_inotify_sysctl K path st in
      if inotify \<noteq> Null then (inotify, st1) else
      let (proc_stat, st2) = redirect_proc_stat K path st1 in
      if proc_stat \<noteq> Null then (proc_stat, st2) else
      let (shells, st3) = redirect_etc_shells K path st2 in
      if shells \<noteq> Null then (shells, st3) else
      let (dev_shm, st4) = redirect_dev_shm K path st3 in
      if dev_shm \<noteq> Null then (dev_shm, st4) else
      (fhs_rewrite (runtime_rootfs (renv st4)) (runtime_tmpdir (renv st4)) path, st4))"

text \<open>The string a non-NULL result points to.\<close>

definition pointed :: "string \<Rightarrow> cptr \<Rightarrow> string" where
  "pointed path p = (case p of Buf b \<Rightarrow> b | _ \<Rightarrow> path)"

section \<open>Results stay in bounds and inside the private directories\<close>

text \<open>\<open>b\<close> fits the buffer and lies under a directory that the process may rewrite into.\<close>

definition private_path :: "renv \<Rightarrow> string \<Rightarrow> bool" where
  "private_path e b \<longleftrightarrow> fits b \<and>
     (\<exists>d. (usable (runtime_rootfs e) = Some d \<or> usable (runtime_tmpdir e) = Some d) \<and> prefix d b)"

lemma usable_Some: "usable d = Some s \<longleftrightarrow> d = Some s \<and> absolute s"
  by (auto simp: usable_def split: option.splits if_splits)

lemma private_tmp:
  "usable (runtime_tmpdir e) = Some t \<Longrightarrow> fits (t @ s) \<Longrightarrow> private_path e (t @ s)"
  by (auto simp: private_path_def)

lemma private_root:
  "usable (runtime_rootfs e) = Some t \<Longrightarrow> fits (t @ s) \<Longrightarrow> private_path e (t @ s)"
  by (auto simp: private_path_def)

text \<open>What every stage guarantees: the environment is untouched, a buffer is private.\<close>

definition stage_ok :: "'k proc \<Rightarrow> cptr \<times> 'k proc \<Rightarrow> bool" where
  "stage_ok st r \<longleftrightarrow> renv (snd r) = renv st \<and> (\<forall>b. fst r = Buf b \<longrightarrow> private_path (renv st) b)"

lemma inotify_ok: "stage_ok st (redirect_inotify_sysctl K path st)"
  by (auto simp: redirect_inotify_sysctl_def Let_def stage_ok_def private_tmp
      split: option.split sum.split prod.split)

lemma proc_stat_ok: "stage_ok st (redirect_proc_stat K path st)"
  by (auto simp: redirect_proc_stat_def Let_def stage_ok_def private_tmp
      split: option.split sum.split prod.split)

lemma etc_shells_ok: "stage_ok st (redirect_etc_shells K path st)"
  by (auto simp: redirect_etc_shells_def Let_def stage_ok_def private_tmp
      split: option.split sum.split prod.split)

lemma dev_shm_ok: "stage_ok st (redirect_dev_shm K path st)"
  by (auto simp: redirect_dev_shm_def Let_def stage_ok_def private_tmp
      split: option.split sum.split prod.split)

lemma fhs_rewrite_private:
  "fhs_rewrite (runtime_rootfs e) (runtime_tmpdir e) path = Buf b \<Longrightarrow> private_path e b"
  by (auto simp: fhs_rewrite_def Let_def private_tmp private_root split: option.splits if_splits)

lemma redirect_ok: "stage_ok st (bionicx_redirect_path K path st)"
proof -
  obtain r1 s1 where 1: "redirect_inotify_sysctl K path st = (r1, s1)" by fastforce
  obtain r2 s2 where 2: "redirect_proc_stat K path s1 = (r2, s2)" by fastforce
  obtain r3 s3 where 3: "redirect_etc_shells K path s2 = (r3, s3)" by fastforce
  obtain r4 s4 where 4: "redirect_dev_shm K path s3 = (r4, s4)" by fastforce
  note ok = inotify_ok [of st K path] proc_stat_ok [of s1 K path]
    etc_shells_ok [of s2 K path] dev_shm_ok [of s3 K path]
  show ?thesis
    using ok fhs_rewrite_private
    by (auto simp: bionicx_redirect_path_def 1 2 3 4 stage_ok_def)
qed


section \<open>Which paths are rewritten\<close>

definition top_dir :: "string \<Rightarrow> string" where
  "top_dir p = takeWhile (\<lambda>c. c \<noteq> CHR ''/'') (tl p)"

definition guest_dirs :: "string list" where
  "guest_dirs = [''tmp'', ''run'', ''usr'', ''bin'', ''sbin'', ''etc'', ''opt'', ''var'',
     ''proc'', ''dev'']"

lemma top_dir_append:
  "absolute t \<Longrightarrow> s = [] \<or> absolute s \<Longrightarrow> top_dir (t @ s) = top_dir t"
  by (cases t; cases s) (simp_all add: top_dir_def takeWhile_tail)

lemma top_dir_below:
  "at_or_below (CHR ''/'' # d) p \<Longrightarrow> CHR ''/'' \<notin> set d \<Longrightarrow> top_dir p = d"
  by (auto simp: at_or_below_def top_dir_def prefix_def)

lemma rewrite_outside:
  "top_dir p \<notin> set guest_dirs \<Longrightarrow> fhs_rewrite root tmp p = Same"
  using top_dir_below [of "''tmp''" p] top_dir_below [of "''run''" p]
    top_dir_below [of "''usr''" p] top_dir_below [of "''bin''" p] top_dir_below [of "''sbin''" p]
    top_dir_below [of "''etc''" p] top_dir_below [of "''opt''" p] top_dir_below [of "''var''" p]
  by (auto simp: fhs_rewrite_def guest_dirs_def rootfs_directories_def Let_def)

lemma top_dir_special:
  "prefix ''/proc/sys/fs/inotify/'' p \<Longrightarrow> top_dir p = ''proc''"
  "prefix ''/dev/shm/'' p \<Longrightarrow> top_dir p = ''dev''"
  by (auto simp: top_dir_def prefix_def)

lemma top_dir_consts [simp]:
  "top_dir ''/proc/stat'' = ''proc''" "top_dir ''/etc/shells'' = ''etc''" "top_dir ''/dev/shm'' = ''dev''"
  by (simp_all add: top_dir_def)

lemma redirect_outside:
  assumes "top_dir p \<notin> set guest_dirs"
  shows "bionicx_redirect_path K p st = (Same, st)"
proof -
  have "p \<noteq> ''/proc/stat''" "p \<noteq> ''/etc/shells''" "p \<noteq> ''/dev/shm''"
    "\<not> prefix ''/proc/sys/fs/inotify/'' p" "\<not> prefix ''/dev/shm/'' p"
    using assms top_dir_special [of p] top_dir_consts by (auto simp: guest_dirs_def)
  then show ?thesis
    using rewrite_outside [OF assms]
    by (simp add: bionicx_redirect_path_def redirect_inotify_sysctl_def redirect_proc_stat_def
        redirect_etc_shells_def redirect_dev_shm_def)
qed

text \<open>Paths that no synthetic file stands for.\<close>

definition ordinary :: "string \<Rightarrow> bool" where
  "ordinary p \<longleftrightarrow> \<not> prefix ''/proc/sys/fs/inotify/'' p \<and> p \<noteq> ''/proc/stat'' \<and> p \<noteq> ''/etc/shells'' \<and>
     \<not> at_or_below ''/dev/shm'' p"

lemma redirect_ordinary:
  "ordinary p \<Longrightarrow> bionicx_redirect_path K p st =
     (fhs_rewrite (runtime_rootfs (renv st)) (runtime_tmpdir (renv st)) p, st)"
  by (auto simp: ordinary_def at_or_below_def bionicx_redirect_path_def redirect_inotify_sysctl_def
      redirect_proc_stat_def redirect_etc_shells_def redirect_dev_shm_def)

section \<open>Redirection is stable and almost injective\<close>

text \<open>
  The layout on a device: both private directories are absolute and live under a top-level
  directory (such as \<open>/data\<close>) that the guest's table does not rewrite.
\<close>

definition device_layout :: "renv \<Rightarrow> bool" where
  "device_layout e \<longleftrightarrow>
     (\<forall>d. runtime_rootfs e = Some d \<or> runtime_tmpdir e = Some d \<longrightarrow>
        absolute d \<and> top_dir d \<notin> set guest_dirs)"

lemma at_or_below_suffix:
  "at_or_below d p \<Longrightarrow> drop (length d) p = [] \<or> absolute (drop (length d) p)"
  by (auto simp: at_or_below_def prefix_def)

lemma at_or_below_absolute: "at_or_below d p \<Longrightarrow> absolute d \<Longrightarrow> absolute p"
  by (auto simp: at_or_below_def prefix_def)

text \<open>Every buffer is a private directory followed by nothing or by a slash and the rest.\<close>

definition joined :: "renv \<Rightarrow> string \<Rightarrow> bool" where
  "joined e b \<longleftrightarrow> (\<exists>d s. (usable (runtime_rootfs e) = Some d \<or> usable (runtime_tmpdir e) = Some d) \<and>
     b = d @ s \<and> (s = [] \<or> absolute s))"

lemma joined_tmp:
  "usable (runtime_tmpdir e) = Some d \<Longrightarrow> s = [] \<or> absolute s \<Longrightarrow> joined e (d @ s)"
  unfolding joined_def by blast

lemma joined_root:
  "usable (runtime_rootfs e) = Some d \<Longrightarrow> s = [] \<or> absolute s \<Longrightarrow> joined e (d @ s)"
  unfolding joined_def by blast

lemma rewrite_joined:
  assumes "fhs_rewrite (runtime_rootfs e) (runtime_tmpdir e) p = Buf b"
  shows "joined e b"
proof -
  have t: "drop 4 p = [] \<or> absolute (drop 4 p)" if "at_or_below ''/tmp'' p"
    using at_or_below_suffix [OF that] by (simp add: eval_nat_numeral)
  have r: "absolute p" if "at_or_below ''/run'' p"
    using at_or_below_absolute [OF that] by simp
  have u: "absolute p" if "list_ex (\<lambda>d. at_or_below d p) rootfs_directories"
    using that by (auto simp: rootfs_directories_def dest: at_or_below_absolute)
  show ?thesis
    using assms t r u
    by (auto simp: fhs_rewrite_def Let_def split: option.splits if_splits
        intro: joined_tmp joined_root)
qed

lemma special_joined:
  "fst (redirect_inotify_sysctl K p st) = Buf b \<Longrightarrow> joined (renv st) b"
  "fst (redirect_proc_stat K p st) = Buf b \<Longrightarrow> joined (renv st) b"
  "fst (redirect_etc_shells K p st) = Buf b \<Longrightarrow> joined (renv st) b"
  "fst (redirect_dev_shm K p st) = Buf b \<Longrightarrow> joined (renv st) b"
  by (auto simp: redirect_inotify_sysctl_def redirect_proc_stat_def redirect_etc_shells_def
      redirect_dev_shm_def Let_def joined_tmp
      split: option.splits sum.splits prod.splits if_splits)

lemma redirect_joined:
  assumes "bionicx_redirect_path K path st = (Buf b, st')"
  shows "joined (renv st) b"
proof -
  obtain r1 s1 where 1: "redirect_inotify_sysctl K path st = (r1, s1)" by fastforce
  obtain r2 s2 where 2: "redirect_proc_stat K path s1 = (r2, s2)" by fastforce
  obtain r3 s3 where 3: "redirect_etc_shells K path s2 = (r3, s3)" by fastforce
  obtain r4 s4 where 4: "redirect_dev_shm K path s3 = (r4, s4)" by fastforce
  have e: "renv s1 = renv st" "renv s2 = renv st" "renv s3 = renv st" "renv s4 = renv st"
    using inotify_ok [of st K path] proc_stat_ok [of s1 K path]
      etc_shells_ok [of s2 K path] dev_shm_ok [of s3 K path] 1 2 3 4
    by (simp_all add: stage_ok_def)
  show ?thesis
    using assms e special_joined(1) [of K path st b] special_joined(2) [of K path s1 b]
      special_joined(3) [of K path s2 b] special_joined(4) [of K path s3 b]
      rewrite_joined [of "renv s4" path b]
    by (auto simp: bionicx_redirect_path_def 1 2 3 4 split: if_splits)
qed

text \<open>
A rewritten path is a fixed point: with the private directories outside the guest's
  top-level directories, redirecting the result again changes nothing and makes no kernel call,
  so a path may safely pass through several interposed functions.
\<close>
theorem redirect_stable:
  assumes "device_layout (renv st)" "bionicx_redirect_path K path st = (Buf b, st')"
  shows "bionicx_redirect_path K b st'' = (Same, st'')"
proof -
  obtain d s where b: "b = d @ s" "s = [] \<or> absolute s"
    and d: "usable (runtime_rootfs (renv st)) = Some d \<or> usable (runtime_tmpdir (renv st)) = Some d"
    using redirect_joined [OF assms(2)] by (auto simp: joined_def)
  from d assms(1) have "absolute d" "top_dir d \<notin> set guest_dirs"
    by (auto simp: usable_Some device_layout_def)
  with b have "top_dir b \<notin> set guest_dirs" by (simp add: top_dir_append)
  then show ?thesis by (rule redirect_outside)
qed

text \<open>A kernel on which every call fails, to run the model on.\<close>

definition dead_kernel :: "unit kernel" where
  "dead_kernel = \<lparr>k_stat = \<lambda>_ _. False, k_mkdir = \<lambda>_ _ k. (Some EACCES, k), k_chmod = \<lambda>_ _ k. k,
     k_open = \<lambda>_ _ _ k. (Inl EACCES, k), k_write = \<lambda>_ _ k. (-1, k), k_close = \<lambda>_ k. k,
     k_time = \<lambda>_. 0\<rparr>"

definition demo_proc :: "unit proc" where
  "demo_proc = \<lparr>renv = capture_runtime_environment (initial_renv
     [''BIONICX_ROOTFS=/data/r'', ''BIONICX_TMPDIR=/data/t'']), kern = (), ticks = 0\<rparr>"

lemma demo_runtime_dirs:
  "runtime_rootfs (renv demo_proc) = Some ''/data/r''" "runtime_tmpdir (renv demo_proc) = Some ''/data/t''"
  by code_simp+

lemma demo_layout: "device_layout (renv demo_proc)"
  by (auto simp: device_layout_def demo_runtime_dirs top_dir_def guest_dirs_def)


theorem redirect_stable_witness:
  "bionicx_redirect_path dead_kernel ''/data/r/usr/bin'' demo_proc = (Same, demo_proc)"
proof -
  have "bionicx_redirect_path dead_kernel ''/usr/bin'' demo_proc = (Buf ''/data/r/usr/bin'', demo_proc)"
    by code_simp
  from redirect_stable [OF demo_layout this] show ?thesis .
qed

lemma rewrite_tmp_eq:
  "at_or_below ''/tmp'' p \<Longrightarrow> p = ''/tmp'' @ drop 4 p"
  by (auto simp: at_or_below_def prefix_def)

lemma rewrite_cases:
  assumes "fhs_rewrite (Some r) (Some t) p = Buf b"
  shows "(\<exists>p'. p = ''/tmp'' @ p' \<and> b = t @ p')
       \<or> (at_or_below ''/run'' p \<and> b = t @ p)
       \<or> b = r @ p"
  using assms rewrite_tmp_eq [of p]
  by (auto simp: fhs_rewrite_def Let_def usable_def split: option.splits if_splits)

lemma disjoint_append:
  "\<not> prefix r t \<Longrightarrow> \<not> prefix t r \<Longrightarrow> r @ x \<noteq> t @ y"
  by (metis prefixI prefix_same_cases)

lemma run_alias:
  assumes "at_or_below ''/run'' p"
  shows "fhs_rewrite r t (''/tmp'' @ p) = fhs_rewrite r t p"
proof -
  have "absolute p" using at_or_below_absolute [OF assms] by simp
  then have "at_or_below ''/tmp'' (''/tmp'' @ p)" by (cases p) (auto simp: at_or_below_def)
  moreover have "\<not> at_or_below ''/tmp'' p" using assms by (auto simp: at_or_below_def prefix_def)
  moreover have "drop 4 (''/tmp'' @ p) = p" by simp
  ultimately show ?thesis using assms by (simp only: fhs_rewrite_def Let_def if_True if_False)
qed

text \<open>
Two ordinary guest paths are rewritten to the same host path exactly when they are the same
  path, or one of them is \<open>/run...\<close> and the other the same path below \<open>/tmp\<close>: the
  guest's \<open>/run\<close> is visible to it as \<open>/tmp/run\<close>, and nothing else collides.
\<close>
theorem redirect_collisions:
  assumes "ordinary p" "ordinary q"
    and "bionicx_redirect_path K p st = (Buf b, st1)" "bionicx_redirect_path K q st = (Buf c, st2)"
    and "runtime_rootfs (renv st) = Some r" "runtime_tmpdir (renv st) = Some t"
    and "\<not> prefix r t" "\<not> prefix t r"
  shows "b = c \<longleftrightarrow> p = q \<or> (at_or_below ''/run'' p \<and> q = ''/tmp'' @ p)
                       \<or> (at_or_below ''/run'' q \<and> p = ''/tmp'' @ q)"
proof -
  have p: "fhs_rewrite (Some r) (Some t) p = Buf b" and q: "fhs_rewrite (Some r) (Some t) q = Buf c"
    using assms(3-6) redirect_ordinary [OF assms(1), of K st] redirect_ordinary [OF assms(2), of K st]
    by simp_all
  note neq = disjoint_append [OF assms(7,8)] disjoint_append [OF assms(8,7)]
  show ?thesis
  proof
    assume "b = c"
    with rewrite_cases [OF p] rewrite_cases [OF q] neq
    show "p = q \<or> (at_or_below ''/run'' p \<and> q = ''/tmp'' @ p) \<or> (at_or_below ''/run'' q \<and> p = ''/tmp'' @ q)"
      by (elim disjE exE conjE) simp_all
  next
    assume "p = q \<or> (at_or_below ''/run'' p \<and> q = ''/tmp'' @ p) \<or> (at_or_below ''/run'' q \<and> p = ''/tmp'' @ q)"
    then show "b = c"
      using p q run_alias [of p "Some r" "Some t"] run_alias [of q "Some r" "Some t"] by auto
  qed
qed

theorem redirect_collisions_witness:
  "(''/data/t/run/x'' = ''/data/t/run/x'') \<longleftrightarrow> True"
proof -
  let ?p = "''/run/x''" and ?q = "''/tmp/run/x''"
  have "ordinary ?p" "ordinary ?q" by code_simp+
  moreover have "bionicx_redirect_path dead_kernel ?p demo_proc = (Buf ''/data/t/run/x'', demo_proc)"
    "bionicx_redirect_path dead_kernel ?q demo_proc = (Buf ''/data/t/run/x'', demo_proc)"
    by code_simp+
  ultimately show ?thesis
    using redirect_collisions [of ?p ?q dead_kernel demo_proc "''/data/t/run/x''" demo_proc
        "''/data/t/run/x''" demo_proc "''/data/r''" "''/data/t''"]
    by (simp add: demo_runtime_dirs at_or_below_def)
qed

end
