(* ===== verification/FhsCalls.thy ===== *)
theory FhsCalls
  imports FhsPath
begin

text \<open>
  The path-taking C library calls that \<open>native/runtime/fhs-path.c\<close> interposes: each redirects its
  path arguments and forwards to the next definition of the same name.

  The next definitions are not part of the repository. A \<open>call\<close> is one of them with its arguments,
  a \<open>reply\<close> is what it leaves behind (return value, \<open>errno\<close> when it fails, the filled structure or
  string), and the component \<open>next\<close> of the record \<open>libc\<close> answers every call. \<open>issued\<close> records, in
  order, the calls that the library makes; it is the only field that the code does not have.
\<close>

section \<open>The next definitions\<close>

record file_info =
  st_ino :: nat
  st_nlink :: nat
  st_mode :: u32

record space_info =
  f_bavail :: nat
  f_rest :: "nat list"

datatype sockaddr = NoAddress | UnixAddress string | OtherAddress nat

datatype sysno =
    SYS_openat | SYS_openat2 | SYS_statx | SYS_inotify_add_watch | SYS_newfstatat | SYS_faccessat
  | SYS_faccessat2 | SYS_readlinkat | SYS_close_range | SYS_other nat

text \<open>A raw system-call argument: a number (0 is NULL) or a pointer to a string.\<close>

datatype sysarg = Num int | Ptr string

text \<open>
  The calls with one path, with two paths, and the others. Only the code generator's plugin runs
  on these large types.
\<close>

datatype (plugins only: code) path_call =
    C_open u32 "nat option" | C_open64 u32 "nat option"
  | C_openat int u32 "nat option" | C_openat64 int u32 "nat option"
  | C_fopen string | C_fopen64 string | C_opendir | C_realpath | C_readlink nat | C_readlinkat int nat
  | C_access nat | C_faccessat int nat u32 | C_stat | C_stat64 | C_lstat | C_lstat64
  | C_fstatat int u32 | C_fstatat64 int u32 | C_statx int u32 u32 | C_statvfs | C_statfs
  | C_unlink | C_unlinkat int u32 | C_symlink string | C_symlinkat string int
  | C_chdir | C_mkdir nat | C_mkdirat int nat | C_mkstemp | C_mkstemp64 | C_mkostemp u32
  | C_mkstemps nat | C_mkostemps nat u32 | C_mkdtemp | C_inotify_add_watch int u32
  | C_chmod nat | C_fchmodat int nat u32 | C_chown nat nat | C_lchown nat nat | C_fchownat int nat nat u32
  | C_dlopen u32 | C_syscall_path sysno sysarg sysarg sysarg sysarg sysarg

datatype (plugins only: code) two_path_call =
  C_rename | C_renameat int int | C_renameat2 int int u32 | C_link | C_linkat int int u32

datatype (plugins only: code) other_call =
    C_bind int sockaddr nat | C_connect int sockaddr nat | C_fcntl_setlkw int | C_close int
  | C_fstat int | C_read int nat | C_write int string | C_getcwd nat
  | C_fchmod int nat | C_fchown int nat nat
  | C_statx_null int u32 u32 | C_dlopen_null u32 | C_syscall sysno sysarg sysarg sysarg sysarg sysarg sysarg

datatype (plugins only: code) call =
  At path_call string | Between two_path_call string string | Only other_call

record reply =
  ret :: int
  err :: "errno option"
  info :: file_info
  space :: space_info
  str :: string

record 'k libc =
  base :: "'k kernel"
  "next" :: "call \<Rightarrow> 'k \<Rightarrow> reply \<times> 'k"

record fake_link =
  first :: string
  second :: string
  inode :: nat

record 'k fhs =
  proc :: "'k proc"
  fake_links :: "fake_link option list"
  password_lock_fd :: int
  issued :: "call list"

definition no_info :: file_info where "no_info = \<lparr>st_ino = 0, st_nlink = 0, st_mode = 0\<rparr>"
definition no_space :: space_info where "no_space = \<lparr>f_bavail = 0, f_rest = []\<rparr>"

definition returned :: "int \<Rightarrow> reply" where
  "returned v = \<lparr>ret = v, err = None, info = no_info, space = no_space, str = ''''\<rparr>"

definition failed :: "int \<Rightarrow> errno option \<Rightarrow> reply" where
  "failed v e = (returned v)\<lparr>err := e\<rparr>"

definition call :: "'k libc \<Rightarrow> call \<Rightarrow> 'k fhs \<Rightarrow> reply \<times> 'k fhs" where
  "call L c st = (let (r, k) = next L c (kern (proc st)) in
     (r, st\<lparr>proc := (proc st)\<lparr>kern := k\<rparr>, issued := issued st @ [c]\<rparr>))"

section \<open>Redirected arguments\<close>

text \<open>
  \<open>Inl e\<close> is the NULL result (without a new \<open>errno\<close> for a NULL path), \<open>Inr (changed, actual)\<close>
  tells whether \<open>actual\<close> is another pointer than \<open>path\<close>.
\<close>

definition redirect_arg ::
    "'k libc \<Rightarrow> string option \<Rightarrow> 'k fhs \<Rightarrow> (errno option + bool \<times> string) \<times> 'k fhs" where
  "redirect_arg L path st = (case path of
      None \<Rightarrow> (Inl None, st)
    | Some p \<Rightarrow> let (r, q) = bionicx_redirect_path (base L) p (proc st); st' = st\<lparr>proc := q\<rparr> in
        (case r of Null \<Rightarrow> (Inl (Some ENAMETOOLONG), st')
         | Same \<Rightarrow> (Inr (False, p), st') | Buf b \<Rightarrow> (Inr (True, b), st')))"

text \<open>The pattern of every wrapper: redirect, give up with \<open>v\<close> on NULL, otherwise go on.\<close>

definition with_path ::
    "'k libc \<Rightarrow> int \<Rightarrow> string option \<Rightarrow> (bool \<Rightarrow> string \<Rightarrow> 'k fhs \<Rightarrow> reply \<times> 'k fhs) \<Rightarrow> 'k fhs \<Rightarrow> reply \<times> 'k fhs" where
  "with_path L v path f st = (case redirect_arg L path st of
      (Inl e, st') \<Rightarrow> (failed v e, st')
    | (Inr (changed, actual), st') \<Rightarrow> f changed actual st')"

text \<open>Both paths are redirected before either result is looked at.\<close>

definition redirect_pair ::
    "'k libc \<Rightarrow> string option \<Rightarrow> string option \<Rightarrow> 'k fhs \<Rightarrow> (errno option + string \<times> string) \<times> 'k fhs" where
  "redirect_pair L old new st =
     (let (a, st1) = redirect_arg L old st; (b, st2) = redirect_arg L new st1 in
      (case a of
         Inl e \<Rightarrow> Inl (case b of Inl (Some e') \<Rightarrow> Some e' | _ \<Rightarrow> e)
       | Inr (_, actual_old) \<Rightarrow> (case b of Inl e \<Rightarrow> Inl e | Inr (_, actual_new) \<Rightarrow> Inr (actual_old, actual_new)),
       st2))"

definition with_paths ::
    "'k libc \<Rightarrow> string option \<Rightarrow> string option \<Rightarrow> (string \<Rightarrow> string \<Rightarrow> 'k fhs \<Rightarrow> reply \<times> 'k fhs) \<Rightarrow>
     'k fhs \<Rightarrow> reply \<times> 'k fhs" where
  "with_paths L old new f st = (case redirect_pair L old new st of
      (Inl e, st') \<Rightarrow> (failed (-1) e, st')
    | (Inr (actual_old, actual_new), st') \<Rightarrow> f actual_old actual_new st')"

section \<open>Opening files\<close>

definition takes_mode :: "u32 \<Rightarrow> bool" where
  "takes_mode flags \<longleftrightarrow> flags AND O_CREAT \<noteq> 0 \<or> flags AND O_TMPFILE = O_TMPFILE"

definition bionicx_optional_mode :: "u32 \<Rightarrow> nat \<Rightarrow> nat" where
  "bionicx_optional_mode flags argument = (if takes_mode flags then argument else 0)"

definition passed_mode :: "u32 \<Rightarrow> nat \<Rightarrow> nat option" where
  "passed_mode flags mode =
     (if takes_mode flags then Some (bionicx_optional_mode flags mode) else None)"

definition open_path :: "'k libc \<Rightarrow> string option \<Rightarrow> u32 \<Rightarrow> nat \<Rightarrow> 'k fhs \<Rightarrow> reply \<times> 'k fhs" where
  "open_path L path flags mode =
     with_path L (-1) path (\<lambda>_ actual. call L (At (C_open flags (passed_mode flags mode)) actual))"

definition open64 :: "'k libc \<Rightarrow> string option \<Rightarrow> u32 \<Rightarrow> nat \<Rightarrow> 'k fhs \<Rightarrow> reply \<times> 'k fhs" where
  "open64 L path flags mode =
     with_path L (-1) path (\<lambda>_ actual. call L (At (C_open64 flags (passed_mode flags mode)) actual))"

definition openat ::
    "'k libc \<Rightarrow> int \<Rightarrow> string option \<Rightarrow> u32 \<Rightarrow> nat \<Rightarrow> 'k fhs \<Rightarrow> reply \<times> 'k fhs" where
  "openat L directory path flags mode =
     with_path L (-1) path (\<lambda>_ actual. call L (At (C_openat directory flags (passed_mode flags mode)) actual))"

definition openat64 ::
    "'k libc \<Rightarrow> int \<Rightarrow> string option \<Rightarrow> u32 \<Rightarrow> nat \<Rightarrow> 'k fhs \<Rightarrow> reply \<times> 'k fhs" where
  "openat64 L directory path flags mode =
     with_path L (-1) path (\<lambda>_ actual. call L (At (C_openat64 directory flags (passed_mode flags mode)) actual))"

definition fopen :: "'k libc \<Rightarrow> string option \<Rightarrow> string \<Rightarrow> 'k fhs \<Rightarrow> reply \<times> 'k fhs" where
  "fopen L path mode = with_path L 0 path (\<lambda>_ actual. call L (At (C_fopen mode) actual))"

definition fopen64 :: "'k libc \<Rightarrow> string option \<Rightarrow> string \<Rightarrow> 'k fhs \<Rightarrow> reply \<times> 'k fhs" where
  "fopen64 L path mode = with_path L 0 path (\<lambda>_ actual. call L (At (C_fopen64 mode) actual))"

definition opendir :: "'k libc \<Rightarrow> string option \<Rightarrow> 'k fhs \<Rightarrow> reply \<times> 'k fhs" where
  "opendir L path = with_path L 0 path (\<lambda>_ actual. call L (At C_opendir actual))"

text \<open>The password lock file: \<open>password_lock_fd\<close> is \<open>-1\<close> when the lock is not held.\<close>

definition lckpwdf :: "'k libc \<Rightarrow> 'k fhs \<Rightarrow> reply \<times> 'k fhs" where
  "lckpwdf L st = (if 0 \<le> password_lock_fd st then (returned 0, st) else
     let (r, st) = open_path L (Some ''/etc/.pwd.lock'') (O_WRONLY OR O_CREAT) 384 st;
         st = st\<lparr>password_lock_fd := ret r\<rparr> in
     if ret r < 0 then (failed (-1) (err r), st) else
     let (l, st) = call L (Only (C_fcntl_setlkw (password_lock_fd st))) st in
     if ret l < 0 then
       let (_, st) = call L (Only (C_close (password_lock_fd st))) st in
       (failed (-1) (err l), st\<lparr>password_lock_fd := -1\<rparr>)
     else (returned 0, st))"

definition ulckpwdf :: "'k libc \<Rightarrow> 'k fhs \<Rightarrow> reply \<times> 'k fhs" where
  "ulckpwdf L st = (if password_lock_fd st < 0 then (failed (-1) (Some EINVAL), st) else
     let (r, st) = call L (Only (C_close (password_lock_fd st))) st in (r, st\<lparr>password_lock_fd := -1\<rparr>))"

section \<open>POSIX shared memory\<close>

definition shm_guest_path :: "string option \<Rightarrow> errno + string" where
  "shm_guest_path name = (case name of
      None \<Rightarrow> Inl EINVAL
    | Some s \<Rightarrow> if s = '''' then Inl EINVAL else
        let n = dropWhile (\<lambda>c. c = CHR ''/'') s in
        if n = '''' \<or> CHR ''/'' \<in> set n then Inl EINVAL
        else if fits (''/dev/shm/'' @ n) then Inr (''/dev/shm/'' @ n) else Inl ENAMETOOLONG)"

definition shm_open :: "'k libc \<Rightarrow> string option \<Rightarrow> u32 \<Rightarrow> nat \<Rightarrow> 'k fhs \<Rightarrow> reply \<times> 'k fhs" where
  "shm_open L name oflag mode st = (case shm_guest_path name of
      Inl e \<Rightarrow> (failed (-1) (Some e), st)
    | Inr linux_path \<Rightarrow> with_path L (-1) (Some linux_path) (\<lambda>_ actual.
        let oflag = oflag OR (O_NOFOLLOW OR O_CLOEXEC) in
        call L (At (C_open oflag (if oflag AND O_CREAT \<noteq> 0 then Some mode else None)) actual)) st)"

definition shm_unlink :: "'k libc \<Rightarrow> string option \<Rightarrow> 'k fhs \<Rightarrow> reply \<times> 'k fhs" where
  "shm_unlink L name st = (case shm_guest_path name of
      Inl e \<Rightarrow> (failed (-1) (Some e), st)
    | Inr linux_path \<Rightarrow> with_path L (-1) (Some linux_path) (\<lambda>_ actual. call L (At C_unlink actual)) st)"

section \<open>Queries and directory operations\<close>

definition canonical_root :: "'k libc \<Rightarrow> 'k fhs \<Rightarrow> string option \<times> 'k fhs" where
  "canonical_root L st = (case runtime_rootfs (renv (proc st)) of
      None \<Rightarrow> (None, st)
    | Some root \<Rightarrow> let (c, st) = call L (At C_realpath root) st in
        (Some (if ret c \<noteq> 0 then str c else root), st))"

definition realpath :: "'k libc \<Rightarrow> string option \<Rightarrow> 'k fhs \<Rightarrow> reply \<times> 'k fhs" where
  "realpath L path = with_path L 0 path (\<lambda>changed actual st.
     let (r, st) = call L (At C_realpath actual) st in
     if ret r = 0 then (r, st) else
     let result = str r;
         (root_prefix, st) = canonical_root L st;
         visible = (case root_prefix of None \<Rightarrow> result
           | Some root \<Rightarrow> if changed \<and> root \<noteq> '''' \<and> at_or_below root result
                          then drop (length root) result else result) in
     (r\<lparr>str := visible\<rparr>, st))"

definition canonicalize_file_name :: "'k libc \<Rightarrow> string option \<Rightarrow> 'k fhs \<Rightarrow> reply \<times> 'k fhs" where
  "canonicalize_file_name L path = realpath L path"

definition readlink :: "'k libc \<Rightarrow> string option \<Rightarrow> nat \<Rightarrow> 'k fhs \<Rightarrow> reply \<times> 'k fhs" where
  "readlink L path n = with_path L (-1) path (\<lambda>_ actual. call L (At (C_readlink n) actual))"

definition readlinkat :: "'k libc \<Rightarrow> int \<Rightarrow> string option \<Rightarrow> nat \<Rightarrow> 'k fhs \<Rightarrow> reply \<times> 'k fhs" where
  "readlinkat L directory path n =
     with_path L (-1) path (\<lambda>_ actual. call L (At (C_readlinkat directory n) actual))"

definition access :: "'k libc \<Rightarrow> string option \<Rightarrow> nat \<Rightarrow> 'k fhs \<Rightarrow> reply \<times> 'k fhs" where
  "access L path mode = with_path L (-1) path (\<lambda>_ actual. call L (At (C_access mode) actual))"

definition faccessat ::
    "'k libc \<Rightarrow> int \<Rightarrow> string option \<Rightarrow> nat \<Rightarrow> u32 \<Rightarrow> 'k fhs \<Rightarrow> reply \<times> 'k fhs" where
  "faccessat L directory path mode flags =
     with_path L (-1) path (\<lambda>_ actual. call L (At (C_faccessat directory mode flags) actual))"

definition chdir :: "'k libc \<Rightarrow> string option \<Rightarrow> 'k fhs \<Rightarrow> reply \<times> 'k fhs" where
  "chdir L path = with_path L (-1) path (\<lambda>_ actual. call L (At C_chdir actual))"

definition mkdir :: "'k libc \<Rightarrow> string option \<Rightarrow> nat \<Rightarrow> 'k fhs \<Rightarrow> reply \<times> 'k fhs" where
  "mkdir L path mode = with_path L (-1) path (\<lambda>_ actual. call L (At (C_mkdir mode) actual))"

definition mkdirat :: "'k libc \<Rightarrow> int \<Rightarrow> string option \<Rightarrow> nat \<Rightarrow> 'k fhs \<Rightarrow> reply \<times> 'k fhs" where
  "mkdirat L directory path mode =
     with_path L (-1) path (\<lambda>_ actual. call L (At (C_mkdirat directory mode) actual))"

definition inotify_add_watch :: "'k libc \<Rightarrow> int \<Rightarrow> string option \<Rightarrow> u32 \<Rightarrow> 'k fhs \<Rightarrow> reply \<times> 'k fhs" where
  "inotify_add_watch L fd path events =
     with_path L (-1) path (\<lambda>_ actual. call L (At (C_inotify_add_watch fd events) actual))"

definition rename :: "'k libc \<Rightarrow> string option \<Rightarrow> string option \<Rightarrow> 'k fhs \<Rightarrow> reply \<times> 'k fhs" where
  "rename L old new = with_paths L old new (\<lambda>a b. call L (Between C_rename a b))"

definition renameat ::
    "'k libc \<Rightarrow> int \<Rightarrow> string option \<Rightarrow> int \<Rightarrow> string option \<Rightarrow> 'k fhs \<Rightarrow> reply \<times> 'k fhs" where
  "renameat L old_directory old new_directory new =
     with_paths L old new (\<lambda>a b. call L (Between (C_renameat old_directory new_directory) a b))"

definition renameat2 ::
    "'k libc \<Rightarrow> int \<Rightarrow> string option \<Rightarrow> int \<Rightarrow> string option \<Rightarrow> u32 \<Rightarrow> 'k fhs \<Rightarrow> reply \<times> 'k fhs" where
  "renameat2 L old_directory old new_directory new flags =
     with_paths L old new (\<lambda>a b. call L (Between (C_renameat2 old_directory new_directory flags) a b))"

text \<open>
  \<open>redirect_symlink_target\<close> rewrites an absolute target only on request; the stored target is
  text, not a path that the call accesses.
\<close>

definition redirect_symlink_target ::
    "'k libc \<Rightarrow> string option \<Rightarrow> 'k fhs \<Rightarrow> (errno option + bool \<times> string) \<times> 'k fhs" where
  "redirect_symlink_target L target st =
     (if bionicx_getenv (environ (renv (proc st))) ''BIONICX_REWRITE_ABSOLUTE_SYMLINKS'' = Some ''1'' \<and>
         target \<noteq> None \<and> absolute (the target)
      then redirect_arg L target st
      else (case target of None \<Rightarrow> Inl None | Some t \<Rightarrow> Inr (False, t), st))"

definition symlink :: "'k libc \<Rightarrow> string option \<Rightarrow> string option \<Rightarrow> 'k fhs \<Rightarrow> reply \<times> 'k fhs" where
  "symlink L target link_path st =
     (let (t, st) = redirect_symlink_target L target st; (l, st) = redirect_arg L link_path st in
      case (t, l) of
        (Inr (_, actual_target), Inr (_, actual_link)) \<Rightarrow> call L (At (C_symlink actual_target) actual_link) st
      | (Inl e, Inl None) \<Rightarrow> (failed (-1) e, st)
      | (_, Inl e) \<Rightarrow> (failed (-1) e, st)
      | (Inl e, _) \<Rightarrow> (failed (-1) e, st))"

definition symlinkat ::
    "'k libc \<Rightarrow> string option \<Rightarrow> int \<Rightarrow> string option \<Rightarrow> 'k fhs \<Rightarrow> reply \<times> 'k fhs" where
  "symlinkat L target directory link_path st =
     (let (t, st) = redirect_symlink_target L target st; (l, st) = redirect_arg L link_path st in
      case (t, l) of
        (Inr (_, actual_target), Inr (_, actual_link)) \<Rightarrow>
          call L (At (C_symlinkat actual_target directory) actual_link) st
      | (Inl e, Inl None) \<Rightarrow> (failed (-1) e, st)
      | (_, Inl e) \<Rightarrow> (failed (-1) e, st)
      | (Inl e, _) \<Rightarrow> (failed (-1) e, st))"

text \<open>\<open>chroot\<close> to the rootfs only marks the environment.\<close>

definition chroot :: "string \<Rightarrow> 'k fhs \<Rightarrow> reply \<times> 'k fhs" where
  "chroot path st = (if runtime_rootfs (renv (proc st)) = Some path
     then (returned 0, st\<lparr>proc := (proc st)\<lparr>renv := (renv (proc st))
             \<lparr>environ := libc_setenv ''BIONICX_VIRTUAL_ROOT'' ''1'' (environ (renv (proc st)))\<rparr>\<rparr>\<rparr>)
     else (failed (-1) (Some EPERM), st))"

section \<open>Free space\<close>

text \<open>A root without available blocks answers with the numbers of the private rootfs.\<close>

definition replenish_statvfs :: "'k libc \<Rightarrow> space_info \<Rightarrow> 'k fhs \<Rightarrow> space_info \<times> 'k fhs" where
  "replenish_statvfs L i st = (if f_bavail i \<noteq> 0 then (i, st) else
     case usable (runtime_rootfs (renv (proc st))) of
       None \<Rightarrow> (i, st)
     | Some root \<Rightarrow> let (r, st) = call L (At C_statvfs root) st in
         (if ret r = 0 \<and> f_bavail (space r) \<noteq> 0 then space r else i, st))"

definition replenish_statfs :: "'k libc \<Rightarrow> space_info \<Rightarrow> 'k fhs \<Rightarrow> space_info \<times> 'k fhs" where
  "replenish_statfs L i st = (if f_bavail i \<noteq> 0 then (i, st) else
     case usable (runtime_rootfs (renv (proc st))) of
       None \<Rightarrow> (i, st)
     | Some root \<Rightarrow> let (r, st) = call L (At C_statfs root) st in
         (if ret r = 0 \<and> f_bavail (space r) \<noteq> 0 then space r else i, st))"

definition statvfs :: "'k libc \<Rightarrow> string option \<Rightarrow> 'k fhs \<Rightarrow> reply \<times> 'k fhs" where
  "statvfs L path = with_path L (-1) path (\<lambda>_ actual st.
     let (r, st) = call L (At C_statvfs actual) st in
     if ret r \<noteq> 0 then (failed (-1) (err r), st) else
     let (i, st) = replenish_statvfs L (space r) st in ((returned 0)\<lparr>space := i\<rparr>, st))"

definition statvfs64 :: "'k libc \<Rightarrow> string option \<Rightarrow> 'k fhs \<Rightarrow> reply \<times> 'k fhs" where
  "statvfs64 L path = statvfs L path"

definition statfs :: "'k libc \<Rightarrow> string option \<Rightarrow> 'k fhs \<Rightarrow> reply \<times> 'k fhs" where
  "statfs L path = with_path L (-1) path (\<lambda>_ actual st.
     let (r, st) = call L (At C_statfs actual) st in
     if ret r \<noteq> 0 then (failed (-1) (err r), st) else
     let (i, st) = replenish_statfs L (space r) st in ((returned 0)\<lparr>space := i\<rparr>, st))"

definition statfs64 :: "'k libc \<Rightarrow> string option \<Rightarrow> 'k fhs \<Rightarrow> reply \<times> 'k fhs" where
  "statfs64 L path = statfs L path"

section \<open>Temporary files\<close>

text \<open>The two strings with the six random characters of \<open>actual\<close> copied into \<open>path\<close>.\<close>

definition copy_random_suffix :: "string \<Rightarrow> string \<Rightarrow> nat \<Rightarrow> string" where
  "copy_random_suffix path actual suffix_length =
     (if 6 + suffix_length \<le> length path \<and> 6 + suffix_length \<le> length actual
      then splice (length path - suffix_length - 6)
             (take 6 (drop (length actual - suffix_length - 6) actual)) path
      else path)"

text \<open>
  \<open>str\<close> of the next definition's reply is the template as it left it, \<open>str\<close> of the result the
  caller's string. The next definition refuses a negative suffix length, so it is a natural number.
\<close>

definition from_template :: "bool \<Rightarrow> string \<Rightarrow> nat \<Rightarrow> reply \<Rightarrow> bool \<Rightarrow> reply" where
  "from_template changed path suffix_length r ok =
     (if changed then r\<lparr>str := if ok then copy_random_suffix path (str r) suffix_length else path\<rparr> else r)"

definition make_temporary ::
    "'k libc \<Rightarrow> string option \<Rightarrow> nat \<Rightarrow> path_call \<Rightarrow> 'k fhs \<Rightarrow> reply \<times> 'k fhs" where
  "make_temporary L path suffix_length c = with_path L (-1) path (\<lambda>changed actual st.
     let (r, st) = call L (At c actual) st in
     (from_template changed (the path) suffix_length r (0 \<le> ret r), st))"

definition mkstemp :: "'k libc \<Rightarrow> string option \<Rightarrow> 'k fhs \<Rightarrow> reply \<times> 'k fhs" where
  "mkstemp L path = make_temporary L path 0 C_mkstemp"

definition mkstemp64 :: "'k libc \<Rightarrow> string option \<Rightarrow> 'k fhs \<Rightarrow> reply \<times> 'k fhs" where
  "mkstemp64 L path = make_temporary L path 0 C_mkstemp64"

definition mkostemp :: "'k libc \<Rightarrow> string option \<Rightarrow> u32 \<Rightarrow> 'k fhs \<Rightarrow> reply \<times> 'k fhs" where
  "mkostemp L path flags = make_temporary L path 0 (C_mkostemp flags)"

definition mkstemps :: "'k libc \<Rightarrow> string option \<Rightarrow> nat \<Rightarrow> 'k fhs \<Rightarrow> reply \<times> 'k fhs" where
  "mkstemps L path suffix_length = make_temporary L path suffix_length (C_mkstemps suffix_length)"

definition mkostemps :: "'k libc \<Rightarrow> string option \<Rightarrow> nat \<Rightarrow> u32 \<Rightarrow> 'k fhs \<Rightarrow> reply \<times> 'k fhs" where
  "mkostemps L path suffix_length flags =
     make_temporary L path suffix_length (C_mkostemps suffix_length flags)"

definition mkdtemp :: "'k libc \<Rightarrow> string option \<Rightarrow> 'k fhs \<Rightarrow> reply \<times> 'k fhs" where
  "mkdtemp L path = with_path L 0 path (\<lambda>changed actual st.
     let (r, st) = call L (At C_mkdtemp actual) st in
     (from_template changed (the path) 0 r (ret r \<noteq> 0), st))"

section \<open>Unix sockets\<close>

text \<open>
  \<open>UnixAddress p\<close>: family \<open>AF_UNIX\<close> with \<open>sun_path\<close> the string \<open>p\<close>, empty for an abstract or
  unnamed address. \<open>SUN_PATH\<close> is the size of \<open>sun_path\<close>, 2 its offset.
\<close>

definition SUN_PATH :: nat where "SUN_PATH = 108"

definition redirect_socket_address ::
    "'k libc \<Rightarrow> sockaddr \<Rightarrow> nat \<Rightarrow> 'k fhs \<Rightarrow> (errno option + sockaddr \<times> nat) \<times> 'k fhs" where
  "redirect_socket_address L address len st = (case address of
      UnixAddress p \<Rightarrow> if p = '''' then (Inr (address, len), st) else
        (case redirect_arg L (Some p) st of
           (Inl e, st) \<Rightarrow> (Inl e, st)
         | (Inr (changed, redirected), st) \<Rightarrow>
             if \<not> changed then (Inr (address, len), st)
             else if SUN_PATH \<le> length redirected then (Inl (Some ENAMETOOLONG), st)
             else (Inr (UnixAddress redirected, 2 + length redirected + 1), st))
    | _ \<Rightarrow> (Inr (address, len), st))"

definition bind :: "'k libc \<Rightarrow> int \<Rightarrow> sockaddr \<Rightarrow> nat \<Rightarrow> 'k fhs \<Rightarrow> reply \<times> 'k fhs" where
  "bind L socket address len st = (case redirect_socket_address L address len st of
      (Inl e, st) \<Rightarrow> (failed (-1) e, st)
    | (Inr (actual, n), st) \<Rightarrow> call L (Only (C_bind socket actual n)) st)"

definition connect :: "'k libc \<Rightarrow> int \<Rightarrow> sockaddr \<Rightarrow> nat \<Rightarrow> 'k fhs \<Rightarrow> reply \<times> 'k fhs" where
  "connect L socket address len st = (case redirect_socket_address L address len st of
      (Inl e, st) \<Rightarrow> (failed (-1) e, st)
    | (Inr (actual, n), st) \<Rightarrow> call L (Only (C_connect socket actual n)) st)"

section \<open>Raw system calls\<close>

definition path_in_second_argument :: "sysno \<Rightarrow> bool" where
  "path_in_second_argument number \<longleftrightarrow> number \<in> {SYS_openat, SYS_openat2, SYS_statx,
     SYS_inotify_add_watch, SYS_newfstatat, SYS_faccessat, SYS_faccessat2, SYS_readlinkat}"

text \<open>\<open>kernel_syscall6\<close> and the translation of its result.\<close>

definition syscall_result :: "reply \<Rightarrow> reply" where
  "syscall_result r = (if ret r < 0 \<and> -4096 < ret r
     then failed (-1) (Some (Errno (nat (- ret r)))) else r)"

definition first_argument :: "sysno \<Rightarrow> sysarg \<Rightarrow> sysarg" where
  "first_argument number a1 = (case a1 of
      Num n \<Rightarrow> if number = SYS_close_range \<and> n < 3 then Num 3 else a1 | Ptr _ \<Rightarrow> a1)"

text \<open>The raw call: a string in the second argument of a path call is the path it resolves.\<close>

definition kernel_syscall6 ::
    "sysno \<Rightarrow> sysarg \<Rightarrow> sysarg \<Rightarrow> sysarg \<Rightarrow> sysarg \<Rightarrow> sysarg \<Rightarrow> sysarg \<Rightarrow> call" where
  "kernel_syscall6 number a1 a2 a3 a4 a5 a6 = (case a2 of
      Ptr p \<Rightarrow> if path_in_second_argument number then At (C_syscall_path number a1 a3 a4 a5 a6) p
               else Only (C_syscall number a1 a2 a3 a4 a5 a6)
    | Num _ \<Rightarrow> Only (C_syscall number a1 a2 a3 a4 a5 a6))"

definition direct :: "'k libc \<Rightarrow> call \<Rightarrow> 'k fhs \<Rightarrow> reply \<times> 'k fhs" where
  "direct L c st = (let (r, st) = call L c st in (syscall_result r, st))"

definition syscall ::
    "'k libc \<Rightarrow> sysno \<Rightarrow> sysarg \<Rightarrow> sysarg \<Rightarrow> sysarg \<Rightarrow> sysarg \<Rightarrow> sysarg \<Rightarrow> sysarg \<Rightarrow> 'k fhs \<Rightarrow> reply \<times> 'k fhs" where
  "syscall L number a1 a2 a3 a4 a5 a6 st =
     (let finish = (\<lambda>a2. direct L (kernel_syscall6 number (first_argument number a1) a2 a3 a4 a5 a6)) in
      case a2 of
        Ptr path \<Rightarrow> if path_in_second_argument number \<and> path \<noteq> []
          then with_path L (-1) (Some path) (\<lambda>_ actual. finish (Ptr actual)) st
          else finish a2 st
      | Num _ \<Rightarrow> finish a2 st)"

section \<open>Confinement\<close>

text \<open>The paths that a call makes the kernel resolve; the text of a symbolic link is not one.\<close>

fun paths_of :: "call \<Rightarrow> string list" where
  "paths_of (At _ p) = [p]"
| "paths_of (Between _ p q) = [p, q]"
| "paths_of (Only (C_bind _ (UnixAddress p) _)) = (if p = [] then [] else [p])"
| "paths_of (Only (C_connect _ (UnixAddress p) _)) = (if p = [] then [] else [p])"
| "paths_of (Only _) = []"

text \<open>
  \<open>system_path\<close>: the paths where Android's own directories would answer. A permitted path is in a
  private directory or outside Android's.
\<close>

definition system_path :: "string \<Rightarrow> bool" where
  "system_path p \<longleftrightarrow> list_ex (\<lambda>d. at_or_below d p) ([''/tmp'', ''/run''] @ rootfs_directories)"

definition permitted :: "string \<Rightarrow> string \<Rightarrow> string \<Rightarrow> bool" where
  "permitted R T p \<longleftrightarrow> prefix R p \<or> prefix T p \<or> \<not> system_path p"

definition private_dirs :: "string \<Rightarrow> string \<Rightarrow> 'k proc \<Rightarrow> bool" where
  "private_dirs R T st \<longleftrightarrow>
     usable (runtime_rootfs (renv st)) = Some R \<and> usable (runtime_tmpdir (renv st)) = Some T"

definition confined :: "string \<Rightarrow> string \<Rightarrow> 'k fhs \<Rightarrow> bool" where
  "confined R T st \<longleftrightarrow> private_dirs R T (proc st) \<and>
     (\<forall>c\<in>set (issued st). \<forall>p\<in>set (paths_of c). permitted R T p)"

named_theorems confined_intros

lemma not_system_special:
  "prefix ''/proc/'' p \<Longrightarrow> \<not> system_path p" "prefix ''/dev/'' p \<Longrightarrow> \<not> system_path p"
  by (auto simp: system_path_def rootfs_directories_def at_or_below_def prefix_def)

lemma special_not_system: "\<not> ordinary p \<Longrightarrow> p = ''/etc/shells'' \<or> \<not> system_path p"
proof -
  assume "\<not> ordinary p"
  then consider "p = ''/etc/shells''" | "prefix ''/proc/'' p" | "prefix ''/dev/'' p"
    by (auto simp: ordinary_def at_or_below_def prefix_def)
  then show ?thesis by cases (use not_system_special in blast)+
qed

lemma rewrite_same_permitted:
  "usable root = Some R \<Longrightarrow> usable tmp = Some T \<Longrightarrow> fhs_rewrite root tmp p = Same \<Longrightarrow> \<not> system_path p"
  by (auto simp: fhs_rewrite_def Let_def system_path_def split: if_splits)

lemma shells_redirected:
  assumes "usable (runtime_rootfs (renv st)) = Some R" "usable (runtime_tmpdir (renv st)) = Some T"
  shows "fst (bionicx_redirect_path K ''/etc/shells'' st) \<noteq> Same"
proof -
  obtain r st3 where e: "redirect_etc_shells K ''/etc/shells'' st = (r, st3)" by fastforce
  have r: "r \<noteq> Same"
    using assms e by (auto simp: redirect_etc_shells_def Let_def split: if_splits sum.splits prod.splits)
  have "renv st3 = renv st" using etc_shells_ok [of st K "''/etc/shells''"] e by (simp add: stage_ok_def)
  moreover have "at_or_below ''/etc'' ''/etc/shells''" by (simp add: at_or_below_def)
  then have "list_ex (\<lambda>d. at_or_below d ''/etc/shells'') rootfs_directories" by (simp add: rootfs_directories_def)
  ultimately have w: "fhs_rewrite (runtime_rootfs (renv st3)) (runtime_tmpdir (renv st3)) ''/etc/shells'' \<noteq> Same"
    using assms by (simp add: fhs_rewrite_def Let_def)
  have "redirect_inotify_sysctl K ''/etc/shells'' st = (Null, st)" "redirect_proc_stat K ''/etc/shells'' st = (Null, st)"
    "redirect_dev_shm K ''/etc/shells'' st3 = (Null, st3)"
    by (simp_all add: redirect_inotify_sysctl_def redirect_proc_stat_def redirect_dev_shm_def)
  then show ?thesis using r w by (simp add: bionicx_redirect_path_def e)
qed

lemma redirect_permitted:
  assumes "private_dirs R T st" "bionicx_redirect_path K p st = (r, st')" "r \<noteq> Null"
  shows "private_dirs R T st'" "permitted R T (pointed p r)"
proof -
  have ok: "stage_ok st (r, st')" using redirect_ok [of st K p] assms(2) by simp
  then show "private_dirs R T st'" using assms(1) by (simp add: stage_ok_def private_dirs_def)
  show "permitted R T (pointed p r)"
  proof (cases r)
    case (Buf b)
    then have "private_path (renv st) b" using ok by (simp add: stage_ok_def)
    then show ?thesis using assms(1) Buf by (auto simp: private_path_def private_dirs_def permitted_def pointed_def)
  next
    case Same
    show ?thesis
    proof (cases "ordinary p")
      case True
      then have "fhs_rewrite (runtime_rootfs (renv st)) (runtime_tmpdir (renv st)) p = Same"
        using assms(2) Same by (auto simp: redirect_ordinary)
      then show ?thesis using rewrite_same_permitted assms(1) Same
        by (auto simp: private_dirs_def permitted_def pointed_def)
    next
      case False
      have "p \<noteq> ''/etc/shells''" using shells_redirected [of st R T K] assms(1,2) Same by (auto simp: private_dirs_def)
      then show ?thesis using special_not_system False Same by (auto simp: permitted_def pointed_def)
    qed
  qed (use assms(3) in simp)
qed

lemma redirect_keeps_dirs:
  "private_dirs R T st \<Longrightarrow> bionicx_redirect_path K p st = (r, st') \<Longrightarrow> private_dirs R T st'"
  using redirect_ok [of st K p] by (simp add: stage_ok_def private_dirs_def)

lemma confined_call [confined_intros]:
  assumes "confined R T st" "\<forall>p\<in>set (paths_of c). permitted R T p" "call L c st = (r, st')"
  shows "confined R T st'"
  using assms by (auto simp: confined_def call_def private_dirs_def split: prod.splits)

lemma confined_redirect_arg:
  assumes "confined R T st" "redirect_arg L path st = (x, st')"
  shows "confined R T st' \<and> (\<forall>c a. x = Inr (c, a) \<longrightarrow> permitted R T a)"
proof (cases path)
  case None
  then show ?thesis using assms by (auto simp: redirect_arg_def)
next
  case (Some p)
  obtain r q where b: "bionicx_redirect_path (base L) p (proc st) = (r, q)" by fastforce
  have d: "private_dirs R T q" using redirect_keeps_dirs [OF _ b] assms(1) by (simp add: confined_def)
  have c: "confined R T (st\<lparr>proc := q\<rparr>)" using assms(1) d by (simp add: confined_def)
  have "permitted R T (pointed p r)" if "r \<noteq> Null"
    using redirect_permitted(2) [OF _ b that] assms(1) by (simp add: confined_def)
  then show ?thesis using assms(2) c
    by (cases r) (auto simp: redirect_arg_def Some b pointed_def Let_def)
qed

lemma confined_with_path:
  assumes "confined R T st"
    and "\<And>c a st1. confined R T st1 \<Longrightarrow> permitted R T a \<Longrightarrow> confined R T (snd (f c a st1))"
  shows "confined R T (snd (with_path L v path f st))"
proof -
  obtain x st1 where x: "redirect_arg L path st = (x, st1)" by fastforce
  show ?thesis using confined_redirect_arg [OF assms(1) x] assms(2)
    by (auto simp: with_path_def x split: sum.split)
qed

lemma confined_redirect_pair:
  assumes "confined R T st" "redirect_pair L old new st = (x, st')"
  shows "confined R T st' \<and> (\<forall>a b. x = Inr (a, b) \<longrightarrow> permitted R T a \<and> permitted R T b)"
proof -
  obtain y st1 where y: "redirect_arg L old st = (y, st1)" by fastforce
  obtain z st2 where z: "redirect_arg L new st1 = (z, st2)" by fastforce
  note c1 = confined_redirect_arg [OF assms(1) y]
  note c2 = confined_redirect_arg [OF conjunct1 [OF c1] z]
  show ?thesis using assms(2) c1 c2
    by (auto simp: redirect_pair_def y z split: sum.splits option.splits prod.splits)
qed

lemma confined_with_paths:
  assumes "confined R T st"
    and "\<And>a b st1. confined R T st1 \<Longrightarrow> permitted R T a \<Longrightarrow> permitted R T b \<Longrightarrow> confined R T (snd (f a b st1))"
  shows "confined R T (snd (with_paths L old new f st))"
proof -
  obtain x st1 where x: "redirect_pair L old new st = (x, st1)" by fastforce
  show ?thesis using confined_redirect_pair [OF assms(1) x] assms(2)
    by (auto simp: with_paths_def x split: sum.split)
qed

section \<open>Temporary names\<close>

text \<open>What a next definition that fills a template does: it rewrites its last six characters.\<close>

definition fills_template :: "'k libc \<Rightarrow> path_call \<Rightarrow> bool" where
  "fills_template L c \<longleftrightarrow> (\<forall>stem x k. length x = 6 \<longrightarrow> 0 \<le> ret (fst (next L (At c (stem @ x)) k)) \<longrightarrow>
     (\<exists>y. length y = 6 \<and> CHR ''/'' \<notin> set y \<and> str (fst (next L (At c (stem @ x)) k)) = stem @ y))"

lemma copy_random_suffix_stem:
  "length x = 6 \<Longrightarrow> length y = 6 \<Longrightarrow> copy_random_suffix (p @ x) (q @ y) 0 = p @ y"
  by (simp add: copy_random_suffix_def splice_def)

lemma prefix_no_slash:
  assumes "CHR ''/'' \<notin> set x"
  shows "prefix (d @ ''/'') (p @ x) \<longleftrightarrow> prefix (d @ ''/'') p"
proof
  assume "prefix (d @ ''/'') (p @ x)"
  then obtain z where z: "p @ x = d @ ''/'' @ z" by (auto simp: prefix_def)
  then consider z' where "p = d @ ''/'' @ z'" | "length p \<le> length d"
    by (auto simp: append_eq_append_conv2 Cons_eq_append_conv append_eq_Cons_conv)
  then show "prefix (d @ ''/'') p"
  proof cases
    case 2
    then have "CHR ''/'' \<in> set (drop (length p) (p @ x))" unfolding z by simp
    then show ?thesis using assms by simp
  qed simp
qed (simp add: prefix_def, fastforce)

lemma below_no_slash:
  assumes "CHR ''/'' \<notin> set x" "CHR ''/'' \<notin> set y" "length x = length y" "length d \<le> length x" "absolute d"
  shows "at_or_below d (p @ x) \<longleftrightarrow> at_or_below d (p @ y)"
proof -
  have "p @ z \<noteq> d" if "length z = length x" "CHR ''/'' \<notin> set z" for z
  proof
    assume "p @ z = d"
    then have "p = []" using that(1) assms(4) by auto
    then have "absolute z" using \<open>p @ z = d\<close> assms(5) by simp
    then show False using that(2) by (cases z) (auto simp: absolute_def)
  qed
  then show ?thesis using assms by (auto simp: at_or_below_def prefix_no_slash)
qed

lemma rewrite_stem:
  assumes "length x = 6" "length y = 6" "CHR ''/'' \<notin> set x" "CHR ''/'' \<notin> set y"
    and "fhs_rewrite root tmp (p @ x) = Buf b"
  obtains q where "b = q @ x" "fhs_rewrite root tmp (p @ y) = Buf (q @ y)"
proof -
  have same: "at_or_below d (p @ y) = at_or_below d (p @ x)" if "length d \<le> 6" "absolute d" for d
    using below_no_slash [of x y d p] assms that by simp
  have p4: "drop 4 (p @ z) = drop 4 p @ z" if "at_or_below ''/tmp'' (p @ z)" "length z = 6" "CHR ''/'' \<notin> set z" for z
  proof -
    have "length (p @ z) \<noteq> length ''/tmp''" using that(2) by simp
    then have "p @ z \<noteq> ''/tmp''" by metis
    then have "prefix (''/tmp'' @ ''/'') p" using that prefix_no_slash [of z "''/tmp''" p] by (auto simp: at_or_below_def)
    then show ?thesis by (auto simp: prefix_def)
  qed
  have "\<exists>q. b = q @ x \<and> fhs_rewrite root tmp (p @ y) = Buf (q @ y)"
    using assms(5) p4 [of x] p4 [of y] assms(1-4)
    by (auto simp: fhs_rewrite_def same Let_def rootfs_directories_def fits_def split: option.splits if_splits)
  then show ?thesis using that by blast
qed

lemma ordinary_stem:
  assumes "ordinary (p @ x)" "length x = 6" "length y = 6" "CHR ''/'' \<notin> set x" "CHR ''/'' \<notin> set y"
    and "p \<noteq> ''/etc/''"
  shows "ordinary (p @ y)"
proof -
  have six: "y = drop (length c - 6) c" if "p @ y = c" for c
    using assms(3) that by auto
  have "p @ y \<noteq> ''/proc/stat''" "p @ y \<noteq> ''/dev/shm''"
    using six [of "''/proc/stat''"] six [of "''/dev/shm''"] assms(5) by auto
  moreover have "p @ y \<noteq> ''/etc/shells''"
  proof
    assume "p @ y = ''/etc/shells''"
    then have "take (length (p @ y) - 6) (p @ y) = ''/etc/''" by simp
    then show False using assms(3,6) by simp
  qed
  ultimately show ?thesis
    using assms(1) prefix_no_slash [OF assms(4), of "''/proc/sys/fs/inotify''" p]
      prefix_no_slash [OF assms(5), of "''/proc/sys/fs/inotify''" p]
      prefix_no_slash [OF assms(4), of "''/dev/shm''" p] prefix_no_slash [OF assms(5), of "''/dev/shm''" p]
    by (simp add: ordinary_def at_or_below_def)
qed

lemma redirect_arg_ordinary:
  "ordinary p \<Longrightarrow> fhs_rewrite (runtime_rootfs (renv (proc st))) (runtime_tmpdir (renv (proc st))) p = Buf b \<Longrightarrow>
   redirect_arg L (Some p) st = (Inr (True, b), st)"
  by (simp add: redirect_arg_def redirect_ordinary Let_def)

lemma call_renv [simp]: "call L c st = (r, st') \<Longrightarrow> renv (proc st') = renv (proc st)"
  by (auto simp: call_def split: prod.splits)

text \<open>
A guest that makes a temporary file from a redirected template gets back a guest name whose
  redirection is exactly the file that was created: only the six random characters travel back.
  (The template must not end in a synthetic file's name; \<open>/etc/XXXXXX\<close> could come back as the
  synthetic \<open>/etc/shells\<close>.)
\<close>
theorem mkstemp_guest_name:
  assumes "fills_template L C_mkstemp" "ordinary (p @ x)" "length x = 6" "CHR ''/'' \<notin> set x" "p \<noteq> ''/etc/''"
    and "fhs_rewrite (runtime_rootfs (renv (proc st))) (runtime_tmpdir (renv (proc st))) (p @ x) = Buf actual"
    and "mkstemp L (Some (p @ x)) st = (r, st')" "0 \<le> ret r"
  shows "\<exists>created. str (fst (next L (At C_mkstemp actual) (kern (proc st)))) = created \<and>
           length created = length actual \<and>
           redirect_arg L (Some (str r)) st' = (Inr (True, created), st')"
proof -
  obtain \<rho> st1 where c: "call L (At C_mkstemp actual) st = (\<rho>, st1)" by fastforce
  have r: "st' = st1" "r = from_template True (p @ x) 0 \<rho> (0 \<le> ret \<rho>)"
    using assms(7)
    by (simp_all add: mkstemp_def make_temporary_def with_path_def redirect_arg_ordinary [OF assms(2,6)] c)
  have ok: "0 \<le> ret \<rho>" using assms(8) by (simp add: r(2) from_template_def)
  have \<rho>: "\<rho> = fst (next L (At C_mkstemp actual) (kern (proc st)))"
    using arg_cong [OF c, of fst] by (simp add: call_def split_beta Let_def)
  obtain q where q: "actual = q @ x"
    by (rule rewrite_stem [OF assms(3) assms(3) assms(4) assms(4) assms(6)])
  obtain y where y: "length y = 6" "CHR ''/'' \<notin> set y" "str \<rho> = q @ y"
    using assms(1) [unfolded fills_template_def, rule_format, OF assms(3)] ok unfolding \<rho> q by blast
  obtain q' where q': "actual = q' @ x"
    "fhs_rewrite (runtime_rootfs (renv (proc st))) (runtime_tmpdir (renv (proc st))) (p @ y) = Buf (q' @ y)"
    by (rule rewrite_stem [OF assms(3) y(1) assms(4) y(2) assms(6)])
  have name: "str r = p @ y"
    using ok y(3) copy_random_suffix_stem [OF assms(3) y(1)]
    by (simp add: r(2) from_template_def)
  have "redirect_arg L (Some (p @ y)) st' = (Inr (True, q @ y), st')"
    by (rule redirect_arg_ordinary [OF ordinary_stem [OF assms(2,3) y(1) assms(4) y(2) assms(5)]])
      (use q' q r(1) c in simp)
  then show ?thesis using y(1,3) q assms(3) name by (simp add: \<rho>)
qed

section \<open>Socket addresses and raw system calls\<close>


lemma direct_call:
  "\<exists>\<rho>. fst (direct L c st) = (if -4096 < ret \<rho> \<and> ret \<rho> < 0 then failed (-1) (Some (Errno (nat (- ret \<rho>)))) else \<rho>) \<and>
       \<rho> = fst (next L c (kern (proc st))) \<and> issued (snd (direct L c st)) = issued st @ [c]"
  by (simp add: direct_def call_def split_beta Let_def syscall_result_def conj_commute)

lemma redirect_arg_results:
  assumes "redirect_arg L (Some p) st = (x, st')"
  shows "issued st' = issued st \<and> (\<forall>e. x = Inl e \<longrightarrow> e = Some ENAMETOOLONG) \<and> (\<forall>q. x = Inr (False, q) \<longrightarrow> q = p)"
  using assms by (auto simp: redirect_arg_def Let_def split: prod.splits cptr.splits)

text \<open>
  A raw system call either fails with \<open>ENAMETOOLONG\<close> without reaching the kernel, or reaches it
  exactly once: only the path of a path call is replaced (by its redirection), \<open>close_range\<close>
  never starts below descriptor 3, and a kernel result between -4095 and -1 becomes -1 with that
  \<open>errno\<close> while every other result is returned as it is.
\<close>
theorem raw_syscalls:
  assumes "syscall L n a1 a2 a3 a4 a5 a6 st = (r, st')"
  shows "r = failed (-1) (Some ENAMETOOLONG) \<and> issued st' = issued st \<or>
    (\<exists>b1 b2 k \<rho>. issued st' = issued st @ [kernel_syscall6 n b1 b2 a3 a4 a5 a6] \<and>
       \<rho> = fst (next L (kernel_syscall6 n b1 b2 a3 a4 a5 a6) k) \<and>
       (b2 = a2 \<or> path_in_second_argument n \<and>
          (\<exists>p q. a2 = Ptr p \<and> b2 = Ptr q \<and> fst (redirect_arg L (Some p) st) = Inr (True, q))) \<and>
       (if n = SYS_close_range then \<forall>m. b1 = Num m \<longrightarrow> 3 \<le> m else b1 = a1) \<and>
       r = (if -4096 < ret \<rho> \<and> ret \<rho> < 0 then failed (-1) (Some (Errno (nat (- ret \<rho>)))) else \<rho>))"
proof -
  let ?b1 = "first_argument n a1"
  let ?c = "\<lambda>b2. kernel_syscall6 n ?b1 b2 a3 a4 a5 a6"
  have b1: "if n = SYS_close_range then \<forall>m. ?b1 = Num m \<longrightarrow> 3 \<le> m else ?b1 = a1"
    by (auto simp: first_argument_def split: sysarg.splits)
  have once: ?thesis if d: "direct L (?c b2) s = (r, st')" "issued s = issued st" and
    b2: "b2 = a2 \<or> path_in_second_argument n \<and>
          (\<exists>p q. a2 = Ptr p \<and> b2 = Ptr q \<and> fst (redirect_arg L (Some p) st) = Inr (True, q))" for b2 s
  proof -
    obtain \<rho> where "r = (if -4096 < ret \<rho> \<and> ret \<rho> < 0 then failed (-1) (Some (Errno (nat (- ret \<rho>)))) else \<rho>)"
      "\<rho> = fst (next L (?c b2) (kern (proc s)))" "issued st' = issued st @ [?c b2]"
      using direct_call [of L "?c b2" s] d by auto
    then show ?thesis using b1 b2 by blast
  qed
  show ?thesis
  proof (cases "\<exists>p. a2 = Ptr p \<and> path_in_second_argument n \<and> p \<noteq> []")
    case True
    then obtain p where p: "a2 = Ptr p" "path_in_second_argument n" "p \<noteq> []" by blast
    obtain x st1 where x: "redirect_arg L (Some p) st = (x, st1)" by fastforce
    note res = redirect_arg_results [OF x]
    show ?thesis
    proof (cases x)
      case (Inl e)
      then show ?thesis using assms p x res by (auto simp: syscall_def with_path_def)
    next
      case (Inr z)
      then obtain ch q where q: "x = Inr (ch, q)" by (cases z) auto
      have d: "direct L (?c (Ptr q)) st1 = (r, st')" using assms p x q by (simp add: syscall_def with_path_def)
      have b2: "Ptr q = a2 \<or> ch" using res q p(1) by (cases ch) auto
      show ?thesis by (rule once [OF d]) (use res b2 p q x in auto)
    qed
  next
    case False
    then have "direct L (?c a2) st = (r, st')" using assms by (auto simp: syscall_def split: sysarg.splits)
    then show ?thesis by (rule once) simp_all
  qed
qed

section \<open>Canonical paths\<close>

definition canonicalizes :: "'k libc \<Rightarrow> (string \<Rightarrow> string option) \<Rightarrow> bool" where
  "canonicalizes L canon \<longleftrightarrow> (\<forall>p k. let r = fst (next L (At C_realpath p) k) in
     case canon p of None \<Rightarrow> ret r = 0 | Some c \<Rightarrow> ret r \<noteq> 0 \<and> str r = c)"

lemma realpath_call:
  assumes "canonicalizes L canon" "canon p = Some c"
  obtains r st' where "call L (At C_realpath p) st = (r, st')" "ret r \<noteq> 0" "str r = c" "renv (proc st') = renv (proc st)"
proof -
  obtain r k where n: "next L (At C_realpath p) (kern (proc st)) = (r, k)" by fastforce
  have "ret r \<noteq> 0 \<and> str r = c"
    using assms(1) [unfolded canonicalizes_def, rule_format, of p "kern (proc st)"] assms(2) n by (simp add: Let_def)
  then show ?thesis using that [of r] n by (simp add: call_def)
qed

lemma redirect_arg_renv: "redirect_arg L p st = (x, st') \<Longrightarrow> renv (proc st') = renv (proc st)"
  using redirect_ok [of "proc st" "base L" "the p"]
  by (auto simp: redirect_arg_def Let_def stage_ok_def split: option.splits prod.splits cptr.splits)


section \<open>The properties at work\<close>

text \<open>A C library that fills templates with \<open>abcdef\<close> and whose paths are already canonical.\<close>

definition demo_next :: "call \<Rightarrow> unit \<Rightarrow> reply \<times> unit" where
  "demo_next c k = (case c of
      At C_mkstemp p \<Rightarrow> ((returned 5)\<lparr>str := take (length p - 6) p @ ''abcdef''\<rparr>, k)
    | At C_realpath p \<Rightarrow> ((returned 1)\<lparr>str := p\<rparr>, k)
    | At (C_syscall_path _ _ _ _ _ _) _ \<Rightarrow> (returned (-2), k)
    | _ \<Rightarrow> (returned 0, k))"

definition demo_libc :: "unit libc" where "demo_libc = \<lparr>base = dead_kernel, next = demo_next\<rparr>"

definition demo_fhs :: "unit fhs" where
  "demo_fhs = \<lparr>proc = demo_proc, fake_links = replicate 32 None, password_lock_fd = -1, issued = []\<rparr>"

lemma demo_fhs_dirs:
  "runtime_rootfs (renv (proc demo_fhs)) = Some ''/data/r''" "runtime_tmpdir (renv (proc demo_fhs)) = Some ''/data/t''"
  by (simp_all add: demo_fhs_def demo_runtime_dirs)

lemma demo_fills: "fills_template demo_libc C_mkstemp"
  by (auto simp: fills_template_def demo_libc_def demo_next_def returned_def)

lemma demo_canonicalizes: "canonicalizes demo_libc Some"
  by (simp add: canonicalizes_def demo_libc_def demo_next_def returned_def)

theorem mkstemp_guest_name_witness:
  "\<exists>r st'. mkstemp demo_libc (Some ''/tmp/fXXXXXX'') demo_fhs = (r, st') \<and>
     redirect_arg demo_libc (Some (str r)) st' = (Inr (True, ''/data/t/fabcdef''), st')"
proof -
  obtain r st' where m: "mkstemp demo_libc (Some (''/tmp/f'' @ ''XXXXXX'')) demo_fhs = (r, st')" by fastforce
  have ord: "ordinary (''/tmp/f'' @ ''XXXXXX'')" by (simp add: ordinary_def at_or_below_def)
  have rw: "fhs_rewrite (runtime_rootfs (renv (proc demo_fhs))) (runtime_tmpdir (renv (proc demo_fhs)))
      (''/tmp/f'' @ ''XXXXXX'') = Buf ''/data/t/fXXXXXX''"
    by (simp add: demo_fhs_dirs) code_simp
  have "0 \<le> ret r"
    using m redirect_arg_ordinary [OF ord rw, of demo_libc]
    by (auto simp: mkstemp_def make_temporary_def with_path_def call_def demo_libc_def demo_next_def
        returned_def from_template_def)
  from mkstemp_guest_name [OF demo_fills ord _ _ _ rw m this]
  have "redirect_arg demo_libc (Some (str r)) st' = (Inr (True, ''/data/t/fabcdef''), st')"
    by (simp add: demo_libc_def demo_next_def)
  then show ?thesis using m by auto
qed


theorem raw_syscalls_witness:
  "\<exists>r st'. syscall demo_libc SYS_openat (Num 0) (Ptr ''/x'') (Num 0) (Num 0) (Num 0) (Num 0) demo_fhs = (r, st') \<and>
     ret r = -1"
proof -
  obtain r st' where s: "syscall demo_libc SYS_openat (Num 0) (Ptr ''/x'') (Num 0) (Num 0) (Num 0) (Num 0)
      demo_fhs = (r, st')" by fastforce
  from raw_syscalls [OF s] show ?thesis
    using s by (auto simp: demo_libc_def demo_next_def kernel_syscall6_def path_in_second_argument_def
        failed_def returned_def split: if_splits sysarg.splits)
qed


end
