(* ===== verification/FhsLinks.thy ===== *)
theory FhsLinks
  imports FhsCalls
begin

text \<open>
  Hard links on a file system that has none, from \<open>native/runtime/fhs-path.c\<close>: \<open>link\<close> and
  \<open>linkat\<close> fall back to copying the file, a table of 32 entries remembers the pair, and the
  \<open>stat\<close> family reports two links for both names until one of them is unlinked.

  The copying loops read and write until the kernel says so; they are partial functions whose
  value is \<open>None\<close> when they do not return.
\<close>

section \<open>The table of fake links\<close>

definition BIONICX_FAKE_LINKS :: nat where "BIONICX_FAKE_LINKS = 32"

definition first_unused :: "fake_link option list \<Rightarrow> nat" where
  "first_unused links = length (takeWhile (\<lambda>l. l \<noteq> None) links)"

definition remember_fake_link :: "'k libc \<Rightarrow> string \<Rightarrow> string \<Rightarrow> 'k fhs \<Rightarrow> 'k fhs" where
  "remember_fake_link L source destination st =
     (let (r, st) = call L (At C_stat source) st; index = first_unused (fake_links st) in
      if ret r \<noteq> 0 then st
      else if index = BIONICX_FAKE_LINKS then st
      else st\<lparr>fake_links := (fake_links st)[index := Some
             \<lparr>first = take (PATH_MAX - 1) source, second = take (PATH_MAX - 1) destination,
              inode = st_ino (info r)\<rparr>]\<rparr>)"

definition link_names :: "string \<Rightarrow> fake_link option \<Rightarrow> bool" where
  "link_names path l = (case l of None \<Rightarrow> False | Some e \<Rightarrow> path = first e \<or> path = second e)"

definition matching_link :: "string \<Rightarrow> fake_link option list \<Rightarrow> fake_link option" where
  "matching_link path links = (if path = [] then None
     else case filter (link_names path) links of l # _ \<Rightarrow> l | [] \<Rightarrow> None)"

definition apply_fake_nlink :: "string \<Rightarrow> fake_link option list \<Rightarrow> file_info \<Rightarrow> file_info" where
  "apply_fake_nlink path links i = (case matching_link path links of
      None \<Rightarrow> i | Some e \<Rightarrow> i\<lparr>st_nlink := 2, st_ino := inode e\<rparr>)"

definition forget_fake_link :: "string \<Rightarrow> fake_link option list \<Rightarrow> fake_link option list" where
  "forget_fake_link path links = map (\<lambda>l. if link_names path l then None else l) links"

section \<open>File status\<close>

definition is_dev_shm_dir :: "string option \<Rightarrow> bool" where
  "is_dev_shm_dir path \<longleftrightarrow> path = Some ''/dev/shm'' \<or> path = Some ''/dev/shm/''"

text \<open>\<open>S_ISVTX | 0777\<close>.\<close>

definition apply_dev_shm_mode :: "string option \<Rightarrow> file_info \<Rightarrow> file_info" where
  "apply_dev_shm_mode path i =
     (if is_dev_shm_dir path then i\<lparr>st_mode := st_mode i OR 0x3FF\<rparr> else i)"

definition stat_with :: "path_call \<Rightarrow> 'k libc \<Rightarrow> string option \<Rightarrow> 'k fhs \<Rightarrow> reply \<times> 'k fhs" where
  "stat_with c L path = with_path L (-1) path (\<lambda>_ actual st.
     let (r, st) = call L (At c actual) st in
     if ret r \<noteq> 0 then (failed (-1) (err r), st)
     else ((returned 0)\<lparr>info := apply_dev_shm_mode path (apply_fake_nlink actual (fake_links st) (info r))\<rparr>, st))"

definition stat :: "'k libc \<Rightarrow> string option \<Rightarrow> 'k fhs \<Rightarrow> reply \<times> 'k fhs" where
  "stat = stat_with C_stat"

definition stat64 :: "'k libc \<Rightarrow> string option \<Rightarrow> 'k fhs \<Rightarrow> reply \<times> 'k fhs" where
  "stat64 = stat_with C_stat64"

definition lstat :: "'k libc \<Rightarrow> string option \<Rightarrow> 'k fhs \<Rightarrow> reply \<times> 'k fhs" where
  "lstat = stat_with C_lstat"

definition lstat64 :: "'k libc \<Rightarrow> string option \<Rightarrow> 'k fhs \<Rightarrow> reply \<times> 'k fhs" where
  "lstat64 = stat_with C_lstat64"

definition fstatat :: "'k libc \<Rightarrow> int \<Rightarrow> string option \<Rightarrow> u32 \<Rightarrow> 'k fhs \<Rightarrow> reply \<times> 'k fhs" where
  "fstatat L directory path flags = stat_with (C_fstatat directory flags) L path"

definition fstatat64 :: "'k libc \<Rightarrow> int \<Rightarrow> string option \<Rightarrow> u32 \<Rightarrow> 'k fhs \<Rightarrow> reply \<times> 'k fhs" where
  "fstatat64 L directory path flags = stat_with (C_fstatat64 directory flags) L path"

definition AT_SYMLINK_FOLLOW :: u32 where "AT_SYMLINK_FOLLOW = 0x400"
definition AT_EMPTY_PATH :: u32 where "AT_EMPTY_PATH = 0x1000"
definition AT_FDCWD :: int where "AT_FDCWD = -100"

text \<open>\<open>statx\<close> takes over the link count but keeps the kernel's inode.\<close>

definition statx :: "'k libc \<Rightarrow> int \<Rightarrow> string option \<Rightarrow> u32 \<Rightarrow> u32 \<Rightarrow> 'k fhs \<Rightarrow> reply \<times> 'k fhs" where
  "statx L directory path flags wanted st =
     (if flags AND AT_EMPTY_PATH \<noteq> 0 \<and> (path = None \<or> path = Some [])
      then call L (case path of None \<Rightarrow> Only (C_statx_null directory flags wanted)
                   | Some p \<Rightarrow> At (C_statx directory flags wanted) p) st
      else with_path L (-1) path (\<lambda>_ actual st.
        let (r, st) = call L (At (C_statx directory flags wanted) actual) st in
        if ret r \<noteq> 0 then (failed (-1) (err r), st)
        else ((returned 0)\<lparr>info := apply_dev_shm_mode path
               ((info r)\<lparr>st_nlink := st_nlink (apply_fake_nlink actual (fake_links st) (info r))\<rparr>)\<rparr>, st)) st)"

definition unlink :: "'k libc \<Rightarrow> string option \<Rightarrow> 'k fhs \<Rightarrow> reply \<times> 'k fhs" where
  "unlink L path = with_path L (-1) path (\<lambda>_ actual st.
     call L (At C_unlink actual) (st\<lparr>fake_links := forget_fake_link actual (fake_links st)\<rparr>))"

definition unlinkat :: "'k libc \<Rightarrow> int \<Rightarrow> string option \<Rightarrow> u32 \<Rightarrow> 'k fhs \<Rightarrow> reply \<times> 'k fhs" where
  "unlinkat L directory path flags = with_path L (-1) path (\<lambda>_ actual st.
     call L (At (C_unlinkat directory flags) actual)
       (st\<lparr>fake_links := forget_fake_link actual (fake_links st)\<rparr>))"

section \<open>Copying a regular file\<close>

text \<open>The inner loop: \<open>write\<close> until the whole block is sent. \<open>Some e\<close> is the \<open>errno\<close> of a failure.\<close>

partial_function (option) send_block ::
    "'k libc \<Rightarrow> int \<Rightarrow> string \<Rightarrow> 'k fhs \<Rightarrow> (errno option option \<times> 'k fhs) option" where
  "send_block L output rest st = (if rest = [] then Some (None, st) else
     let (w, st) = call L (Only (C_write output rest)) st in
     if ret w < 0 then Some (Some (err w), st)
     else send_block L output (drop (nat (ret w)) rest) st)"

text \<open>Both loops; \<open>None\<close> in the first component: the end of the input was reached.\<close>

partial_function (option) copy_blocks ::
    "'k libc \<Rightarrow> int \<Rightarrow> int \<Rightarrow> 'k fhs \<Rightarrow> (errno option option \<times> 'k fhs) option" where
  "copy_blocks L input output st =
     (let (g, st) = call L (Only (C_read input 8192)) st in
      if ret g = 0 then Some (None, st)
      else if ret g < 0 then Some (Some (err g), st)
      else (case send_block L output (take (nat (ret g)) (str g)) st of
          None \<Rightarrow> None
        | Some (Some e, st) \<Rightarrow> Some (Some e, st)
        | Some (None, st) \<Rightarrow> copy_blocks L input output st))"

definition close_fd :: "'k libc \<Rightarrow> int \<Rightarrow> 'k fhs \<Rightarrow> 'k fhs" where
  "close_fd L fd st = snd (call L (Only (C_close fd)) st)"

definition real_unlink :: "'k libc \<Rightarrow> string \<Rightarrow> 'k fhs \<Rightarrow> 'k fhs" where
  "real_unlink L path st = snd (call L (At C_unlink path) st)"

text \<open>\<open>errno\<close> after a \<open>close\<close> that follows a failure.\<close>

definition after_close :: "'k libc \<Rightarrow> int \<Rightarrow> errno option \<Rightarrow> 'k fhs \<Rightarrow> reply \<times> 'k fhs" where
  "after_close L fd e st = (let (c, st) = call L (Only (C_close fd)) st in
     (failed (-1) (if ret c < 0 then err c else e), st))"

definition copy_regular_file ::
    "'k libc \<Rightarrow> string \<Rightarrow> string \<Rightarrow> bool \<Rightarrow> 'k fhs \<Rightarrow> (reply \<times> 'k fhs) option" where
  "copy_regular_file L old_path new_path follow st =
     (let flags = (O_RDONLY OR O_CLOEXEC) OR (if follow then 0 else O_NOFOLLOW);
          (i, st) = call L (At (C_open flags None) old_path) st; input = ret i in
      if input < 0 then Some (failed (-1) (err i), st) else
      let (s, st) = call L (Only (C_fstat input)) st in
      if ret s \<noteq> 0 then Some (after_close L input (err s) st) else
      if st_mode (info s) AND 0xF000 \<noteq> 0x8000 then Some (failed (-1) (Some EPERM), close_fd L input st) else
      let (t, st) = call L (At (C_open (O_WRONLY OR O_CREAT OR O_EXCL OR O_CLOEXEC)
                              (Some (unat (st_mode (info s) AND 0x1FF)))) new_path) st;
          output = ret t in
      if output < 0 then Some (after_close L input (err t) st) else
      (case copy_blocks L input output st of
         None \<Rightarrow> None
       | Some (Some e, st) \<Rightarrow>
           Some (failed (-1) e, real_unlink L new_path (close_fd L output (close_fd L input st)))
       | Some (None, st) \<Rightarrow>
           let st = close_fd L input st; (c, st) = call L (Only (C_close output)) st in
           if ret c \<noteq> 0 then Some (failed (-1) (err c), real_unlink L new_path st)
           else Some (returned 0, st)))"

section \<open>link and linkat\<close>

definition link_copy_forced :: "renv \<Rightarrow> bool" where
  "link_copy_forced e \<longleftrightarrow> bionicx_getenv (environ e) ''BIONICX_FORCE_LINK_COPY'' = Some ''1''"

definition link_copy_errno :: "errno option \<Rightarrow> bool" where
  "link_copy_errno e \<longleftrightarrow> e \<in> {Some EACCES, Some EPERM, Some EOPNOTSUPP, Some ENOSYS, Some EXDEV}"

text \<open>The fallback of both: copy, then remember the pair.\<close>

definition copy_and_remember ::
    "'k libc \<Rightarrow> string \<Rightarrow> string \<Rightarrow> bool \<Rightarrow> 'k fhs \<Rightarrow> (reply \<times> 'k fhs) option" where
  "copy_and_remember L source destination follow st =
     (case copy_regular_file L source destination follow st of
        None \<Rightarrow> None
      | Some (r, st) \<Rightarrow> if ret r \<noteq> 0 then Some (failed (-1) (err r), st)
          else Some (returned 0, remember_fake_link L source destination st))"

definition link :: "'k libc \<Rightarrow> string option \<Rightarrow> string option \<Rightarrow> 'k fhs \<Rightarrow> (reply \<times> 'k fhs) option" where
  "link L old_path new_path st = (case redirect_pair L old_path new_path st of
      (Inl e, st) \<Rightarrow> Some (failed (-1) e, st)
    | (Inr (actual_old, actual_new), st) \<Rightarrow>
        if link_copy_forced (renv (proc st)) then copy_and_remember L actual_old actual_new False st
        else let (r, st) = call L (Between C_link actual_old actual_new) st in
          if ret r = 0 \<or> \<not> link_copy_errno (err r) then Some (r, st)
          else copy_and_remember L actual_old actual_new False st)"

text \<open>The absolute form of a path relative to a directory descriptor (the path is not NULL).\<close>

definition checked :: "string \<Rightarrow> errno option + string" where
  "checked out = (if fits out then Inr out else Inl (Some ENAMETOOLONG))"

definition resolve_at_path ::
    "'k libc \<Rightarrow> int \<Rightarrow> string \<Rightarrow> 'k fhs \<Rightarrow> (errno option + string) \<times> 'k fhs" where
  "resolve_at_path L directory path st =
     (let join = (\<lambda>base. if path = [] then base else base @ ''/'' @ path) in
      if absolute path then (checked path, st)
      else if directory = AT_FDCWD then
        let (c, st) = call L (Only (C_getcwd PATH_MAX)) st in
        if ret c = 0 then (Inl (err c), st)
        else (if path = [] then Inr (str c) else checked (join (str c)), st)
      else
        let (r, st) = call L (At (C_readlink (PATH_MAX - 1)) (''/proc/self/fd/'' @ dec_int directory)) st in
        if ret r < 0 then (Inl (err r), st) else (checked (join (str r)), st))"

definition copy_linkat ::
    "'k libc \<Rightarrow> int \<Rightarrow> string \<Rightarrow> int \<Rightarrow> string \<Rightarrow> u32 \<Rightarrow> 'k fhs \<Rightarrow> (reply \<times> 'k fhs) option" where
  "copy_linkat L old_directory old_path new_directory new_path flags st =
     (let (source, st) = (if flags AND AT_EMPTY_PATH \<noteq> 0 \<and> old_path = []
            then (Inr (''/proc/self/fd/'' @ dec_int old_directory), st)
            else case resolve_at_path L old_directory old_path st of
                (Inl e, st) \<Rightarrow> (Inl e, st)
              | (Inr old_resolved, st) \<Rightarrow> let (x, st) = redirect_arg L (Some old_resolved) st in
                  (case x of Inl e \<Rightarrow> Inl e | Inr (_, source) \<Rightarrow> Inr source, st)) in
      case source of Inl e \<Rightarrow> Some (failed (-1) e, st) | Inr source \<Rightarrow>
      (case resolve_at_path L new_directory new_path st of
         (Inl e, st) \<Rightarrow> Some (failed (-1) e, st)
       | (Inr new_resolved, st) \<Rightarrow> let (x, st) = redirect_arg L (Some new_resolved) st in
           (case x of
              Inl e \<Rightarrow> Some (failed (-1) e, st)
            | Inr (_, destination) \<Rightarrow>
                copy_and_remember L source destination
                  (flags AND (AT_SYMLINK_FOLLOW OR AT_EMPTY_PATH) \<noteq> 0) st)))"

definition linkat ::
    "'k libc \<Rightarrow> int \<Rightarrow> string option \<Rightarrow> int \<Rightarrow> string option \<Rightarrow> u32 \<Rightarrow> 'k fhs \<Rightarrow> (reply \<times> 'k fhs) option" where
  "linkat L old_directory old_path new_directory new_path flags st =
     (case redirect_pair L old_path new_path st of
        (Inl e, st) \<Rightarrow> Some (failed (-1) e, st)
      | (Inr (actual_old, actual_new), st) \<Rightarrow>
          if link_copy_forced (renv (proc st))
          then copy_linkat L old_directory actual_old new_directory actual_new flags st
          else let (r, st) = call L (Between (C_linkat old_directory new_directory flags) actual_old actual_new) st in
            if ret r = 0 \<or> \<not> link_copy_errno (err r) then Some (r, st)
            else copy_linkat L old_directory actual_old new_directory actual_new flags st)"

section \<open>The loops\<close>

text \<open>What the calls on descriptors keep, the loops keep.\<close>

lemma send_block_inv:
  assumes "send_block L out rest st = Some y" "P st"
    and step: "\<And>c s r s'. P s \<Longrightarrow> paths_of (Only c) = [] \<Longrightarrow> call L (Only c) s = (r, s') \<Longrightarrow> P s'"
  shows "P (snd y)"
proof -
  have "K = L \<longrightarrow> P st \<longrightarrow> P (snd y)" if "send_block K out rest st = Some y" for K
  proof (rule send_block.raw_induct [OF _ that, where P = "\<lambda>K out rest st y. K = L \<longrightarrow> P st \<longrightarrow> P (snd y)"])
    fix self :: "'a libc \<Rightarrow> int \<Rightarrow> string \<Rightarrow> 'a fhs \<Rightarrow> (errno option option \<times> 'a fhs) option"
      and K :: "'a libc" and out rest st y
    assume IH: "\<And>K' o' r' s' y'. self K' o' r' s' = Some y' \<Longrightarrow> K' = L \<longrightarrow> P s' \<longrightarrow> P (snd y')"
      and body: "(if rest = [] then Some (None, st) else
          let (w, st) = call K (Only (C_write out rest)) st in
          if ret w < 0 then Some (Some (err w), st)
          else self K out (drop (nat (ret w)) rest) st) = Some y"
    obtain w s1 where c: "call K (Only (C_write out rest)) st = (w, s1)" by fastforce
    show "K = L \<longrightarrow> P st \<longrightarrow> P (snd y)"
    proof (intro impI)
      assume K: "K = L" and P: "P st"
      have P1: "P s1" using step [OF P _ c [unfolded K]] by simp
      show "P (snd y)"
        using body IH [of L out "drop (nat (ret w)) rest" s1 y] P P1 c K by (auto split: if_splits)
    qed
  qed
  then show ?thesis using assms(1,2) by simp
qed

lemma copy_blocks_inv:
  assumes "copy_blocks L inp out st = Some y" "P st"
    and step: "\<And>c s r s'. P s \<Longrightarrow> paths_of (Only c) = [] \<Longrightarrow> call L (Only c) s = (r, s') \<Longrightarrow> P s'"
  shows "P (snd y)"
proof -
  have "K = L \<longrightarrow> P st \<longrightarrow> P (snd y)" if "copy_blocks K inp out st = Some y" for K
  proof (rule copy_blocks.raw_induct [OF _ that, where P = "\<lambda>K inp out st y. K = L \<longrightarrow> P st \<longrightarrow> P (snd y)"])
    fix self :: "'a libc \<Rightarrow> int \<Rightarrow> int \<Rightarrow> 'a fhs \<Rightarrow> (errno option option \<times> 'a fhs) option"
      and K :: "'a libc" and inp out st y
    assume IH: "\<And>K' i' o' s' y'. self K' i' o' s' = Some y' \<Longrightarrow> K' = L \<longrightarrow> P s' \<longrightarrow> P (snd y')"
      and body: "(let (g, st) = call K (Only (C_read inp 8192)) st in
          if ret g = 0 then Some (None, st)
          else if ret g < 0 then Some (Some (err g), st)
          else (case send_block K out (take (nat (ret g)) (str g)) st of
              None \<Rightarrow> None
            | Some (None, st) \<Rightarrow> self K inp out st
            | Some (Some e, st) \<Rightarrow> Some (Some e, st))) = Some y"
    obtain g s1 where c: "call K (Only (C_read inp 8192)) st = (g, s1)" by fastforce
    show "K = L \<longrightarrow> P st \<longrightarrow> P (snd y)"
    proof (intro impI)
      assume K: "K = L" and P: "P st"
      have P1: "P s1" using step [OF P _ c [unfolded K]] by simp
      show "P (snd y)"
      proof (cases "send_block K out (take (nat (ret g)) (str g)) s1")
        case None
        then show ?thesis using body c P1 by (auto split: if_splits)
      next
        case (Some z)
        then have "send_block L out (take (nat (ret g)) (str g)) s1 = Some z" using K by simp
        then have "P (snd z)" by (rule send_block_inv [where P = P]) (use P1 step in blast)+
        then show ?thesis using body c P1 Some IH [of L inp out "snd z" y] K
          by (cases z) (auto split: if_splits option.splits)
      qed
    qed
  qed
  then show ?thesis using assms(1,2) by simp
qed


section \<open>Copies are exact or removed\<close>

text \<open>
  What the kernel promises of a descriptor that is read and one that is written: \<open>rem i\<close> is what
  is left to read from \<open>i\<close>, \<open>wr o\<close> what has been written to \<open>o\<close>. A read delivers some of the rest
  and nothing only at its end, a write takes a non-empty beginning, both may fail.
\<close>

definition read_reply :: "string \<Rightarrow> nat \<Rightarrow> reply \<Rightarrow> string \<Rightarrow> bool" where
  "read_reply rest n g rest' \<longleftrightarrow> (if ret g < 0 then rest' = rest
     else nat (ret g) \<le> n \<and> nat (ret g) \<le> length rest \<and> (ret g = 0 \<longleftrightarrow> rest = []) \<and>
          str g = take (nat (ret g)) rest \<and> rest' = drop (nat (ret g)) rest)"

definition write_reply :: "string \<Rightarrow> string \<Rightarrow> reply \<Rightarrow> string \<Rightarrow> bool" where
  "write_reply done s w done' \<longleftrightarrow> (if ret w < 0 then done' = done
     else 0 < ret w \<and> nat (ret w) \<le> length s \<and> done' = done @ take (nat (ret w)) s)"

definition file_io :: "'k libc \<Rightarrow> (int \<Rightarrow> 'k \<Rightarrow> string) \<Rightarrow> (int \<Rightarrow> 'k \<Rightarrow> string) \<Rightarrow> bool" where
  "file_io L rem wr \<longleftrightarrow>
     (\<forall>i out n k. 0 < n \<longrightarrow> (let (g, k') = next L (Only (C_read i n)) k in
        read_reply (rem i k) n g (rem i k') \<and> wr out k' = wr out k)) \<and>
     (\<forall>out i s k. s \<noteq> [] \<longrightarrow> (let (w, k') = next L (Only (C_write out s)) k in
        write_reply (wr out k) s w (wr out k') \<and> rem i k' = rem i k))"

lemma call_next:
  "call L c st = (r, st') \<Longrightarrow> next L c (kern (proc st)) = (r, kern (proc st'))"
  by (cases "next L c (kern (proc st))") (auto simp: call_def)

lemma file_io_read:
  assumes "file_io L rem wr" "call L (Only (C_read i 8192)) st = (g, st')"
  shows "read_reply (rem i (kern (proc st))) 8192 g (rem i (kern (proc st')))"
    "wr out (kern (proc st')) = wr out (kern (proc st))"
proof -
  have "(let (g, k') = next L (Only (C_read i 8192)) (kern (proc st)) in
      read_reply (rem i (kern (proc st))) 8192 g (rem i k') \<and> wr out k' = wr out (kern (proc st)))"
    using assms(1) unfolding file_io_def by simp
  then show "read_reply (rem i (kern (proc st))) 8192 g (rem i (kern (proc st')))"
    "wr out (kern (proc st')) = wr out (kern (proc st))"
    using call_next [OF assms(2)] by simp_all
qed

lemma file_io_write:
  assumes "file_io L rem wr" "call L (Only (C_write out s)) st = (w, st')" "s \<noteq> []"
  shows "write_reply (wr out (kern (proc st))) s w (wr out (kern (proc st')))"
    "rem i (kern (proc st')) = rem i (kern (proc st))"
proof -
  have "(let (w, k') = next L (Only (C_write out s)) (kern (proc st)) in
      write_reply (wr out (kern (proc st))) s w (wr out k') \<and> rem i k' = rem i (kern (proc st)))"
    using assms(1,3) unfolding file_io_def by simp
  then show "write_reply (wr out (kern (proc st))) s w (wr out (kern (proc st')))"
    "rem i (kern (proc st')) = rem i (kern (proc st))"
    using call_next [OF assms(2)] by simp_all
qed

lemma send_block_exact:
  assumes "file_io L rem wr"
  shows "\<exists>x st'. send_block L out s st = Some (x, st') \<and>
    rem i (kern (proc st')) = rem i (kern (proc st)) \<and>
    (x = None \<longrightarrow> wr out (kern (proc st')) = wr out (kern (proc st)) @ s)"
proof (induction "length s" arbitrary: s st rule: less_induct)
  case less
  show ?case
  proof (cases "s = []")
    case True
    then show ?thesis by (subst send_block.simps) simp
  next
    case False
    obtain w s1 where c: "call L (Only (C_write out s)) st = (w, s1)" by fastforce
    note io = file_io_write [OF assms c False]
    show ?thesis
    proof (cases "ret w < 0")
      case True
      then show ?thesis using False c io(2) [of i] by (subst send_block.simps) simp
    next
      case pos: False
      let ?s = "drop (nat (ret w)) s"
      have w: "0 < ret w" "nat (ret w) \<le> length s"
        "wr out (kern (proc s1)) = wr out (kern (proc st)) @ take (nat (ret w)) s"
        using io(1) pos by (simp_all add: write_reply_def)
      then have "length ?s < length s" using False by auto
      then obtain x st' where IH: "send_block L out ?s s1 = Some (x, st')"
        "rem i (kern (proc st')) = rem i (kern (proc s1))"
        "x = None \<longrightarrow> wr out (kern (proc st')) = wr out (kern (proc s1)) @ ?s"
        using less.hyps [of ?s s1] by blast
      have "send_block L out s st = Some (x, st')"
        using False c pos IH(1) by (subst send_block.simps) simp
      then show ?thesis using IH(2,3) io(2) [of i] w(3) by auto
    qed
  qed
qed

lemma copy_blocks_exact:
  assumes "file_io L rem wr"
  shows "\<exists>x st'. copy_blocks L i out st = Some (x, st') \<and>
    (x = None \<longrightarrow> wr out (kern (proc st')) = wr out (kern (proc st)) @ rem i (kern (proc st)))"
proof (induction "length (rem i (kern (proc st)))" arbitrary: st rule: less_induct)
  case less
  obtain g s1 where c: "call L (Only (C_read i 8192)) st = (g, s1)" by fastforce
  note io = file_io_read [OF assms c]
  consider "ret g = 0" | "ret g < 0" | "0 < ret g" by linarith
  then show ?case
  proof cases
    case 1
    then show ?thesis using c io(1) io(2) [of out] by (subst copy_blocks.simps) (simp add: read_reply_def)
  next
    case 2
    then show ?thesis using c by (subst copy_blocks.simps) simp
  next
    case 3
    let ?r = "rem i (kern (proc st))" and ?n = "nat (ret g)"
    have g: "?n \<le> length ?r" "str g = take ?n ?r" "rem i (kern (proc s1)) = drop ?n ?r"
      using io(1) 3 by (auto simp: read_reply_def)
    obtain y s2 where s: "send_block L out (take ?n (str g)) s1 = Some (y, s2)"
      "rem i (kern (proc s2)) = rem i (kern (proc s1))"
      "y = None \<longrightarrow> wr out (kern (proc s2)) = wr out (kern (proc s1)) @ take ?n (str g)"
      using send_block_exact [OF assms, of out "take ?n (str g)" s1 i] by blast
    show ?thesis
    proof (cases y)
      case (Some e)
      then show ?thesis using c 3 s(1) by (subst copy_blocks.simps) simp
    next
      case None
      have "length (rem i (kern (proc s2))) < length ?r" using g(1,3) s(2) 3 by auto
      then obtain x st' where IH: "copy_blocks L i out s2 = Some (x, st')"
        "x = None \<longrightarrow> wr out (kern (proc st')) = wr out (kern (proc s2)) @ rem i (kern (proc s2))"
        using less.hyps [of s2] by blast
      have "copy_blocks L i out st = Some (x, st')"
        using c 3 s(1) None IH(1) by (subst copy_blocks.simps) simp
      then show ?thesis using IH(2) s(2,3) None g(2,3) io(2) [of out] by simp
    qed
  qed
qed


definition creating :: u32 where "creating = (O_WRONLY OR O_CREAT OR O_EXCL OR O_CLOEXEC)"

lemma issued_call: "call L c st = (r, st') \<Longrightarrow> issued st' = issued st @ [c]"
  by (cases "next L c (kern (proc st))") (auto simp: call_def)

lemma issued_real_unlink: "last (issued (real_unlink L p st)) = At C_unlink p"
  by (cases "next L (At C_unlink p) (kern (proc st))") (auto simp: call_def real_unlink_def)

lemma after_close_ret: "after_close L fd e st = (r, st') \<Longrightarrow> ret r = -1 \<and> issued st' = issued st @ [Only (C_close fd)]"
  by (cases "next L (Only (C_close fd)) (kern (proc st))") (auto simp: call_def after_close_def failed_def returned_def)

text \<open>
  How a copy ends. Success: the new file was created as \<open>out\<close> in the state \<open>s0\<close>, the whole input
  was written to it before the two closes, and the second close succeeded. Failure: the new file
  was never asked for, or its creation was refused, or it has been unlinked last.
\<close>

definition copied ::
    "'k libc \<Rightarrow> (int \<Rightarrow> 'k \<Rightarrow> string) \<Rightarrow> (int \<Rightarrow> 'k \<Rightarrow> string) \<Rightarrow> string \<Rightarrow> 'k fhs \<Rightarrow> bool" where
  "copied L rem wr new_path st' \<longleftrightarrow> (\<exists>m inp t s s0 s1 s2 c. 
     call L (At (C_open creating (Some m)) new_path) s = (t, s0) \<and> 0 \<le> ret t \<and>
     wr (ret t) (kern (proc s1)) = wr (ret t) (kern (proc s0)) @ rem inp (kern (proc s0)) \<and>
     s2 = close_fd L inp s1 \<and> call L (Only (C_close (ret t))) s2 = (c, st') \<and> ret c = 0)"

definition not_left_behind :: "'k libc \<Rightarrow> string \<Rightarrow> 'k fhs \<Rightarrow> 'k fhs \<Rightarrow> bool" where
  "not_left_behind L new_path st st' \<longleftrightarrow>
     last (issued st') = At C_unlink new_path \<or>
     (\<exists>cs. issued st' = issued st @ cs \<and> (\<forall>m. At (C_open creating (Some m)) new_path \<notin> set cs)) \<or>
     (\<exists>m s t s0 inp. call L (At (C_open creating (Some m)) new_path) s = (t, s0) \<and> ret t < 0 \<and>
        issued st' = issued s0 @ [Only (C_close inp)])"



text \<open>A kernel with one file to read from and one to write to.\<close>

definition copy_next :: "call \<Rightarrow> string \<times> string \<Rightarrow> reply \<times> string \<times> string" where
  "copy_next c k = (case c of
      Only (C_read i n) \<Rightarrow>
        ((returned (int (min n (length (fst k)))))\<lparr>str := take n (fst k)\<rparr>, drop n (fst k), snd k)
    | Only (C_write out s) \<Rightarrow> (returned (int (length s)), fst k, snd k @ s)
    | Only (C_fstat fd) \<Rightarrow> ((returned 0)\<lparr>info := \<lparr>st_ino = 1, st_nlink = 1, st_mode = 0x81A4\<rparr>\<rparr>, k)
    | Only (C_close fd) \<Rightarrow> (returned 0, k)
    | At C_stat p \<Rightarrow> ((returned 0)\<lparr>info := \<lparr>st_ino = 7, st_nlink = 1, st_mode = 0x81A4\<rparr>\<rparr>, k)
    | _ \<Rightarrow> (returned 3, k))"

definition copy_libc :: "(string \<times> string) libc" where
  "copy_libc = \<lparr>base = \<lparr>k_stat = \<lambda>_ _. False, k_mkdir = \<lambda>_ _ k. (Some EACCES, k), k_chmod = \<lambda>_ _ k. k,
     k_open = \<lambda>_ _ _ k. (Inl EACCES, k), k_write = \<lambda>_ _ k. (-1, k), k_close = \<lambda>_ k. k,
     k_time = \<lambda>_. 0\<rparr>, next = copy_next\<rparr>"

definition copy_fhs :: "(string \<times> string) fhs" where
  "copy_fhs = \<lparr>proc = \<lparr>renv = renv demo_proc, kern = (''status'', []), ticks = 0\<rparr>,
     fake_links = replicate 32 None, password_lock_fd = -1, issued = []\<rparr>"

lemma copy_libc_io: "file_io copy_libc (\<lambda>_. fst) (\<lambda>_. snd)"
  by (auto simp: file_io_def copy_libc_def copy_next_def read_reply_def write_reply_def returned_def min_def)


section \<open>What the table reports\<close>

lemma first_unused_None:
  assumes "None \<in> set links"
  shows "first_unused links < length links \<and> links ! first_unused links = None"
  using assms by (induction links) (auto simp: first_unused_def)

lemma filter_update:
  assumes "k < length xs" "\<not> P (xs ! k)"
  shows "\<not> P v \<Longrightarrow> filter P (xs[k := v]) = filter P xs"
    and "P v \<Longrightarrow> \<forall>x\<in>set xs. \<not> P x \<Longrightarrow> filter P (xs[k := v]) = [v]"
proof -
  have xs: "xs = take k xs @ xs ! k # drop (Suc k) xs" using assms(1) by (simp add: id_take_nth_drop)
  have up: "xs[k := v] = take k xs @ v # drop (Suc k) xs" using assms(1) by (simp add: upd_conv_take_nth_drop)
  show "filter P (xs[k := v]) = filter P xs" if "\<not> P v"
    unfolding up using assms(2) that by (subst (3) xs) simp
  have no: "filter P (take k xs) = []" "filter P (drop (Suc k) xs) = []" if "\<forall>x\<in>set xs. \<not> P x"
    using that by (auto simp: filter_empty_conv dest: in_set_takeD in_set_dropD)
  show "filter P (xs[k := v]) = [v]" if "P v" "\<forall>x\<in>set xs. \<not> P x"
    unfolding up using that no by simp
qed

lemma forget_update:
  assumes "k < length xs" "xs ! k = None" "link_names p v" "\<forall>l\<in>set xs. \<not> link_names p l"
  shows "forget_fake_link p (xs[k := v]) = xs"
  using assms by (auto simp: forget_fake_link_def nth_list_update intro!: nth_equalityI)

text \<open>
C5: After a copied link is remembered, exactly its two names report two links and the inode of
  the source; all other paths report what they reported before. Forgetting either name restores
  every report. (The table has a free slot and names neither path.)
\<close>
theorem fake_links_report:
  assumes "length (fake_links st) = BIONICX_FAKE_LINKS" "None \<in> set (fake_links st)"
    and "fits s" "fits d" "s \<noteq> []" "d \<noteq> []"
    and "\<forall>l\<in>set (fake_links st). \<not> link_names s l \<and> \<not> link_names d l"
    and "call L (At C_stat s) st = (r, st1)" "ret r = 0"
    and links: "links = fake_links (remember_fake_link L s d st)"
  shows "length links = BIONICX_FAKE_LINKS \<and>
    (\<forall>p i. apply_fake_nlink p links i =
       (if p = s \<or> p = d then i\<lparr>st_nlink := 2, st_ino := st_ino (info r)\<rparr>
        else apply_fake_nlink p (fake_links st) i)) \<and>
    (\<forall>p\<in>{s, d}. forget_fake_link p links = fake_links st)"
proof -
  let ?xs = "fake_links st"
  define k where "k = first_unused ?xs"
  have k: "k < length ?xs" "?xs ! k = None" using first_unused_None [OF assms(2)] by (simp_all add: k_def)
  define e where "e = \<lparr>first = s, second = d, inode = st_ino (info r)\<rparr>"
  have same: "fake_links st1 = ?xs" using assms(8) by (cases "next L (At C_stat s) (kern (proc st))") (auto simp: call_def)
  have cut: "take (PATH_MAX - 1) s = s" "take (PATH_MAX - 1) d = d"
    using assms(3,4) by (simp_all add: fits_def PATH_MAX_def)
  have links': "links = ?xs[k := Some e]"
    using k(1) assms(1,8,9) same by (simp add: links remember_fake_link_def Let_def k_def cut [simplified] e_def)
  have hit: "matching_link p links = Some e" if "p = s \<or> p = d" for p
  proof -
    have "filter (link_names p) links = [Some e]"
      unfolding links' by (rule filter_update(2)) (use k that assms(7) in \<open>auto simp: link_names_def e_def\<close>)
    then show ?thesis using that assms(5,6) by (auto simp: matching_link_def)
  qed
  have miss: "matching_link p links = matching_link p ?xs" if "\<not> (p = s \<or> p = d)" for p
  proof -
    have "filter (link_names p) links = filter (link_names p) ?xs"
      unfolding links' by (rule filter_update(1)) (use k that in \<open>auto simp: link_names_def e_def\<close>)
    then show ?thesis by (simp add: matching_link_def)
  qed
  have "forget_fake_link p links = ?xs" if "p \<in> {s, d}" for p
    unfolding links' by (rule forget_update) (use k that assms(7) in \<open>auto simp: link_names_def e_def\<close>)
  then show ?thesis
    using hit miss assms(1) by (simp add: apply_fake_nlink_def links' e_def)
qed

theorem fake_links_report_witness:
  "apply_fake_nlink ''b'' (fake_links (remember_fake_link copy_libc ''a'' ''b'' copy_fhs)) no_info =
     no_info\<lparr>st_nlink := 2, st_ino := 7\<rparr>"
proof -
  obtain r st1 where c: "call copy_libc (At C_stat ''a'') copy_fhs = (r, st1)" by fastforce
  have r: "ret r = 0" "st_ino (info r) = 7"
    using call_next [OF c] by (auto simp: copy_libc_def copy_next_def returned_def)
  have empty: "length (fake_links copy_fhs) = BIONICX_FAKE_LINKS" "None \<in> set (fake_links copy_fhs)"
    "\<forall>l\<in>set (fake_links copy_fhs). \<not> link_names ''a'' l \<and> \<not> link_names ''b'' l"
    by (simp_all add: copy_fhs_def BIONICX_FAKE_LINKS_def link_names_def)
  from fake_links_report [OF empty(1,2) _ _ _ _ empty(3) c r(1) refl]
  show ?thesis by (simp add: fits_def PATH_MAX_def r(2))
qed


end
