(* ===== verification/FhsMetadata.thy ===== *)
theory FhsMetadata
  imports FhsCalls
begin

text \<open>
  \<open>native/runtime/fhs-metadata.c\<close>: modes and ownership. An application cannot change owners on
  Android, so the failures that say so are reported as success.
\<close>

definition AT_EMPTY_PATH' :: u32 where "AT_EMPTY_PATH' = 0x1000"
definition AT_NOFOLLOW' :: u32 where "AT_NOFOLLOW' = 0x100"

definition chmod :: "'k libc \<Rightarrow> string option \<Rightarrow> nat \<Rightarrow> 'k fhs \<Rightarrow> reply \<times> 'k fhs" where
  "chmod L path mode = with_path L (-1) path (\<lambda>_ actual. call L (At (C_chmod mode) actual))"

text \<open>
  The kernel's own \<open>fchmodat\<close> has no flags; where the C library refuses one with \<open>EINVAL\<close>, an
  empty path means the descriptor itself, and a link is followed after all.
\<close>

definition fchmodat :: "'k libc \<Rightarrow> int \<Rightarrow> string option \<Rightarrow> nat \<Rightarrow> u32 \<Rightarrow> 'k fhs \<Rightarrow> reply \<times> 'k fhs" where
  "fchmodat L directory path mode flags = with_path L (-1) path (\<lambda>_ actual st.
     let (r, st') = call L (At (C_fchmodat directory mode flags) actual) st;
         unsupported = (ret r < 0 \<and> err r = Some EINVAL) in
     if unsupported \<and> flags AND AT_EMPTY_PATH' \<noteq> 0 \<and> actual = '''' then
       call L (Only (C_fchmod directory mode)) st'
     else if unsupported \<and> flags AND AT_NOFOLLOW' \<noteq> 0 then
       call L (At (C_fchmodat directory mode (flags AND NOT AT_NOFOLLOW')) actual) st'
     else (r, st'))"

text \<open>The failure that is hidden becomes a success (the code also clears \<open>errno\<close>).\<close>

definition bionicx_ignore_ownership_failure :: "reply \<Rightarrow> reply" where
  "bionicx_ignore_ownership_failure r =
     (if ret r < 0 \<and> (err r = Some EPERM \<or> err r = Some EACCES \<or> err r = Some EINVAL) then returned 0 else r)"

definition ownership :: "reply \<times> 'k fhs \<Rightarrow> reply \<times> 'k fhs" where
  "ownership x = apfst bionicx_ignore_ownership_failure x"

definition chown :: "'k libc \<Rightarrow> string option \<Rightarrow> nat \<Rightarrow> nat \<Rightarrow> 'k fhs \<Rightarrow> reply \<times> 'k fhs" where
  "chown L path uid gid = with_path L (-1) path (\<lambda>_ actual st. ownership (call L (At (C_chown uid gid) actual) st))"

definition lchown :: "'k libc \<Rightarrow> string option \<Rightarrow> nat \<Rightarrow> nat \<Rightarrow> 'k fhs \<Rightarrow> reply \<times> 'k fhs" where
  "lchown L path uid gid = with_path L (-1) path (\<lambda>_ actual st. ownership (call L (At (C_lchown uid gid) actual) st))"

definition fchownat :: "'k libc \<Rightarrow> int \<Rightarrow> string option \<Rightarrow> nat \<Rightarrow> nat \<Rightarrow> u32 \<Rightarrow> 'k fhs \<Rightarrow> reply \<times> 'k fhs" where
  "fchownat L directory path uid gid flags = with_path L (-1) path (\<lambda>_ actual st.
     ownership (call L (At (C_fchownat directory uid gid flags) actual) st))"

definition fchown :: "'k libc \<Rightarrow> int \<Rightarrow> nat \<Rightarrow> nat \<Rightarrow> 'k fhs \<Rightarrow> reply \<times> 'k fhs" where
  "fchown L descriptor uid gid st = ownership (call L (Only (C_fchown descriptor uid gid)) st)"

section \<open>What the callers see\<close>

lemma snd_ownership [simp]: "snd (ownership x) = snd x"
  by (simp add: ownership_def)

lemma ownership_ret:
  "ownership x = (r, st) \<Longrightarrow> ret r < 0 \<Longrightarrow> r = fst x \<and> err r \<notin> {Some EPERM, Some EACCES, Some EINVAL}"
  by (cases x) (auto simp: ownership_def bionicx_ignore_ownership_failure_def returned_def split: if_splits)

text \<open>No change of ownership fails for want of permission, except in the redirection of the path.\<close>

lemma chown_permission:
  assumes "chown L path uid gid st = (r, st')" "redirect_arg L path st = (Inr (changed, actual), st1)" "ret r < 0"
  shows "err r \<notin> {Some EPERM, Some EACCES, Some EINVAL} \<and> r = fst (call L (At (C_chown uid gid) actual) st1)"
proof -
  have "ownership (call L (At (C_chown uid gid) actual) st1) = (r, st')"
    using assms(1,2) by (simp add: chown_def with_path_def)
  from ownership_ret [OF this assms(3)] show ?thesis by blast
qed

end
