(* ===== verification/FhsGuest.thy ===== *)
theory FhsGuest
  imports FhsLinks FhsMetadata
begin

text \<open>
  A guest program as a sequence of calls to the interposed functions of
  \<open>native/runtime/fhs-path.c\<close> and \<open>fhs-metadata.c\<close>, and what holds of every such sequence: no call ever reaches one of
  Android's own system directories, and the table of fake links keeps its shape.
\<close>

section \<open>Guest calls\<close>

inductive guest_call :: "'k libc \<Rightarrow> 'k fhs \<Rightarrow> 'k fhs \<Rightarrow> bool" for L where
  open_file: "guest_call L st (snd (open_path L p f m st))"
| open64_file: "guest_call L st (snd (open64 L p f m st))"
| openat_file: "guest_call L st (snd (openat L d p f m st))"
| openat64_file: "guest_call L st (snd (openat64 L d p f m st))"
| fopen_file: "guest_call L st (snd (fopen L p md st))"
| fopen64_file: "guest_call L st (snd (fopen64 L p md st))"
| opendir_path: "guest_call L st (snd (opendir L p st))"
| lock: "guest_call L st (snd (lckpwdf L st))"
| unlock: "guest_call L st (snd (ulckpwdf L st))"
| shm_open_name: "guest_call L st (snd (shm_open L p f m st))"
| shm_unlink_name: "guest_call L st (snd (shm_unlink L p st))"
| realpath_of: "guest_call L st (snd (realpath L p st))"
| readlink_of: "guest_call L st (snd (readlink L p n st))"
| readlinkat_of: "guest_call L st (snd (readlinkat L d p n st))"
| access_path: "guest_call L st (snd (access L p m st))"
| faccessat_path: "guest_call L st (snd (faccessat L d p m f st))"
| chdir_path: "guest_call L st (snd (chdir L p st))"
| mkdir_path: "guest_call L st (snd (mkdir L p m st))"
| mkdirat_path: "guest_call L st (snd (mkdirat L d p m st))"
| watch: "guest_call L st (snd (inotify_add_watch L d p f st))"
| chmod_path: "guest_call L st (snd (chmod L p m st))"
| fchmodat_path: "guest_call L st (snd (fchmodat L d p m f st))"
| chown_path: "guest_call L st (snd (chown L p u g st))"
| lchown_path: "guest_call L st (snd (lchown L p u g st))"
| fchownat_path: "guest_call L st (snd (fchownat L d p u g f st))"
| fchown_descriptor: "guest_call L st (snd (fchown L d u g st))"
| rename_path: "guest_call L st (snd (rename L p q st))"
| renameat_path: "guest_call L st (snd (renameat L d p d' q st))"
| renameat2_path: "guest_call L st (snd (renameat2 L d p d' q f st))"
| symlink_path: "guest_call L st (snd (symlink L p q st))"
| symlinkat_path: "guest_call L st (snd (symlinkat L p d q st))"
| chroot_path: "guest_call L st (snd (chroot a st))"
| statvfs_path: "guest_call L st (snd (statvfs L p st))"
| statfs_path: "guest_call L st (snd (statfs L p st))"
| mkstemp_path: "guest_call L st (snd (mkstemp L p st))"
| mkstemp64_path: "guest_call L st (snd (mkstemp64 L p st))"
| mkostemp_path: "guest_call L st (snd (mkostemp L p f st))"
| mkstemps_path: "guest_call L st (snd (mkstemps L p n st))"
| mkostemps_path: "guest_call L st (snd (mkostemps L p n f st))"
| mkdtemp_path: "guest_call L st (snd (mkdtemp L p st))"
| bind_address: "guest_call L st (snd (bind L d s n st))"
| connect_address: "guest_call L st (snd (connect L d s n st))"
| raw: "guest_call L st (snd (syscall L no a1 a2 a3 a4 a5 a6 st))"
| stat_path: "guest_call L st (snd (stat_with c L p st))"
| statx_path: "guest_call L st (snd (statx L d p f w st))"
| unlink_path: "guest_call L st (snd (unlink L p st))"
| unlinkat_path: "guest_call L st (snd (unlinkat L d p f st))"
| link_path: "link L p q st = Some (r, st') \<Longrightarrow> guest_call L st st'"
| linkat_path: "linkat L d p d' q f st = Some (r, st') \<Longrightarrow> guest_call L st st'"

section \<open>Every single call\<close>

lemma confined_snd_call:
  "confined R T st \<Longrightarrow> \<forall>p\<in>set (paths_of c). permitted R T p \<Longrightarrow> confined R T (snd (call L c st))"
  using confined_call [of R T st c L "fst (call L c st)" "snd (call L c st)"] by simp

lemma confined_only:
  "confined R T st \<Longrightarrow> paths_of c = [] \<Longrightarrow> confined R T (snd (call L c st))"
  by (simp add: confined_snd_call)

lemma confined_private:
  "confined R T st \<Longrightarrow> usable (runtime_rootfs (renv (proc st))) = Some R \<and> usable (runtime_tmpdir (renv (proc st))) = Some T"
  by (simp add: confined_def private_dirs_def)

lemma confined_fields [simp]:
  "confined R T (st\<lparr>password_lock_fd := n\<rparr>) = confined R T st"
  "confined R T (st\<lparr>fake_links := l\<rparr>) = confined R T st"
  by (simp_all add: confined_def)

lemma permitted_root [simp]: "permitted R T R" "permitted R T T"
  by (simp_all add: permitted_def)

lemmas confined_rules = confined_with_path confined_with_paths confined_snd_call

lemma confined_open: "confined R T st \<Longrightarrow> confined R T (snd (open_path L p f m st))"
  by (auto simp: open_path_def intro!: confined_rules)

lemma confined_simple:
  assumes "confined R T st"
  shows "confined R T (snd (open64 L p f m st))" "confined R T (snd (openat L d p f m st))"
    "confined R T (snd (openat64 L d p f m st))" "confined R T (snd (fopen L p md st))"
    "confined R T (snd (fopen64 L p md st))" "confined R T (snd (opendir L p st))"
    "confined R T (snd (readlink L p n st))" "confined R T (snd (readlinkat L d p n st))"
    "confined R T (snd (access L p m st))" "confined R T (snd (faccessat L d p m f st))"
    "confined R T (snd (chdir L p st))" "confined R T (snd (mkdir L p m st))"
    "confined R T (snd (mkdirat L d p m st))" "confined R T (snd (inotify_add_watch L d p f st))"
    "confined R T (snd (rename L p q st))" "confined R T (snd (renameat L d p d' q st))"
    "confined R T (snd (renameat2 L d p d' q f st))"
  using assms
  by (auto simp: open64_def openat_def openat64_def fopen_def fopen64_def opendir_def readlink_def
      readlinkat_def access_def faccessat_def chdir_def mkdir_def mkdirat_def inotify_add_watch_def
      rename_def renameat_def renameat2_def intro!: confined_rules)

lemma confined_metadata:
  assumes "confined R T st"
  shows "confined R T (snd (chmod L p m st))" "confined R T (snd (fchmodat L d p m f st))"
    "confined R T (snd (chown L p u g st))" "confined R T (snd (lchown L p u g st))"
    "confined R T (snd (fchownat L d p u g f st))" "confined R T (snd (fchown L d u g st))"
  using assms
  by (auto simp: chmod_def fchmodat_def chown_def lchown_def fchownat_def fchown_def split_beta Let_def
      intro!: confined_rules)

lemma confined_temporary:
  assumes "confined R T st"
  shows "confined R T (snd (mkstemp L p st))" "confined R T (snd (mkstemp64 L p st))"
    "confined R T (snd (mkostemp L p f st))" "confined R T (snd (mkstemps L p n st))"
    "confined R T (snd (mkostemps L p n f st))" "confined R T (snd (mkdtemp L p st))"
  using assms
  by (auto simp: mkstemp_def mkstemp64_def mkostemp_def mkstemps_def mkostemps_def mkdtemp_def
      make_temporary_def split_beta Let_def intro!: confined_rules)

lemma confined_shm:
  assumes "confined R T st"
  shows "confined R T (snd (shm_open L p f m st))" "confined R T (snd (shm_unlink L p st))"
  using assms
  by (auto simp: shm_open_def shm_unlink_def Let_def intro!: confined_rules split: sum.split)

lemma confined_lock:
  assumes "confined R T st"
  shows "confined R T (snd (lckpwdf L st))" "confined R T (snd (ulckpwdf L st))"
  using assms
  by (auto simp: lckpwdf_def ulckpwdf_def split_beta Let_def intro!: confined_open confined_only)

lemma confined_stat: "confined R T st \<Longrightarrow> confined R T (snd (stat_with c L p st))"
  by (auto simp: stat_with_def split_beta Let_def intro!: confined_rules)

lemma confined_unlink:
  assumes "confined R T st"
  shows "confined R T (snd (unlink L p st))" "confined R T (snd (unlinkat L d p f st))"
  using assms by (auto simp: unlink_def unlinkat_def intro!: confined_rules)
lemma permitted_empty [simp]: "permitted R T []"
  by (simp add: permitted_def system_path_def rootfs_directories_def at_or_below_def)

lemma permitted_proc [simp]: "permitted R T (''/proc/self/fd/'' @ s)"
  using not_system_special(1) [of "''/proc/self/fd/'' @ s"] by (simp add: permitted_def)

lemmas permitted_fd [simp] = permitted_proc [simplified]

lemma confined_statx: "confined R T st \<Longrightarrow> confined R T (snd (statx L d p f w st))"
  by (auto simp: statx_def split_beta Let_def intro!: confined_rules split: option.splits)

lemma confined_usable:
  "confined R T st \<Longrightarrow> usable (runtime_rootfs (renv (proc st))) = Some R"
  "confined R T st \<Longrightarrow> runtime_rootfs (renv (proc st)) = Some R"
  using confined_private [of R T st] by (auto simp: usable_Some)

lemma confined_replenish:
  assumes "confined R T st"
  shows "confined R T (snd (replenish_statvfs L i st))" "confined R T (snd (replenish_statfs L i st))"
  using assms by (auto simp: replenish_statvfs_def replenish_statfs_def split_beta Let_def confined_usable(1)
      intro!: confined_snd_call)

lemma confined_space:
  assumes "confined R T st"
  shows "confined R T (snd (statvfs L p st))" "confined R T (snd (statfs L p st))"
  using assms
  by (auto simp: statvfs_def statfs_def split_beta Let_def intro!: confined_rules confined_replenish)

lemma confined_canonical_root: "confined R T st \<Longrightarrow> confined R T (snd (canonical_root L st))"
  by (auto simp: canonical_root_def confined_usable(2) split_beta Let_def intro!: confined_snd_call)

lemma confined_realpath: "confined R T st \<Longrightarrow> confined R T (snd (realpath L p st))"
  by (auto simp: realpath_def split_beta Let_def intro!: confined_rules confined_canonical_root)

lemma confined_symlink_target:
  "confined R T st \<Longrightarrow> confined R T (snd (redirect_symlink_target L t st))"
proof -
  obtain x s where "redirect_arg L t st = (x, s)" by fastforce
  then show "confined R T st \<Longrightarrow> confined R T (snd (redirect_symlink_target L t st))"
    using confined_redirect_arg [of R T st L t x s] by (auto simp: redirect_symlink_target_def)
qed

lemma confined_symlink:
  assumes "confined R T st"
  shows "confined R T (snd (symlink L t p st))" "confined R T (snd (symlinkat L t d p st))"
proof -
  obtain x s1 where x: "redirect_symlink_target L t st = (x, s1)" by fastforce
  obtain y s2 where y: "redirect_arg L p s1 = (y, s2)" by fastforce
  have 1: "confined R T s1" using confined_symlink_target [OF assms, of L t] x by simp
  note 2 = confined_redirect_arg [OF 1 y]
  show "confined R T (snd (symlink L t p st))" "confined R T (snd (symlinkat L t d p st))"
    using 2 by (auto simp: symlink_def symlinkat_def x y intro!: confined_snd_call split: sum.splits option.splits)
qed

lemma chroot_dirs:
  "runtime_rootfs (e\<lparr>environ := libc_setenv ''BIONICX_VIRTUAL_ROOT'' v (environ e)\<rparr>) = runtime_rootfs e"
  "runtime_tmpdir (e\<lparr>environ := libc_setenv ''BIONICX_VIRTUAL_ROOT'' v (environ e)\<rparr>) = runtime_tmpdir e"
  by (simp_all add: runtime_rootfs_def runtime_tmpdir_def getenv_setenv_other
      bionicx_captured_rootfs_def bionicx_captured_tmpdir_def captured_runtime_value_def plain_name_def
      split: option.split)

lemma confined_chroot: "confined R T st \<Longrightarrow> confined R T (snd (chroot a st))"
  by (auto simp: chroot_def confined_def private_dirs_def chroot_dirs)

lemma paths_of_socket [simp]:
  "set (paths_of (Only (C_bind d a n))) = {p. a = UnixAddress p \<and> p \<noteq> []}"
  "set (paths_of (Only (C_connect d a n))) = {p. a = UnixAddress p \<and> p \<noteq> []}"
  by (cases a; auto)+

lemma confined_socket:
  assumes "confined R T st"
  shows "confined R T (snd (bind L d a n st))" "confined R T (snd (connect L d a n st))"
proof -
  obtain x s where x: "redirect_socket_address L a n st = (x, s)" by fastforce
  have "confined R T s \<and> (\<forall>a' n' p. x = Inr (a', n') \<longrightarrow> a' = UnixAddress p \<longrightarrow> p = [] \<or> permitted R T p)"
  proof (cases "\<exists>p. a = UnixAddress p \<and> p \<noteq> []")
    case True
    then obtain p where p: "a = UnixAddress p" "p \<noteq> []" by blast
    obtain y s1 where y: "redirect_arg L (Some p) st = (y, s1)" by fastforce
    show ?thesis using confined_redirect_arg [OF assms y] redirect_arg_results [OF y] x p
      by (auto simp: redirect_socket_address_def y split: sum.splits if_splits prod.splits)
  next
    case False
    then show ?thesis using x assms by (auto simp: redirect_socket_address_def split: sockaddr.splits)
  qed
  then show "confined R T (snd (bind L d a n st))" "confined R T (snd (connect L d a n st))"
    by (auto simp: bind_def connect_def x intro!: confined_snd_call split: sum.splits sockaddr.splits)
qed

lemma confined_direct:
  "confined R T st \<Longrightarrow> \<forall>p\<in>set (paths_of c). permitted R T p \<Longrightarrow> confined R T (snd (direct L c st))"
  by (auto simp: direct_def split_beta Let_def intro!: confined_snd_call)

lemma confined_syscall: "confined R T st \<Longrightarrow> confined R T (snd (syscall L no a1 a2 a3 a4 a5 a6 st))"
  by (auto simp: syscall_def Let_def kernel_syscall6_def intro!: confined_with_path confined_direct
      split: sysarg.split)

section \<open>Links\<close>

lemma confined_copy_blocks:
  assumes "copy_blocks L inp out st = Some y" "confined R T st"
  shows "confined R T (snd y)"
proof (rule copy_blocks_inv [where P = "confined R T", OF assms])
  fix c s r s'
  assume "confined R T s" "paths_of (Only c) = []" "call L (Only c) s = (r, s')"
  then show "confined R T s'" using confined_call [of R T s "Only c"] by simp
qed

lemma confined_closes:
  "confined R T st \<Longrightarrow> confined R T (close_fd L fd st)"
  "confined R T st \<Longrightarrow> confined R T (snd (after_close L fd e st))"
  "confined R T st \<Longrightarrow> permitted R T p \<Longrightarrow> confined R T (real_unlink L p st)"
  by (auto simp: close_fd_def after_close_def real_unlink_def split_beta Let_def intro!: confined_snd_call)

lemma confined_copy:
  assumes "copy_regular_file L old new follow st = Some y" "confined R T st" "permitted R T old" "permitted R T new"
  shows "confined R T (snd y)"
proof -
  let ?flags = "(O_RDONLY OR O_CLOEXEC) OR (if follow then 0 else O_NOFOLLOW)"
  obtain i s1 where f1: "call L (At (C_open ?flags None) old) st = (i, s1)" by fastforce
  obtain f s2 where f2: "call L (Only (C_fstat (ret i))) s1 = (f, s2)" by fastforce
  obtain t s3 where f3: "call L (At (C_open (O_WRONLY OR O_CREAT OR O_EXCL OR O_CLOEXEC)
      (Some (unat (st_mode (info f) AND 0x1FF)))) new) s2 = (t, s3)" by fastforce
  have c1: "confined R T s1" using confined_call [OF assms(2) _ f1] assms(3) by simp
  have c2: "confined R T s2" using confined_call [OF c1 _ f2] by simp
  have c3: "confined R T s3" using confined_call [OF c2 _ f3] assms(4) by simp
  show ?thesis
  proof (cases "ret i < 0 \<or> ret f \<noteq> 0 \<or> st_mode (info f) AND 0xF000 \<noteq> 0x8000 \<or> ret t < 0")
    case True
    then show ?thesis using assms(1) c1 c2 c3
      by (auto simp: copy_regular_file_def Let_def f1 f2 f3 intro: confined_closes split: if_splits)
  next
    case False
    then obtain x s4 where z: "copy_blocks L (ret i) (ret t) s3 = Some (x, s4)"
      using assms(1) by (auto simp: copy_regular_file_def Let_def f1 f2 f3 split: option.splits)
    have c4: "confined R T s4" using confined_copy_blocks [OF z c3] by simp
    obtain c s5 where f5: "call L (Only (C_close (ret t))) (close_fd L (ret i) s4) = (c, s5)" by fastforce
    have c5: "confined R T s5" using confined_call [OF confined_closes(1) [OF c4] _ f5] by simp
    show ?thesis using assms(1) False c4 c5 assms(4)
      by (cases x)
        (auto simp: copy_regular_file_def Let_def f1 f2 f3 z f5 intro!: confined_closes split: if_splits)
  qed
qed

lemma confined_remember: "confined R T st \<Longrightarrow> permitted R T s \<Longrightarrow> confined R T (remember_fake_link L s d st)"
  by (auto simp: remember_fake_link_def Let_def split_beta intro!: confined_snd_call)

lemma confined_copy_and_remember:
  assumes "copy_and_remember L s d follow st = Some y" "confined R T st" "permitted R T s" "permitted R T d"
  shows "confined R T (snd y)"
  using assms confined_copy [OF _ assms(2-4)]
  by (fastforce simp: copy_and_remember_def intro: confined_remember split: option.splits prod.splits if_splits)

lemma confined_link:
  assumes "link L p q st = Some y" "confined R T st"
  shows "confined R T (snd y)"
proof -
  obtain x s1 where x: "redirect_pair L p q st = (x, s1)" by fastforce
  note c1 = confined_redirect_pair [OF assms(2) x]
  show ?thesis
  proof (cases x)
    case (Inl e)
    then show ?thesis using assms(1) c1 by (auto simp: link_def x)
  next
    case (Inr ab)
    obtain a b where ab: "ab = (a, b)" by fastforce
    obtain r s2 where r: "call L (Between C_link a b) s1 = (r, s2)" by fastforce
    have "confined R T s2" using confined_call [OF conjunct1 [OF c1] _ r] c1 Inr ab by simp
    then show ?thesis using assms(1) c1 confined_copy_and_remember [of L a b False]
      by (auto simp: link_def x Inr ab r split: if_splits)
  qed
qed

lemma confined_resolve:
  assumes "resolve_at_path L d p st = (x, st')" "confined R T st"
  shows "confined R T st'"
proof -
  have "confined R T (snd (resolve_at_path L d p st))"
    using assms(2) by (auto simp: resolve_at_path_def Let_def split_beta intro!: confined_snd_call)
  then show ?thesis using assms(1) by simp
qed

lemma confined_copy_linkat:
  assumes "copy_linkat L d p d' q flags st = Some y" "confined R T st"
  shows "confined R T (snd y)"
proof -
  define first_path where "first_path = (if flags AND AT_EMPTY_PATH \<noteq> 0 \<and> p = []
            then (Inr (''/proc/self/fd/'' @ dec_int d), st)
            else case resolve_at_path L d p st of
                (Inl e, st) \<Rightarrow> (Inl e, st)
              | (Inr old_resolved, st) \<Rightarrow> let (x, st) = redirect_arg L (Some old_resolved) st in
                  (case x of Inl e \<Rightarrow> Inl e | Inr (_, source) \<Rightarrow> Inr source, st))"
  obtain x s1 where x: "first_path = (x, s1)" by fastforce
  have c1: "confined R T s1 \<and> (\<forall>s. x = Inr s \<longrightarrow> permitted R T s)"
  proof (cases "flags AND AT_EMPTY_PATH \<noteq> 0 \<and> p = []")
    case True
    then show ?thesis using x assms(2) by (auto simp: first_path_def)
  next
    case False
    obtain z s0 where z: "resolve_at_path L d p st = (z, s0)" by fastforce
    note c0 = confined_resolve [OF z assms(2)]
    show ?thesis
    proof (cases z)
      case (Inl e)
      then show ?thesis using x c0 False z by (auto simp: first_path_def)
    next
      case (Inr o')
      obtain w s' where w: "redirect_arg L (Some o') s0 = (w, s')" by fastforce
      show ?thesis using confined_redirect_arg [OF c0 w] x False z Inr w
        by (auto simp: first_path_def split: sum.splits)
    qed
  qed
  show ?thesis
  proof (cases x)
    case (Inl e)
    then show ?thesis using assms(1) c1 x by (auto simp: copy_linkat_def first_path_def [symmetric])
  next
    case (Inr s)
    obtain z s2 where z: "resolve_at_path L d' q s1 = (z, s2)" by fastforce
    have c2: "confined R T s2" using confined_resolve [OF z] c1 by blast
    show ?thesis
    proof (cases z)
      case (Inl e)
      then show ?thesis using assms(1) c2 x Inr z by (auto simp: copy_linkat_def first_path_def [symmetric])
    next
      case (Inr n)
      obtain w s3 where w: "redirect_arg L (Some n) s2 = (w, s3)" by fastforce
      note c3 = confined_redirect_arg [OF c2 w]
      show ?thesis
      proof (cases w)
        case (Inl e)
        then show ?thesis using assms(1) c3 x \<open>x = Inr s\<close> z Inr w
          by (auto simp: copy_linkat_def first_path_def [symmetric])
      next
        case (Inr cb)
        then obtain ch b where b: "w = Inr (ch, b)" by (cases cb) auto
        have "copy_and_remember L s b (flags AND (AT_SYMLINK_FOLLOW OR AT_EMPTY_PATH) \<noteq> 0) s3 = Some y"
          using assms(1) x \<open>x = Inr s\<close> z \<open>z = Inr n\<close> w b
          by (simp add: copy_linkat_def first_path_def [symmetric])
        then show ?thesis by (rule confined_copy_and_remember) (use c3 c1 \<open>x = Inr s\<close> b in auto)
      qed
    qed
  qed
qed

lemma confined_linkat:
  assumes "linkat L d p d' q flags st = Some y" "confined R T st"
  shows "confined R T (snd y)"
proof -
  obtain x s1 where x: "redirect_pair L p q st = (x, s1)" by fastforce
  note c1 = confined_redirect_pair [OF assms(2) x]
  show ?thesis
  proof (cases x)
    case (Inl e)
    then show ?thesis using assms(1) c1 by (auto simp: linkat_def x)
  next
    case (Inr ab)
    obtain a b where ab: "ab = (a, b)" by fastforce
    obtain r s2 where r: "call L (Between (C_linkat d d' flags) a b) s1 = (r, s2)" by fastforce
    have c2: "confined R T s2" using confined_call [OF conjunct1 [OF c1] _ r] c1 Inr ab by simp
    have "y = (r, s2) \<or> copy_linkat L d a d' b flags s1 = Some y \<or> copy_linkat L d a d' b flags s2 = Some y"
      using assms(1) by (auto simp: linkat_def x Inr ab r split: if_splits)
    then show ?thesis using c1 c2 by (elim disjE) (auto intro: confined_copy_linkat)
  qed
qed

lemma confined_guest_call: "guest_call L st st' \<Longrightarrow> confined R T st \<Longrightarrow> confined R T st'"
proof (induction rule: guest_call.induct)
  case (link_path p q st r st')
  then show ?case using confined_link [of L p q st "(r, st')" R T] by simp
next
  case (linkat_path d p d' q f st r st')
  then show ?case using confined_linkat [of L d p d' q f st "(r, st')" R T] by simp
qed (rule confined_open confined_simple confined_metadata confined_temporary confined_shm confined_lock
    confined_stat confined_unlink confined_statx confined_space confined_realpath confined_symlink
    confined_chroot confined_socket confined_syscall, assumption)+



end
