(* ===== verification/FhsExec.thy ===== *)
theory FhsExec
  imports FhsCalls
begin

text \<open>
  Starting programs and loading libraries, from \<open>native/runtime/fhs-exec.c\<close>: the \<open>exec\<close> and
  \<open>posix_spawn\<close> families with their script interpreters, the search for shared libraries, and the
  table of \<open>popen\<close> children.

  The next definition of an \<open>exec\<close> function is a parameter of the program: an \<open>image\<close> is what it
  is called with (\<open>envp = None\<close> for a NULL environment), and its result is returned unchanged. The
  diagnostic log lines (\<open>BIONICX_LOG_EXEC\<close>) are left out. Allocation succeeds.
\<close>

record image =
  program :: string
  arguments :: "string list"
  envp :: "string list option"

definition restored :: "'k fhs \<Rightarrow> 'k fhs" where
  "restored st = st\<lparr>proc := (proc st)\<lparr>renv := restore_runtime_environment (renv (proc st))\<rparr>\<rparr>"

section \<open>Script interpreters\<close>

definition blank :: "char \<Rightarrow> bool" where
  "blank c \<longleftrightarrow> c = CHR '' '' \<or> c = CHR 0x09"

definition strip_blanks :: "string \<Rightarrow> string" where
  "strip_blanks s = rev (dropWhile blank (rev (dropWhile blank s)))"

text \<open>
  The first line of a file, as far as it was read: the interpreter and its argument. \<open>None\<close> when
  there is no interpreter; scanning stops at a NUL.
\<close>

definition parse_shebang :: "string \<Rightarrow> (string \<times> string option) option" where
  "parse_shebang line =
     (if length line < 3 \<or> take 2 line \<noteq> ''#!'' then None else
      let cursor = dropWhile blank (takeWhile (\<lambda>c. c \<noteq> CHR 0x00) (drop 2 line));
          interpreter = takeWhile (\<lambda>c. c \<noteq> CHR 0x0A \<and> \<not> blank c) cursor;
          rest = drop (length interpreter) cursor;
          argument = (case rest of
              [] \<Rightarrow> []
            | separator # after \<Rightarrow> if separator = CHR 0x0A then []
                else strip_blanks (takeWhile (\<lambda>c. c \<noteq> CHR 0x0A) after)) in
      if interpreter = [] then None
      else Some (interpreter, if argument = [] then None else Some argument))"

definition read_start :: "'k libc \<Rightarrow> string \<Rightarrow> nat \<Rightarrow> 'k fhs \<Rightarrow> string option \<times> 'k fhs" where
  "read_start L path n st =
     (let (d, st) = open_path L (Some path) (O_RDONLY OR O_CLOEXEC) 0 st in
      if ret d < 0 then (None, st) else
      let (r, st) = call L (Only (C_read (ret d) n)) st;
          (_, st) = call L (Only (C_close (ret d))) st in
      (if ret r < 0 then None else Some (take (nat (ret r)) (str r)), st))"

definition script_arguments ::
    "'k libc \<Rightarrow> string \<Rightarrow> string list \<Rightarrow> 'k fhs \<Rightarrow> (string \<times> string list) option \<times> 'k fhs" where
  "script_arguments L path args st =
     (let (line, st) = read_start L path 511 st in
      case Option.bind line parse_shebang of
        None \<Rightarrow> (None, st)
      | Some (interpreter, argument) \<Rightarrow>
          let (actual, st) = redirect_arg L (Some interpreter) st in
          (case actual of
             Inl _ \<Rightarrow> (None, st)
           | Inr (_, prog) \<Rightarrow> if \<not> fits prog then (None, st)
               else (Some (prog, prog # (case argument of None \<Rightarrow> [] | Some a \<Rightarrow> [a]) @ path # drop 1 args), st)))"

section \<open>The search path\<close>

definition ensure_rootfs_path :: "renv \<Rightarrow> renv" where
  "ensure_rootfs_path e =
     (case usable (bionicx_getenv (environ e) ''BIONICX_ROOTFS'') of
        None \<Rightarrow> e
      | Some root \<Rightarrow>
          let current = bionicx_getenv (environ e) ''PATH'';
              value = root @ ''/usr/sbin:'' @ root @ ''/usr/bin:'' @ root @ ''/sbin:'' @ root @ ''/bin:'' @
                (case current of None \<Rightarrow> ''/system/bin'' | Some c \<Rightarrow> c) in
          if (case current of None \<Rightarrow> False | Some c \<Rightarrow> prefix root c) then e
          else if length value < PATH_MAX * 2
          then e\<lparr>environ := libc_setenv ''PATH'' value (environ e)\<rparr> else e)"

definition with_rootfs_path :: "'k fhs \<Rightarrow> 'k fhs" where
  "with_rootfs_path st = st\<lparr>proc := (proc st)\<lparr>renv := ensure_rootfs_path (renv (proc st))\<rparr>\<rparr>"

definition program_directories :: "string list" where
  "program_directories = [''/usr/sbin'', ''/usr/bin'', ''/sbin'', ''/bin'']"

text \<open>The first executable \<open>root/directory/path\<close>; \<open>X_OK\<close> is 1.\<close>

fun search_program ::
    "'k libc \<Rightarrow> string \<Rightarrow> string \<Rightarrow> string list \<Rightarrow> 'k fhs \<Rightarrow> string option \<times> 'k fhs" where
  "search_program L root path [] st = (None, st)"
| "search_program L root path (d # ds) st =
     (let candidate = root @ d @ ''/'' @ path in
      if \<not> fits candidate then search_program L root path ds st else
      let (r, st) = access L (Some candidate) 1 st in
      if ret r = 0 then (Some candidate, st) else search_program L root path ds st)"

definition find_program :: "'k libc \<Rightarrow> string \<Rightarrow> 'k fhs \<Rightarrow> string \<times> 'k fhs" where
  "find_program L path st =
     (if CHR ''/'' \<in> set path then (path, st) else
      case usable (bionicx_getenv (environ (renv (proc st))) ''BIONICX_ROOTFS'') of
        None \<Rightarrow> (path, st)
      | Some root \<Rightarrow> let (found, st) = search_program L root path program_directories st in
          (case found of None \<Rightarrow> path | Some c \<Rightarrow> c, st))"

section \<open>The exec family\<close>

definition child_arguments :: "'k fhs \<Rightarrow> string list \<Rightarrow> string list" where
  "child_arguments st args = (case with_child_flags (renv (proc st)) args of None \<Rightarrow> args | Some a \<Rightarrow> a)"

text \<open>\<open>exec_script\<close> uses the process environment, restored to the runtime contract.\<close>

definition exec_script ::
    "'k libc \<Rightarrow> string \<Rightarrow> string list \<Rightarrow> 'k fhs \<Rightarrow> (errno option + image) \<times> 'k fhs" where
  "exec_script L path args st =
     (let use_args = child_arguments st args;
          (script, st) = script_arguments L path use_args st in
      case script of
        Some (prog, argv) \<Rightarrow>
          let st = restored st in
          (Inr \<lparr>program = prog, arguments = argv, envp = Some (environ (renv (proc st)))\<rparr>, st)
      | None \<Rightarrow>
          let (magic, st) = read_start L path 2 st in
          if magic = Some ''#!'' then (Inl (Some ENOEXEC), st)
          else let st = restored st in
            (Inr \<lparr>program = path, arguments = use_args, envp = Some (environ (renv (proc st)))\<rparr>, st))"

definition execv ::
    "'k libc \<Rightarrow> string option \<Rightarrow> string list \<Rightarrow> 'k fhs \<Rightarrow> (errno option + image) \<times> 'k fhs" where
  "execv L path args st = (case redirect_arg L path st of
      (Inl e, st) \<Rightarrow> (Inl e, st)
    | (Inr (_, actual), st) \<Rightarrow> exec_script L actual args (with_rootfs_path (restored st)))"

definition execve ::
    "'k libc \<Rightarrow> string option \<Rightarrow> string list \<Rightarrow> string list option \<Rightarrow> 'k fhs \<Rightarrow> (errno option + image) \<times> 'k fhs" where
  "execve L path args environment st = (case redirect_arg L path st of
      (Inl e, st) \<Rightarrow> (Inl e, st)
    | (Inr (_, actual), st) \<Rightarrow>
        let env = map_option fst (with_runtime_environment (renv (proc st)) environment);
            use_args = child_arguments st args;
            (script, st) = script_arguments L actual use_args st in
        (Inr (case script of
           Some (prog, argv) \<Rightarrow> \<lparr>program = prog, arguments = argv, envp = env\<rparr>
         | None \<Rightarrow> \<lparr>program = actual, arguments = use_args, envp = env\<rparr>), st))"

text \<open>\<open>execveat\<close> redirects absolute paths only and does not look for interpreters.\<close>

definition execveat ::
    "'k libc \<Rightarrow> int \<Rightarrow> string \<Rightarrow> string list \<Rightarrow> string list option \<Rightarrow> 'k fhs \<Rightarrow> (errno option + image) \<times> 'k fhs" where
  "execveat L dirfd path args environment st =
     (let (actual, st) = (if absolute path then redirect_arg L (Some path) st else (Inr (False, path), st)) in
      case actual of
        Inl e \<Rightarrow> (Inl e, st)
      | Inr (_, a) \<Rightarrow>
          (Inr \<lparr>program = a, arguments = child_arguments st args,
                envp = map_option fst (with_runtime_environment (renv (proc st)) environment)\<rparr>, st))"

text \<open>\<open>posix_spawn\<close> returns the error; a NULL path gives \<open>ENOENT\<close> (when \<open>errno\<close> is 0).\<close>

definition posix_spawn ::
    "'k libc \<Rightarrow> string option \<Rightarrow> string list \<Rightarrow> string list option \<Rightarrow> 'k fhs \<Rightarrow> (errno + image) \<times> 'k fhs" where
  "posix_spawn L path args environment st = (case execve L path args environment st of
      (Inl None, st) \<Rightarrow> (Inl ENOENT, st)
    | (Inl (Some e), st) \<Rightarrow> (Inl e, st)
    | (Inr i, st) \<Rightarrow> (Inr i, st))"

definition posix_spawnp ::
    "'k libc \<Rightarrow> string \<Rightarrow> string list \<Rightarrow> string list option \<Rightarrow> 'k fhs \<Rightarrow> (errno + image) \<times> 'k fhs" where
  "posix_spawnp L path args environment st =
     (let (actual, st) = find_program L path st in posix_spawn L (Some actual) args environment st)"

definition execvp ::
    "'k libc \<Rightarrow> string \<Rightarrow> string list \<Rightarrow> 'k fhs \<Rightarrow> (errno option + image) \<times> 'k fhs" where
  "execvp L path args st = (case redirect_arg L (Some path) st of
      (Inl e, st) \<Rightarrow> (Inl e, st)
    | (Inr (changed, actual), st) \<Rightarrow>
        let st = with_rootfs_path (restored st);
            (actual, st) = (if changed then (actual, st) else find_program L path st) in
        exec_script L actual args st)"

definition execvpe ::
    "'k libc \<Rightarrow> string \<Rightarrow> string list \<Rightarrow> string list option \<Rightarrow> 'k fhs \<Rightarrow> (errno option + image) \<times> 'k fhs" where
  "execvpe L path args environment st =
     (let (actual, st) = find_program L path st in execve L (Some actual) args environment st)"

text \<open>The variadic forms: \<open>argument\<close> and the values up to the terminating NULL.\<close>

definition vararg_arguments :: "string \<Rightarrow> string list \<Rightarrow> string list" where
  "vararg_arguments argument values = argument # values"

definition execl ::
    "'k libc \<Rightarrow> string option \<Rightarrow> string \<Rightarrow> string list \<Rightarrow> 'k fhs \<Rightarrow> (errno option + image) \<times> 'k fhs" where
  "execl L path argument values = execv L path (vararg_arguments argument values)"

definition execlp ::
    "'k libc \<Rightarrow> string \<Rightarrow> string \<Rightarrow> string list \<Rightarrow> 'k fhs \<Rightarrow> (errno option + image) \<times> 'k fhs" where
  "execlp L path argument values = execvp L path (vararg_arguments argument values)"

section \<open>Standard descriptors\<close>

text \<open>
  The three standard descriptors before an \<open>exec\<close>: open on \<open>target\<close>, or closed. \<open>leader\<close>: the
  process leads its session, \<open>ctty\<close>: the session's controlling terminal. \<open>tty\<close> says which files
  are terminals and \<open>may_steal\<close> whether \<open>TIOCSCTTY\<close> succeeds; \<open>/dev/tty\<close> opens when there is a
  controlling terminal.
\<close>

record descriptor =
  cloexec :: bool
  target :: nat

record standard =
  std :: "nat \<Rightarrow> descriptor option"
  leader :: bool
  ctty :: "nat option"

definition isatty :: "(nat \<Rightarrow> bool) \<Rightarrow> descriptor option \<Rightarrow> bool" where
  "isatty tty d = (case d of None \<Rightarrow> False | Some x \<Rightarrow> tty (target x))"

definition inherited :: "descriptor option \<Rightarrow> descriptor option" where
  "inherited d = map_option (\<lambda>x. x\<lparr>cloexec := False\<rparr>) d"

definition keep_standard_fds :: "(nat \<Rightarrow> bool) \<Rightarrow> bool \<Rightarrow> standard \<Rightarrow> standard" where
  "keep_standard_fds tty may_steal s =
     (let d0 = inherited (std s 0); d1 = inherited (std s 1); d2 = inherited (std s 2) in
      if \<not> isatty tty d0 then s\<lparr>std := (std s)(0 := d0, 1 := d1, 2 := d2)\<rparr>
      else
        let d1 = (if isatty tty d1 then d1 else d0); d2 = (if isatty tty d2 then d2 else d0);
            s = s\<lparr>std := (std s)(0 := d0, 1 := d1, 2 := d2)\<rparr> in
        if ctty s \<noteq> None then s
        else (let s = s\<lparr>leader := True\<rparr> in
          if may_steal then s\<lparr>ctty := map_option target d0\<rparr> else s))"

section \<open>Shared libraries\<close>

text \<open>A handle of 0 is NULL. \<open>RTLD_DEEPBIND\<close> is 8; the existence checks use the real \<open>access\<close>.\<close>

definition real_access :: "'k libc \<Rightarrow> string \<Rightarrow> 'k fhs \<Rightarrow> bool \<times> 'k fhs" where
  "real_access L path st = (let (r, st) = call L (At (C_access 0) path) st in (ret r = 0, st))"

definition next_dlopen :: "'k libc \<Rightarrow> string \<Rightarrow> u32 \<Rightarrow> 'k fhs \<Rightarrow> int \<times> 'k fhs" where
  "next_dlopen L path flags st = (let (r, st) = call L (At (C_dlopen flags) path) st in (ret r, st))"

definition dlopen_if_there :: "'k libc \<Rightarrow> string \<Rightarrow> u32 \<Rightarrow> 'k fhs \<Rightarrow> (bool \<times> int) \<times> 'k fhs" where
  "dlopen_if_there L candidate flags st =
     (if \<not> fits candidate then ((False, 0), st) else
      let (there, st) = real_access L candidate st in
      if there then let (h, st) = next_dlopen L candidate flags st in ((True, h), st) else ((False, 0), st))"

definition dlopen_from_directory ::
    "'k libc \<Rightarrow> string option \<Rightarrow> string \<Rightarrow> u32 \<Rightarrow> 'k fhs \<Rightarrow> int \<times> 'k fhs" where
  "dlopen_from_directory L directory soname flags st = (case usable directory of
      None \<Rightarrow> (0, st)
    | Some d \<Rightarrow> let ((_, h), st) = dlopen_if_there L (d @ ''/'' @ soname) flags st in (h, st))"

text \<open>The text before and after the last slash.\<close>

definition before_slash :: "string \<Rightarrow> string option" where
  "before_slash p = (if CHR ''/'' \<in> set p then Some (rev (tl (dropWhile (\<lambda>c. c \<noteq> CHR ''/'') (rev p)))) else None)"

definition after_slash :: "string \<Rightarrow> string" where
  "after_slash p = rev (takeWhile (\<lambda>c. c \<noteq> CHR ''/'') (rev p))"

text \<open>
  \<open>dl_iterate_phdr\<close> visits the names of the loaded objects; the callback stops at the first
  \<open>libnss3.so\<close> with an absolute name that fits.
\<close>

definition record_nss3_directory :: "string \<Rightarrow> string option" where
  "record_nss3_directory name =
     (if absolute name \<and> after_slash name = ''libnss3.so'' \<and> fits name then before_slash name else None)"

fun loaded_nss_directory :: "string list \<Rightarrow> string option" where
  "loaded_nss_directory [] = None"
| "loaded_nss_directory (name # names) = (case record_nss3_directory name of
      Some d \<Rightarrow> Some d | None \<Rightarrow> loaded_nss_directory names)"

definition dlopen_from_loaded_nss ::
    "'k libc \<Rightarrow> string list \<Rightarrow> string \<Rightarrow> u32 \<Rightarrow> 'k fhs \<Rightarrow> int \<times> 'k fhs" where
  "dlopen_from_loaded_nss L loaded soname flags st = (case loaded_nss_directory loaded of
      None \<Rightarrow> (0, st)
    | Some d \<Rightarrow> if d = [] then (0, st) else dlopen_from_directory L (Some d) soname flags st)"

fun first_there :: "'k libc \<Rightarrow> string list \<Rightarrow> u32 \<Rightarrow> 'k fhs \<Rightarrow> int \<times> 'k fhs" where
  "first_there L [] flags st = (0, st)"
| "first_there L (c # cs) flags st =
     (let ((there, h), st) = dlopen_if_there L c flags st in
      if there then (h, st) else first_there L cs flags st)"

definition dlopen_from_executable_lib :: "'k libc \<Rightarrow> string \<Rightarrow> u32 \<Rightarrow> 'k fhs \<Rightarrow> int \<times> 'k fhs" where
  "dlopen_from_executable_lib L soname flags st =
     (let (r, st) = call L (At (C_readlink (PATH_MAX - 1)) ''/proc/self/exe'') st in
      if ret r \<le> 0 then (0, st) else
      case before_slash (str r) of
        None \<Rightarrow> (0, st)
      | Some exe \<Rightarrow> first_there L (map (\<lambda>s. exe @ s @ soname) [''/../lib/'', ''/lib/'', ''/'']) flags st)"

definition library_directories :: "string list" where
  "library_directories = [''/usr/lib/aarch64-linux-gnu'', ''/lib/aarch64-linux-gnu'', ''/usr/lib'', ''/lib'']"

fun first_loaded :: "'k libc \<Rightarrow> string list \<Rightarrow> u32 \<Rightarrow> 'k fhs \<Rightarrow> int \<times> 'k fhs" where
  "first_loaded L [] flags st = (0, st)"
| "first_loaded L (c # cs) flags st =
     (let ((_, h), st) = dlopen_if_there L c flags st in
      if h \<noteq> 0 then (h, st) else first_loaded L cs flags st)"

lemma versioned_not_so: "\<not> suffix ''.so'' (s @ ''.1'')"
  by (auto simp: suffix_def append_eq_append_conv2 Cons_eq_append_conv append_eq_Cons_conv)

text \<open>Without a hit a name that ends in \<open>.so\<close> is tried once more with \<open>.1\<close> appended.\<close>

function dlopen_from_rootfs_multiarch ::
    "'k libc \<Rightarrow> string \<Rightarrow> u32 \<Rightarrow> 'k fhs \<Rightarrow> int \<times> 'k fhs" where
  "dlopen_from_rootfs_multiarch L soname flags st =
     (case usable (runtime_rootfs (renv (proc st))) of
        None \<Rightarrow> (0, st)
      | Some root \<Rightarrow> if soname = [] then (0, st) else
          let (h, st) = first_loaded L (map (\<lambda>d. root @ d @ ''/'' @ soname) library_directories) flags st in
          if h \<noteq> 0 then (h, st)
          else if 3 < length soname \<and> suffix ''.so'' soname \<and> fits (soname @ ''.1'')
          then dlopen_from_rootfs_multiarch L (soname @ ''.1'') flags st else (0, st))"
  by pat_completeness auto
termination
  by (relation "measure (\<lambda>(L, soname, flags, st). if suffix ''.so'' soname then 1 else 0)")
    (auto simp: versioned_not_so)

text \<open>The stages of the search, each tried when the one before found nothing.\<close>

definition or_else ::
    "('k fhs \<Rightarrow> int \<times> 'k fhs) \<Rightarrow> ('k fhs \<Rightarrow> int \<times> 'k fhs) \<Rightarrow> 'k fhs \<Rightarrow> int \<times> 'k fhs" where
  "or_else f g st = (let (h, st) = f st in if h \<noteq> 0 then (h, st) else g st)"

definition dlopen_from_app :: "'k libc \<Rightarrow> string \<Rightarrow> u32 \<Rightarrow> 'k fhs \<Rightarrow> int \<times> 'k fhs" where
  "dlopen_from_app L soname flags st =
     (case usable (bionicx_getenv (environ (renv (proc st))) ''BIONICX_APP'') of
        None \<Rightarrow> (0, st)
      | Some app \<Rightarrow> if fits (app @ ''/lib'') then dlopen_from_directory L (Some (app @ ''/lib'')) soname flags st
          else (0, st))"

definition dlopen_bare ::
    "'k libc \<Rightarrow> string list \<Rightarrow> string \<Rightarrow> u32 \<Rightarrow> 'k fhs \<Rightarrow> int \<times> 'k fhs" where
  "dlopen_bare L loaded soname flags =
     or_else (dlopen_from_loaded_nss L loaded soname flags)
     (or_else (\<lambda>st. dlopen_from_directory L
          (bionicx_getenv (environ (renv (proc st))) ''MOZILLA_FIVE_HOME'') soname flags st)
     (or_else (dlopen_from_app L soname flags)
     (or_else (dlopen_from_rootfs_multiarch L soname flags)
              (dlopen_from_executable_lib L soname flags))))"

definition dlopen_path :: "'k libc \<Rightarrow> string \<Rightarrow> u32 \<Rightarrow> 'k fhs \<Rightarrow> int \<times> 'k fhs" where
  "dlopen_path L path flags st =
     (let (x, st) = redirect_arg L (Some path) st;
          (handle, st) = (case x of Inl _ \<Rightarrow> (0, st) | Inr (_, actual) \<Rightarrow> next_dlopen L actual flags st) in
      if handle = 0 \<and> absolute path then
        let (there, st) = real_access L (case x of Inl _ \<Rightarrow> path | Inr (_, actual) \<Rightarrow> actual) st in
        if there then (handle, st)
        else or_else (dlopen_from_rootfs_multiarch L (after_slash path) flags)
                     (dlopen_from_executable_lib L (after_slash path) flags) st
      else (handle, st))"

definition bionicx_dlopen ::
    "'k libc \<Rightarrow> string list \<Rightarrow> string option \<Rightarrow> u32 \<Rightarrow> 'k fhs \<Rightarrow> int \<times> 'k fhs" where
  "bionicx_dlopen L loaded path flags st =
     (let flags = flags AND NOT 8 in
      case path of
        None \<Rightarrow> let (r, st) = call L (Only (C_dlopen_null flags)) st in (ret r, st)
      | Some p \<Rightarrow> if CHR ''/'' \<in> set p then dlopen_path L p flags st
          else or_else (dlopen_bare L loaded p flags) (dlopen_path L p flags) st)"

section \<open>Terminals\<close>

text \<open>\<open>ptyno\<close>: what \<open>TIOCGPTN\<close> answers, \<open>None\<close> when it fails; otherwise the next definition decides.\<close>

definition ptsname :: "nat option \<Rightarrow> string option \<Rightarrow> string option" where
  "ptsname ptyno next_result = (case ptyno of
      Some n \<Rightarrow> if length (''/dev/pts/'' @ dec n) < 64 then Some (''/dev/pts/'' @ dec n) else next_result
    | None \<Rightarrow> next_result)"

definition ptsname_r :: "nat option \<Rightarrow> nat \<Rightarrow> (errno + string) \<Rightarrow> errno + string" where
  "ptsname_r ptyno len next_result = (case ptyno of
      Some n \<Rightarrow> if length (''/dev/pts/'' @ dec n) < len then Inr (''/dev/pts/'' @ dec n) else Inl ERANGE
    | None \<Rightarrow> next_result)"

text \<open>
  \<open>forkpty\<close>: the answers of \<open>openpty\<close> (master and slave), of \<open>fork\<close>, and whether the three
  \<open>dup2\<close> of the child succeed. The parent gets the master and the child's pid; the child leads a
  new session with the slave on its three standard descriptors (even when \<open>TIOCSCTTY\<close> is denied)
  or exits with 127.
\<close>

datatype forkpty_result =
    Forkpty_error errno | Parent int int | Child standard | Child_exit nat

definition child_of_pty :: "nat \<Rightarrow> bool \<Rightarrow> standard \<Rightarrow> standard" where
  "child_of_pty slave may_steal s =
     (let d = Some \<lparr>cloexec = False, target = slave\<rparr>;
          s = s\<lparr>leader := True, ctty := if may_steal then Some slave else None\<rparr> in
      s\<lparr>std := (std s)(0 := d, 1 := d, 2 := d)\<rparr>)"

definition forkpty ::
    "bool \<Rightarrow> (errno + int \<times> nat) \<Rightarrow> (errno + int) \<Rightarrow> bool \<Rightarrow> bool \<Rightarrow> standard \<Rightarrow> forkpty_result" where
  "forkpty master_wanted pty forked duplicates may_steal s =
     (if \<not> master_wanted then Forkpty_error ENOSYS else
      case pty of
        Inl e \<Rightarrow> Forkpty_error e
      | Inr (master, slave) \<Rightarrow>
          (case forked of
             Inl e \<Rightarrow> Forkpty_error e
           | Inr pid \<Rightarrow> if pid = 0
               then (if duplicates then Child (child_of_pty slave may_steal s) else Child_exit 127)
               else Parent pid master))"

section \<open>Shell children\<close>

definition SHELL_CHILD_SLOTS :: nat where "SHELL_CHILD_SLOTS = 64"

text \<open>A slot with stream 0 (NULL) is free.\<close>

record shell_child =
  stream :: nat
  pid :: int

definition rootfs_shell :: "renv \<Rightarrow> errno + string" where
  "rootfs_shell e = (case usable (bionicx_getenv (environ e) ''BIONICX_ROOTFS'') of
      None \<Rightarrow> Inl ENOENT
    | Some root \<Rightarrow> if fits (root @ ''/bin/sh'') then Inr (root @ ''/bin/sh'') else Inl ENOENT)"

text \<open>What the child of \<open>popen\<close> and \<open>system\<close> runs, or its exit status.\<close>

definition shell_command :: "'k libc \<Rightarrow> string \<Rightarrow> 'k fhs \<Rightarrow> (nat + image) \<times> 'k fhs" where
  "shell_command L command st = (case rootfs_shell (renv (proc st)) of
      Inl _ \<Rightarrow> (Inl 126, st)
    | Inr shell \<Rightarrow> (case execv L (Some shell) [''sh'', ''-c'', ''--'', command] st of
        (Inl _, st) \<Rightarrow> (Inl 127, st) | (Inr i, st) \<Rightarrow> (Inr i, st)))"

text \<open>
  The parent's side of \<open>popen\<close>, given what \<open>pipe2\<close>, \<open>fork\<close> and \<open>fdopen\<close> answer. When no slot is
  free the stream is closed again and the child reaped.
\<close>

definition popen_type :: "string option \<Rightarrow> bool" where
  "popen_type type \<longleftrightarrow> type \<in> {Some ''r'', Some ''re'', Some ''w'', Some ''we''}"

definition popen ::
    "(errno + unit) \<Rightarrow> (errno + int) \<Rightarrow> (errno + nat) \<Rightarrow> string option \<Rightarrow> string option \<Rightarrow>
     shell_child list \<Rightarrow> (errno + nat) \<times> shell_child list" where
  "popen pipes forked opened command type children =
     (if command = None \<or> \<not> popen_type type then (Inl EINVAL, children) else
      case pipes of Inl e \<Rightarrow> (Inl e, children) | Inr _ \<Rightarrow>
      (case forked of Inl e \<Rightarrow> (Inl e, children) | Inr child \<Rightarrow>
      (case opened of Inl e \<Rightarrow> (Inl e, children) | Inr s \<Rightarrow>
        let index = length (takeWhile (\<lambda>c. stream c \<noteq> 0) children) in
        if index < length children
        then (Inr s, children[index := \<lparr>stream = s, pid = child\<rparr>])
        else (Inl EMFILE, children))))"

text \<open>\<open>waitpid\<close> in a loop: interrupted waits are repeated; \<open>None\<close> when the answers run out.\<close>

fun wait_child :: "(errno + int) list \<Rightarrow> (errno + int) option" where
  "wait_child [] = None"
| "wait_child (Inl EINTR # answers) = wait_child answers"
| "wait_child (answer # answers) = Some answer"

text \<open>\<open>closed\<close>: the result of \<open>fclose\<close>. The result holds the child that was waited for.\<close>

definition pclose ::
    "nat \<Rightarrow> int \<Rightarrow> (errno + int) list \<Rightarrow> shell_child list \<Rightarrow> ((errno + int) \<times> int option) option \<times> shell_child list" where
  "pclose s closed answers children =
     (let index = length (takeWhile (\<lambda>c. stream c \<noteq> s) children);
          child = (if index < length children then pid (children ! index) else -1);
          children = (if index < length children then children[index := \<lparr>stream = 0, pid = 0\<rparr>] else children) in
      if child < 0 then (Some (Inl EINVAL, None), children)
      else (map_option (\<lambda>answer. (case answer of Inl e \<Rightarrow> Inl e
              | Inr status \<Rightarrow> Inr (if closed = 0 then status else -1), Some child)) (wait_child answers), children))"

text \<open>\<open>system\<close> of NULL asks for a shell; otherwise the parent waits for its child.\<close>

definition system_available :: "'k libc \<Rightarrow> 'k fhs \<Rightarrow> bool \<times> 'k fhs" where
  "system_available L st = (case rootfs_shell (renv (proc st)) of
      Inl _ \<Rightarrow> (False, st)
    | Inr shell \<Rightarrow> let (r, st) = access L (Some shell) 1 st in (ret r = 0, st))"

definition system_status :: "(errno + int) \<Rightarrow> (errno + int) list \<Rightarrow> (errno + int) option" where
  "system_status forked answers = (case forked of Inl e \<Rightarrow> Some (Inl e) | Inr _ \<Rightarrow> wait_child answers)"

section \<open>The runtime contract reaches every program\<close>

text \<open>The environment of the process is untouched until it is restored.\<close>

lemma open_path_renv: "open_path L p f m st = (r, st') \<Longrightarrow> renv (proc st') = renv (proc st)"
proof -
  assume o: "open_path L p f m st = (r, st')"
  obtain x s where x: "redirect_arg L p st = (x, s)" by fastforce
  show ?thesis using o redirect_arg_renv [OF x]
    by (auto simp: open_path_def with_path_def x split: sum.splits)
qed

lemma read_start_renv: "read_start L p n st = (r, st') \<Longrightarrow> renv (proc st') = renv (proc st)"
  by (auto simp: read_start_def Let_def open_path_renv split: prod.splits if_splits)

lemma script_arguments_renv: "script_arguments L p a st = (r, st') \<Longrightarrow> renv (proc st') = renv (proc st)"
proof -
  assume s: "script_arguments L p a st = (r, st')"
  obtain x s1 where x: "read_start L p 511 st = (x, s1)" by fastforce
  show ?thesis
  proof (cases "Option.bind x parse_shebang")
    case None
    then show ?thesis using s read_start_renv [OF x] by (simp add: script_arguments_def x)
  next
    case (Some z)
    obtain i arg where z: "z = (i, arg)" by fastforce
    obtain y s2 where y: "redirect_arg L (Some i) s1 = (y, s2)" by fastforce
    show ?thesis using s read_start_renv [OF x] redirect_arg_renv [OF y]
      by (auto simp: script_arguments_def x Some z y Let_def split: sum.splits prod.splits if_splits)
  qed
qed

lemma search_program_renv: "search_program L root p ds st = (r, st') \<Longrightarrow> renv (proc st') = renv (proc st)"
proof (induction L root p ds st rule: search_program.induct)
  case (2 L root path d ds st)
  obtain a s1 where a: "access L (Some (root @ d @ ''/'' @ path)) 1 st = (a, s1)" by fastforce
  have "renv (proc s1) = renv (proc st)"
  proof -
    obtain x s where x: "redirect_arg L (Some (root @ d @ ''/'' @ path)) st = (x, s)" by fastforce
    show ?thesis using a redirect_arg_renv [OF x]
      by (auto simp: access_def with_path_def x [simplified] split: sum.splits)
  qed
  then show ?case using 2 a by (auto simp: Let_def split: if_splits)
qed simp

lemma find_program_renv: "find_program L p st = (r, st') \<Longrightarrow> renv (proc st') = renv (proc st)"
  by (auto simp: find_program_def Let_def search_program_renv split: if_splits option.splits prod.splits)

definition contract :: "renv \<Rightarrow> string list \<Rightarrow> bool" where
  "contract e env \<longleftrightarrow> (\<forall>n\<in>set runtime_environment_names. \<forall>v.
     captured_runtime_value e n = Some v \<longrightarrow> bionicx_getenv env n = Some v)"

lemma contract_cong:
  assumes "captured e' = captured e"
  shows "contract e' env = contract e env"
  using captured_cong [OF assms] by (simp only: contract_def)

lemma contract_restored: "env_wf e \<Longrightarrow> contract e (environ (restore_runtime_environment e))"
  using plain_runtime_names by (simp add: contract_def getenv_restore_runtime)

lemma contract_merged:
  "with_runtime_environment e (Some env) = Some (merged, k) \<Longrightarrow> contract e merged"
  using plain_runtime_names by (simp add: contract_def getenv_merged)

lemma captured_rootfs_path [simp]: "captured (ensure_rootfs_path e) = captured e"
  by (simp add: ensure_rootfs_path_def Let_def split: option.split)

lemma with_rootfs_path_captured [simp]:
  "captured (renv (proc (with_rootfs_path st))) = captured (renv (proc st))"
  "captured (renv (proc (restored st))) = captured (renv (proc st))"
  by (simp_all add: with_rootfs_path_def restored_def)

lemma exec_script_contract:
  assumes "exec_script L p args st = (Inr i, st')" "env_wf (renv (proc st))"
  shows "\<exists>env. envp i = Some env \<and> contract (renv (proc st)) env"
proof -
  obtain s s1 where s: "script_arguments L p (child_arguments st args) st = (s, s1)" by fastforce
  obtain m s2 where m: "read_start L p 2 s1 = (m, s2)" by fastforce
  have e: "renv (proc s1) = renv (proc st)" "renv (proc s2) = renv (proc st)"
    using script_arguments_renv [OF s] read_start_renv [OF m] by simp_all
  have restored: "environ (renv (proc (restored t))) = environ (restore_runtime_environment (renv (proc st)))"
    if "renv (proc t) = renv (proc st)" for t using that by (simp add: restored_def)
  have "envp i = Some (environ (restore_runtime_environment (renv (proc st))))"
  proof (cases s)
    case None
    then have "m \<noteq> Some ''#!''" using assms(1) by (auto simp: exec_script_def s m)
    then have "i = \<lparr>program = p, arguments = child_arguments st args,
        envp = Some (environ (renv (proc (restored s2))))\<rparr>"
      using assms(1) None by (auto simp: exec_script_def s m Let_def)
    then show ?thesis using restored [OF e(2)] by simp
  next
    case (Some z)
    obtain prog argv where z: "z = (prog, argv)" by fastforce
    then have "i = \<lparr>program = prog, arguments = argv, envp = Some (environ (renv (proc (restored s1))))\<rparr>"
      using assms(1) Some by (auto simp: exec_script_def s Let_def)
    then show ?thesis using restored [OF e(1)] by simp
  qed
  then show ?thesis using contract_restored [OF assms(2)] by blast
qed

lemma execve_contract:
  assumes "execve L p args (Some env) st = (Inr i, st')"
  shows "\<exists>env'. envp i = Some env' \<and> contract (renv (proc st)) env'"
proof -
  obtain x s1 where x: "redirect_arg L p st = (x, s1)" by fastforce
  obtain merged k where m: "with_runtime_environment (renv (proc st)) (Some env) = Some (merged, k)"
    by (auto simp: with_runtime_environment_def Let_def)
  have "envp i = Some merged"
    using assms redirect_arg_renv [OF x]
    by (auto simp: execve_def x Let_def m split: sum.splits option.splits prod.splits)
  then show ?thesis using contract_merged [OF m] by blast
qed

inductive starts :: "'k libc \<Rightarrow> 'k fhs \<Rightarrow> image \<Rightarrow> bool" for L where
  by_execv: "execv L p args st = (Inr i, st') \<Longrightarrow> starts L st i"
| by_execl: "execl L p a values st = (Inr i, st') \<Longrightarrow> starts L st i"
| by_execvp: "execvp L f args st = (Inr i, st') \<Longrightarrow> starts L st i"
| by_execlp: "execlp L f a values st = (Inr i, st') \<Longrightarrow> starts L st i"
| by_execve: "execve L p args (Some env) st = (Inr i, st') \<Longrightarrow> starts L st i"
| by_execveat: "execveat L d f args (Some env) st = (Inr i, st') \<Longrightarrow> starts L st i"
| by_execvpe: "execvpe L f args (Some env) st = (Inr i, st') \<Longrightarrow> starts L st i"
| by_posix_spawn: "posix_spawn L p args (Some env) st = (Inr i, st') \<Longrightarrow> starts L st i"
| by_posix_spawnp: "posix_spawnp L f args (Some env) st = (Inr i, st') \<Longrightarrow> starts L st i"
| by_shell: "shell_command L c st = (Inr i, st') \<Longrightarrow> starts L st i"

lemma execv_contract:
  assumes "execv L p args st = (Inr i, st')" "env_wf (renv (proc st))"
  shows "\<exists>env. envp i = Some env \<and> contract (renv (proc st)) env"
proof -
  obtain x s1 where x: "redirect_arg L p st = (x, s1)" by fastforce
  obtain c a where "x = Inr (c, a)" using assms(1) by (auto simp: execv_def x split: sum.splits)
  then have e: "exec_script L a args (with_rootfs_path (restored s1)) = (Inr i, st')"
    using assms(1) by (simp add: execv_def x)
  have c: "captured (renv (proc (with_rootfs_path (restored s1)))) = captured (renv (proc st))"
    using redirect_arg_renv [OF x] by simp
  show ?thesis using exec_script_contract [OF e] assms(2) env_wf_cong [OF c] contract_cong [OF c] by simp
qed

lemma execvp_contract:
  assumes "execvp L p args st = (Inr i, st')" "env_wf (renv (proc st))"
  shows "\<exists>env. envp i = Some env \<and> contract (renv (proc st)) env"
proof -
  obtain x s1 where x: "redirect_arg L (Some p) st = (x, s1)" by fastforce
  obtain ch a where a: "x = Inr (ch, a)" using assms(1) by (auto simp: execvp_def x split: sum.splits)
  let ?s = "with_rootfs_path (restored s1)"
  obtain f s2 where f: "find_program L p ?s = (f, s2)" by fastforce
  have c: "captured (renv (proc ?s)) = captured (renv (proc st))" "renv (proc s2) = renv (proc ?s)"
    using redirect_arg_renv [OF x] find_program_renv [OF f] by simp_all
  have "exec_script L a args ?s = (Inr i, st') \<or> exec_script L f args s2 = (Inr i, st')"
    using assms(1) by (cases ch) (simp_all add: execvp_def x a f Let_def)
  then show ?thesis
    using exec_script_contract assms(2) env_wf_cong [OF c(1)] contract_cong [OF c(1)] c(2) by fastforce
qed



section \<open>Interpreters\<close>

definition word_char :: "char \<Rightarrow> bool" where
  "word_char c \<longleftrightarrow> \<not> blank c \<and> c \<noteq> CHR 0x0A \<and> c \<noteq> CHR 0x00"

text \<open>The argument of an interpreter line: one line, without blanks at its ends.\<close>

definition argument_text :: "string \<Rightarrow> bool" where
  "argument_text a \<longleftrightarrow> a \<noteq> [] \<and> \<not> blank (hd a) \<and> \<not> blank (last a) \<and> CHR 0x0A \<notin> set a \<and> CHR 0x00 \<notin> set a"

lemma blank_chars [simp]: "\<not> blank (CHR 0x0A)" "\<not> blank (CHR 0x00)"
  by (simp_all add: blank_def)

lemma dropWhile_blanks: "list_all blank s \<Longrightarrow> dropWhile blank (s @ t) = dropWhile blank t"
  by (induction s) auto

lemma dropWhile_word: "t \<noteq> [] \<Longrightarrow> \<not> blank (hd t) \<Longrightarrow> dropWhile blank t = t"
  by (cases t) auto

lemma strip_blanks_argument:
  assumes "list_all blank s" "argument_text a" "list_all blank t"
  shows "strip_blanks (s @ a @ t) = a"
proof -
  have "dropWhile blank (s @ a @ t) = a @ t"
    using assms by (cases a) (auto simp: dropWhile_blanks argument_text_def)
  moreover have "dropWhile blank (rev t @ rev a) = rev a"
    using assms by (simp add: dropWhile_blanks list_all_iff dropWhile_word argument_text_def hd_rev)
  ultimately show ?thesis by (simp add: strip_blanks_def)
qed

lemma take_through: "length w < n \<Longrightarrow> take n (w @ c # r) = w @ c # take (n - 1 - length w) r"
  by (simp add: take_Cons')

lemma parse_shebang_line:
  assumes "list_all blank s" "interp \<noteq> []" "list_all word_char interp" "list_all blank t" "t \<noteq> []"
    and "argument_text a" "list_all blank u"
  shows "parse_shebang (''#!'' @ s @ interp @ t @ a @ u @ CHR 0x0A # rest) = Some (interp, Some a)"
proof -
  let ?r = "takeWhile (\<lambda>c. c \<noteq> CHR 0x00) rest"
  have nonul: "CHR 0x00 \<notin> set z" if "list_all blank z" for z
    using that blank_chars(2) unfolding list_all_iff by blast
  have nonl: "CHR 0x0A \<notin> set z" if "list_all blank z" for z
    using that blank_chars(1) unfolding list_all_iff by blast
  have w0: "CHR 0x00 \<notin> set interp" using assms(3) unfolding list_all_iff word_char_def by blast
  have a0: "CHR 0x00 \<notin> set a" using assms(6) unfolding argument_text_def by blast
  let ?w = "s @ interp @ t @ a @ u @ [CHR 0x0A]"
  have "CHR 0x00 \<notin> set ?w"
    using w0 a0 nonul [OF assms(1)] nonul [OF assms(4)] nonul [OF assms(7)] by simp
  then have "takeWhile (\<lambda>c. c \<noteq> CHR 0x00) (?w @ rest) = ?w @ ?r"
    by (intro takeWhile_append2) auto
  then have "takeWhile (\<lambda>c. c \<noteq> CHR 0x00) (s @ interp @ t @ a @ u @ CHR 0x0A # rest) =
      s @ interp @ t @ a @ u @ CHR 0x0A # ?r" by simp
  moreover have "dropWhile blank (s @ interp @ t @ a @ u @ CHR 0x0A # ?r) = interp @ t @ a @ u @ CHR 0x0A # ?r"
    using assms(1-3) by (cases interp) (simp_all add: dropWhile_blanks word_char_def)
  moreover have "takeWhile (\<lambda>c. c \<noteq> CHR 0x0A \<and> \<not> blank c) (interp @ t @ a @ u @ CHR 0x0A # ?r) = interp"
    using assms(3-5) by (cases t) (auto simp: takeWhile_append list_all_iff word_char_def)
  moreover obtain b t' where t: "t = b # t'" using assms(5) by (cases t) auto
  moreover have "takeWhile (\<lambda>c. c \<noteq> CHR 0x0A) (t' @ a @ u @ CHR 0x0A # ?r) = t' @ a @ u"
  proof -
    have "CHR 0x0A \<notin> set (t' @ a @ u)"
      using nonl [OF assms(4)] nonl [OF assms(7)] assms(6) t by (auto simp: argument_text_def)
    then show ?thesis using takeWhile_upto [of "CHR 0x0A" "t' @ a @ u" ?r] by simp
  qed
  moreover have "strip_blanks (t' @ a @ u) = a"
    using assms(4,6,7) t by (intro strip_blanks_argument) auto
  moreover have "b \<noteq> CHR 0x0A" using assms(4) t by (auto simp: blank_def)
  ultimately show ?thesis
    using assms(2,6) by (simp add: parse_shebang_def Let_def argument_text_def)
qed

text \<open>What the library reads when it opens \<open>path\<close>, however often: the beginning of \<open>content\<close>.\<close>

definition holds_file :: "'k libc \<Rightarrow> string \<Rightarrow> string \<Rightarrow> bool" where
  "holds_file L path content \<longleftrightarrow> (\<forall>n st. fst (read_start L path n st) = Some (take n content))"

lemma holds_file_read:
  assumes "holds_file L path content"
  obtains st' where "read_start L path n st = (Some (take n content), st')" "renv (proc st') = renv (proc st)"
proof -
  obtain x st' where x: "read_start L path n st = (x, st')" by fastforce
  then have "x = Some (take n content)" using assms unfolding holds_file_def by (metis fst_conv)
  then show ?thesis using that x read_start_renv [OF x] by blast
qed

text \<open>
  A script whose interpreter line fits the first 511 bytes is run by the redirected interpreter:
  its argument (one string, blanks at the ends removed), then the script's path, then the
  caller's arguments after the first.
\<close>
theorem script_interpreter:
  assumes "holds_file L path (''#!'' @ s @ interp @ t @ a @ u @ CHR 0x0A # rest)"
    and "list_all blank s" "interp \<noteq> []" "list_all word_char interp" "list_all blank t" "t \<noteq> []"
    and "argument_text a" "list_all blank u"
    and "length (''#!'' @ s @ interp @ t @ a @ u) < 511"
    and "ordinary interp" "fits b"
    and "fhs_rewrite (runtime_rootfs (renv (proc st))) (runtime_tmpdir (renv (proc st))) interp = Buf b"
  shows "\<exists>i st'. exec_script L path args st = (Inr i, st') \<and> program i = b \<and>
    arguments i = b # a # path # drop 1 (child_arguments st args)"
proof -
  obtain s1 where r: "read_start L path 511 st =
      (Some (take 511 (''#!'' @ s @ interp @ t @ a @ u @ CHR 0x0A # rest)), s1)"
    "renv (proc s1) = renv (proc st)" by (rule holds_file_read [OF assms(1)])
  have "take 511 ((''#!'' @ s @ interp @ t @ a @ u) @ CHR 0x0A # rest) =
      (''#!'' @ s @ interp @ t @ a @ u) @ CHR 0x0A # take (510 - length (''#!'' @ s @ interp @ t @ a @ u)) rest"
    by (subst take_through) (use assms(9) in simp_all)
  then have p: "parse_shebang (take 511 (''#!'' @ s @ interp @ t @ a @ u @ CHR 0x0A # rest)) = Some (interp, Some a)"
    using parse_shebang_line [OF assms(2-8)] by simp
  have "redirect_arg L (Some interp) s1 = (Inr (True, b), s1)"
    using redirect_arg_ordinary [OF assms(10), of s1] assms(12) r(2) by simp
  then have "script_arguments L path (child_arguments st args) st =
      (Some (b, b # a # path # drop 1 (child_arguments st args)), s1)"
    using r(1) p assms(11) by (simp add: script_arguments_def)
  then show ?thesis by (simp add: exec_script_def Let_def)
qed

text \<open>
  A file that starts with \<open>#!\<close> but names no interpreter in its first 511 bytes is refused with
  \<open>ENOEXEC\<close> by \<open>execv\<close>, \<open>execvp\<close>, \<open>execl\<close> and \<open>execlp\<close>, while \<open>execve\<close> (and all that is built
  on it) hands the file itself to the kernel.
\<close>
theorem malformed_interpreter:
  assumes "holds_file L path content" "take 2 content = ''#!''" "parse_shebang (take 511 content) = None"
  shows "fst (exec_script L path args st) = Inl (Some ENOEXEC) \<and>
    (redirect_arg L p st = (Inr (changed, path), st1) \<longrightarrow>
     (\<exists>i. fst (execve L p args env st) = Inr i \<and> program i = path))"
proof -
  have none: "fst (script_arguments L path as s) = None" for as s
  proof -
    obtain s' where "read_start L path 511 s = (Some (take 511 content), s')" by (rule holds_file_read [OF assms(1)])
    then show ?thesis using assms(3) by (simp add: script_arguments_def)
  qed
  obtain x s1 where x: "script_arguments L path (child_arguments st args) st = (x, s1)" by fastforce
  then have x0: "x = None" using none [of "child_arguments st args" st] by simp
  obtain s2 where m: "read_start L path 2 s1 = (Some (take 2 content), s2)" by (rule holds_file_read [OF assms(1)])
  have 1: "fst (exec_script L path args st) = Inl (Some ENOEXEC)"
    using m assms(2) by (simp add: exec_script_def x x0)
  have "\<exists>i. fst (execve L p args env st) = Inr i \<and> program i = path"
    if r: "redirect_arg L p st = (Inr (changed, path), st1)"
  proof -
    obtain y s3 where y: "script_arguments L path (child_arguments st1 args) st1 = (y, s3)" by fastforce
    then have "y = None" using none [of "child_arguments st1 args" st1] by simp
    then show ?thesis using r y by (simp add: execve_def Let_def)
  qed
  then show ?thesis using 1 by blast
qed


section \<open>Children of popen\<close>

definition streams :: "shell_child list \<Rightarrow> nat list" where
  "streams children = map stream children"

lemma take_first:
  "x \<in> set (map f cs) \<Longrightarrow> length (takeWhile (\<lambda>c. f c \<noteq> x) cs) < length cs \<and>
     f (cs ! length (takeWhile (\<lambda>c. f c \<noteq> x) cs)) = x"
  by (induction cs) auto

lemma take_none: "x \<notin> set (map f cs) \<Longrightarrow> length (takeWhile (\<lambda>c. f c \<noteq> x) cs) = length cs"
  by (induction cs) auto

lemma take_updated:
  assumes "x \<notin> set (map f cs)" "i < length cs" "f v = x"
  shows "length (takeWhile (\<lambda>c. f c \<noteq> x) (cs[i := v])) = i"
  using assms by (induction cs arbitrary: i) (auto split: nat.split)

text \<open>
While a slot is free, a \<open>popen\<close> that succeeds records its child, and the next \<open>pclose\<close> of that
  stream waits for exactly this child (through any number of interruptions), returns its status,
  and leaves the table as it was before. With 64 children \<open>popen\<close> fails with \<open>EMFILE\<close>; a stream
  that is not in the table is refused with \<open>EINVAL\<close>, except that the NULL stream matches a free
  slot and waits for process 0.
\<close>
theorem popen_then_pclose:
  assumes "popen_type type" "command \<noteq> None" "0 < child" "s \<noteq> 0" "s \<notin> set (streams children)"
    and "\<forall>c\<in>set children. stream c = 0 \<longrightarrow> pid c = 0"
    and "length children = SHELL_CHILD_SLOTS"
  shows "(0 \<in> set (streams children) \<longrightarrow>
      (\<exists>children'. popen (Inr ()) (Inr child) (Inr s) command type children = (Inr s, children') \<and>
         pclose s 0 (replicate k (Inl EINTR) @ [Inr status]) children' = (Some (Inr status, Some child), children)) \<and>
      (\<exists>children'. pclose 0 closed [Inr status] children = (Some (Inr (if closed = 0 then status else -1), Some 0), children'))) \<and>
    (0 \<notin> set (streams children) \<longrightarrow>
      popen (Inr ()) (Inr child) (Inr s) command type children = (Inl EMFILE, children)) \<and>
    pclose s closed answers children = (Some (Inl EINVAL, None), children)"
proof -
  let ?i = "length (takeWhile (\<lambda>c. stream c \<noteq> 0) children)"
  have wait: "wait_child (replicate k (Inl EINTR) @ [Inr status]) = Some (Inr status)" for k status
    by (induction k) simp_all
  have unknown: "length (takeWhile (\<lambda>c. stream c \<noteq> s) children) = length children"
    using take_none [of s stream children] assms(5) by (simp add: streams_def)
  have A: "\<exists>children'. popen (Inr ()) (Inr child) (Inr s) command type children = (Inr s, children') \<and>
      pclose s 0 (replicate k (Inl EINTR) @ [Inr status]) children' = (Some (Inr status, Some child), children)"
    and N: "\<exists>children'. pclose 0 closed [Inr status] children = (Some (Inr (if closed = 0 then status else -1), Some 0), children')"
    if free: "0 \<in> set (streams children)"
  proof -
    have i: "?i < length children" "stream (children ! ?i) = 0"
      using take_first [of 0 stream children] free by (simp_all add: streams_def)
    have p0: "pid (children ! ?i) = 0" using assms(6) i by simp
    have slot: "children ! ?i = \<lparr>stream = 0, pid = 0\<rparr>" using i(2) p0 by simp
    define c' where "c' = children[?i := \<lparr>stream = s, pid = child\<rparr>]"
    have pop: "popen (Inr ()) (Inr child) (Inr s) command type children = (Inr s, c')"
      using assms(1,2) i(1) by (auto simp: popen_def c'_def)
    have idx: "length (takeWhile (\<lambda>c. stream c \<noteq> s) c') = ?i"
      unfolding c'_def by (rule take_updated) (use assms(5) i(1) in \<open>simp_all add: streams_def\<close>)
    have again: "c'[?i := \<lparr>stream = 0, pid = 0\<rparr>] = children" "c' ! ?i = \<lparr>stream = s, pid = child\<rparr>" "?i < length c'"
      using i(1) list_update_id [of children ?i, unfolded slot] by (simp_all add: c'_def)
    have "pclose s 0 (replicate k (Inl EINTR) @ [Inr status]) c' = (Some (Inr status, Some child), children)"
      using assms(3) again by (simp add: pclose_def idx wait Let_def)
    then show "\<exists>children'. popen (Inr ()) (Inr child) (Inr s) command type children = (Inr s, children') \<and>
      pclose s 0 (replicate k (Inl EINTR) @ [Inr status]) children' = (Some (Inr status, Some child), children)"
      using pop by blast
    show "\<exists>children'. pclose 0 closed [Inr status] children = (Some (Inr (if closed = 0 then status else -1), Some 0), children')"
      using i(1) p0 by (simp add: pclose_def Let_def)
  qed
  have F: "popen (Inr ()) (Inr child) (Inr s) command type children = (Inl EMFILE, children)"
    if "0 \<notin> set (streams children)"
    using that take_none [of 0 stream children] assms(1,2) by (auto simp: popen_def streams_def)
  have U: "pclose s closed answers children = (Some (Inl EINVAL, None), children)"
    using unknown by (simp add: pclose_def)
  show ?thesis using A N F U by blast
qed

section \<open>The properties at work\<close>

definition demo_script :: string where
  "demo_script = ''#!/bin/sh -e'' @ [CHR 0x0A] @ ''exit''"

text \<open>A kernel on which every file holds \<open>content\<close>.\<close>

definition script_next :: "string \<Rightarrow> call \<Rightarrow> unit \<Rightarrow> reply \<times> unit" where
  "script_next content c k = (case c of
      At (C_open _ _) _ \<Rightarrow> (returned 3, k)
    | Only (C_read d n) \<Rightarrow> ((returned (int (min n (length content))))\<lparr>str := take n content\<rparr>, k)
    | _ \<Rightarrow> (returned 0, k))"

definition script_libc :: "string \<Rightarrow> unit libc" where
  "script_libc content = \<lparr>base = dead_kernel, next = script_next content\<rparr>"

lemma script_redirect: "redirect_arg L (Some ''/data/x'') st = (Inr (False, ''/data/x''), st)"
proof -
  have "bionicx_redirect_path (base L) ''/data/x'' (proc st) = (Same, proc st)"
    by (rule redirect_outside) (simp add: top_dir_def guest_dirs_def)
  then show ?thesis by (simp add: redirect_arg_def)
qed

lemma script_holds: "holds_file (script_libc content) ''/data/x'' content"
proof -
  have "take (min n (length content)) (take n content) = take n content" for n
    by (simp add: min_def)
  then show ?thesis
    by (simp add: holds_file_def read_start_def open_path_def with_path_def script_redirect [simplified]
        call_def script_libc_def script_next_def returned_def Let_def)
qed

theorem script_interpreter_witness:
  "\<exists>i st'. exec_script (script_libc demo_script) ''/data/x'' [''x'', ''1''] demo_fhs = (Inr i, st') \<and>
     program i = ''/data/r/bin/sh''"
proof -
  let ?s = "''#!'' @ [] @ ''/bin/sh'' @ '' '' @ ''-e'' @ [] @ CHR 0x0A # ''exit''"
  have c: "demo_script = ?s" by (simp add: demo_script_def)
  have ord: "ordinary ''/bin/sh''" by (simp add: ordinary_def at_or_below_def)
  have rw: "fhs_rewrite (runtime_rootfs (renv (proc demo_fhs))) (runtime_tmpdir (renv (proc demo_fhs)))
      ''/bin/sh'' = Buf ''/data/r/bin/sh''"
    by (simp add: demo_fhs_dirs) code_simp
  have h: "holds_file (script_libc demo_script) ''/data/x'' ?s"
    unfolding c [symmetric] by (rule script_holds)
  have w: "list_all word_char ''/bin/sh''" "list_all blank '' ''" "argument_text ''-e''" "list_all blank []"
    by (simp_all add: word_char_def blank_def argument_text_def)
  show ?thesis
    using script_interpreter [OF h w(4) _ w(1) w(2) _ w(3) w(4) _ ord _ rw, of "[''x'', ''1'']"]
    by (auto simp: fits_def PATH_MAX_def)
qed

theorem malformed_interpreter_witness:
  "fst (exec_script (script_libc ''#! '') ''/data/x'' [''x''] demo_fhs) = Inl (Some ENOEXEC) \<and>
   (\<exists>i. fst (execve (script_libc ''#! '') (Some ''/data/x'') [''x''] None demo_fhs) = Inr i \<and> program i = ''/data/x'')"
proof -
  have p: "parse_shebang (take 511 ''#! '') = None" by (simp add: parse_shebang_def blank_def)
  show ?thesis
    using malformed_interpreter [OF script_holds _ p, of "[''x'']" demo_fhs "Some ''/data/x''" False demo_fhs None]
      script_redirect [of "script_libc ''#! ''" demo_fhs] by simp
qed


theorem popen_then_pclose_witness:
  "\<exists>children'. popen (Inr ()) (Inr 42) (Inr 9) (Some ''ls'') (Some ''r'')
       (replicate 64 \<lparr>stream = 0, pid = 0\<rparr>) = (Inr 9, children') \<and>
     pclose 9 0 (replicate 2 (Inl EINTR) @ [Inr 5]) children' =
       (Some (Inr 5, Some 42), replicate 64 \<lparr>stream = 0, pid = 0\<rparr>)"
proof -
  have "popen_type (Some ''r'')" by (simp add: popen_type_def)
  from popen_then_pclose [OF this, of "Some ''ls''" 42 9 "replicate 64 \<lparr>stream = 0, pid = 0\<rparr>" 2 5]
  show ?thesis by (simp add: streams_def SHELL_CHILD_SLOTS_def)
qed


end
