(* ===== verification/Executor.thy ===== *)
theory Executor
  imports RuntimeEnv
begin

text \<open>
  The executor \<open>native/executor/bionicx-exec.c\<close>: command line, set-up of the child, the traced
  handshake at the exec boundary, signal diagnosis, and the supervision of the session.

  The kernel's answers are parameters. What \<open>waitpid\<close> reports over time is a list of
  \<open>notice\<close>s; a computation that comes to the end of the list is still waiting and its value
  is \<open>None\<close>. Requests (\<open>ptrace\<close>, \<open>kill\<close>, ...) are logged, and the answer to a request may
  depend on everything requested before it. Messages on standard error are not modelled.
\<close>

section \<open>The command line\<close>

record assignment =
  avalue :: string
  aunset :: bool

record options =
  cwd :: "string option"
  argv0 :: "string option"
  assignments :: "assignment list"
  diagnose :: bool
  debug_stop :: bool
  command_index :: nat

definition no_options :: options where
  "no_options = \<lparr>cwd = None, argv0 = None, assignments = [], diagnose = False, debug_stop = False, command_index = 0\<rparr>"

definition append_assignment :: "string \<Rightarrow> bool \<Rightarrow> options \<Rightarrow> options" where
  "append_assignment v un o' = o'\<lparr>assignments := assignments o' @ [\<lparr>avalue = v, aunset = un\<rparr>]\<rparr>"

text \<open>\<open>--help\<close> prints the usage and exits with 0.\<close>

datatype parsed = Parsed options | Rejected | Help

text \<open>
  The loop of \<open>parse_options\<close> at index \<open>i\<close>: \<open>args\<close> is what is left of \<open>argv\<close>, and
  \<open>take_value\<close> is the pattern \<open>v # rest\<close>.
\<close>

definition finish_options :: "nat \<Rightarrow> options \<Rightarrow> parsed" where
  "finish_options argc o' =
     (if command_index o' = 0 \<or> argc \<le> command_index o' then Rejected else Parsed o')"

definition take_value :: "string list \<Rightarrow> (string \<Rightarrow> string list \<Rightarrow> parsed) \<Rightarrow> parsed" where
  "take_value args f = (case args of [] \<Rightarrow> Rejected | v # rest \<Rightarrow> f v rest)"

lemma take_value_cong [fundef_cong]:
  "args = args' \<Longrightarrow> (\<And>v rest. args' = v # rest \<Longrightarrow> f v rest = g v rest) \<Longrightarrow> take_value args f = take_value args' g"
  by (simp add: take_value_def split: list.split)

fun parse_from :: "nat \<Rightarrow> nat \<Rightarrow> string list \<Rightarrow> options \<Rightarrow> parsed" where
  "parse_from argc i [] o' = finish_options argc o'"
| "parse_from argc i (arg # args) o' =
     (if arg = ''--'' then finish_options argc (o'\<lparr>command_index := i + 1\<rparr>)
      else if arg = ''--cwd'' then
        take_value args (\<lambda>v rest. parse_from argc (i + 2) rest (o'\<lparr>cwd := Some v\<rparr>))
      else if arg = ''--argv0'' then
        take_value args (\<lambda>v rest. parse_from argc (i + 2) rest (o'\<lparr>argv0 := Some v\<rparr>))
      else if arg = ''--env'' then
        take_value args (\<lambda>v rest. if CHR ''='' \<notin> set v then Rejected
          else parse_from argc (i + 2) rest (append_assignment v False o'))
      else if arg = ''--unset'' then
        take_value args (\<lambda>v rest. if CHR ''='' \<in> set v then Rejected
          else parse_from argc (i + 2) rest (append_assignment v True o'))
      else if arg = ''--diagnose-signals'' then parse_from argc (i + 1) args (o'\<lparr>diagnose := True\<rparr>)
      else if arg = ''--debug-stop'' then parse_from argc (i + 1) args (o'\<lparr>debug_stop := True\<rparr>)
      else if arg = ''--help'' then Help
      else Rejected)"

definition parse_options :: "string list \<Rightarrow> parsed" where
  "parse_options argv = parse_from (length argv) 1 (drop 1 argv) no_options"

section \<open>The child\<close>

text \<open>
  \<open>setenv\<close> and \<open>unsetenv\<close> of Android's C library refuse an empty name; \<open>entry\<close> with no
  \<open>=\<close> cannot occur after \<open>parse_options\<close> (\<open>strchr\<close> would return NULL).
\<close>

definition apply_assignment :: "assignment \<Rightarrow> string list \<Rightarrow> string list option" where
  "apply_assignment a env =
     (if aunset a then (if avalue a = '''' then None else Some (libc_unsetenv (avalue a) env))
      else let name = takeWhile (\<lambda>c. c \<noteq> CHR ''='') (avalue a) in
        if CHR ''='' \<notin> set (avalue a) \<or> name = '''' then None
        else Some (libc_setenv name (drop (Suc (length name)) (avalue a)) env))"

fun apply_assignments :: "assignment list \<Rightarrow> string list \<Rightarrow> string list option" where
  "apply_assignments [] env = Some env"
| "apply_assignments (a # as) env =
     (case apply_assignment a env of None \<Rightarrow> None | Some env' \<Rightarrow> apply_assignments as env')"

text \<open>\<open>enter d\<close> says whether \<open>chdir d\<close> succeeds. The environment and the working directory.\<close>

definition configure_child ::
    "(string \<Rightarrow> bool) \<Rightarrow> options \<Rightarrow> string list \<times> string \<Rightarrow> (string list \<times> string) option" where
  "configure_child enter o' st = (case st of (env, dir) \<Rightarrow>
     (case apply_assignments (assignments o') env of
        None \<Rightarrow> None
      | Some env' \<Rightarrow> (case cwd o' of
          None \<Rightarrow> Some (env', dir)
        | Some d \<Rightarrow> if enter d then Some (env', d) else None)))"

text \<open>\<open>limit\<close>: the answer of \<open>sysconf (_SC_OPEN_MAX)\<close>, used when \<open>close_range\<close> is refused.\<close>

definition close_inherited_fds :: "bool \<Rightarrow> int \<Rightarrow> int list \<Rightarrow> int list" where
  "close_inherited_fds ranged limit open_fds =
     (if ranged then filter (\<lambda>fd. fd < 3) open_fds
      else let limit = (if limit < 32 then 1024 else limit);
               limit = (if limit > 65536 then 65536 else limit) in
        filter (\<lambda>fd. fd < 3 \<or> limit \<le> fd) open_fds)"

text \<open>The path that is executed and the child's arguments.\<close>

definition build_child_argv :: "string list \<Rightarrow> options \<Rightarrow> string \<times> string list" where
  "build_child_argv argv o' =
     (let child = drop (command_index o') argv in
      (argv ! command_index o',
       case argv0 o' of None \<Rightarrow> child | Some a \<Rightarrow> child[0 := a]))"

section \<open>What the kernel reports\<close>

text \<open>
  The status word of \<open>waitpid\<close> as \<open>WIFEXITED\<close>, \<open>WIFSIGNALED\<close> and \<open>WIFSTOPPED\<close> read it; a
  stop carries its signal and its \<open>ptrace\<close> event (0: none).

  \<open>Delivered n\<close>: the handler of \<open>SIGTERM\<close>, \<open>SIGINT\<close> or \<open>SIGHUP\<close> runs; when it interrupts a
  wait, \<open>Wait_error EINTR\<close> follows. \<open>Idle\<close>: no child has anything to report.
\<close>

datatype wait_status = Exited nat | Signaled nat | Stopped nat nat

datatype notice = Reports int wait_status | Wait_error errno | Delivered nat | Idle

definition ECHILD :: errno where "ECHILD = Errno 10"

abbreviation SIGHUP :: nat where "SIGHUP \<equiv> 1"
abbreviation SIGINT :: nat where "SIGINT \<equiv> 2"
abbreviation SIGILL :: nat where "SIGILL \<equiv> 4"
abbreviation SIGTRAP :: nat where "SIGTRAP \<equiv> 5"
abbreviation SIGABRT :: nat where "SIGABRT \<equiv> 6"
abbreviation SIGBUS :: nat where "SIGBUS \<equiv> 7"
abbreviation SIGKILL :: nat where "SIGKILL \<equiv> 9"
abbreviation SIGSEGV :: nat where "SIGSEGV \<equiv> 11"
abbreviation SIGTERM :: nat where "SIGTERM \<equiv> 15"
abbreviation SIGSTOP :: nat where "SIGSTOP \<equiv> 19"
abbreviation SIGSYS :: nat where "SIGSYS \<equiv> 31"
abbreviation PTRACE_EVENT_EXEC :: nat where "PTRACE_EVENT_EXEC \<equiv> 4"

datatype trace_option = TRACEEXEC | TRACEFORK | TRACEVFORK | TRACECLONE

datatype request =
    Set_group int | Set_options int "trace_option list" | Continue int nat | Single_step int
  | Get_siginfo int | Get_registers int | Detach int | Trace_kill int | Kill int nat | Sleep_50ms

record session =
  notices :: "notice list"
  requests :: "request list"
  shutdown_signal :: nat

text \<open>
  \<open>refused rs\<close>: the error of the last request of \<open>rs\<close>, if it fails; \<open>trapped rs\<close>: the system
  call number in the registers that the last request reads.
\<close>

record tracer =
  refused :: "request list \<Rightarrow> errno option"
  trapped :: "request list \<Rightarrow> nat"

definition ask :: "tracer \<Rightarrow> request \<Rightarrow> session \<Rightarrow> errno option \<times> session" where
  "ask K r s = (refused K (requests s @ [r]), s\<lparr>requests := requests s @ [r]\<rparr>)"

definition tell :: "request \<Rightarrow> session \<Rightarrow> session" where
  "tell r s = s\<lparr>requests := requests s @ [r]\<rparr>"

section \<open>Waiting\<close>

text \<open>
  The next answer of a blocking \<open>waitpid\<close> for the processes in \<open>P\<close>. Reports about other
  processes stay queued.
\<close>

fun take_notice :: "(int \<Rightarrow> bool) \<Rightarrow> notice list \<Rightarrow> nat \<Rightarrow> ((errno + int \<times> wait_status) \<times> notice list \<times> nat) option" where
  "take_notice P [] g = None"
| "take_notice P (Delivered n # ns) g = take_notice P ns n"
| "take_notice P (Idle # ns) g = take_notice P ns g"
| "take_notice P (Wait_error e # ns) g = Some (Inl e, ns, g)"
| "take_notice P (Reports p st # ns) g =
     (if P p then Some (Inr (p, st), ns, g)
      else map_option (\<lambda>(a, ns', g'). (a, Reports p st # ns', g')) (take_notice P ns g))"

definition await :: "(int \<Rightarrow> bool) \<Rightarrow> session \<Rightarrow> ((errno + int \<times> wait_status) \<times> session) option" where
  "await P s = map_option (\<lambda>(a, ns, g). (a, s\<lparr>notices := ns, shutdown_signal := g\<rparr>))
     (take_notice P (notices s) (shutdown_signal s))"

lemma take_notice_shorter: "take_notice P ns g = Some (a, ns', g') \<Longrightarrow> length ns' < length ns"
  by (induction P ns g arbitrary: a ns' g' rule: take_notice.induct) (auto split: if_splits)

lemma await_shorter: "await P s = Some (a, s') \<Longrightarrow> length (notices s') < length (notices s)"
  by (auto simp: await_def dest: take_notice_shorter)

text \<open>The stop's signal and event, or \<open>None\<close> when the process did not stop as expected.\<close>

function wait_for_stop :: "int \<Rightarrow> nat option \<Rightarrow> session \<Rightarrow> ((nat \<times> nat) option \<times> session) option" where
  "wait_for_stop child expected s = (case await (\<lambda>p. p = child) s of
      None \<Rightarrow> None
    | Some (Inl e, s') \<Rightarrow> if e = EINTR then wait_for_stop child expected s' else Some (None, s')
    | Some (Inr (_, st), s') \<Rightarrow> Some (case st of
          Stopped n event \<Rightarrow> if expected \<noteq> None \<and> expected \<noteq> Some n then None else Some (n, event)
        | _ \<Rightarrow> None, s'))"
  by pat_completeness auto
termination by (relation "measure (\<lambda>(_, _, s). length (notices s))") (auto dest: await_shorter)

declare wait_for_stop.simps [simp del]

section \<open>The handshake at the exec boundary\<close>

text \<open>A step of the parent: it may end the program with an exit code.\<close>

type_synonym 'a act = "session \<Rightarrow> ((nat + 'a) \<times> session) option"

definition done_with :: "'a \<Rightarrow> 'a act" where "done_with x s = Some (Inr x, s)"
definition exit_with :: "nat \<Rightarrow> 'a act" where "exit_with code s = Some (Inl code, s)"

definition and_then :: "'a act \<Rightarrow> ('a \<Rightarrow> 'b act) \<Rightarrow> 'b act" where
  "and_then m f s = (case m s of
      None \<Rightarrow> None
    | Some (Inl code, s') \<Rightarrow> Some (Inl code, s')
    | Some (Inr x, s') \<Rightarrow> f x s')"

definition must :: "tracer \<Rightarrow> request \<Rightarrow> nat \<Rightarrow> unit act" where
  "must K r code s = (case ask K r s of
      (None, s') \<Rightarrow> Some (Inr (), s')
    | (Some _, s') \<Rightarrow> Some (Inl code, s'))"

definition stop_of :: "int \<Rightarrow> nat option \<Rightarrow> nat \<Rightarrow> (nat \<times> nat) act" where
  "stop_of child expected code s = (case wait_for_stop child expected s of
      None \<Rightarrow> None
    | Some (None, s') \<Rightarrow> Some (Inl code, s')
    | Some (Some st, s') \<Rightarrow> Some (Inr st, s'))"

definition set_group :: "tracer \<Rightarrow> int \<Rightarrow> unit act" where
  "set_group K child s = (case ask K (Set_group child) s of
      (None, s') \<Rightarrow> Some (Inr (), s')
    | (Some e, s') \<Rightarrow> if e = EACCES then Some (Inr (), s') else Some (Inl 111, tell (Kill child SIGKILL) s'))"

definition handshake :: "tracer \<Rightarrow> int \<Rightarrow> unit act" where
  "handshake K child =
     and_then (set_group K child) (\<lambda>_.
     and_then (stop_of child (Some SIGSTOP) 3) (\<lambda>_.
     and_then (must K (Set_options child [TRACEEXEC]) 4) (\<lambda>_.
     and_then (must K (Continue child 0) 5) (\<lambda>_.
     and_then (stop_of child (Some SIGTRAP) 6) (\<lambda>(_, event).
     if event \<noteq> PTRACE_EVENT_EXEC then exit_with 6 else
     and_then (must K (Single_step child) 7) (\<lambda>_.
     and_then (stop_of child None 8) (\<lambda>(n, _).
     if n = SIGSEGV then
       and_then (must K (Get_siginfo child) 9) (\<lambda>_.
       and_then (must K (Single_step child) 10) (\<lambda>_.
       and_then (stop_of child (Some SIGTRAP) 11) (\<lambda>_. done_with ())))
     else if n \<noteq> SIGTRAP then exit_with 12
     else done_with ())))))))"

section \<open>Signal diagnosis\<close>

definition is_handled_android_seccomp_probe :: "tracer \<Rightarrow> int \<Rightarrow> session \<Rightarrow> bool \<times> session" where
  "is_handled_android_seccomp_probe K p s = (case ask K (Get_registers p) s of
      (Some _, s') \<Rightarrow> (False, s')
    | (None, s') \<Rightarrow> (trapped K (requests s') \<in> {444, 264}, s'))"

definition fatal_signals :: "nat set" where
  "fatal_signals = {SIGTRAP, SIGSYS, SIGSEGV, SIGBUS, SIGILL, SIGABRT}"

text \<open>One stop of the process \<open>p\<close>: an exit code, or nothing when it goes on.\<close>

definition handle_stop :: "tracer \<Rightarrow> int \<Rightarrow> int \<Rightarrow> nat \<Rightarrow> nat \<Rightarrow> session \<Rightarrow> nat option \<times> session" where
  "handle_stop K child p n event s =
     (let go_on = (\<lambda>delivered s. case ask K (Continue p delivered) s of
            (None, s') \<Rightarrow> (None, s') | (Some _, s') \<Rightarrow> (Some 22, s'));
          (probe, s) = (if n = SIGSYS then is_handled_android_seccomp_probe K p s else (False, s)) in
      if n = SIGTRAP \<and> event \<noteq> 0 then go_on 0 s
      else if n = SIGSYS \<and> probe then go_on SIGSYS s
      else if n \<in> fatal_signals then
        (Some (128 + n), tell (Trace_kill p) (tell (Kill (- child) SIGKILL) s))
      else go_on (if n = SIGSTOP then 0 else n) s)"

function diagnose_loop :: "tracer \<Rightarrow> int \<Rightarrow> session \<Rightarrow> (nat \<times> session) option" where
  "diagnose_loop K child s = (case await (\<lambda>_. True) s of
      None \<Rightarrow> None
    | Some (Inl e, s') \<Rightarrow> if e = EINTR then diagnose_loop K child s' else Some (21, s')
    | Some (Inr (p, st), s') \<Rightarrow> (case st of
          Exited c \<Rightarrow> if p = child then Some (c, s') else diagnose_loop K child s'
        | Signaled n \<Rightarrow> if p = child then Some (128 + n, s') else diagnose_loop K child s'
        | Stopped n event \<Rightarrow> (case handle_stop K child p n event s' of
            (Some code, t) \<Rightarrow> Some (code, t)
          | (None, t) \<Rightarrow> diagnose_loop K child t)))"
  by pat_completeness auto


lemma handle_stop_notices: "handle_stop K child p n event s = (c, s') \<Longrightarrow> notices s' = notices s"
  by (auto simp: handle_stop_def ask_def tell_def is_handled_android_seccomp_probe_def Let_def
      split: prod.splits option.splits if_splits)

termination diagnose_loop
  by (relation "measure (\<lambda>(_, _, s). length (notices s))")
    (auto dest!: await_shorter handle_stop_notices handle_stop_notices [OF sym])

declare diagnose_loop.simps [simp del]

definition diagnose_signals :: "tracer \<Rightarrow> int \<Rightarrow> session \<Rightarrow> (nat \<times> session) option" where
  "diagnose_signals K child s =
     (case ask K (Set_options child [TRACEEXEC, TRACEFORK, TRACEVFORK, TRACECLONE]) s of
        (Some _, s') \<Rightarrow> Some (19, s')
      | (None, s') \<Rightarrow> (case ask K (Continue child 0) s' of
          (Some _, s'') \<Rightarrow> Some (20, s'')
        | (None, s'') \<Rightarrow> diagnose_loop K child s''))"

section \<open>Supervision\<close>

definition signal_session :: "int \<Rightarrow> nat \<Rightarrow> session \<Rightarrow> session" where
  "signal_session primary n s =
     tell (Kill (-1) n) (if 0 < primary then tell (Kill (- primary) n) s else s)"

text \<open>\<open>waitpid\<close> with \<open>WNOHANG\<close> does not block: \<open>Idle\<close> is the answer 0.\<close>

fun reap_notices :: "notice list \<Rightarrow> nat \<Rightarrow> (bool \<times> notice list \<times> nat) option" where
  "reap_notices [] g = None"
| "reap_notices (Delivered n # ns) g = reap_notices ns n"
| "reap_notices (Reports _ _ # ns) g = reap_notices ns g"
| "reap_notices (Idle # ns) g = Some (False, ns, g)"
| "reap_notices (Wait_error e # ns) g =
     (if e = EINTR then reap_notices ns g else Some (e = ECHILD, ns, g))"

definition reap_and_check_empty :: "session \<Rightarrow> (bool \<times> session) option" where
  "reap_and_check_empty s = map_option (\<lambda>(empty, ns, g). (empty, s\<lparr>notices := ns, shutdown_signal := g\<rparr>))
     (reap_notices (notices s) (shutdown_signal s))"

text \<open>The loop of attempts; \<open>True\<close>: the session is empty.\<close>

fun ask_to_stop :: "nat \<Rightarrow> int \<Rightarrow> session \<Rightarrow> (bool \<times> session) option" where
  "ask_to_stop 0 primary s = Some (False, s)"
| "ask_to_stop (Suc attempts) primary s = (case reap_and_check_empty s of
      None \<Rightarrow> None
    | Some (True, s') \<Rightarrow> Some (True, s')
    | Some (False, s') \<Rightarrow> ask_to_stop attempts primary (tell Sleep_50ms (signal_session primary SIGTERM s')))"

function drain :: "session \<Rightarrow> session option" where
  "drain s = (case await (\<lambda>_. True) s of
      None \<Rightarrow> None
    | Some (Inr _, s') \<Rightarrow> drain s'
    | Some (Inl e, s') \<Rightarrow> if e = EINTR then drain s' else Some s')"
  by pat_completeness auto
termination by (relation "measure (\<lambda>s. length (notices s))") (auto dest: await_shorter)

declare drain.simps [simp del]

definition terminate_session :: "int \<Rightarrow> session \<Rightarrow> session option" where
  "terminate_session primary s =
     (case ask_to_stop 40 primary (signal_session primary SIGTERM s) of
        None \<Rightarrow> None
      | Some (True, s') \<Rightarrow> Some s'
      | Some (False, s') \<Rightarrow> drain (signal_session primary SIGKILL s'))"

definition exit_status :: "wait_status \<Rightarrow> nat" where
  "exit_status st = (case st of Exited c \<Rightarrow> c | Signaled n \<Rightarrow> 128 + n | Stopped _ _ \<Rightarrow> 1)"

text \<open>\<open>primary_status\<close>: the status of the primary process, once it has exited.\<close>

function supervise_loop :: "int \<Rightarrow> wait_status option \<Rightarrow> session \<Rightarrow> (nat \<times> session) option" where
  "supervise_loop primary primary_status s = (case await (\<lambda>_. True) s of
      None \<Rightarrow> None
    | Some (Inl e, s') \<Rightarrow>
        if e = EINTR then
          if shutdown_signal s' \<noteq> 0
          then map_option (\<lambda>t. (128 + shutdown_signal s', t)) (terminate_session primary s')
          else supervise_loop primary primary_status s'
        else (case primary_status of
            Some st \<Rightarrow> Some (if e = ECHILD then exit_status st else 1, s')
          | None \<Rightarrow> Some (1, s'))
    | Some (Inr (p, st), s') \<Rightarrow>
        supervise_loop primary (if p = primary then Some st else primary_status) s')"
  by pat_completeness auto
termination by (relation "measure (\<lambda>(_, _, s). length (notices s))") (auto dest: await_shorter)

declare supervise_loop.simps [simp del]

definition supervise_session :: "int \<Rightarrow> session \<Rightarrow> (nat \<times> session) option" where
  "supervise_session primary s = supervise_loop primary None s"

section \<open>The program\<close>

text \<open>
  The child after \<open>fork\<close>. The answers of the kernel: \<open>PR_SET_PDEATHSIG\<close> together with the
  test that the parent is still there, the reset of the signals, \<open>PTRACE_TRACEME\<close>, \<open>chdir\<close>,
  \<open>close_range\<close> and \<open>sysconf\<close>, and \<open>execv\<close>, which returns only when it fails.
\<close>

record child_env =
  tied :: bool
  signals_reset :: bool
  traced :: bool
  enter :: "string \<Rightarrow> bool"
  ranged :: bool
  max_open :: int
  exec_error :: "errno option"

datatype child_end =
    Child_exit nat
  | Child_runs string "string list" "string list" string "int list"

definition child_main ::
    "child_env \<Rightarrow> string list \<Rightarrow> options \<Rightarrow> string list \<times> string \<Rightarrow> int list \<Rightarrow> child_end" where
  "child_main C argv o' st open_fds =
     (if \<not> tied C then Child_exit 119
      else if \<not> signals_reset C then Child_exit 118
      else if \<not> traced C then Child_exit 120
      else case configure_child (enter C) o' st of
        None \<Rightarrow> Child_exit 121
      | Some (env, dir) \<Rightarrow>
          let fds = close_inherited_fds (ranged C) (max_open C) open_fds;
              (path, args) = build_child_argv argv o' in
          (case exec_error C of
             None \<Rightarrow> Child_runs path args env dir fds
           | Some e \<Rightarrow> Child_exit (if e = EACCES then 126 else 127)))"

text \<open>The wait for the debugger's stop, with \<open>WUNTRACED\<close>.\<close>

function debug_wait :: "int \<Rightarrow> session \<Rightarrow> (bool \<times> session) option" where
  "debug_wait child s = (case await (\<lambda>p. p = child) s of
      None \<Rightarrow> None
    | Some (Inl e, s') \<Rightarrow> if e = EINTR then debug_wait child s' else Some (False, s')
    | Some (Inr (_, st), s') \<Rightarrow> Some (case st of Stopped n _ \<Rightarrow> n = SIGSTOP | _ \<Rightarrow> False, s'))"
  by pat_completeness auto
termination by (relation "measure (\<lambda>(_, s). length (notices s))") (auto dest: await_shorter)

declare debug_wait.simps [simp del]

text \<open>\<open>handlers\<close>: whether the shutdown handlers can be installed.\<close>

definition parent_main :: "tracer \<Rightarrow> bool \<Rightarrow> options \<Rightarrow> int \<Rightarrow> session \<Rightarrow> (nat \<times> session) option" where
  "parent_main K handlers o' child s = (case handshake K child s of
      None \<Rightarrow> None
    | Some (Inl code, s') \<Rightarrow> Some (code, s')
    | Some (Inr _, s') \<Rightarrow>
        if diagnose o' then diagnose_signals K child s' else
        (case ask K (Detach child) s' of
           (Some _, t) \<Rightarrow> Some (13, t)
         | (None, t) \<Rightarrow>
             if \<not> handlers then Some (111, tell (Kill (- child) SIGKILL) t)
             else if debug_stop o' then
               (case debug_wait child (tell (Kill child SIGSTOP) t) of
                  None \<Rightarrow> None
                | Some (False, u) \<Rightarrow> Some (14, u)
                | Some (True, u) \<Rightarrow> supervise_session child u)
             else supervise_session child t))"

text \<open>\<open>forked\<close>: the child's process identifier, when both the subreaper request and \<open>fork\<close> succeed.\<close>

definition executor_main :: "tracer \<Rightarrow> bool \<Rightarrow> int option \<Rightarrow> string list \<Rightarrow> session \<Rightarrow> (nat \<times> session) option" where
  "executor_main K handlers forked argv s = (case parse_options argv of
      Help \<Rightarrow> Some (0, s)
    | Rejected \<Rightarrow> Some (2, s)
    | Parsed o' \<Rightarrow> (case forked of None \<Rightarrow> Some (111, s) | Some child \<Rightarrow> parent_main K handlers o' child s))"


section \<open>After the handshake the application is untraced\<close>

lemma await_requests: "await P s = Some (a, s') \<Longrightarrow> requests s' = requests s"
  by (auto simp: await_def)

lemma wait_for_stop_requests: "wait_for_stop child expected s = Some (a, s') \<Longrightarrow> requests s' = requests s"
proof (induction child expected s arbitrary: a s' rule: wait_for_stop.induct)
  case (1 child expected s)
  note eq = 1(2) [unfolded wait_for_stop.simps [of child expected s]]
  obtain x u where w: "await (\<lambda>p. p = child) s = Some (x, u)" using eq by (auto split: option.splits)
  show ?case using eq await_requests [OF w] 1(1) [OF w refl _ refl]
    by (cases x) (auto simp: w split: if_splits)
qed

lemma debug_wait_requests: "debug_wait child s = Some (a, s') \<Longrightarrow> requests s' = requests s"
proof (induction child s arbitrary: a s' rule: debug_wait.induct)
  case (1 child s)
  note eq = 1(2) [unfolded debug_wait.simps [of child s]]
  obtain x u where w: "await (\<lambda>p. p = child) s = Some (x, u)" using eq by (auto split: option.splits)
  show ?case using eq await_requests [OF w] 1(1) [OF w refl _ refl]
    by (cases x) (auto simp: w split: if_splits)
qed

lemma and_then_Inr: "and_then m f s = Some (Inr y, t) \<longleftrightarrow> (\<exists>x s'. m s = Some (Inr x, s') \<and> f x s' = Some (Inr y, t))"
  by (auto simp: and_then_def split: option.splits sum.splits)

lemma and_then_Inl: "and_then m f s = Some (Inl c, t) \<longleftrightarrow>
    m s = Some (Inl c, t) \<or> (\<exists>x s'. m s = Some (Inr x, s') \<and> f x s' = Some (Inl c, t))"
  by (auto simp: and_then_def split: option.splits sum.splits)

lemma stop_of_result: "stop_of child expected code s = Some (r, t) \<Longrightarrow>
    requests t = requests s \<and> (case r of Inl c \<Rightarrow> c = code | Inr _ \<Rightarrow> True)"
  by (auto simp: stop_of_def split: option.splits dest: wait_for_stop_requests)

lemma must_result: "must K r code s = Some (a, t) \<Longrightarrow>
    requests t = requests s @ [r] \<and> (case a of Inl c \<Rightarrow> c = code | Inr _ \<Rightarrow> True)"
  by (auto simp: must_def ask_def split: option.splits)

lemma set_group_result: "set_group K child s = Some (a, t) \<Longrightarrow>
    requests t = requests s @ Set_group child # (case a of Inl _ \<Rightarrow> [Kill child SIGKILL] | Inr _ \<Rightarrow> []) \<and>
    (case a of Inl c \<Rightarrow> c = 111 | Inr _ \<Rightarrow> True)"
  by (auto simp: set_group_def ask_def tell_def split: option.splits if_splits)

definition traced_steps :: "int \<Rightarrow> request list" where
  "traced_steps child = [Set_group child, Set_options child [TRACEEXEC], Continue child 0, Single_step child]"

lemmas act_defs = and_then_Inr and_then_Inl done_with_def exit_with_def

lemma handshake_done: "handshake K child s = Some (Inr (), t) \<Longrightarrow>
    \<exists>probe\<in>{[], [Get_siginfo child, Single_step child]}. requests t = requests s @ traced_steps child @ probe"
  unfolding handshake_def
  by (auto simp: act_defs traced_steps_def split: if_splits prod.splits
      dest!: stop_of_result must_result set_group_result)

lemma handshake_failed: "handshake K child s = Some (Inl c, t) \<Longrightarrow>
    c \<in> {3..12} \<union> {111} \<and> (\<exists>new. requests t = requests s @ new \<and> Detach child \<notin> set new)"
  unfolding handshake_def
  by (auto simp: act_defs split: if_splits prod.splits
      dest!: stop_of_result must_result set_group_result)

text \<open>Everything after the detachment: signals and pauses.\<close>

fun untraced_request :: "request \<Rightarrow> bool" where
  "untraced_request (Kill _ _) = True"
| "untraced_request Sleep_50ms = True"
| "untraced_request _ = False"

definition only_signals :: "session \<Rightarrow> session \<Rightarrow> bool" where
  "only_signals s t \<longleftrightarrow> (\<exists>new. requests t = requests s @ new \<and> list_all untraced_request new)"

lemma only_signals_refl [simp]: "requests t = requests s \<Longrightarrow> only_signals s t"
  by (simp add: only_signals_def)

lemma only_signals_trans [trans]: "only_signals s t \<Longrightarrow> only_signals t u \<Longrightarrow> only_signals s u"
  by (auto simp: only_signals_def)

lemma only_signals_tell: "only_signals (tell r s) t \<Longrightarrow> untraced_request r \<Longrightarrow> only_signals s t"
  by (auto simp: only_signals_def tell_def)

lemma only_signals_session: "only_signals (signal_session p n s) t \<Longrightarrow> only_signals s t"
  by (auto simp: signal_session_def dest!: only_signals_tell split: if_splits)

lemma only_signals_await: "await P s = Some (a, s') \<Longrightarrow> only_signals s' t \<Longrightarrow> only_signals s t"
  using await_requests by (auto simp: only_signals_def)

lemma only_signals_stop: "ask_to_stop k p s = Some (b, t) \<Longrightarrow> only_signals s t"
proof (induction k p s rule: ask_to_stop.induct)
  case (2 k p s)
  obtain c u where u: "reap_and_check_empty s = Some (c, u)" using 2(2) by (auto split: option.splits)
  then have "requests u = requests s" by (auto simp: reap_and_check_empty_def)
  moreover have "only_signals u t"
  proof (cases c)
    case False
    then have "only_signals (tell Sleep_50ms (signal_session p SIGTERM u)) t" using 2(1) [OF u refl] 2(2) u by simp
    from only_signals_session [OF only_signals_tell [OF this]] show ?thesis by simp
  qed (use 2(2) u in simp)
  ultimately show ?case by (simp add: only_signals_def)
qed simp

lemma only_signals_drain: "drain s = Some t \<Longrightarrow> only_signals s t"
proof (induction s rule: drain.induct)
  case (1 s)
  note eq = 1(3) [unfolded drain.simps [of s]]
  obtain x u where w: "await (\<lambda>_. True) s = Some (x, u)" using eq by (auto split: option.splits)
  have "only_signals u t"
  proof (cases x)
    case (Inl e)
    then show ?thesis using eq 1(1) [OF w refl Inl] by (auto simp: w split: if_splits)
  next
    case (Inr y)
    then show ?thesis using eq 1(2) [OF w refl Inr] by (auto simp: w)
  qed
  then show ?case by (rule only_signals_await [OF w])
qed

lemma only_signals_terminate:
  assumes "terminate_session p s = Some t"
  shows "only_signals s t"
proof -
  let ?s = "signal_session p SIGTERM s"
  obtain b u where u: "ask_to_stop 40 p ?s = Some (b, u)"
    using assms by (auto simp: terminate_session_def split: option.splits)
  have "only_signals ?s u" by (rule only_signals_stop [OF u])
  moreover have "only_signals u t"
  proof (cases b)
    case False
    then have "drain (signal_session p SIGKILL u) = Some t" using assms u by (simp add: terminate_session_def)
    then show ?thesis using only_signals_drain only_signals_session by blast
  qed (use assms u in \<open>simp add: terminate_session_def\<close>)
  ultimately show ?thesis using only_signals_session only_signals_trans by blast
qed

lemma only_signals_supervise: "supervise_loop p st s = Some (c, t) \<Longrightarrow> only_signals s t"
proof (induction p st s rule: supervise_loop.induct)
  case (1 p st s)
  note eq = 1(3) [unfolded supervise_loop.simps [of p st s]]
  obtain x u where w: "await (\<lambda>_. True) s = Some (x, u)" using eq by (auto split: option.splits)
  have "only_signals u t"
  proof (cases x)
    case (Inl e)
    then show ?thesis using eq 1(1) [OF w refl Inl]
      by (auto simp: w split: if_splits option.splits dest: only_signals_terminate)
  next
    case (Inr y)
    then show ?thesis using eq 1(2) [OF w refl Inr] by (cases y) (auto simp: w)
  qed
  then show ?case by (rule only_signals_await [OF w])
qed

text \<open>
C9: Unless signal diagnosis is asked for, the executor either gives up (exit codes 3 to 12 and 111)
  or traces the program exactly up to the instruction after \<open>execve\<close>: one exec event, one single
  step, one more when the loader's synthetic fault was suppressed, and then it lets go. It never
  passes a signal on, and after the detachment it never traces again: it only signals and waits.
\<close>
theorem application_runs_untraced:
  assumes "parent_main K handlers o' child s = Some (code, t)" "\<not> diagnose o'"
  shows "(code \<in> {3..12} \<union> {111} \<and> (\<exists>new. requests t = requests s @ new \<and> Detach child \<notin> set new)) \<or>
    (\<exists>probe\<in>{[], [Get_siginfo child, Single_step child]}. \<exists>new. list_all untraced_request new \<and>
       requests t = requests s @ traced_steps child @ probe @ [Detach child] @ new)"
proof -
  obtain x u where h: "handshake K child s = Some (x, u)"
    using assms(1) by (auto simp: parent_main_def split: option.splits)
  show ?thesis
  proof (cases x)
    case (Inl c)
    then show ?thesis using handshake_failed [of K child s c u] h assms(1) by (auto simp: parent_main_def)
  next
    case (Inr y)
    then obtain probe where probe: "probe \<in> {[], [Get_siginfo child, Single_step child]}"
      and u: "requests u = requests s @ traced_steps child @ probe" using handshake_done [of K child s u] h by auto
    let ?v = "u\<lparr>requests := requests u @ [Detach child]\<rparr>"
    have "only_signals ?v t"
    proof (cases "ask K (Detach child) u")
      case (Pair e v)
      then have v: "v = ?v" by (simp add: ask_def)
      show ?thesis
        using assms Inr h Pair
        by (auto simp: parent_main_def v supervise_session_def split: option.splits if_splits bool.splits
            dest!: only_signals_supervise debug_wait_requests)
          (auto simp: only_signals_def tell_def)
    qed
    then show ?thesis using probe u by (auto simp: only_signals_def)
  qed
qed


section \<open>The exit status of a session\<close>

text \<open>\<open>silent\<close>: no wait fails; \<open>quiet\<close>: a wait may be interrupted, but no shutdown is requested.\<close>

fun silent :: "notice \<Rightarrow> bool" where
  "silent (Wait_error _) = False"
| "silent _ = True"

fun quiet :: "notice \<Rightarrow> bool" where
  "quiet (Wait_error e) \<longleftrightarrow> e = EINTR"
| "quiet (Delivered _) \<longleftrightarrow> False"
| "quiet _ \<longleftrightarrow> True"

fun reported :: "int \<Rightarrow> notice list \<Rightarrow> wait_status option \<Rightarrow> wait_status option" where
  "reported p [] st = st"
| "reported p (Reports q r # ns) st = reported p ns (if q = p then Some r else st)"
| "reported p (_ # ns) st = reported p ns st"

fun requested :: "notice list \<Rightarrow> nat \<Rightarrow> nat" where
  "requested [] g = g"
| "requested (Delivered n # ns) g = requested ns n"
| "requested (_ # ns) g = requested ns g"

lemma reported_append: "reported p (ms @ ns) st = reported p ns (reported p ms st)"
  by (induction p ms st rule: reported.induct) auto

lemma quiet_requested: "list_all quiet ns \<Longrightarrow> requested ns g = g"
  by (induction ns g rule: requested.induct) auto

lemma await_simps [simp]:
  "await P (s\<lparr>notices := Delivered n # ns, shutdown_signal := g\<rparr>) = await P (s\<lparr>notices := ns, shutdown_signal := n\<rparr>)"
  "await P (s\<lparr>notices := Idle # ns, shutdown_signal := g\<rparr>) = await P (s\<lparr>notices := ns, shutdown_signal := g\<rparr>)"
  "await P (s\<lparr>notices := Wait_error e # ns, shutdown_signal := g\<rparr>) = Some (Inl e, s\<lparr>notices := ns, shutdown_signal := g\<rparr>)"
  "P p \<Longrightarrow> await P (s\<lparr>notices := Reports p r # ns, shutdown_signal := g\<rparr>) =
     Some (Inr (p, r), s\<lparr>notices := ns, shutdown_signal := g\<rparr>)"
  by (auto simp: await_def split: option.splits)

lemma supervise_cong: "await (\<lambda>_. True) s = await (\<lambda>_. True) s' \<Longrightarrow> supervise_loop p st s = supervise_loop p st s'"
  by (simp add: supervise_loop.simps [of p st s] supervise_loop.simps [of p st s'])

lemma supervise_steps [simp]:
  "supervise_loop p st (s\<lparr>notices := Delivered n # ns, shutdown_signal := g\<rparr>) =
     supervise_loop p st (s\<lparr>notices := ns, shutdown_signal := n\<rparr>)"
  "supervise_loop p st (s\<lparr>notices := Idle # ns, shutdown_signal := g\<rparr>) =
     supervise_loop p st (s\<lparr>notices := ns, shutdown_signal := g\<rparr>)"
  "supervise_loop p st (s\<lparr>notices := Reports q r # ns, shutdown_signal := g\<rparr>) =
     supervise_loop p (if q = p then Some r else st) (s\<lparr>notices := ns, shutdown_signal := g\<rparr>)"
  "supervise_loop p st (s\<lparr>notices := Wait_error EINTR # ns, shutdown_signal := 0\<rparr>) =
     supervise_loop p st (s\<lparr>notices := ns, shutdown_signal := 0\<rparr>)"
  by (rule supervise_cong, simp)+
    (simp_all add: supervise_loop.simps [of p st "s\<lparr>notices := Reports q r # ns, shutdown_signal := g\<rparr>"]
      supervise_loop.simps [of p st "s\<lparr>notices := Wait_error EINTR # ns, shutdown_signal := 0\<rparr>"])

lemma supervise_silent:
  "list_all silent ns \<Longrightarrow> supervise_loop p st (s\<lparr>notices := ns @ rest, shutdown_signal := g\<rparr>) =
     supervise_loop p (reported p ns st) (s\<lparr>notices := rest, shutdown_signal := requested ns g\<rparr>)"
proof (induction ns arbitrary: st g)
  case (Cons n ns)
  then show ?case by (cases n) auto
qed simp

lemma supervise_quiet:
  "list_all quiet ns \<Longrightarrow> supervise_loop p st (s\<lparr>notices := ns @ rest, shutdown_signal := 0\<rparr>) =
     supervise_loop p (reported p ns st) (s\<lparr>notices := rest, shutdown_signal := 0\<rparr>)"
proof (induction ns arbitrary: st)
  case (Cons n ns)
  then show ?case by (cases n) auto
qed simp

lemma ECHILD_neq [simp]: "ECHILD \<noteq> EINTR" "EINTR \<noteq> ECHILD"
  by (simp_all add: ECHILD_def)

lemma supervise_end [simp]:
  "supervise_loop p (Some st) (s\<lparr>notices := Wait_error ECHILD # ns, shutdown_signal := g\<rparr>) =
     Some (exit_status st, s\<lparr>notices := ns, shutdown_signal := g\<rparr>)"
  by (simp add: supervise_loop.simps [of p "Some st" "s\<lparr>notices := Wait_error ECHILD # ns, shutdown_signal := g\<rparr>"]
      ECHILD_neq)

lemma supervise_shutdown:
  "n \<noteq> 0 \<Longrightarrow> supervise_loop p st (s\<lparr>notices := Wait_error EINTR # ns, shutdown_signal := n\<rparr>) =
     map_option (Pair (128 + n)) (terminate_session p (s\<lparr>notices := ns, shutdown_signal := n\<rparr>))"
  by (simp add: supervise_loop.simps [of p st "s\<lparr>notices := Wait_error EINTR # ns, shutdown_signal := n\<rparr>"])

text \<open>
The session's exit code is the primary process's (128 plus the signal that killed it), but only
  when the last child of the session is gone. A shutdown signal that interrupts the wait ends the
  session with 128 plus the signal; one that arrives while the supervisor is not blocked in
  \<open>waitpid\<close> goes unnoticed until something else interrupts a wait, and is lost if nothing does.
\<close>
theorem session_exit_status:
  assumes "list_all quiet ns" "list_all silent ms" "reported p ns None = Some st" "n \<noteq> 0"
  shows "supervise_session p (s\<lparr>notices := ns @ Wait_error ECHILD # rest, shutdown_signal := 0\<rparr>) =
      Some (exit_status st, s\<lparr>notices := rest, shutdown_signal := 0\<rparr>) \<and>
    supervise_session p (s\<lparr>notices := ns @ Delivered n # Wait_error EINTR # rest, shutdown_signal := 0\<rparr>) =
      map_option (Pair (128 + n)) (terminate_session p (s\<lparr>notices := rest, shutdown_signal := n\<rparr>)) \<and>
    supervise_session p (s\<lparr>notices := ns @ Delivered n # ms @ Wait_error ECHILD # rest, shutdown_signal := 0\<rparr>) =
      Some (exit_status (the (reported p (ns @ ms) None)), s\<lparr>notices := rest, shutdown_signal := requested ms n\<rparr>)"
proof -
  have r: "\<exists>r. reported p ks (Some x) = Some r" for ks x
    by (induction p ks "Some x" arbitrary: x rule: reported.induct) auto
  have "reported p (ns @ ms) None = reported p ms (Some st)" by (simp add: reported_append assms(3))
  then show ?thesis
    using assms r [of ms st]
    by (auto simp: supervise_session_def supervise_quiet supervise_silent supervise_shutdown)
qed

theorem session_exit_status_witness:
  "supervise_session 5 \<lparr>notices = [Reports 5 (Signaled 9), Delivered 15, Reports 7 (Exited 3), Wait_error ECHILD],
      requests = [], shutdown_signal = 0\<rparr> =
    Some (137, \<lparr>notices = [], requests = [], shutdown_signal = 15\<rparr>)"
  using session_exit_status [where ns = "[Reports 5 (Signaled 9)]" and ms = "[Reports 7 (Exited 3)]" and p = 5
      and st = "Signaled 9" and n = 15 and s = "\<lparr>notices = [], requests = [], shutdown_signal = 0\<rparr>" and rest = "[]"]
  by (simp add: exit_status_def)

theorem application_runs_untraced_witness:
  "\<exists>t. parent_main \<lparr>refused = \<lambda>_. None, trapped = \<lambda>_. 0\<rparr> True no_options 5
      \<lparr>notices = [Reports 5 (Stopped 19 0), Reports 5 (Stopped 5 4), Reports 5 (Stopped 5 0),
        Reports 5 (Exited 3), Wait_error ECHILD], requests = [], shutdown_signal = 0\<rparr> = Some (3, t) \<and>
     requests t = traced_steps 5 @ [Detach 5]"
proof -
  let ?K = "\<lparr>refused = \<lambda>_. None, trapped = \<lambda>_. 0\<rparr>"
  let ?s = "\<lparr>notices = [Reports 5 (Stopped 19 0), Reports 5 (Stopped 5 4), Reports 5 (Stopped 5 0),
        Reports 5 (Exited 3), Wait_error ECHILD], requests = [], shutdown_signal = 0\<rparr>"
  let ?t = "\<lparr>notices = [], requests = traced_steps 5 @ [Detach 5], shutdown_signal = 0\<rparr>"
  have run: "parent_main ?K True no_options 5 ?s = Some (3, ?t)"
    by (simp add: parent_main_def handshake_def and_then_def set_group_def stop_of_def must_def ask_def
        wait_for_stop.simps await_def done_with_def no_options_def traced_steps_def supervise_session_def
        supervise_loop.simps ECHILD_def exit_status_def)
  from application_runs_untraced [OF run]
  have "requests ?t = requests ?s @ traced_steps 5 @ [Detach 5]"
    by (auto simp: no_options_def)
  then show ?thesis using run by auto
qed


section \<open>Shutdown ends\<close>

definition stop_round :: "int \<Rightarrow> nat \<Rightarrow> request list" where
  "stop_round p n = (if 0 < p then [Kill (- p) n] else []) @ [Kill (-1) n]"

lemma signal_session_eq: "signal_session p n s = s\<lparr>requests := requests s @ stop_round p n\<rparr>"
  by (simp add: signal_session_def stop_round_def tell_def)

lemma reap_result:
  "Wait_error ECHILD \<in> set ns \<Longrightarrow> \<exists>b ms h. reap_notices ns g = Some (b, ms, h) \<and> (\<not> b \<longrightarrow> Wait_error ECHILD \<in> set ms)"
  by (induction ns g rule: reap_notices.induct) auto

lemma ask_to_stop_result:
  assumes "Wait_error ECHILD \<in> set (notices s)"
  shows "\<exists>b t k. ask_to_stop n p s = Some (b, t) \<and> k \<le> n \<and> (b \<longleftrightarrow> k < n) \<and>
    (\<not> b \<longrightarrow> Wait_error ECHILD \<in> set (notices t)) \<and>
    requests t = requests s @ concat (replicate k (stop_round p SIGTERM @ [Sleep_50ms]))"
  using assms
proof (induction n arbitrary: s)
  case (Suc n)
  obtain b ms h where r: "reap_notices (notices s) (shutdown_signal s) = Some (b, ms, h)"
    "\<not> b \<longrightarrow> Wait_error ECHILD \<in> set ms" using reap_result [OF Suc.prems] by blast
  show ?case
  proof (cases b)
    case True
    then show ?thesis using r by (intro exI [of _ True] exI [of _ "s\<lparr>notices := ms, shutdown_signal := h\<rparr>"] exI [of _ 0])
      (simp add: reap_and_check_empty_def)
  next
    case False
    let ?u = "tell Sleep_50ms (signal_session p SIGTERM (s\<lparr>notices := ms, shutdown_signal := h\<rparr>))"
    have "Wait_error ECHILD \<in> set (notices ?u)" using r False by (simp add: tell_def signal_session_eq)
    from Suc.IH [OF this] obtain b' t k where t: "ask_to_stop n p ?u = Some (b', t)" "k \<le> n" "b' \<longleftrightarrow> k < n"
      "\<not> b' \<longrightarrow> Wait_error ECHILD \<in> set (notices t)"
      "requests t = requests ?u @ concat (replicate k (stop_round p SIGTERM @ [Sleep_50ms]))" by blast
    then show ?thesis using r False
      by (intro exI [of _ b'] exI [of _ t] exI [of _ "Suc k"])
        (simp add: reap_and_check_empty_def tell_def signal_session_eq)
  qed
qed auto

lemma await_result:
  "Wait_error ECHILD \<in> set ns \<Longrightarrow> \<exists>a ms h. take_notice (\<lambda>_. True) ns g = Some (a, ms, h) \<and>
     ((\<exists>x. a = Inr x) \<or> a = Inl EINTR \<longrightarrow> Wait_error ECHILD \<in> set ms)"
  by (induction "\<lambda>_::int. True" ns g rule: take_notice.induct) auto

lemma drain_result: "Wait_error ECHILD \<in> set (notices s) \<Longrightarrow> \<exists>t. drain s = Some t \<and> requests t = requests s"
proof (induction s rule: drain.induct)
  case (1 s)
  obtain a ms h where n: "take_notice (\<lambda>_. True) (notices s) (shutdown_signal s) = Some (a, ms, h)"
    "(\<exists>x. a = Inr x) \<or> a = Inl EINTR \<longrightarrow> Wait_error ECHILD \<in> set ms" using await_result [OF 1(3)] by blast
  let ?u = "s\<lparr>notices := ms, shutdown_signal := h\<rparr>"
  have w: "await (\<lambda>_. True) s = Some (a, ?u)" using n by (simp add: await_def)
  show ?case
  proof (cases a)
    case (Inl e)
    then show ?thesis using 1(1) [OF w refl Inl] n(2) by (cases "e = EINTR") (simp_all add: drain.simps [of s] w)
  next
    case (Inr x)
    then show ?thesis using 1(2) [OF w refl Inr] n(2) by (simp add: drain.simps [of s] w)
  qed
qed

text \<open>
C10: Once the session's processes are gone (the kernel reports \<open>ECHILD\<close>), a shutdown ends, whatever
  else is reported before. It asks at most 41 times with \<open>SIGTERM\<close>, the process group and all
  other processes each time; \<open>SIGKILL\<close> follows exactly when 40 pauses were not enough.
\<close>
theorem shutdown_completes:
  assumes "Wait_error ECHILD \<in> set (notices s)"
  shows "\<exists>t k. terminate_session p s = Some t \<and> k \<le> 40 \<and>
    requests t = requests s @ stop_round p SIGTERM @
      concat (replicate k (stop_round p SIGTERM @ [Sleep_50ms])) @ (if k = 40 then stop_round p SIGKILL else [])"
proof -
  let ?s = "signal_session p SIGTERM s"
  obtain b u k where u: "ask_to_stop 40 p ?s = Some (b, u)" "k \<le> 40" "b \<longleftrightarrow> k < 40"
    "\<not> b \<longrightarrow> Wait_error ECHILD \<in> set (notices u)"
    "requests u = requests ?s @ concat (replicate k (stop_round p SIGTERM @ [Sleep_50ms]))"
    using ask_to_stop_result [of ?s 40 p] assms by (auto simp: signal_session_eq)
  show ?thesis
  proof (cases b)
    case True
    then show ?thesis using u by (intro exI [of _ u] exI [of _ k]) (simp add: terminate_session_def signal_session_eq)
  next
    case False
    then obtain t where "drain (signal_session p SIGKILL u) = Some t" "requests t = requests u @ stop_round p SIGKILL"
      using drain_result [of "signal_session p SIGKILL u"] u(4) by (auto simp: signal_session_eq)
    then show ?thesis using u False
      by (intro exI [of _ t] exI [of _ k]) (simp add: terminate_session_def signal_session_eq)
  qed
qed

theorem shutdown_completes_witness:
  "\<exists>t. terminate_session 5 \<lparr>notices = [Wait_error EINTR, Reports 7 (Exited 0), Idle, Delivered 15, Wait_error ECHILD],
      requests = [], shutdown_signal = 15\<rparr> = Some t \<and> take 2 (requests t) = [Kill (-5) SIGTERM, Kill (-1) SIGTERM]"
proof -
  from shutdown_completes [where p = 5 and s = "\<lparr>notices = [Wait_error EINTR, Reports 7 (Exited 0), Idle,
      Delivered 15, Wait_error ECHILD], requests = [], shutdown_signal = 15\<rparr>"]
  show ?thesis by (auto simp: stop_round_def)
qed


section \<open>The command line and what it means\<close>

text \<open>The grammar of the options, as the usage message gives it, and the effect of each.\<close>

datatype item = Cwd string | Argv0 string | Env string | Unset string | Diagnose | Debug_stop

fun item_words :: "item \<Rightarrow> string list" where
  "item_words (Cwd v) = [''--cwd'', v]"
| "item_words (Argv0 v) = [''--argv0'', v]"
| "item_words (Env v) = [''--env'', v]"
| "item_words (Unset v) = [''--unset'', v]"
| "item_words Diagnose = [''--diagnose-signals'']"
| "item_words Debug_stop = [''--debug-stop'']"

fun item_ok :: "item \<Rightarrow> bool" where
  "item_ok (Env v) \<longleftrightarrow> CHR ''='' \<in> set v"
| "item_ok (Unset v) \<longleftrightarrow> CHR ''='' \<notin> set v"
| "item_ok _ \<longleftrightarrow> True"

fun item_effect :: "item \<Rightarrow> options \<Rightarrow> options" where
  "item_effect (Cwd v) o' = o'\<lparr>cwd := Some v\<rparr>"
| "item_effect (Argv0 v) o' = o'\<lparr>argv0 := Some v\<rparr>"
| "item_effect (Env v) o' = append_assignment v False o'"
| "item_effect (Unset v) o' = append_assignment v True o'"
| "item_effect Diagnose o' = o'\<lparr>diagnose := True\<rparr>"
| "item_effect Debug_stop o' = o'\<lparr>debug_stop := True\<rparr>"

lemma item_index [simp]: "command_index (item_effect x o') = command_index o'"
  by (cases x) (simp_all add: append_assignment_def)

lemma items_index [simp]: "command_index (fold item_effect xs o') = command_index o'"
  by (induction xs arbitrary: o') auto

lemma parse_item:
  "item_ok x \<Longrightarrow> parse_from argc i (item_words x @ args) o' =
     parse_from argc (i + length (item_words x)) args (item_effect x o')"
  by (cases x) (auto simp: take_value_def)

lemma parse_items:
  "list_all item_ok xs \<Longrightarrow> parse_from argc i (concat (map item_words xs) @ args) o' =
     parse_from argc (i + length (concat (map item_words xs))) args (fold item_effect xs o')"
  by (induction xs arbitrary: i o') (simp_all add: parse_item add.assoc)

lemma first_item:
  assumes "parse_from argc i (arg # args) o' = Parsed r" "arg \<noteq> ''--''"
  shows "\<exists>x rest. item_ok x \<and> arg # args = item_words x @ rest"
proof -
  consider v rest where "arg = ''--cwd''" "args = v # rest"
    | v rest where "arg = ''--argv0''" "args = v # rest"
    | v rest where "arg = ''--env''" "args = v # rest" "CHR ''='' \<in> set v"
    | v rest where "arg = ''--unset''" "args = v # rest" "CHR ''='' \<notin> set v"
    | "arg = ''--diagnose-signals''" | "arg = ''--debug-stop''"
    using assms by (auto simp: take_value_def split: if_splits list.splits)
  then show ?thesis
  proof cases
    case (1 v rest) then show ?thesis by (intro exI [of _ "Cwd v"] exI [of _ rest]) simp
  next
    case (2 v rest) then show ?thesis by (intro exI [of _ "Argv0 v"] exI [of _ rest]) simp
  next
    case (3 v rest) then show ?thesis by (intro exI [of _ "Env v"] exI [of _ rest]) simp
  next
    case (4 v rest) then show ?thesis by (intro exI [of _ "Unset v"] exI [of _ rest]) simp
  next
    case 5 then show ?thesis by (intro exI [of _ Diagnose] exI [of _ args]) simp
  next
    case 6 then show ?thesis by (intro exI [of _ Debug_stop] exI [of _ args]) simp
  qed
qed

lemma parsed_items:
  "parse_from argc i args o' = Parsed r \<Longrightarrow> command_index o' = 0 \<Longrightarrow>
   \<exists>xs cmd. list_all item_ok xs \<and> args = concat (map item_words xs) @ ''--'' # cmd"
proof (induction args arbitrary: i o' rule: length_induct)
  case (1 args)
  show ?case
  proof (cases "args = [] \<or> hd args = ''--''")
    case True
    then show ?thesis using 1(2,3)
      by (intro exI [of _ "[]"] exI [of _ "tl args"]) (cases args; simp add: finish_options_def)
  next
    case False
    then obtain x rest where x: "item_ok x" "args = item_words x @ rest"
      using first_item [of argc i "hd args" "tl args" o' r] 1(2) by auto
    then have "length rest < length args" by (cases x) auto
    then obtain xs cmd where "list_all item_ok xs" "rest = concat (map item_words xs) @ ''--'' # cmd"
      using 1(1) 1(2,3) x parse_item [OF x(1)] by (metis item_index)
    then show ?thesis using x by (intro exI [of _ "x # xs"] exI [of _ cmd]) simp
  qed
qed

text \<open>
C11: The accepted command lines are exactly those of the usage message: options in any order and
  number, each \<open>--env\<close> with an \<open>=\<close> and each \<open>--unset\<close> without, then \<open>--\<close> and a
  program. The options mean what they say, the last one winning, and the program's name and
  arguments, with \<open>argv[0]\<close> replaced on demand, are what follows \<open>--\<close>, even when they look like options.
\<close>
theorem command_line_grammar:
  assumes "argv \<noteq> []"
  shows "(parse_options argv = Parsed o') \<longleftrightarrow>
    (\<exists>xs program args. list_all item_ok xs \<and>
       tl argv = concat (map item_words xs) @ ''--'' # program # args \<and>
       o' = (fold item_effect xs no_options)\<lparr>command_index := length argv - length (program # args)\<rparr> \<and>
       build_child_argv argv o' = (program, (case argv0 o' of None \<Rightarrow> program | Some a \<Rightarrow> a) # args))"
    (is "?L \<longleftrightarrow> ?R")
proof -
  have run: "parse_options argv =
      finish_options (length argv) ((fold item_effect xs no_options)\<lparr>command_index := length argv - length cmd\<rparr>)"
    if "list_all item_ok xs" "tl argv = concat (map item_words xs) @ ''--'' # cmd" for xs cmd
  proof -
    have "length argv = Suc (length (concat (map item_words xs)) + Suc (length cmd))"
      using arg_cong [OF that(2), of length] assms by (cases argv) simp_all
    then show ?thesis
      using parse_items [OF that(1), of "length argv" 1 "''--'' # cmd" no_options] that(2)
      by (simp add: parse_options_def drop_Suc)
  qed
  have child: "build_child_argv argv (o''\<lparr>command_index := length argv - length (c # cmd)\<rparr>) =
      (c, (case argv0 o'' of None \<Rightarrow> c | Some a \<Rightarrow> a) # cmd)"
    if "tl argv = pre @ c # cmd" for o'' c cmd pre
  proof -
    have "argv = (hd argv # pre) @ c # cmd" using that assms by (cases argv) simp_all
    then have "drop (length argv - length (c # cmd)) argv = c # cmd"
      by (metis add_diff_cancel_right' append_eq_conv_conj length_append)
    moreover from this have "argv ! (length argv - length (c # cmd)) = c"
      by (metis Cons_nth_drop_Suc drop_all leI list.inject list.distinct(1))
    ultimately show ?thesis by (simp add: build_child_argv_def split: option.split)
  qed
  show ?thesis
  proof
    assume ?L
    then obtain xs cmd where xs: "list_all item_ok xs" "tl argv = concat (map item_words xs) @ ''--'' # cmd"
      using parsed_items [of "length argv" 1 "drop 1 argv" no_options o'] 
      by (auto simp: parse_options_def no_options_def drop_Suc)
    then have o': "cmd \<noteq> []" "o' = (fold item_effect xs no_options)\<lparr>command_index := length argv - length cmd\<rparr>"
      using run [OF xs] \<open>?L\<close> by (auto simp: finish_options_def split: if_splits)
    then obtain c args where "cmd = c # args" by (cases cmd) auto
    then show ?R using xs o' child [of "concat (map item_words xs) @ [''--'']" c args]
      by (intro exI [of _ xs] exI [of _ c] exI [of _ args]) simp
  next
    assume ?R
    then obtain xs c args where xs: "list_all item_ok xs" "tl argv = concat (map item_words xs) @ ''--'' # c # args"
      "o' = (fold item_effect xs no_options)\<lparr>command_index := length argv - length (c # args)\<rparr>" by blast
    moreover have "length (c # args) < length argv" "0 < length argv - length (c # args)"
      using arg_cong [OF xs(2), of length] assms by (cases argv; simp)+
    ultimately show ?L using run [OF xs(1,2)] by (simp add: finish_options_def)
  qed
qed

theorem command_line_grammar_witness:
  "parse_options [''bionicx-exec'', ''--argv0'', ''sh'', ''--env'', ''A=1'', ''--'', ''/bin/sh'', ''--help''] =
     Parsed \<lparr>cwd = None, argv0 = Some ''sh'', assignments = [\<lparr>avalue = ''A=1'', aunset = False\<rparr>],
       diagnose = False, debug_stop = False, command_index = 6\<rparr>"
proof -
  let ?argv = "[''bionicx-exec'', ''--argv0'', ''sh'', ''--env'', ''A=1'', ''--'', ''/bin/sh'', ''--help'']"
  let ?xs = "[Argv0 ''sh'', Env ''A=1'']"
  have ne: "?argv \<noteq> []" by simp
  show ?thesis
    by (rule iffD2 [OF command_line_grammar [OF ne]])
      (intro exI [of _ ?xs] exI [of _ "''/bin/sh''"] exI [of _ "[''--help'']"],
       simp add: no_options_def append_assignment_def build_child_argv_def)
qed


section \<open>What the program is started with\<close>

text \<open>The value that a sequence of assignments leaves in a variable.\<close>

fun assigned :: "assignment list \<Rightarrow> string \<Rightarrow> string option \<Rightarrow> string option" where
  "assigned [] n v = v"
| "assigned (a # as) n v = assigned as n
     (let name = takeWhile (\<lambda>c. c \<noteq> CHR ''='') (avalue a) in
      if name \<noteq> n then v else if aunset a then None else Some (drop (Suc (length n)) (avalue a)))"

lemma getenv_unset:
  "plain_name m \<Longrightarrow> plain_name n \<Longrightarrow>
   bionicx_getenv (libc_unsetenv m env) n = (if m = n then None else bionicx_getenv env n)"
proof (cases "m = n")
  case True
  then show ?thesis by (simp add: getenv_None_iff has_entry_def libc_unsetenv_def list_ex_iff)
next
  case False
  assume "plain_name m" "plain_name n"
  then show ?thesis using False has_name_unique unfolding libc_unsetenv_def
    by (subst getenv_filter) auto
qed

lemma name_plain: "plain_name (takeWhile (\<lambda>c. c \<noteq> CHR ''='') v)"
  by (auto simp: plain_name_def dest: set_takeWhileD)

lemma plain_takeWhile: "plain_name v \<Longrightarrow> takeWhile (\<lambda>c. c \<noteq> CHR ''='') v = v"
  by (simp add: plain_name_def)

lemma apply_assignment_lookup:
  assumes "apply_assignment a env = Some env'" "aunset a \<longrightarrow> plain_name (avalue a)" "plain_name n"
  shows "assigned [a] n (bionicx_getenv env n) = bionicx_getenv env' n"
proof (cases "aunset a")
  case True
  then show ?thesis using assms
    by (auto simp: apply_assignment_def Let_def plain_takeWhile getenv_unset split: if_splits)
next
  case False
  then have "env' = libc_setenv (takeWhile (\<lambda>c. c \<noteq> CHR ''='') (avalue a))
      (drop (Suc (length (takeWhile (\<lambda>c. c \<noteq> CHR ''='') (avalue a)))) (avalue a)) env"
    using assms(1) by (simp add: apply_assignment_def Let_def split: if_splits)
  then show ?thesis using False getenv_setenv_other [OF assms(3) name_plain] by (auto simp: Let_def)
qed

lemma assigned_Cons: "assigned (a # as) n v = assigned as n (assigned [a] n v)"
  by simp

lemma apply_assignments_lookup:
  "apply_assignments as env = Some env' \<Longrightarrow> \<forall>a\<in>set as. aunset a \<longrightarrow> plain_name (avalue a) \<Longrightarrow> plain_name n \<Longrightarrow>
   bionicx_getenv env' n = assigned as n (bionicx_getenv env n)"
proof (induction as arbitrary: env)
  case (Cons a as)
  then obtain e where e: "apply_assignment a env = Some e" "apply_assignments as e = Some env'"
    by (auto split: option.splits)
  have "assigned [a] n (bionicx_getenv env n) = bionicx_getenv e n"
    using apply_assignment_lookup e(1) Cons.prems by simp
  moreover have "bionicx_getenv env' n = assigned as n (bionicx_getenv e n)"
    by (rule Cons.IH [OF e(2)]) (use Cons.prems in auto)
  ultimately show ?case using assigned_Cons [of a as n "bionicx_getenv env n"] by (simp only:)
qed simp

lemma items_unset_plain:
  "list_all item_ok xs \<Longrightarrow> \<forall>a\<in>set (assignments o'). aunset a \<longrightarrow> plain_name (avalue a) \<Longrightarrow>
   \<forall>a\<in>set (assignments (fold item_effect xs o')). aunset a \<longrightarrow> plain_name (avalue a)"
proof (induction xs arbitrary: o')
  case (Cons x xs)
  have "\<forall>a\<in>set (assignments (item_effect x o')). aunset a \<longrightarrow> plain_name (avalue a)"
    using Cons.prems by (cases x) (auto simp: append_assignment_def plain_name_def)
  then show ?case using Cons.IH Cons.prems(1) by simp
qed simp

lemma parsed_unset_plain:
  assumes "parse_options argv = Parsed o'"
  shows "\<forall>a\<in>set (assignments o'). aunset a \<longrightarrow> plain_name (avalue a)"
proof -
  obtain xs cmd where xs: "list_all item_ok xs" "drop 1 argv = concat (map item_words xs) @ ''--'' # cmd"
    using parsed_items [of "length argv" 1 "drop 1 argv" no_options o'] assms
    by (auto simp: parse_options_def no_options_def)
  have "\<exists>i. o' = (fold item_effect xs no_options)\<lparr>command_index := i\<rparr>"
    using assms unfolding parse_options_def xs(2)
    by (auto simp: parse_items [OF xs(1)] finish_options_def split: if_splits)
  then show ?thesis using items_unset_plain [OF xs(1), of no_options] by (auto simp: no_options_def)
qed




section \<open>The frame chain of a fatal signal\<close>

text \<open>
  \<open>peek a\<close>: the word of the stopped process at \<open>a\<close>. The frames that are reported: the frame
  pointer and the return address without its authentication bits.
\<close>

fun report_frame_chain :: "nat \<Rightarrow> (u64 \<Rightarrow> u64 option) \<Rightarrow> u64 \<Rightarrow> u64 \<Rightarrow> (u64 \<times> u64) list" where
  "report_frame_chain 0 peek frame_pointer stack_pointer = []"
| "report_frame_chain (Suc left) peek frame_pointer stack_pointer =
     (if frame_pointer AND 15 \<noteq> 0 \<or> frame_pointer < stack_pointer \<or>
         frame_pointer - stack_pointer > 16 * 1024 * 1024 then []
      else case (peek frame_pointer, peek (frame_pointer + 8)) of
        (Some previous, Some return_address) \<Rightarrow>
          (frame_pointer, return_address AND 0x7fffffffff) #
          (if previous \<le> frame_pointer \<or> previous - frame_pointer > 1024 * 1024 then []
           else report_frame_chain left peek previous stack_pointer)
      | _ \<Rightarrow> [])"

lemma report_frame_chain_bounds:
  "length (report_frame_chain k peek fp sp) \<le> k \<and>
   sorted_wrt (<) (map fst (report_frame_chain k peek fp sp)) \<and>
   (\<forall>f\<in>set (map fst (report_frame_chain k peek fp sp)).
      fp \<le> f \<and> sp \<le> f \<and> f - sp \<le> 16 * 1024 * 1024 \<and> f AND 15 = 0)"
proof (induction k peek fp sp rule: report_frame_chain.induct)
  case (2 left peek fp sp)
  let ?ok = "fp AND 15 = 0 \<and> sp \<le> fp \<and> fp - sp \<le> 16 * 1024 * 1024"
  consider "\<not> ?ok \<or> peek fp = None \<or> peek (fp + 8) = None"
    | prev ret where ?ok "peek fp = Some prev" "peek (fp + 8) = Some ret"
        "prev \<le> fp \<or> prev - fp > 1024 * 1024"
    | prev ret where ?ok "peek fp = Some prev" "peek (fp + 8) = Some ret"
        "\<not> (prev \<le> fp \<or> prev - fp > 1024 * 1024)"
    by (metis not_None_eq)
  then show ?case
  proof cases
    case 1
    then have "report_frame_chain (Suc left) peek fp sp = []"
      by (auto simp: not_less not_le split: option.split)
    then show ?thesis by simp
  next
    case (2 prev ret)
    then show ?thesis by (auto simp: not_less not_le)
  next
    case (3 prev ret)
    then have rec: "report_frame_chain (Suc left) peek fp sp =
        (fp, ret AND 0x7fffffffff) # report_frame_chain left peek prev sp"
      by (auto simp: not_less not_le)
    have "length (report_frame_chain left peek prev sp) \<le> left"
      "sorted_wrt (<) (map fst (report_frame_chain left peek prev sp))"
      "\<forall>f\<in>set (map fst (report_frame_chain left peek prev sp)).
         prev \<le> f \<and> sp \<le> f \<and> f - sp \<le> 16 * 1024 * 1024 \<and> f AND 15 = 0"
      using "2.IH" 3 by (auto simp: not_less not_le)
    then show ?thesis using 3 unfolding rec by (auto dest: order.strict_trans2)
  qed
qed simp

section \<open>What diagnosis lets through\<close>

text \<open>
  A stop that is neither an event, nor an expected probe, nor fatal: the process goes on with its
  signal, except that \<open>SIGSTOP\<close> (the stop of a new child) is not passed on.
\<close>

lemma handle_stop_delivers:
  assumes "n \<notin> fatal_signals" "refused K (requests s @ [Continue p (if n = SIGSTOP then 0 else n)]) = None"
  shows "handle_stop K child p n event s =
    (None, s\<lparr>requests := requests s @ [Continue p (if n = SIGSTOP then 0 else n)]\<rparr>)"
  using assms by (auto simp: handle_stop_def fatal_signals_def ask_def Let_def)

lemma handle_stop_fatal:
  assumes "n \<in> fatal_signals" "n \<noteq> SIGSYS" "n = SIGTRAP \<longrightarrow> event = 0"
  shows "handle_stop K child p n event s =
    (Some (128 + n), s\<lparr>requests := requests s @ [Kill (- child) SIGKILL, Trace_kill p]\<rparr>)"
  using assms by (auto simp: handle_stop_def tell_def Let_def)


end
