(* ===== verification/AndroidKernel.thy ===== *)
theory AndroidKernel
  imports Executor
begin

text \<open>
  \<open>native/runtime/android-kernel.c\<close>: the handler of \<open>SIGSYS\<close>. Android's seccomp filter traps system
  calls that a Linux program may try; the expected ones become \<open>ENOSYS\<close>, any other ends the process
  with a message. The numbers are those of AArch64.
\<close>

section \<open>Expected system calls\<close>

text \<open>\<open>clone3\<close>, \<open>landlock_create_ruleset\<close>, \<open>name_to_handle_at\<close>, \<open>set_robust_list\<close>, System V shared
  memory, and \<open>io_uring\<close>.\<close>

definition is_android_seccomp_probe :: "int \<Rightarrow> bool" where
  "is_android_seccomp_probe number \<longleftrightarrow> number \<in> {435, 444, 264, 99, 194, 195, 196, 197} \<or>
     number = 425 \<or> number = 426 \<or> number = 427"

section \<open>The message\<close>

text \<open>The digits, last one first, in an array of \<open>left\<close> characters.\<close>

fun digits :: "nat \<Rightarrow> nat \<Rightarrow> string" where
  "digits 0 n = []"
| "digits (Suc left) n = digit (n mod 10) # (if n div 10 \<noteq> 0 then digits left (n div 10) else [])"

definition message_prefix :: string where
  "message_prefix = ''BIONICX unknown Android seccomp syscall=''"

definition report_unknown_probe :: "int \<Rightarrow> string" where
  "report_unknown_probe number =
     message_prefix @ (if number < 0 then ''-'' else []) @ rev (digits 24 (nat \<bar>number\<bar>)) @ [CHR 0x0A]"

text \<open>The handler returns with a result in register 0, or the process exits.\<close>

datatype trapped = Resumes u64 | Exits string nat

definition handle_seccomp_trap :: "int \<Rightarrow> trapped" where
  "handle_seccomp_trap number =
     (if is_android_seccomp_probe number then Resumes (- 38)
      else Exits (report_unknown_probe number) (128 + SIGSYS))"

section \<open>The message is the number\<close>

lemma digits_dec: "n < 10 ^ Suc left \<Longrightarrow> rev (digits (Suc left) n) = dec n"
proof (induction left arbitrary: n)
  case 0
  then show ?case by (simp add: dec.simps [of n])
next
  case (Suc left)
  show ?case
  proof (cases "n < 10")
    case True
    then show ?thesis by (simp add: dec.simps [of n])
  next
    case False
    have "n div 10 < 10 ^ Suc left" using Suc.prems by (simp add: div_less_iff_less_mult)
    from Suc.IH [OF this] have ih: "rev (digits (Suc left) (n div 10)) = dec (n div 10)" .
    have "digits (Suc (Suc left)) n = digit (n mod 10) # digits (Suc left) (n div 10)"
      using False by (subst digits.simps(2)) simp
    moreover have "dec n = dec (n div 10) @ [digit (n mod 10)]" using False by (simp add: dec.simps [of n])
    ultimately show ?thesis using ih by (simp only: rev.simps)
  qed
qed

lemma length_digits: "length (digits left n) \<le> left"
  by (induction left n rule: digits.induct) auto

lemma report_text:
  assumes "\<bar>number\<bar> < 2 ^ 63"
  shows "report_unknown_probe number = message_prefix @ dec_int number @ [CHR 0x0A]"
proof -
  have "nat \<bar>number\<bar> < 10 ^ 24" using assms by simp
  then show ?thesis using digits_dec [of "nat \<bar>number\<bar>" 23]
    by (simp add: report_unknown_probe_def dec_int_def del: digits.simps dec.simps)
qed

text \<open>The array has \<open>sizeof(prefix) + 24\<close> characters, one of them for the terminator of \<open>prefix\<close>.\<close>

lemma report_fits:
  assumes "\<bar>number\<bar> < 2 ^ 63"
  shows "length (report_unknown_probe number) \<le> (length message_prefix + 1) + 24"
proof -
  have "nat number < 10 ^ Suc 18" "nat (- number) < 10 ^ Suc 18" using assms by simp_all
  then have "length (dec (nat number)) \<le> 19" "length (dec (nat (- number))) \<le> 19"
    using length_dec_le [of _ 18] by simp_all
  then show ?thesis by (auto simp: report_text [OF assms] dec_int_def)
qed

section \<open>With the executor's diagnosis\<close>

lemma diagnosed_probe:
  assumes "refused K (requests s @ [Get_registers p]) = None"
  shows "fst (is_handled_android_seccomp_probe K p s) \<longleftrightarrow> Executor.trapped K (requests s @ [Get_registers p]) \<in> {444, 264}"
  using assms by (simp add: is_handled_android_seccomp_probe_def ask_def)

lemma unhandled_stop:
  assumes "\<not> fst (is_handled_android_seccomp_probe K p s)"
  shows "fst (handle_stop K child p SIGSYS event s) = Some (128 + SIGSYS)"
  using assms by (auto simp: handle_stop_def fatal_signals_def Let_def split: prod.splits)

text \<open>
  The supervisor of \<open>--diagnose-signals\<close> lets a process go on after a trapped system call only when
  the runtime's handler of \<open>SIGSYS\<close> answers that call with \<open>ENOSYS\<close>, so that no unknown call is missed.
  The converse fails: the other nine calls that the handler answers (\<open>clone3\<close>, \<open>set_robust_list\<close>, the
  four of System V shared memory, \<open>io_uring\<close>) end the session with status 159.
\<close>
theorem diagnosis_of_probes:
  assumes "refused K (requests s @ [Get_registers p]) = None"
    and "number = Executor.trapped K (requests s @ [Get_registers p])"
  shows "(fst (handle_stop K child p SIGSYS event s) = None \<longrightarrow> handle_seccomp_trap (int number) = Resumes (- 38)) \<and>
    (number \<in> {435, 99, 194, 195, 196, 197, 425, 426, 427} \<longrightarrow>
      handle_seccomp_trap (int number) = Resumes (- 38) \<and> fst (handle_stop K child p SIGSYS event s) = Some 159)"
proof (cases "number \<in> {444, 264}")
  case True
  then show ?thesis by (auto simp: handle_seccomp_trap_def is_android_seccomp_probe_def)
next
  case False
  then have "fst (handle_stop K child p SIGSYS event s) = Some 159"
    using unhandled_stop [of K p s child event] diagnosed_probe [OF assms(1)] assms(2) by simp
  then show ?thesis by (auto simp: handle_seccomp_trap_def is_android_seccomp_probe_def)
qed

theorem diagnosis_of_probes_witness:
  "fst (handle_stop \<lparr>refused = \<lambda>_. None, trapped = \<lambda>_. 99\<rparr> 7 8 SIGSYS 0 \<lparr>notices = [], requests = [], shutdown_signal = 0\<rparr>) = Some 159 \<and>
    handle_seccomp_trap 99 = Resumes (- 38)"
  using diagnosis_of_probes [of "\<lparr>refused = \<lambda>_. None, trapped = \<lambda>_. 99\<rparr>" "\<lparr>notices = [], requests = [], shutdown_signal = 0\<rparr>" 8 99 7 0] by simp

end
