(* ===== verification/XStreams.thy ===== *)
theory XStreams
  imports Arrays
begin

text \<open>
  The two ends of an X connection: \<open>winlator/src/xinput_stream.c\<close> and \<open>xoutput_stream.c\<close>. Their
  socket functions \<open>recv_fds\<close> and \<open>send_fds\<close> (\<open>socket_utils.h\<close>) add descriptors to the bytes.

  The socket is a parameter. What a receiving call answers is an argument; a sending loop consumes
  a list of answers and its value is \<open>None\<close> when the list ends while it is still blocked. A block
  of memory is a list as long as it was allocated; an access outside of it, and a \<open>memcpy\<close> of
  overlapping parts of it, are \<open>None\<close>.
\<close>

section \<open>The input stream\<close>

text \<open>
  \<open>active\<close> says whether \<open>activeBuffer.data\<close> is set; if so it points to the same block as
  \<open>buffer.data\<close>. (Its \<open>capacity\<close> is written but never read.)
\<close>

record xinput =
  idata :: "byte list"
  icapacity :: nat
  iposition :: nat
  ilimit :: nat
  active :: bool
  active_position :: nat
  active_limit :: nat
  ancillary_fds :: int_array

definition XInputStream_allocate :: "nat \<Rightarrow> xinput" where
  "XInputStream_allocate initialCapacity =
     \<lparr>idata = replicate initialCapacity 0, icapacity = initialCapacity, iposition = 0, ilimit = initialCapacity,
      active = False, active_position = 0, active_limit = 0, ancillary_fds = new_array\<rparr>"

text \<open>\<open>None\<close>: the doubled capacity is no longer an \<open>int\<close>.\<close>

definition growInputBufferIfNecessary :: "xinput \<Rightarrow> xinput option" where
  "growInputBufferIfNecessary s =
     (if iposition s = icapacity s then
        let newCapacity = icapacity s * 2 in
        if \<not> fits_int newCapacity then None
        else Some (s\<lparr>icapacity := newCapacity, ilimit := newCapacity, idata := resize 0 newCapacity (idata s)\<rparr>)
      else Some s)"

definition mem_cpy_down :: "nat \<Rightarrow> nat \<Rightarrow> 'a list \<Rightarrow> 'a list option" where
  "mem_cpy_down s n xs = (if s < n then None else mem_move 0 s n xs)"

definition compactInputBuffer :: "xinput \<Rightarrow> xinput option" where
  "compactInputBuffer s = do {
     let remaining = ilimit s - iposition s;
     d \<leftarrow> mem_cpy_down (iposition s) remaining (idata s);
     Some (s\<lparr>idata := d, iposition := remaining, ilimit := icapacity s\<rparr>) }"

definition activateInputBuffer :: "xinput \<Rightarrow> xinput" where
  "activateInputBuffer s = s\<lparr>active := True, active_position := 0, active_limit := iposition s\<rparr>"

text \<open>
  The answers of \<open>read\<close> and \<open>recvmsg\<close>: bytes (at most as many as there is room for, the others
  stay in the socket) with descriptors, none at the end of the stream, or an error.
\<close>

datatype incoming = Incoming "byte list" "int list" | Receive_error nat

text \<open>\<open>recv_fds\<close> takes at most \<open>MAX_FDS\<close> = 32 descriptors.\<close>

fun add_fds :: "int list \<Rightarrow> int_array \<Rightarrow> int_array option" where
  "add_fds [] a = Some a"
| "add_fds (fd # fds) a = do { a' \<leftarrow> IntArray_add fd a; add_fds fds a' }"

definition received :: "byte list \<Rightarrow> xinput \<Rightarrow> (int \<times> xinput) option" where
  "received bs s = do {
     d \<leftarrow> mem_write (iposition s) bs (idata s);
     Some (int (length bs), s\<lparr>idata := d, iposition := iposition s + length bs\<rparr>) }"

definition XInputStream_read :: "incoming \<Rightarrow> xinput \<Rightarrow> (int \<times> xinput) option" where
  "XInputStream_read answer s = (case answer of
      Receive_error e \<Rightarrow> Some (- int e, s)
    | Incoming bs _ \<Rightarrow> let bs = take (ilimit s - iposition s) bs in
        if bs = [] then Some (0, s) else received bs s)"

definition XInputStream_recvmsg :: "incoming \<Rightarrow> xinput \<Rightarrow> (int \<times> xinput) option" where
  "XInputStream_recvmsg answer s = (case answer of
      Receive_error e \<Rightarrow> Some (- int e, s)
    | Incoming bs fds \<Rightarrow> let bs = take (ilimit s - iposition s) bs in
        if bs = [] then Some (0, s)
        else do { a \<leftarrow> add_fds (take 32 fds) (ancillary_fds s); received bs (s\<lparr>ancillary_fds := a\<rparr>) })"

text \<open>What has been consumed is dropped from the front before more is read behind the rest.\<close>

definition make_room :: "xinput \<Rightarrow> xinput option" where
  "make_room s =
     (if active s then
        map_option (\<lambda>s. s\<lparr>active := False\<rparr>)
          (if active_limit s \<le> active_position s then Some (s\<lparr>iposition := 0, ilimit := icapacity s\<rparr>)
           else if 0 < active_position s then
             compactInputBuffer (s\<lparr>iposition := active_position s, ilimit := iposition s\<rparr>)
           else Some s)
      else Some s)"

definition XInputStream_readMoreData :: "bool \<Rightarrow> incoming \<Rightarrow> xinput \<Rightarrow> (int \<times> xinput) option" where
  "XInputStream_readMoreData ancillary answer s = do {
     s \<leftarrow> make_room s;
     s \<leftarrow> growInputBufferIfNecessary s;
     (n, s) \<leftarrow> (if ancillary then XInputStream_recvmsg answer s else XInputStream_read answer s);
     Some (n, if 0 < n then (activateInputBuffer s)\<lparr>ilimit := icapacity s\<rparr> else s) }"

text \<open>The typed reads do not look at the limit: the caller asks \<open>available\<close> first.\<close>

definition read_bytes :: "nat \<Rightarrow> xinput \<Rightarrow> (byte list \<times> xinput) option" where
  "read_bytes n s =
     (if active s then do {
        bs \<leftarrow> mem_read (active_position s) n (idata s);
        Some (bs, s\<lparr>active_position := active_position s + n\<rparr>) }
      else None)"

definition xin_readByte :: "xinput \<Rightarrow> (byte \<times> xinput) option" where
  "xin_readByte s = map_option (apfst le_word) (read_bytes 1 s)"

definition xin_readShort :: "xinput \<Rightarrow> (u16 \<times> xinput) option" where
  "xin_readShort s = map_option (apfst le_word) (read_bytes 2 s)"

definition xin_readInt :: "xinput \<Rightarrow> (u32 \<times> xinput) option" where
  "xin_readInt s = map_option (apfst le_word) (read_bytes 4 s)"

definition xin_readLong :: "xinput \<Rightarrow> (u64 \<times> xinput) option" where
  "xin_readLong s = map_option (apfst le_word) (read_bytes 8 s)"

definition xin_skip :: "nat \<Rightarrow> xinput \<Rightarrow> xinput" where
  "xin_skip n s = s\<lparr>active_position := active_position s + n\<rparr>"

definition xin_available :: "xinput \<Rightarrow> int" where
  "xin_available s = int (active_limit s) - int (active_position s)"

definition xin_setActivePosition :: "nat \<Rightarrow> xinput \<Rightarrow> xinput" where
  "xin_setActivePosition n s = s\<lparr>active_position := n\<rparr>"

definition xin_getAncillaryFd :: "xinput \<Rightarrow> (int \<times> xinput) option" where
  "xin_getAncillaryFd s =
     (if 0 < asize (ancillary_fds s)
      then map_option (\<lambda>(fd, a). (fd, s\<lparr>ancillary_fds := a\<rparr>)) (IntArray_removeAt 0 (ancillary_fds s))
      else Some (-1, s))"

section \<open>The output stream\<close>

record xoutput =
  ancillaryFd :: int
  odata :: "byte list"
  ocapacity :: nat
  oposition :: nat
  olimit :: nat

definition XOutputStream_allocate :: "nat \<Rightarrow> xoutput" where
  "XOutputStream_allocate initialCapacity =
     \<lparr>ancillaryFd = 0, odata = replicate initialCapacity 0, ocapacity = initialCapacity,
      oposition = 0, olimit = initialCapacity\<rparr>"

definition ensureSpaceIsAvailable :: "nat \<Rightarrow> xoutput \<Rightarrow> xoutput option" where
  "ensureSpaceIsAvailable n s =
     (if n \<le> ocapacity s - oposition s then Some s
      else let newCapacity = ocapacity s + n in
        if \<not> fits_int newCapacity then None
        else Some (s\<lparr>ocapacity := newCapacity, olimit := newCapacity, odata := resize 0 newCapacity (odata s)\<rparr>))"

definition write_bytes :: "byte list \<Rightarrow> xoutput \<Rightarrow> xoutput option" where
  "write_bytes bs s = do {
     s \<leftarrow> ensureSpaceIsAvailable (length bs) s;
     d \<leftarrow> mem_write (oposition s) bs (odata s);
     Some (s\<lparr>odata := d, oposition := oposition s + length bs\<rparr>) }"

definition xout_writeByte :: "byte \<Rightarrow> xoutput \<Rightarrow> xoutput option" where
  "xout_writeByte v = write_bytes (le_bytes 1 v)"

definition xout_writeShort :: "u16 \<Rightarrow> xoutput \<Rightarrow> xoutput option" where
  "xout_writeShort v = write_bytes (le_bytes 2 v)"

definition xout_writeInt :: "u32 \<Rightarrow> xoutput \<Rightarrow> xoutput option" where
  "xout_writeInt v = write_bytes (le_bytes 4 v)"

definition xout_writeLong :: "u64 \<Rightarrow> xoutput \<Rightarrow> xoutput option" where
  "xout_writeLong v = write_bytes (le_bytes 8 v)"

definition xout_writePad :: "nat \<Rightarrow> xoutput \<Rightarrow> xoutput option" where
  "xout_writePad n = write_bytes (replicate n 0)"

definition xout_writeByteBuffer :: "byte list \<Rightarrow> nat \<Rightarrow> nat \<Rightarrow> xoutput \<Rightarrow> xoutput option" where
  "xout_writeByteBuffer src offset n s = do { bs \<leftarrow> mem_read offset n src; write_bytes bs s }"

text \<open>\<open>writeAt\<close> overwrites what is in the buffer; it neither grows it nor moves the position.\<close>

definition xout_writeAt :: "nat \<Rightarrow> byte list \<Rightarrow> xoutput \<Rightarrow> xoutput option" where
  "xout_writeAt p bs s = do { d \<leftarrow> mem_write p bs (odata s); Some (s\<lparr>odata := d\<rparr>) }"

definition xout_setAncillaryFd :: "int \<Rightarrow> xoutput \<Rightarrow> xoutput" where
  "xout_setAncillaryFd fd s = s\<lparr>ancillaryFd := fd\<rparr>"

text \<open>
  The answers of the sending calls: how much was accepted (never more than was offered); that the
  socket is full, and whether \<open>poll\<close> then, after any number of interruptions, reports it
  writable; or another error.
\<close>

datatype outgoing = Wrote nat | Would_block bool | Write_error errno

text \<open>The bytes in the socket, and the descriptors with the place of the byte they travel with.\<close>

record wire =
  sent_bytes :: "byte list"
  sent_fds :: "(nat \<times> int) list"

definition put_on_wire :: "byte list \<Rightarrow> int \<Rightarrow> wire \<Rightarrow> wire" where
  "put_on_wire bs fd w =
     w\<lparr>sent_bytes := sent_bytes w @ bs,
       sent_fds := sent_fds w @ (if 0 < fd then [(length (sent_bytes w), fd)] else [])\<rparr>"

text \<open>
  The loop of \<open>XOutputStream_send\<close>; \<open>d\<close> is the buffer up to its limit. The descriptor \<open>fd\<close> goes
  with the first call that succeeds.
\<close>

fun send_loop :: "outgoing list \<Rightarrow> byte list \<Rightarrow> nat \<Rightarrow> int \<Rightarrow> wire \<Rightarrow> (bool \<times> nat \<times> wire \<times> outgoing list) option" where
  "send_loop [] d totalSent fd w = (if totalSent < length d then None else Some (True, totalSent, w, []))"
| "send_loop (x # xs) d totalSent fd w =
     (if \<not> totalSent < length d then Some (True, totalSent, w, x # xs) else
      case x of
        Wrote n \<Rightarrow> let bs = take n (drop totalSent d) in
          if bs = [] then Some (False, totalSent, w, xs)
          else send_loop xs d (totalSent + length bs) 0 (put_on_wire bs fd w)
      | Write_error e \<Rightarrow> if e = EINTR then send_loop xs d totalSent fd w else Some (False, totalSent, w, xs)
      | Would_block writable \<Rightarrow>
          if writable then send_loop xs d totalSent fd w else Some (False, totalSent, w, xs))"

definition XOutputStream_send :: "outgoing list \<Rightarrow> xoutput \<Rightarrow> wire \<Rightarrow> (bool \<times> xoutput \<times> wire \<times> outgoing list) option" where
  "XOutputStream_send answers s w =
     (if oposition s = 0 then Some (True, s, w, answers) else
      let limit = oposition s;
          s = s\<lparr>olimit := limit, oposition := 0\<rparr>;
          fd = ancillaryFd s; s = s\<lparr>ancillaryFd := 0\<rparr> in
      case send_loop answers (take limit (odata s)) 0 fd w of
        None \<Rightarrow> None
      | Some (True, _, w', rest) \<Rightarrow> Some (True, s\<lparr>olimit := ocapacity s\<rparr>, w', rest)
      | Some (False, totalSent, w', rest) \<Rightarrow> do {
          let remaining = limit - totalSent;
          d \<leftarrow> (if 0 < totalSent then mem_move 0 totalSent remaining (odata s) else Some (odata s));
          Some (False, s\<lparr>odata := d, oposition := remaining, olimit := ocapacity s\<rparr>, w', rest) })"

section \<open>What is in the buffers\<close>

definition xout_ok :: "xoutput \<Rightarrow> bool" where
  "xout_ok s \<longleftrightarrow> length (odata s) = ocapacity s \<and> oposition s \<le> ocapacity s"

definition unsent :: "xoutput \<Rightarrow> byte list" where
  "unsent s = take (oposition s) (odata s)"

definition xin_ok :: "xinput \<Rightarrow> bool" where
  "xin_ok s \<longleftrightarrow> length (idata s) = icapacity s \<and> 0 < icapacity s \<and> iposition s \<le> icapacity s \<and> ilimit s = icapacity s \<and>
     (active s \<longrightarrow> active_limit s = iposition s)"

definition unread :: "xinput \<Rightarrow> byte list" where
  "unread s = drop (if active s then active_position s else 0) (take (iposition s) (idata s))"

lemma xout_ok_new: "xout_ok (XOutputStream_allocate n)" "unsent (XOutputStream_allocate n) = []"
  by (simp_all add: xout_ok_def unsent_def XOutputStream_allocate_def)

lemma xin_ok_new: "0 < n \<Longrightarrow> xin_ok (XInputStream_allocate n)" "unread (XInputStream_allocate n) = []"
  by (simp_all add: xin_ok_def unread_def XInputStream_allocate_def)

lemma write_bytes_ok:
  assumes "xout_ok s" "write_bytes bs s = Some s'"
  shows "xout_ok s'" "unsent s' = unsent s @ bs"
  using assms
  by (auto simp: write_bytes_def ensureSpaceIsAvailable_def xout_ok_def unsent_def Let_def resize_def
      bind_eq_Some_conv take_splice_end split: if_splits)

lemma take_split: "u \<le> p \<Longrightarrow> take u xs @ take (p - u) (drop u xs) = take p xs"
  by (metis le_add_diff_inverse take_add)

lemma writeAt_ok:
  assumes "xout_ok s" "xout_writeAt p bs s = Some s'" "p + length bs \<le> length (unsent s)"
  shows "xout_ok s'" "unsent s' = splice p bs (unsent s)"
proof -
  have p: "p + length bs \<le> oposition s" "length (odata s) = ocapacity s" "oposition s \<le> ocapacity s"
    using assms(1,3) by (auto simp: xout_ok_def unsent_def)
  then show "xout_ok s'" "unsent s' = splice p bs (unsent s)"
    using assms(2) by (auto simp: xout_writeAt_def xout_ok_def unsent_def splice_def bind_eq_Some_conv take_drop)
qed

lemma send_loop_sent:
  "send_loop answers d t fd w = Some (ok, u, w', rest) \<Longrightarrow> t \<le> length d \<Longrightarrow>
   t \<le> u \<and> u \<le> length d \<and> (ok \<longleftrightarrow> u = length d) \<and> sent_bytes w' = sent_bytes w @ take (u - t) (drop t d) \<and>
   sent_fds w' = sent_fds w @ (if 0 < fd \<and> t < u then [(length (sent_bytes w), fd)] else [])"
proof (induction answers d t fd w arbitrary: ok u w' rest rule: send_loop.induct)
  case (2 x xs d t fd w)
  show ?case
  proof (cases "t < length d")
    case True
    show ?thesis
    proof (cases x)
      case (Wrote n)
      show ?thesis
      proof (cases "take n (drop t d) = []")
        case False
        let ?bs = "take n (drop t d)"
        have len: "t + length ?bs \<le> length d" "0 < length ?bs" using True False by auto
        have rec: "send_loop xs d (t + length ?bs) 0 (put_on_wire ?bs fd w) = Some (ok, u, w', rest)"
          using "2.prems" True Wrote False by (simp add: Let_def)
        note IH = "2.IH"(1) [OF _ Wrote refl False rec len(1)]
        have IH: "t + length ?bs \<le> u \<and> u \<le> length d \<and> (ok \<longleftrightarrow> u = length d) \<and>
            sent_bytes w' = sent_bytes w @ ?bs @ take (u - (t + length ?bs)) (drop (t + length ?bs) d) \<and>
            sent_fds w' = sent_fds w @ (if 0 < fd then [(length (sent_bytes w), fd)] else [])"
          using IH True by (simp add: put_on_wire_def)
        moreover have "?bs @ take (u - (t + length ?bs)) (drop (t + length ?bs) d) = take (u - t) (drop t d)"
        proof -
          have "?bs = take (length ?bs) (drop t d)" by (cases "n \<le> length d - t") auto
          then have "?bs @ take (u - (t + length ?bs)) (drop (t + length ?bs) d)
              = take (length ?bs) (drop t d) @ take (u - (t + length ?bs)) (drop (length ?bs) (drop t d))"
            by (simp add: add.commute)
          also have "\<dots> = take (length ?bs + (u - (t + length ?bs))) (drop t d)" by (simp only: take_add)
          also have "length ?bs + (u - (t + length ?bs)) = u - t" using IH by linarith
          finally show ?thesis .
        qed
        ultimately show ?thesis using len(2) by auto
      qed (use "2.prems" True Wrote in simp)
    next
      case (Would_block b)
      show ?thesis
      proof (cases b)
        case True
        then have "send_loop xs d t fd w = Some (ok, u, w', rest)"
          using "2.prems" \<open>t < length d\<close> Would_block by simp
        then show ?thesis using "2.IH"(2) [OF _ Would_block True] "2.prems"(2) \<open>t < length d\<close> by blast
      qed (use "2.prems" True Would_block in auto)
    next
      case (Write_error e)
      show ?thesis
      proof (cases "e = EINTR")
        case True
        then have "send_loop xs d t fd w = Some (ok, u, w', rest)"
          using "2.prems" \<open>t < length d\<close> Write_error by simp
        then show ?thesis using "2.IH"(3) [OF _ Write_error True] "2.prems"(2) \<open>t < length d\<close> by blast
      qed (use "2.prems" True Write_error in auto)
    qed
  qed (use "2.prems" in simp)
qed (auto split: if_splits)

text \<open>
  Whatever the socket answers, sending moves bytes from the front of the buffer to the socket: none
  lost, none repeated, none out of order. It succeeds exactly when the buffer is empty afterwards;
  otherwise the rest stays for the next attempt. A descriptor goes with the first byte that is
  accepted; if the attempt fails before that, the descriptor is gone although the bytes remain.
\<close>

lemma send_moves:
  assumes "xout_ok s" "unsent s \<noteq> []" "XOutputStream_send answers s w = Some (ok, s', w', rest)"
  shows "\<exists>bs. sent_bytes w' = sent_bytes w @ bs \<and> unsent s = bs @ unsent s' \<and> (ok \<longleftrightarrow> unsent s' = []) \<and>
    xout_ok s' \<and> ancillaryFd s' = 0 \<and>
    sent_fds w' = sent_fds w @ (if 0 < ancillaryFd s \<and> bs \<noteq> [] then [(length (sent_bytes w), ancillaryFd s)] else [])"
proof -
  let ?d = "take (oposition s) (odata s)"
  have pos: "oposition s \<noteq> 0" "oposition s \<le> length (odata s)" using assms(1,2) by (auto simp: unsent_def xout_ok_def)
  then obtain u where loop: "send_loop answers ?d 0 (ancillaryFd s) w = Some (ok, u, w', rest)"
    using assms(3) by (auto simp: XOutputStream_send_def Let_def bind_eq_Some_conv split: option.splits bool.splits if_splits)
  note L = send_loop_sent [OF loop]
  have u: "u \<le> oposition s" "ok \<longleftrightarrow> u = oposition s" using L pos by auto
  have "unsent s = take u ?d @ unsent s' \<and> (ok \<longleftrightarrow> unsent s' = []) \<and> xout_ok s' \<and> ancillaryFd s' = 0"
  proof (cases ok)
    case True
    then have "s' = s\<lparr>oposition := 0, ancillaryFd := 0, olimit := ocapacity s\<rparr>"
      using assms(3) pos loop by (auto simp add: XOutputStream_send_def Let_def)
    then show ?thesis using True u(2) assms(1) by (simp add: unsent_def xout_ok_def)
  next
    case False
    define d where "d = (if 0 < u then splice 0 (take (oposition s - u) (drop u (odata s))) (odata s) else odata s)"
    have "s' = s\<lparr>olimit := ocapacity s, oposition := oposition s - u, ancillaryFd := 0, odata := d\<rparr>"
      using assms(3) pos loop False by (auto simp: XOutputStream_send_def Let_def bind_eq_Some_conv d_def split: if_splits)
    moreover have "take (oposition s - u) d = take (oposition s - u) (drop u (odata s))" "length d = length (odata s)"
      using pos u(1) by (auto simp: d_def splice_def)
    ultimately show ?thesis using False u pos assms(1)
      by (auto simp: unsent_def xout_ok_def take_split)
  qed
  moreover have "take u ?d \<noteq> [] \<longleftrightarrow> 0 < u" using pos by auto
  ultimately show ?thesis using L by (intro exI [of _ "take u ?d"]) auto
qed


section \<open>Receiving\<close>

lemma read_bytes_ok:
  assumes "xin_ok s" "read_bytes n s = Some (bs, s')" "int n \<le> xin_available s"
  shows "xin_ok s'" "unread s = bs @ unread s'" "length bs = n"
proof -
  have a: "active s" "active_position s + n \<le> length (idata s)" "bs = take n (drop (active_position s) (idata s))"
    "s' = s\<lparr>active_position := active_position s + n\<rparr>"
    using assms(2) by (auto simp: read_bytes_def bind_eq_Some_conv split: if_splits)
  then have n: "active_position s + n \<le> iposition s" using assms(1,3) by (auto simp: xin_ok_def xin_available_def)
  show "xin_ok s'" using assms(1) a by (simp add: xin_ok_def)
  show "length bs = n" using a by simp
  have "bs = take n (unread s)" using a n by (simp add: unread_def drop_take take_take)
  moreover have "unread s' = drop n (unread s)" using a by (simp add: unread_def add.commute)
  ultimately show "unread s = bs @ unread s'" by simp
qed

lemma make_room_ok:
  assumes "xin_ok s" "make_room s = Some t"
  shows "xin_ok t" "\<not> active t" "unread t = unread s" "ancillary_fds t = ancillary_fds s"
proof -
  let ?a = "active_position s" and ?p = "iposition s"
  have "xin_ok t \<and> \<not> active t \<and> unread t = unread s \<and> ancillary_fds t = ancillary_fds s"
  proof (cases "active s \<and> 0 < ?a \<and> ?a < active_limit s")
    case False
    then show ?thesis using assms by (auto simp: make_room_def xin_ok_def unread_def split: if_splits)
  next
    case True
    then have p: "active_limit s = ?p" "?a < ?p" "?p \<le> length (idata s)" "length (idata s) = icapacity s"
      "0 < icapacity s" using assms(1) by (auto simp: xin_ok_def)
    let ?d = "splice 0 (take (?p - ?a) (drop ?a (idata s))) (idata s)"
    have t: "t = s\<lparr>idata := ?d, iposition := ?p - ?a, ilimit := icapacity s, active := False\<rparr>"
      using assms(2) True p
      by (auto simp: make_room_def compactInputBuffer_def mem_cpy_down_def Let_def bind_eq_Some_conv split: if_splits)
    have "length ?d = length (idata s)" "take (?p - ?a) ?d = take (?p - ?a) (drop ?a (idata s))"
      using p by (simp_all add: splice_def)
    then show ?thesis using True p by (simp add: t xin_ok_def unread_def drop_take)
  qed
  then show "xin_ok t" "\<not> active t" "unread t = unread s" "ancillary_fds t = ancillary_fds s" by auto
qed

lemma grow_ok:
  assumes "xin_ok s" "\<not> active s" "growInputBufferIfNecessary s = Some t"
  shows "xin_ok t" "\<not> active t" "unread t = unread s" "iposition t < icapacity t" "ancillary_fds t = ancillary_fds s"
proof -
  have "xin_ok t \<and> \<not> active t \<and> unread t = unread s \<and> iposition t < icapacity t \<and> ancillary_fds t = ancillary_fds s"
    using assms by (auto simp: growInputBufferIfNecessary_def xin_ok_def unread_def Let_def resize_def split: if_splits)
  then show "xin_ok t" "\<not> active t" "unread t = unread s" "iposition t < icapacity t" "ancillary_fds t = ancillary_fds s"
    by auto
qed

lemma received_ok:
  assumes "xin_ok s" "\<not> active s" "received bs s = Some (n, t)"
  shows "n = int (length bs)" "unread ((activateInputBuffer t)\<lparr>ilimit := icapacity t\<rparr>) = unread s @ bs"
    "xin_ok ((activateInputBuffer t)\<lparr>ilimit := icapacity t\<rparr>)"
  using assms
  by (auto simp: received_def bind_eq_Some_conv xin_ok_def unread_def activateInputBuffer_def take_splice_end)

lemma readMoreData_ok:
  assumes "xin_ok s" "XInputStream_readMoreData anc answer s = Some (n, t)"
  shows "xin_ok t \<and> (case answer of
      Receive_error e \<Rightarrow> n = - int e \<and> unread t = unread s
    | Incoming bs fds \<Rightarrow> \<exists>k. n = int (length (take k bs)) \<and> unread t = unread s @ take k bs \<and> (bs \<noteq> [] \<longrightarrow> 0 < n))"
proof -
  obtain s1 where s1: "make_room s = Some s1" using assms(2)
    by (auto simp: XInputStream_readMoreData_def bind_eq_Some_conv)
  obtain s2 where s2: "growInputBufferIfNecessary s1 = Some s2" using assms(2) s1
    by (auto simp: XInputStream_readMoreData_def bind_eq_Some_conv)
  note ok1 = make_room_ok [OF assms(1) s1]
  note ok2 = grow_ok [OF ok1(1,2) s2]
  define room where "room = ilimit s2 - iposition s2"
  have room: "0 < room" using ok2(1,4) by (simp add: room_def xin_ok_def)
  show ?thesis
  proof (cases answer)
    case (Receive_error e)
    then show ?thesis using assms(2) s1 s2 ok1 ok2
      by (auto simp: XInputStream_readMoreData_def XInputStream_read_def XInputStream_recvmsg_def split: if_splits)
  next
    case (Incoming bs fds)
    show ?thesis
    proof (cases "bs = []")
      case True
      then show ?thesis using assms(2) s1 s2 ok1 ok2 Incoming
        by (auto simp: XInputStream_readMoreData_def XInputStream_read_def XInputStream_recvmsg_def split: if_splits)
    next
      case False
      then have ne: "take room bs \<noteq> []" using room by simp
      obtain a r where a: "received (take room bs) (s2\<lparr>ancillary_fds := a\<rparr>) = Some (n, r)"
        "t = (activateInputBuffer r)\<lparr>ilimit := icapacity r\<rparr>"
      proof -
        have "\<exists>a r. received (take room bs) (s2\<lparr>ancillary_fds := a\<rparr>) = Some (n, r) \<and>
            t = (if 0 < n then (activateInputBuffer r)\<lparr>ilimit := icapacity r\<rparr> else r)"
        proof (cases anc)
          case True
          then obtain y b where "received (take room bs) (s2\<lparr>ancillary_fds := y\<rparr>) = Some (n, b)"
            "t = (if 0 < n then (activateInputBuffer b)\<lparr>ilimit := icapacity b\<rparr> else b)"
            using assms(2) s1 s2 ne Incoming
            by (auto simp: XInputStream_readMoreData_def XInputStream_recvmsg_def room_def Let_def bind_eq_Some_conv)
          then show ?thesis by blast
        next
          case False
          then obtain b where "received (take room bs) s2 = Some (n, b)"
            "t = (if 0 < n then (activateInputBuffer b)\<lparr>ilimit := icapacity b\<rparr> else b)"
            using assms(2) s1 s2 ne Incoming
            by (auto simp: XInputStream_readMoreData_def XInputStream_read_def room_def Let_def bind_eq_Some_conv)
          moreover have "s2\<lparr>ancillary_fds := ancillary_fds s2\<rparr> = s2" by simp
          ultimately show ?thesis by metis
        qed
        moreover have "0 < n" if "received (take room bs) u = Some (n, r)" for u r
          using that ne by (auto simp: received_def bind_eq_Some_conv)
        ultimately show ?thesis using that by fastforce
      qed
      have "xin_ok (s2\<lparr>ancillary_fds := a\<rparr>)" "\<not> active (s2\<lparr>ancillary_fds := a\<rparr>)"
        "unread (s2\<lparr>ancillary_fds := a\<rparr>) = unread s2"
        using ok2 by (simp_all add: xin_ok_def unread_def)
      note r = received_ok [OF this(1,2) a(1)] this(3)
      then show ?thesis using Incoming a(2) ok1(3) ok2(3) ne by (auto intro!: exI [of _ room])
    qed
  qed
qed


section \<open>Typed values\<close>

text \<open>A typed read after its bytes have arrived returns the value whose bytes they are.\<close>

lemma read_back:
  assumes "xin_ok s" "active s" "unread s = bs @ rest" "bs \<noteq> []"
  shows "\<exists>t. read_bytes (length bs) s = Some (bs, t) \<and> unread t = rest \<and> xin_ok t"
proof -
  have "length bs \<le> iposition s - active_position s" "0 < length bs"
    using arg_cong [OF assms(3), of length] assms(1,2,4) by (auto simp: unread_def xin_ok_def)
  then have "active_position s + length bs \<le> iposition s" by linarith
  then have n: "int (length bs) \<le> xin_available s" "active_position s + length bs \<le> length (idata s)"
    using assms(1,2) by (auto simp: xin_ok_def xin_available_def)
  then obtain cs t where t: "read_bytes (length bs) s = Some (cs, t)" using assms(2)
    by (auto simp: read_bytes_def mem_read_ok)
  note r = read_bytes_ok [OF assms(1) t n(1)]
  then have "cs = bs \<and> unread t = rest" using assms(3) by simp
  then show ?thesis using t r(1) by blast
qed

lemma read_word:
  fixes w :: "'a::len word"
  assumes "xin_ok s" "active s" "unread s = le_bytes n w @ rest" "LENGTH('a) \<le> 8 * n"
  shows "\<exists>t. map_option (apfst le_word) (read_bytes n s) = Some (w, t) \<and> unread t = rest \<and> xin_ok t"
proof -
  have "0 < n" using assms(4) len_gt_0 [where 'a = 'a] by linarith
  then have "le_bytes n w \<noteq> []" using length_le_bytes [of n w] by (metis length_0_conv less_numeral_extra(3))
  from read_back [OF assms(1-3) this] obtain t where
    "read_bytes n s = Some (le_bytes n w, t)" "unread t = rest" "xin_ok t" by auto
  then show ?thesis by (simp add: le_word_le_bytes [OF assms(4)])
qed

lemma xin_typed:
  assumes "xin_ok s" "active s"
  shows "unread s = le_bytes 1 a @ rest \<Longrightarrow> \<exists>t. xin_readByte s = Some (a, t) \<and> unread t = rest \<and> xin_ok t"
    "unread s = le_bytes 2 b @ rest \<Longrightarrow> \<exists>t. xin_readShort s = Some (b, t) \<and> unread t = rest \<and> xin_ok t"
    "unread s = le_bytes 4 c @ rest \<Longrightarrow> \<exists>t. xin_readInt s = Some (c, t) \<and> unread t = rest \<and> xin_ok t"
    "unread s = le_bytes 8 d @ rest \<Longrightarrow> \<exists>t. xin_readLong s = Some (d, t) \<and> unread t = rest \<and> xin_ok t"
  unfolding xin_readByte_def xin_readShort_def xin_readInt_def xin_readLong_def
  by (rule read_word [OF assms]; simp)+

section \<open>A connection\<close>

text \<open>
  A writer, the socket and a reader. \<open>arrived\<close> counts the bytes that have left the socket;
  \<open>written\<close> and \<open>got\<close> record what the two programs wrote and read. The socket hands out any
  number of the bytes that are next, or fails, and it answers the sender as it likes.
\<close>

record connection =
  writer :: xoutput
  net :: wire
  arrived :: nat
  reader :: xinput
  written :: "byte list"
  got :: "byte list"

inductive conn_step :: "connection \<Rightarrow> connection \<Rightarrow> bool" where
  conn_write: "write_bytes bs (writer c) = Some o' \<Longrightarrow> conn_step c (c\<lparr>writer := o', written := written c @ bs\<rparr>)"
| conn_send: "XOutputStream_send answers (writer c) (net c) = Some (ok, o', w', rest) \<Longrightarrow>
    conn_step c (c\<lparr>writer := o', net := w'\<rparr>)"
| conn_receive: "XInputStream_readMoreData anc (Incoming (take k (drop (arrived c) (sent_bytes (net c)))) fds) (reader c)
      = Some (n, i') \<Longrightarrow> conn_step c (c\<lparr>reader := i', arrived := arrived c + nat n\<rparr>)"
| conn_fail: "XInputStream_readMoreData anc (Receive_error e) (reader c) = Some (n, i') \<Longrightarrow>
    conn_step c (c\<lparr>reader := i'\<rparr>)"
| conn_read: "read_bytes n (reader c) = Some (bs, i') \<Longrightarrow> int n \<le> xin_available (reader c) \<Longrightarrow>
    conn_step c (c\<lparr>reader := i', got := got c @ bs\<rparr>)"

inductive_cases conn_stepE: "conn_step c d"

definition new_connection :: "nat \<Rightarrow> nat \<Rightarrow> connection" where
  "new_connection m n = \<lparr>writer = XOutputStream_allocate m, net = \<lparr>sent_bytes = [], sent_fds = []\<rparr>, arrived = 0,
     reader = XInputStream_allocate n, written = [], got = []\<rparr>"

definition conn_inv :: "connection \<Rightarrow> bool" where
  "conn_inv c \<longleftrightarrow> xout_ok (writer c) \<and> xin_ok (reader c) \<and> arrived c \<le> length (sent_bytes (net c)) \<and>
     written c = sent_bytes (net c) @ unsent (writer c) \<and>
     take (arrived c) (sent_bytes (net c)) = got c @ unread (reader c)"

lemma conn_step_inv:
  assumes "conn_step c d" "conn_inv c"
  shows "conn_inv d"
  using assms(1)
proof cases
  case (conn_write bs o')
  then show ?thesis using assms(2) write_bytes_ok [of "writer c" bs o'] by (simp add: conn_inv_def)
next
  case (conn_send answers ok o' w' rest)
  show ?thesis
  proof (cases "unsent (writer c) = []")
    case True
    then have "oposition (writer c) = 0" using assms(2) by (auto simp: conn_inv_def xout_ok_def unsent_def)
    then show ?thesis using conn_send assms(2) by (simp add: XOutputStream_send_def conn_inv_def)
  next
    case False
    then show ?thesis
      using send_moves [OF _ False conn_send(2)] assms(2) conn_send(1) by (auto simp: conn_inv_def)
  qed
next
  case (conn_receive anc k fds n i')
  let ?bs = "take k (drop (arrived c) (sent_bytes (net c)))"
  obtain j where j: "n = int (length (take j ?bs))" "unread i' = unread (reader c) @ take j ?bs" "xin_ok i'"
    using readMoreData_ok [OF _ conn_receive(2)] assms(2) by (auto simp: conn_inv_def)
  let ?m = "min j k"
  have bs: "take j ?bs = take ?m (drop (arrived c) (sent_bytes (net c)))" by simp
  have "take (arrived c + nat n) (sent_bytes (net c)) = take (arrived c) (sent_bytes (net c)) @ take j ?bs"
    unfolding j(1) bs by (simp add: take_add min_def)
  then show ?thesis using conn_receive(1) j assms(2) by (auto simp: conn_inv_def)
next
  case (conn_fail anc e n i')
  then show ?thesis using readMoreData_ok [OF _ conn_fail(2)] assms(2) by (auto simp: conn_inv_def)
next
  case (conn_read n bs i')
  then show ?thesis using read_bytes_ok [OF _ conn_read(2,3)] assms(2) by (auto simp: conn_inv_def)
qed


text \<open>
  A client that passes two descriptors in one message and a third one after the first was taken
  makes the X server write past the end of its array of descriptors (\<open>IntArray_removeAt\<close> moves
  the rest to a smaller block but keeps the capacity).
\<close>
theorem received_descriptors_overflow:
  assumes "xin_ok s" "items (ancillary_fds s) = [a, b]" "ia_ok (ancillary_fds s)"
    and "active s" "active_limit s \<le> active_position s"
  shows "\<exists>t. xin_getAncillaryFd s = Some (a, t) \<and> XInputStream_readMoreData True (Incoming [x] [c]) t = None"
proof -
  let ?a = "ancillary_fds s"
  have size: "asize ?a = 2" "2 \<le> length (block ?a)"
  proof -
    have "length (items ?a) = asize ?a" using assms(3) by (auto simp: items_def ia_ok_def)
    then show "asize ?a = 2" using assms(2) by simp
    then show "2 \<le> length (block ?a)" using assms(3) by (auto simp: ia_ok_def)
  qed
  define t where "t = s\<lparr>ancillary_fds := IntArray_remove 0 1 ?a\<rparr>"
  have "block ?a \<noteq> []" using size(2) by auto
  moreover have "block ?a ! 0 = a" using assms(2) size by (metis items_def nth_Cons_0 nth_take zero_less_numeral)
  ultimately have get: "xin_getAncillaryFd s = Some (a, t)"
    using size by (simp add: xin_getAncillaryFd_def IntArray_removeAt_def mem_get_def t_def)
  have add: "IntArray_add c (ancillary_fds t) = None"
    using remove_then_add [OF assms(3), of 1 0 c] size by (simp add: t_def)
  let ?u = "t\<lparr>iposition := 0, ilimit := icapacity t, active := False\<rparr>"
  have "make_room t = Some ?u" using assms(4,5) by (simp add: make_room_def t_def)
  moreover have "growInputBufferIfNecessary ?u = Some ?u" "0 < icapacity t"
    using assms(1) by (auto simp: growInputBufferIfNecessary_def xin_ok_def t_def)
  ultimately show ?thesis using get add
    by (auto simp: XInputStream_readMoreData_def XInputStream_recvmsg_def Let_def)
qed

definition demo_client :: xinput where
  "demo_client = \<lparr>idata = [0], icapacity = 1, iposition = 1, ilimit = 1, active = True, active_position = 1,
     active_limit = 1, ancillary_fds = \<lparr>asize = 2, capacity = 8, cells = Some [7, 8]\<rparr>\<rparr>"

theorem received_descriptors_overflow_witness:
  "\<exists>t. xin_getAncillaryFd demo_client = Some (7, t) \<and> XInputStream_readMoreData True (Incoming [5] [9]) t = None"
  by (rule received_descriptors_overflow [where b = 8])
    (simp_all add: demo_client_def xin_ok_def items_def block_def ia_ok_def fits_int_def)

definition demo_writer :: xoutput where
  "demo_writer = \<lparr>ancillaryFd = 0, odata = [1, 2, 0, 0], ocapacity = 4, oposition = 2, olimit = 4\<rparr>"

definition demo_reader :: "nat \<Rightarrow> xinput" where
  "demo_reader p = \<lparr>idata = [1, 0, 0, 0], icapacity = 4, iposition = 1, ilimit = 4, active = True,
     active_position = p, active_limit = 1, ancillary_fds = new_array\<rparr>"

lemma demo_steps:
  "write_bytes [1, 2] (XOutputStream_allocate 4) = Some demo_writer"
  "XOutputStream_send [Wrote 2] demo_writer \<lparr>sent_bytes = [], sent_fds = []\<rparr> =
     Some (True, demo_writer\<lparr>oposition := 0\<rparr>, \<lparr>sent_bytes = [1, 2], sent_fds = []\<rparr>, [])"
  "XInputStream_readMoreData False (Incoming (take 1 (drop 0 [1, 2])) []) (XInputStream_allocate 4) = Some (1, demo_reader 0)"
  "read_bytes 1 (demo_reader 0) = Some ([1], demo_reader 1)"
  by code_simp+



end
