(* ===== verification/Identity.thy ===== *)
theory Identity
  imports RuntimeEnv
begin

text \<open>
  \<open>native/runtime/identity.c\<close>: user and group identity. Android application users have no entry
  in the guest's \<open>/etc/passwd\<close>; the runtime makes one up. Also the stubs of the audit library.

  A buffer of the caller is a list of characters as long as it was given; a pointer into it is its
  index. Beside the caller's structure, the next definitions (\<open>getpwuid_r\<close>, ...) are parameters.
\<close>

section \<open>User and group numbers\<close>

definition virtual_root :: "renv \<Rightarrow> bool" where
  "virtual_root st \<longleftrightarrow> getenv st ''BIONICX_VIRTUAL_ROOT'' = Some ''1''"

text \<open>\<open>real\<close>: what the next definition returns.\<close>

definition getuid :: "renv \<Rightarrow> nat \<Rightarrow> nat" where "getuid st real = (if virtual_root st then 0 else real)"
definition geteuid :: "renv \<Rightarrow> nat \<Rightarrow> nat" where "geteuid st real = (if virtual_root st then 0 else real)"
definition getgid :: "renv \<Rightarrow> nat \<Rightarrow> nat" where "getgid st real = (if virtual_root st then 0 else real)"
definition getegid :: "renv \<Rightarrow> nat \<Rightarrow> nat" where "getegid st real = (if virtual_root st then 0 else real)"

section \<open>The synthetic user\<close>

definition synthetic_shell :: "renv \<Rightarrow> string" where
  "synthetic_shell st = (case getenv st ''SHELL'' of
      None \<Rightarrow> ''/bin/sh''
    | Some s \<Rightarrow> if \<not> absolute s \<or> prefix ''/system/'' s then ''/bin/sh'' else s)"

definition synthetic_home :: "renv \<Rightarrow> string" where
  "synthetic_home st = (case getenv st ''HOME'' of
      None \<Rightarrow> ''/tmp''
    | Some h \<Rightarrow> if \<not> absolute h then ''/tmp'' else h)"

record passwd =
  pw_name :: nat
  pw_passwd :: nat
  pw_uid :: nat
  pw_gid :: nat
  pw_gecos :: nat
  pw_dir :: nat
  pw_shell :: nat

definition NUL :: char where "NUL = CHR 0x00"

definition user_fields :: "renv \<Rightarrow> string list" where
  "user_fields st = [''bionicx'', ''x'', ''BionicX Android app'', synthetic_home st, synthetic_shell st]"

text \<open>\<open>COPY_FIELD\<close> for every field: the pointers and the buffer. \<open>None\<close>: a copy past the end.\<close>

fun copy_fields :: "nat \<Rightarrow> string list \<Rightarrow> string \<Rightarrow> (nat list \<times> string) option" where
  "copy_fields cursor [] buffer = Some ([], buffer)"
| "copy_fields cursor (f # fs) buffer = do {
     b \<leftarrow> mem_write cursor (f @ [NUL]) buffer;
     (ps, b) \<leftarrow> copy_fields (cursor + length f + 1) fs b;
     Some (cursor # ps, b) }"

text \<open>The outcome: an error number, or the structure and the buffer; \<open>None\<close> is undefined behaviour.\<close>

definition synthetic_user :: "renv \<Rightarrow> nat \<Rightarrow> nat \<Rightarrow> string \<Rightarrow> (errno + passwd \<times> string) option" where
  "synthetic_user st uid egid buffer =
     (let required = sum_list (map (\<lambda>f. length f + 1) (user_fields st)) in
      if length buffer < required then Some (Inl ERANGE) else
      case copy_fields 0 (user_fields st) buffer of
        None \<Rightarrow> None
      | Some (ps, b) \<Rightarrow> Some (Inr
          (\<lparr>pw_name = ps ! 0, pw_passwd = ps ! 1, pw_uid = uid, pw_gid = egid, pw_gecos = ps ! 2,
            pw_dir = ps ! 3, pw_shell = ps ! 4\<rparr>, b)))"

text \<open>
  What the next \<open>getpwuid_r\<close> leaves: its status, whether it found an entry, and structure and
  buffer. The runtime answers for the process's own user: always when it runs in a rootfs,
  otherwise when there is no other answer.
\<close>

record 'a lookup =
  status :: "errno option"
  found :: bool
  entry :: "'a"
  text_buffer :: string

definition own_answer :: "(errno + 'a \<times> string) option \<Rightarrow> 'a lookup \<Rightarrow> 'a lookup option" where
  "own_answer r l = map_option (\<lambda>x. case x of
      Inl e \<Rightarrow> l\<lparr>status := Some e\<rparr>
    | Inr (p, b) \<Rightarrow> \<lparr>status = None, found = True, entry = p, text_buffer = b\<rparr>) r"

definition getpwuid_r ::
    "(nat \<Rightarrow> passwd lookup \<Rightarrow> passwd lookup) \<Rightarrow> renv \<Rightarrow> nat \<Rightarrow> nat \<Rightarrow> nat \<Rightarrow> passwd lookup \<Rightarrow> passwd lookup option" where
  "getpwuid_r next_lookup st real_euid real_egid uid l =
     (let mine = (uid = geteuid st real_euid);
          own = (\<lambda>l. own_answer (synthetic_user st uid (getegid st real_egid) (text_buffer l)) l) in
      if mine \<and> getenv st ''BIONICX_ROOTFS'' \<noteq> None then own l else
      let l' = next_lookup uid l in
      if (status l' \<noteq> None \<or> \<not> found l') \<and> mine then own l' else Some l')"

text \<open>The thread's own structure and \<open>PATH_MAX\<close> characters; the result pointer, or NULL and \<open>errno\<close>.\<close>

definition getpwuid ::
    "(nat \<Rightarrow> passwd lookup \<Rightarrow> passwd lookup) \<Rightarrow> renv \<Rightarrow> nat \<Rightarrow> nat \<Rightarrow> nat \<Rightarrow> passwd lookup \<Rightarrow>
     (errno option \<times> (passwd \<times> string) option \<times> passwd lookup) option" where
  "getpwuid next_lookup st real_euid real_egid uid l =
     map_option (\<lambda>l'. (status l', if status l' = None \<and> found l' then Some (entry l', text_buffer l') else None, l'))
       (getpwuid_r next_lookup st real_euid real_egid uid (l\<lparr>found := False\<rparr>))"

section \<open>The synthetic group\<close>

record grp =
  gr_name :: nat
  gr_passwd :: nat
  gr_gid :: nat
  gr_mem :: "string list"

definition synthetic_group :: "nat \<Rightarrow> string \<Rightarrow> (errno + grp \<times> string) option" where
  "synthetic_group gid buffer =
     (let name = ''bionicx'' @ [NUL]; password = ''x'' @ [NUL] in
      if length buffer < length name + length password then Some (Inl ERANGE) else
      do { b \<leftarrow> mem_write 0 name buffer;
           b \<leftarrow> mem_write (length name) password b;
           Some (Inr (\<lparr>gr_name = 0, gr_passwd = length name, gr_gid = gid, gr_mem = []\<rparr>, b)) })"

definition getgrgid_r ::
    "(nat \<Rightarrow> grp lookup \<Rightarrow> grp lookup) \<Rightarrow> renv \<Rightarrow> nat \<Rightarrow> nat \<Rightarrow> grp lookup \<Rightarrow> grp lookup option" where
  "getgrgid_r next_lookup st real_egid gid l =
     (let l' = next_lookup gid l in
      if (status l' \<noteq> None \<or> \<not> found l') \<and> gid = getegid st real_egid
      then own_answer (synthetic_group gid (text_buffer l')) l' else Some l')"

definition getgrgid ::
    "(nat \<Rightarrow> grp lookup \<Rightarrow> grp lookup) \<Rightarrow> renv \<Rightarrow> nat \<Rightarrow> nat \<Rightarrow> grp lookup \<Rightarrow>
     (errno option \<times> (grp \<times> string) option \<times> grp lookup) option" where
  "getgrgid next_lookup st real_egid gid l =
     map_option (\<lambda>l'. (status l', if status l' = None \<and> found l' then Some (entry l', text_buffer l') else None, l'))
       (getgrgid_r next_lookup st real_egid gid (l\<lparr>found := False\<rparr>))"

section \<open>The audit library\<close>

text \<open>\<open>null\<close>: opening \<open>/dev/null\<close>; otherwise the writing end of a pipe. The descriptor, and those closed.\<close>

definition audit_open :: "int \<Rightarrow> (errno + int \<times> int) \<Rightarrow> int \<times> int list" where
  "audit_open null pipe =
     (if 0 \<le> null then (null, [])
      else case pipe of Inl _ \<Rightarrow> (-1, []) | Inr (r, w) \<Rightarrow> (w, [r]))"

definition audit_log_message :: int where "audit_log_message = 1"

section \<open>The process's own entry\<close>

text \<open>The C string at index \<open>i\<close> of a buffer.\<close>

definition cstring_at :: "string \<Rightarrow> nat \<Rightarrow> string" where
  "cstring_at b i = takeWhile (\<lambda>c. c \<noteq> NUL) (drop i b)"

definition fields_size :: "string list \<Rightarrow> nat" where
  "fields_size fs = sum_list (map (\<lambda>f. length f + 1) fs)"

lemma fields_size_Cons [simp]: "fields_size [] = 0" "fields_size (f # fs) = length f + 1 + fields_size fs"
  by (simp_all add: fields_size_def)

lemma cstring_splice:
  "i + length f + 1 \<le> length b \<Longrightarrow> NUL \<notin> set f \<Longrightarrow> cstring_at (splice i (f @ [NUL]) b) i = f"
  by (simp add: cstring_at_def splice_def)

lemma cstring_below:
  assumes "take n b = take n b'" "i + length (cstring_at b' i) < n" "n \<le> length b'" "n \<le> length b"
  shows "cstring_at b i = cstring_at b' i"
proof -
  let ?d = "drop i (take n b')"
  have d: "drop i c = drop i (take n c) @ drop n c" if "n \<le> length c" for c
    using drop_append [of i "take n c" "drop n c"] that assms(2) by simp
  have "NUL \<in> set ?d"
  proof (rule ccontr)
    assume "NUL \<notin> set ?d"
    then have "\<And>c. c \<in> set ?d \<Longrightarrow> c \<noteq> NUL" by metis
    from takeWhile_append2 [of ?d "\<lambda>c. c \<noteq> NUL", OF this]
    have "cstring_at b' i = ?d @ takeWhile (\<lambda>c. c \<noteq> NUL) (drop n b')"
      unfolding cstring_at_def by (subst d [OF assms(3)]) simp
    then show False using assms(2,3) by simp
  qed
  then have "takeWhile (\<lambda>c. c \<noteq> NUL) (?d @ r) = takeWhile (\<lambda>c. c \<noteq> NUL) ?d" for r
    by (simp add: takeWhile_append1)
  then show ?thesis using d [OF assms(3)] d [OF assms(4)] assms(1) by (simp add: cstring_at_def)
qed

lemma copy_fields_ok:
  assumes "cursor + fields_size fs \<le> length buffer" "\<forall>f\<in>set fs. NUL \<notin> set f"
  shows "\<exists>ps b. copy_fields cursor fs buffer = Some (ps, b) \<and> length b = length buffer \<and> length ps = length fs \<and>
    take cursor b = take cursor buffer \<and>
    drop (cursor + fields_size fs) b = drop (cursor + fields_size fs) buffer \<and>
    map (cstring_at b) ps = fs"
  using assms
proof (induction fs arbitrary: cursor buffer)
  case (Cons f fs)
  let ?b = "splice cursor (f @ [NUL]) buffer" and ?c = "cursor + length f + 1"
  have len: "?c \<le> length buffer" using Cons.prems(1) by simp
  then have "length ?b = length buffer" by simp
  then obtain ps b where b: "copy_fields ?c fs ?b = Some (ps, b)" "length b = length buffer" "length ps = length fs"
    "take ?c b = take ?c ?b" "drop (?c + fields_size fs) b = drop (?c + fields_size fs) ?b" "map (cstring_at b) ps = fs"
    using Cons.IH [of ?c ?b] Cons.prems by auto
  have "cstring_at ?b cursor = f" using cstring_splice len Cons.prems(2) by simp
  then have "cstring_at b cursor = f"
    using cstring_below [OF b(4), of cursor] len b(2) by simp
  moreover have "take cursor b = take cursor buffer"
  proof -
    have "take cursor b = take cursor (take ?c b)" by simp
    also have "\<dots> = take cursor (take ?c ?b)" by (simp only: b(4))
    also have "\<dots> = take cursor buffer" using len by (simp add: take_splice)
    finally show ?thesis .
  qed
  moreover have "drop (?c + fields_size fs) b = drop (?c + fields_size fs) buffer"
    using b(5) len by (simp add: drop_splice)
  moreover have "copy_fields cursor (f # fs) buffer = Some (cursor # ps, b)"
  proof -
    have w: "mem_write cursor (f @ [NUL]) buffer = Some ?b" using len by (simp add: mem_write_ok)
    show ?thesis using b(1) by (simp add: w del: mem_write_Some)
  qed
  ultimately have "copy_fields cursor (f # fs) buffer = Some (cursor # ps, b) \<and> length b = length buffer \<and>
      length (cursor # ps) = length (f # fs) \<and> take cursor b = take cursor buffer \<and>
      drop (cursor + fields_size (f # fs)) b = drop (cursor + fields_size (f # fs)) buffer \<and>
      map (cstring_at b) (cursor # ps) = f # fs"
    using b(2,3,6) by (simp add: add.assoc)
  then show ?case by (intro exI [of _ "cursor # ps"] exI [of _ b])
qed simp

text \<open>
For the process's own user in a rootfs, \<open>getpwuid_r\<close> never writes outside the caller's buffer: a
  buffer that is too small is refused with \<open>ERANGE\<close> and left alone; otherwise the five pointers lead
  to the five strings, home and shell are absolute, the shell is never Android's, the numbers are
  those that \<open>getuid\<close> and \<open>getgid\<close> would tell, and what lies behind the strings is untouched.
\<close>
theorem own_user_entry:
  assumes "uid = geteuid st real_euid" "getenv st ''BIONICX_ROOTFS'' \<noteq> None"
    and "\<forall>f\<in>set (user_fields st). NUL \<notin> set f"
    and "n = fields_size (user_fields st)" "l' = the (getpwuid_r next_lookup st real_euid real_egid uid l)"
  shows "getpwuid_r next_lookup st real_euid real_egid uid l = Some l' \<and>
    length (text_buffer l') = length (text_buffer l) \<and>
    drop n (text_buffer l') = drop n (text_buffer l) \<and>
    (if length (text_buffer l) < n then l' = l\<lparr>status := Some ERANGE\<rparr>
     else status l' = None \<and> found l' \<and>
       map (\<lambda>f. cstring_at (text_buffer l') (f (entry l'))) [pw_name, pw_passwd, pw_gecos, pw_dir, pw_shell] =
         [''bionicx'', ''x'', ''BionicX Android app'', synthetic_home st, synthetic_shell st] \<and>
       pw_uid (entry l') = uid \<and> pw_gid (entry l') = getegid st real_egid) \<and>
    absolute (synthetic_home st) \<and> absolute (synthetic_shell st) \<and> \<not> prefix ''/system/'' (synthetic_shell st)"
proof -
  have own: "getpwuid_r next_lookup st real_euid real_egid uid l =
      own_answer (synthetic_user st uid (getegid st real_egid) (text_buffer l)) l"
    using assms(1,2) by (simp add: getpwuid_r_def)
  have n: "n = sum_list (map (\<lambda>f. length f + 1) (user_fields st))" using assms(4) by (simp add: fields_size_def)
  have paths: "absolute (synthetic_home st)" "absolute (synthetic_shell st)" "\<not> prefix ''/system/'' (synthetic_shell st)"
    by (auto simp: synthetic_home_def synthetic_shell_def split: option.split)
  show ?thesis
  proof (cases "length (text_buffer l) < n")
    case True
    then have "synthetic_user st uid (getegid st real_egid) (text_buffer l) = Some (Inl ERANGE)"
      by (simp add: synthetic_user_def n)
    then show ?thesis using True assms(5) paths by (simp add: own own_answer_def)
  next
    case False
    then obtain ps b where b: "copy_fields 0 (user_fields st) (text_buffer l) = Some (ps, b)"
      "length b = length (text_buffer l)" "length ps = 5" "drop n b = drop n (text_buffer l)"
      "map (cstring_at b) ps = user_fields st"
      using copy_fields_ok [of 0 "user_fields st" "text_buffer l"] assms(3,4) by (auto simp: user_fields_def)
    then have s: "synthetic_user st uid (getegid st real_egid) (text_buffer l) = Some (Inr
        (\<lparr>pw_name = ps ! 0, pw_passwd = ps ! 1, pw_uid = uid, pw_gid = getegid st real_egid, pw_gecos = ps ! 2,
          pw_dir = ps ! 3, pw_shell = ps ! 4\<rparr>, b))"
      using False by (simp add: synthetic_user_def n)
    have "cstring_at b (ps ! i) = user_fields st ! i" if "i < 5" for i
      using that b(3,5) by (metis nth_map)
    from this [of 0] this [of 1] this [of 2] this [of 3] this [of 4]
    show ?thesis using False s b assms(5) paths by (simp add: own own_answer_def user_fields_def)
  qed
qed

definition demo_user_env :: renv where
  "demo_user_env = initial_renv [''BIONICX_ROOTFS=/d'', ''HOME=/h'', ''SHELL=/system/bin/sh'']"

definition demo_lookup :: "passwd lookup" where
  "demo_lookup = \<lparr>status = None, found = False,
     entry = \<lparr>pw_name = 0, pw_passwd = 0, pw_uid = 0, pw_gid = 0, pw_gecos = 0, pw_dir = 0, pw_shell = 0\<rparr>,
     text_buffer = replicate 64 CHR ''?''\<rparr>"

theorem own_user_entry_witness:
  "\<exists>l'. getpwuid_r (\<lambda>_ l. l) demo_user_env 10123 10123 10123 demo_lookup = Some l' \<and>
     cstring_at (text_buffer l') (pw_dir (entry l')) = ''/h'' \<and> cstring_at (text_buffer l') (pw_shell (entry l')) = ''/bin/sh''"
proof -
  have e: "getenv demo_user_env ''BIONICX_ROOTFS'' \<noteq> None" "geteuid demo_user_env 10123 = 10123"
    "synthetic_home demo_user_env = ''/h''" "synthetic_shell demo_user_env = ''/bin/sh''"
    by code_simp+
  then have nul: "\<forall>f\<in>set (user_fields demo_user_env). NUL \<notin> set f" by (simp add: user_fields_def NUL_def)
  have size: "\<not> length (text_buffer demo_lookup) < fields_size (user_fields demo_user_env)"
    using e by (simp add: user_fields_def demo_lookup_def)
  from own_user_entry [OF e(2) [symmetric] e(1) nul refl refl, of "\<lambda>_ l. l" 10123 demo_lookup]
  show ?thesis using size e(3,4) by auto
qed


end
