(* ===== verification/Dns.thy ===== *)
theory Dns
  imports RuntimeEnv
begin

text \<open>
  \<open>native/runtime/dns.c\<close>: the resolver configuration that Android's name servers are written to at
  start, and the network interfaces that are made up when Android refuses to list them.

  The kernel's answers are a parameter, as is \<open>valid\<close>: whether \<open>inet_pton\<close> takes a text for an
  address. The outcome \<open>None\<close> is undefined behaviour: bytes behind the line buffer are read.
\<close>

section \<open>Writing\<close>

text \<open>
  \<open>writes k n\<close>: what the \<open>k\<close>-th \<open>write\<close> of \<open>n\<close> bytes returns (never more than \<open>n\<close>). \<open>unlink\<close> removes
  the file if \<open>unlink_ok\<close>. The state holds the two files concerned and the number of open descriptors.
\<close>

record dns_kernel =
  open_ok :: bool
  writes :: "nat \<Rightarrow> nat \<Rightarrow> int"
  close_ok :: bool
  rename_ok :: bool
  unlink_ok :: bool

record resolver =
  files :: "string \<rightharpoonup> string"
  descriptors :: nat

text \<open>The calls done so far, what has been written so far; the result, and both again.\<close>

function write_all :: "dns_kernel \<Rightarrow> nat \<Rightarrow> string \<Rightarrow> string \<Rightarrow> bool \<times> nat \<times> string" where
  "write_all K k sofar buffer =
     (if buffer = [] then (True, k, sofar) else
      let written = min (writes K k (length buffer)) (int (length buffer)) in
      if written \<le> 0 then (False, Suc k, sofar)
      else write_all K (Suc k) (sofar @ take (nat written) buffer) (drop (nat written) buffer))"
  by pat_completeness auto

termination
  by (relation "measure (\<lambda>(K, k, sofar, buffer). length buffer)") auto

declare write_all.simps [simp del]

section \<open>The configuration\<close>

text \<open>The tokens that \<open>strtok_r\<close> finds: the non-empty parts between commas.\<close>

function tokens :: "string \<Rightarrow> string list" where
  "tokens s = (let item = dropWhile ((=) CHR '','') s in
     if item = [] then []
     else takeWhile ((\<noteq>) CHR '','') item # tokens (dropWhile ((\<noteq>) CHR '','') item))"
  by pat_completeness auto

lemma dropWhile_hd: "dropWhile P s \<noteq> [] \<Longrightarrow> \<not> P (hd (dropWhile P s))"
  by (induction s) auto

lemma length_dropWhile_hd: "\<lbrakk>s \<noteq> []; P (hd s)\<rbrakk> \<Longrightarrow> length (dropWhile P s) < length s"
  by (cases s) (simp_all add: le_imp_less_Suc length_dropWhile_le)

termination tokens
proof (relation "measure length")
  fix s x
  assume x: "x = dropWhile ((=) CHR '','') s" "x \<noteq> []"
  have "length (dropWhile ((\<noteq>) CHR '','') x) < length x"
    using x dropWhile_hd [of "(=) CHR '',''" s] by (intro length_dropWhile_hd) auto
  also have "\<dots> \<le> length s" unfolding x(1) by (rule length_dropWhile_le)
  finally show "(dropWhile ((\<noteq>) CHR '','') x, s) \<in> measure length" by simp
qed simp

declare tokens.simps [simp del]

definition name_server_line :: "string \<Rightarrow> string" where
  "name_server_line item = ''nameserver '' @ item @ [CHR 0x0A]"

text \<open>\<open>INET6_ADDRSTRLEN + 16\<close>\<close>

definition line_size :: nat where "line_size = 62"

text \<open>Whether all writes went through, how many servers there were, and the file.\<close>

fun write_servers ::
    "(string \<Rightarrow> bool) \<Rightarrow> dns_kernel \<Rightarrow> nat \<Rightarrow> nat \<Rightarrow> string list \<Rightarrow> string \<Rightarrow> (bool \<times> nat \<times> string) option" where
  "write_servers valid K k count [] sofar = Some (True, count, sofar)"
| "write_servers valid K k count (item # items) sofar =
     (if \<not> valid item then write_servers valid K k count items sofar
      else let line = name_server_line item in
        if line_size \<le> length line then None
        else case write_all K k sofar line of
          (False, k', sofar') \<Rightarrow> Some (False, count, sofar')
        | (True, k', sofar') \<Rightarrow> write_servers valid K k' (Suc count) items sofar')"

definition resolv_conf :: "string \<Rightarrow> string" where "resolv_conf root = root @ ''/etc/resolv.conf''"

definition temporary_conf :: "string \<Rightarrow> nat \<Rightarrow> string" where
  "temporary_conf root pid = root @ ''/etc/.resolv.conf.bionicx.'' @ dec pid"

definition unlink_file :: "dns_kernel \<Rightarrow> string \<Rightarrow> resolver \<Rightarrow> resolver" where
  "unlink_file K p s = (if unlink_ok K then s\<lparr>files := (files s)(p := None)\<rparr> else s)"

definition close_file :: "resolver \<Rightarrow> resolver" where
  "close_file s = s\<lparr>descriptors := descriptors s - 1\<rparr>"

definition publish_android_resolver_config ::
    "(string \<Rightarrow> bool) \<Rightarrow> dns_kernel \<Rightarrow> nat \<Rightarrow> string list \<Rightarrow> resolver \<Rightarrow> resolver option" where
  "publish_android_resolver_config valid K pid env s =
     (case (bionicx_getenv env ''BIONICX_ROOTFS'', bionicx_getenv env ''BIONICX_DNS_SERVERS'') of
        (Some root, Some configured) \<Rightarrow>
          (let path = resolv_conf root; temporary = temporary_conf root pid in
           if \<not> absolute root \<or> configured = [] \<or> \<not> fits path \<or> \<not> fits temporary \<or> \<not> open_ok K then Some s
           else let s = s\<lparr>files := (files s)(temporary \<mapsto> ''''), descriptors := descriptors s + 1\<rparr> in
             if 256 \<le> length configured then Some (unlink_file K temporary (close_file s))
             else case write_servers valid K 0 0 (tokens configured) '''' of
               None \<Rightarrow> None
             | Some (ok, count, text) \<Rightarrow>
                 (let s = close_file (s\<lparr>files := (files s)(temporary \<mapsto> text)\<rparr>) in
                  if \<not> ok \<or> \<not> close_ok K \<or> count = 0 \<or> \<not> rename_ok K then Some (unlink_file K temporary s)
                  else Some (s\<lparr>files := (files s)(path := files s temporary, temporary := None)\<rparr>)))
      | _ \<Rightarrow> Some s)"

section \<open>Network interfaces\<close>

text \<open>
  \<open>Native x\<close>: a list of the C library's. \<open>Loopback\<close>: the block that \<open>calloc\<close> gave, its fields in the
  order of the code: name, flags, address, netmask (\<open>Ifile_UP\<close>, \<open>Ifile_LOOPBACK\<close>, \<open>Ifile_RUNNING\<close>; both
  addresses as bytes on the wire).
\<close>

datatype 'a ifaddrs = Native 'a | Loopback string nat "nat list" "nat list"

definition loopback :: "'a ifaddrs" where
  "loopback = Loopback ''lo'' (1 + 8 + 64) [127, 0, 0, 1] [255, 0, 0, 0]"

text \<open>
  \<open>next\<close>: the next definition, if there is one, and its list, if it succeeds; \<open>memory\<close>: whether \<open>calloc\<close>
  succeeds. \<open>Inl\<close>: -1 with an error number, where the code or the allocator sets one.
\<close>

definition getifaddrs :: "bool \<Rightarrow> 'a option option \<Rightarrow> bool \<Rightarrow> errno + 'a ifaddrs" where
  "getifaddrs ifap_null next_list memory =
     (if ifap_null then Inl EINVAL else
      case next_list of
        Some (Some l) \<Rightarrow> Inr (Native l)
      | _ \<Rightarrow> if \<not> memory then Inl ENOMEM else Inr loopback)"

datatype 'a freed = Free_block | Next_free 'a | Nothing_freed

definition freeifaddrs :: "bool \<Rightarrow> 'a ifaddrs option \<Rightarrow> 'a freed" where
  "freeifaddrs next_known ifa = (case ifa of
      None \<Rightarrow> Nothing_freed
    | Some (Loopback _ _ _ _) \<Rightarrow> Free_block
    | Some (Native l) \<Rightarrow> if next_known then Next_free l else Nothing_freed)"

section \<open>Properties\<close>

text \<open>Complete or cut off, what \<open>write_all\<close> adds is a prefix of the buffer.\<close>

lemma write_all_complete:
  "fst (write_all K k sofar buffer) \<Longrightarrow> snd (snd (write_all K k sofar buffer)) = sofar @ buffer"
proof (induction K k sofar buffer rule: write_all.induct)
  case (1 K k sofar buffer)
  let ?w = "min (writes K k (length buffer)) (int (length buffer))"
  show ?case
  proof (cases "buffer = [] \<or> ?w \<le> 0")
    case True
    then show ?thesis using "1.prems" by (subst write_all.simps) (auto simp: write_all.simps [of K k sofar buffer] Let_def split: if_splits)
  next
    case False
    then have step: "write_all K k sofar buffer =
        write_all K (Suc k) (sofar @ take (nat ?w) buffer) (drop (nat ?w) buffer)"
      by (subst write_all.simps) (auto simp: Let_def)
    from False have "snd (snd (write_all K (Suc k) (sofar @ take (nat ?w) buffer) (drop (nat ?w) buffer))) =
        (sofar @ take (nat ?w) buffer) @ drop (nat ?w) buffer"
      using "1.IH" [of ?w] "1.prems" step by simp
    then show ?thesis by (simp add: step)
  qed
qed

lemma write_all_progress:
  "(\<And>k n. 0 < n \<Longrightarrow> 0 < writes K k n) \<Longrightarrow> fst (write_all K k sofar buffer)"
proof (induction "length buffer" arbitrary: k sofar buffer rule: less_induct)
  case less
  show ?case
  proof (cases "buffer = []")
    case False
    let ?w = "min (writes K k (length buffer)) (int (length buffer))"
    have "0 < writes K k (length buffer)" using False less.prems by simp
    then have w: "\<not> (buffer = [] \<or> ?w \<le> 0)" using False by (auto simp: min_def)
    then have "fst (write_all K (Suc k) (sofar @ take (nat ?w) buffer) (drop (nat ?w) buffer))"
      using False by (intro less.hyps less.prems) auto
    then show ?thesis using w by (subst write_all.simps) (simp add: Let_def)
  qed (simp add: write_all.simps)
qed

definition server_lines :: "(string \<Rightarrow> bool) \<Rightarrow> string \<Rightarrow> string list" where
  "server_lines valid configured = map name_server_line (filter valid (tokens configured))"

lemma write_servers_ok:
  assumes "\<And>a. valid a \<Longrightarrow> length a \<le> 45"
  shows "\<exists>ok n text. write_servers valid K k count items sofar = Some (ok, n, text) \<and>
    (ok \<longrightarrow> n = count + length (filter valid items) \<and>
       text = sofar @ concat (map name_server_line (filter valid items))) \<and>
    ((\<forall>k n. 0 < n \<longrightarrow> 0 < writes K k n) \<longrightarrow> ok)"
proof (induction items arbitrary: k count sofar)
  case (Cons item items)
  show ?case
  proof (cases "valid item")
    case True
    then have fit: "\<not> line_size \<le> length (name_server_line item)"
      using assms [OF True] by (simp add: line_size_def name_server_line_def)
    obtain ok k' sofar' where w: "write_all K k sofar (name_server_line item) = (ok, k', sofar')"
      using prod_cases3 by blast
    have full: "ok \<Longrightarrow> sofar' = sofar @ name_server_line item"
      using write_all_complete [of K k sofar "name_server_line item"] w by simp
    have progress: "(\<forall>k n. 0 < n \<longrightarrow> 0 < writes K k n) \<Longrightarrow> ok"
      using write_all_progress [of K k sofar "name_server_line item"] w by simp
    from Cons.IH [of k' "Suc count" sofar'] show ?thesis
      using True fit w full progress by (cases ok) (auto simp: Let_def)
  next
    case False
    then show ?thesis using Cons.IH [of k count sofar] by simp
  qed
qed auto

lemma names_differ: "resolv_conf root \<noteq> temporary_conf root pid"
  by (simp add: resolv_conf_def temporary_conf_def)

lemma publish_cases:
  assumes "\<And>a. valid a \<Longrightarrow> length a \<le> 45"
    and "bionicx_getenv env ''BIONICX_ROOTFS'' = Some root"
    and "bionicx_getenv env ''BIONICX_DNS_SERVERS'' = Some configured"
    and "p = resolv_conf root" "t = temporary_conf root pid" "ls = server_lines valid configured"
    and "ready \<longleftrightarrow> absolute root \<and> configured \<noteq> [] \<and> fits p \<and> fits t \<and> open_ok K"
  shows "\<exists>s' ok. publish_android_resolver_config valid K pid env s = Some s' \<and> descriptors s' = descriptors s \<and>
    ((\<forall>k n. 0 < n \<longrightarrow> 0 < writes K k n) \<longrightarrow> ok) \<and>
    (if \<not> ready then s' = s
     else if length configured < 256 \<and> ok \<and> close_ok K \<and> rename_ok K \<and> ls \<noteq> []
     then files s' = (files s)(p \<mapsto> concat ls, t := None)
     else files s' p = files s p \<and> (unlink_ok K \<longrightarrow> files s' = (files s)(t := None)))"
proof -
  obtain ok n bytes where w: "write_servers valid K 0 0 (tokens configured) [] = Some (ok, n, bytes)"
    "ok \<longrightarrow> n = length ls \<and> bytes = concat ls"
    "(\<forall>k n. 0 < n \<longrightarrow> 0 < writes K k n) \<longrightarrow> ok"
    using write_servers_ok [OF assms(1), of valid K 0 0 "tokens configured" "[]"]
    unfolding assms(6) server_lines_def length_map append_Nil add_0 by blast
  have "p \<noteq> t" using names_differ assms(4,5) by simp
  then show ?thesis using w assms(2-7)
    by (intro exI [of _ "the (publish_android_resolver_config valid K pid env s)"] exI [of _ ok])
      (auto simp: publish_android_resolver_config_def Let_def unlink_file_def close_file_def not_less)
qed

text \<open>
C33: Publishing the name servers never reads behind its line buffer, leaves no descriptor open and
  never damages the configuration that the guest sees: \<open>resolv.conf\<close> either keeps its contents or is
  replaced by one line for each valid server of the list, in its order, and nothing else. The latter
  happens when every kernel call succeeds, however short the writes are. The temporary file does not
  outlive the call unless it cannot be unlinked, and no other file is touched.
\<close>
theorem resolver_configuration_published:
  assumes "\<And>a. valid a \<Longrightarrow> length a \<le> 45"
    and "bionicx_getenv env ''BIONICX_ROOTFS'' = Some root"
    and "bionicx_getenv env ''BIONICX_DNS_SERVERS'' = Some configured"
    and "p = resolv_conf root" "t = temporary_conf root pid" "t \<notin> dom (files s)"
    and "ls = map name_server_line (filter valid (tokens configured))"
  shows "\<exists>s'. publish_android_resolver_config valid K pid env s = Some s' \<and> descriptors s' = descriptors s \<and>
    files s' p \<in> {files s p, Some (concat ls)} \<and>
    (unlink_ok K \<longrightarrow> files s' = (files s)(p := files s' p)) \<and>
    (absolute root \<and> fits p \<and> fits t \<and> length configured < 256 \<and> ls \<noteq> [] \<and>
      open_ok K \<and> close_ok K \<and> rename_ok K \<and> (\<forall>k n. 0 < n \<longrightarrow> 0 < writes K k n) \<longrightarrow>
        files s' = (files s)(p \<mapsto> concat ls))"
proof -
  have ls: "ls = server_lines valid configured" using assms(7) by (simp add: server_lines_def)
  have none: "(files s)(t := None) = files s" using assms(6) by (auto simp: fun_upd_idem_iff)
  have pt: "p \<noteq> t" using names_differ assms(4,5) by simp
  have nonempty: "ls \<noteq> [] \<Longrightarrow> configured \<noteq> []" using assms(7) by (auto simp: tokens.simps [of "[]"])
  obtain s' ok where "publish_android_resolver_config valid K pid env s = Some s'" "descriptors s' = descriptors s"
    "(\<forall>k n. 0 < n \<longrightarrow> 0 < writes K k n) \<longrightarrow> ok"
    "if \<not> (absolute root \<and> configured \<noteq> [] \<and> fits p \<and> fits t \<and> open_ok K) then s' = s
     else if length configured < 256 \<and> ok \<and> close_ok K \<and> rename_ok K \<and> ls \<noteq> []
     then files s' = (files s)(p \<mapsto> concat ls, t := None)
     else files s' p = files s p \<and> (unlink_ok K \<longrightarrow> files s' = (files s)(t := None))"
    using publish_cases [OF assms(1-5) ls refl, of K s] by blast
  then show ?thesis using pt none nonempty
    by (intro exI [of _ s']) (auto simp: fun_upd_twist [of p t] split: if_splits)
qed

text \<open>Every list goes back to the allocator that it came from.\<close>

lemma freed_as_allocated:
  assumes "getifaddrs ifap_null next_list memory = Inr l"
  shows "freeifaddrs True (Some l) = (case next_list of Some (Some n) \<Rightarrow> Next_free n | _ \<Rightarrow> Free_block)"
  using assms by (auto simp: getifaddrs_def freeifaddrs_def loopback_def split: if_splits option.splits)

definition demo_dns_env :: "string list" where
  "demo_dns_env = [''BIONICX_ROOTFS=/d'', ''BIONICX_DNS_SERVERS=1.1.1.1,x,::1'']"

definition demo_dns_kernel :: dns_kernel where
  "demo_dns_kernel = \<lparr>open_ok = True, writes = \<lambda>k n. 5, close_ok = True, rename_ok = True, unlink_ok = True\<rparr>"

lemma demo_tokens: "tokens ''1.1.1.1,x,::1'' = [''1.1.1.1'', ''x'', ''::1'']"
  by (simp add: tokens.simps)

theorem resolver_configuration_published_witness:
  "\<exists>s'. publish_android_resolver_config (\<lambda>a. a \<in> {''1.1.1.1'', ''::1''}) demo_dns_kernel 7 demo_dns_env
      \<lparr>files = Map.empty, descriptors = 3\<rparr> = Some s' \<and>
    files s' = [''/d/etc/resolv.conf'' \<mapsto> ''nameserver 1.1.1.1'' @ [CHR 0x0A] @ ''nameserver ::1'' @ [CHR 0x0A]]"
proof -
  have e: "bionicx_getenv demo_dns_env ''BIONICX_ROOTFS'' = Some ''/d''"
    "bionicx_getenv demo_dns_env ''BIONICX_DNS_SERVERS'' = Some ''1.1.1.1,x,::1''"
    by code_simp+
  have f: "fits (resolv_conf ''/d'')" "fits (temporary_conf ''/d'' 7)"
    by (simp_all add: resolv_conf_def temporary_conf_def fits_def PATH_MAX_def dec.simps)
  have short: "length a \<le> 45" if "a \<in> {''1.1.1.1'', ''::1''}" for a :: string using that by auto
  from resolver_configuration_published
    [where valid = "\<lambda>a. a \<in> {''1.1.1.1'', ''::1''}" and K = demo_dns_kernel and pid = 7 and
      s = "\<lparr>files = Map.empty, descriptors = 3\<rparr>", OF short e refl refl _ refl]
  show ?thesis using f by (auto simp: demo_tokens demo_dns_kernel_def resolv_conf_def name_server_line_def)
qed

end
