(* ===== verification/GuestTools.thy ===== *)
theory GuestTools
  imports RuntimeEnv "HOL-Library.Char_ord"
begin

text \<open>
  The small programs of the native session: \<open>native/desktop/bionicx-open.c\<close> (opens a document),
  \<open>native/tools/bionicx-relocate.c\<close> (moves the packages of a rootfs to another prefix) and
  \<open>native/diagnostics/sigsys-report.c\<close> (the message of a trapped system call).
\<close>

section \<open>Opening a document\<close>

text \<open>\<open>tolower\<close> in the C locale, the only one that the program runs in.\<close>

definition lower :: "char \<Rightarrow> char" where
  "lower c = (if CHR ''A'' \<le> c \<and> c \<le> CHR ''Z'' then char_of (of_char c + 32 :: nat) else c)"

definition hex_value :: "char \<Rightarrow> int" where
  "hex_value c =
     (if CHR ''0'' \<le> c \<and> c \<le> CHR ''9'' then of_char c - 48
      else let c = lower c in
        if CHR ''a'' \<le> c \<and> c \<le> CHR ''f'' then of_char c - 97 + 10 else - 1)"

text \<open>The loop over the source; \<open>None\<close>: an escaped NUL is refused.\<close>

fun decode_escapes :: "string \<Rightarrow> string option" where
  "decode_escapes [] = Some []"
| "decode_escapes (c # s) = (case s of
      h # l # r \<Rightarrow>
        if c = CHR ''%'' \<and> 0 \<le> hex_value h \<and> 0 \<le> hex_value l
        then let byte = nat (hex_value h * 16 + hex_value l) in
          if byte = 0 then None else map_option (Cons (char_of byte)) (decode_escapes r)
        else map_option (Cons c) (decode_escapes s)
    | _ \<Rightarrow> map_option (Cons c) (decode_escapes s))"

declare decode_escapes.simps(2) [simp del]

definition file_scheme :: string where "file_scheme = ''file://''"

definition decode_file_target :: "bool \<Rightarrow> string \<Rightarrow> string option" where
  "decode_file_target memory argument =
     (if \<not> memory then None
      else decode_escapes (if prefix file_scheme argument then drop (length file_scheme) argument else argument))"

definition has_pdf_suffix :: "string \<Rightarrow> bool" where
  "has_pdf_suffix path \<longleftrightarrow> 4 \<le> length path \<and> map lower (drop (length path - 4) path) = ''.pdf''"

text \<open>How the program ends: with a status, or as the handler with its arguments.\<close>

datatype opened = Status nat | Becomes string "string list"

definition open_main :: "bool \<Rightarrow> (string \<Rightarrow> bool) \<Rightarrow> string list \<Rightarrow> string list \<Rightarrow> opened" where
  "open_main memory executable env args = (case args of
      [_, argument] \<Rightarrow> (case decode_file_target memory argument of
          None \<Rightarrow> Status 3
        | Some target \<Rightarrow>
            if \<not> has_pdf_suffix target then Status 4
            else case bionicx_getenv env ''BIONICX_OPEN_PDF'' of
              None \<Rightarrow> Status 5
            | Some handler \<Rightarrow>
                if handler = [] then Status 5
                else if executable handler then Becomes handler [handler, target] else Status 6)
    | _ \<Rightarrow> Status 2)"

text \<open>The URI of a path: the characters of \<open>E\<close> are escaped, in either case of hexadecimal digit.\<close>

definition hex_char :: "bool \<Rightarrow> nat \<Rightarrow> char" where
  "hex_char upper d = (if d < 10 then char_of (48 + d) else if upper then char_of (55 + d) else char_of (87 + d))"

definition escape :: "bool \<Rightarrow> (char \<Rightarrow> bool) \<Rightarrow> char \<Rightarrow> string" where
  "escape upper E c = (if E c then [CHR ''%'', hex_char upper (of_char c div 16), hex_char upper (of_char c mod 16)] else [c])"

definition file_uri :: "bool \<Rightarrow> (char \<Rightarrow> bool) \<Rightarrow> string \<Rightarrow> string" where
  "file_uri upper E path = file_scheme @ concat (map (escape upper E) path)"

lemma char_less_eq_nat: "c \<le> d \<longleftrightarrow> (of_char c :: nat) \<le> of_char d"
  by (simp add: less_eq_char_def)

lemma hex_value_hex_char: "d < 16 \<Longrightarrow> hex_value (hex_char upper d) = int d"
proof -
  have "\<forall>d\<in>set [0..<16]. \<forall>u. hex_value (hex_char u d) = int d" by code_simp
  then show "d < 16 \<Longrightarrow> ?thesis" by simp
qed

lemma decode_plain: "c \<noteq> CHR ''%'' \<Longrightarrow> decode_escapes (c # s) = map_option (Cons c) (decode_escapes s)"
  by (auto simp: decode_escapes.simps(2) split: list.split)

lemma decode_escaped:
  assumes "c \<noteq> CHR 0x00"
  shows "decode_escapes (CHR ''%'' # hex_char u (of_char c div 16) # hex_char u (of_char c mod 16) # s) =
    map_option (Cons c) (decode_escapes s)"
proof -
  have small: "(of_char c :: nat) div 16 < 16" "(of_char c :: nat) mod 16 < 16"
    using nat_of_char_less_256 [of c] by (simp_all add: div_less_iff_less_mult)
  have byte: "nat (int ((of_char c :: nat) div 16) * 16 + int ((of_char c :: nat) mod 16)) = of_char c"
    by (metis div_mult_mod_eq nat_int of_nat_add of_nat_mult of_nat_numeral)
  have "(of_char c :: nat) \<noteq> 0" using assms by (cases c) auto
  then show ?thesis using small byte by (simp add: decode_escapes.simps(2) hex_value_hex_char)
qed

lemma decode_uri:
  assumes "E CHR ''%''" "CHR 0x00 \<notin> set path"
  shows "decode_escapes (concat (map (escape u E) path)) = Some path"
  using assms(2)
proof (induction path)
  case (Cons c path)
  then have path: "decode_escapes (concat (map (escape u E) path)) = Some path" and nul: "c \<noteq> CHR 0x00" by auto
  show ?case
  proof (cases "E c")
    case True
    then show ?thesis using path nul by (simp add: escape_def [of u E c] decode_escaped)
  next
    case False
    then have "c \<noteq> CHR ''%''" using assms(1) by auto
    then show ?thesis using path False by (simp add: escape_def [of u E c] decode_plain)
  qed
qed simp

lemma decode_step:
  "decode_escapes (c # s) = map_option (Cons c) (decode_escapes s) \<or>
   (\<exists>h l r. s = h # l # r \<and> (decode_escapes (c # s) = None \<or>
     (\<exists>b. decode_escapes (c # s) = map_option (Cons b) (decode_escapes r))))"
proof (cases "\<exists>h l r. s = h # l # r")
  case True
  then obtain h l r where s: "s = h # l # r" by blast
  let ?byte = "nat (hex_value h * 16 + hex_value l)"
  have "decode_escapes (c # s) = (if c = CHR ''%'' \<and> 0 \<le> hex_value h \<and> 0 \<le> hex_value l
      then if ?byte = 0 then None else map_option (Cons (char_of ?byte)) (decode_escapes r)
      else map_option (Cons c) (decode_escapes s))"
    by (simp only: s decode_escapes.simps(2) list.case Let_def)
  then show ?thesis using s by (metis (no_types))
next
  case False
  then show ?thesis by (cases s; cases "tl s") (simp_all add: decode_escapes.simps(2))
qed

lemma decode_length: "decode_escapes s = Some t \<Longrightarrow> length t \<le> length s"
proof (induction "length s" arbitrary: s t rule: less_induct)
  case less
  show ?case
  proof (cases s)
    case (Cons c r)
    consider "decode_escapes s = map_option (Cons c) (decode_escapes r)"
      | h l q b where "r = h # l # q" "decode_escapes s = map_option (Cons b) (decode_escapes q)"
      using decode_step [of c r] less.prems unfolding Cons by fastforce
    then show ?thesis
    proof cases
      case 1
      then obtain u where "decode_escapes r = Some u" "t = c # u"
        using less.prems by (cases "decode_escapes r") simp_all
      then show ?thesis using less.hyps [of r u] Cons by simp
    next
      case 2
      then obtain u where "decode_escapes q = Some u" "t = b # u"
        using less.prems by (cases "decode_escapes q") simp_all
      then show ?thesis using less.hyps [of q u] Cons 2 by simp
    qed
  qed (use less.prems in simp)
qed

text \<open>
\<open>bionicx-open\<close> starts the configured viewer on exactly the file that a \<open>file:\<close> URI names, whichever
  characters beside the percent sign were escaped and in whichever case; what is not a PDF file, and
  what it has no viewer for, ends with the status of its own.
\<close>
theorem uri_opens_its_file:
  assumes "E CHR ''%''" "CHR 0x00 \<notin> set path"
  shows "open_main True executable env [program, file_uri upper E path] =
    (if \<not> has_pdf_suffix path then Status 4
     else case bionicx_getenv env ''BIONICX_OPEN_PDF'' of
       None \<Rightarrow> Status 5
     | Some handler \<Rightarrow> if handler = [] then Status 5
         else if executable handler then Becomes handler [handler, path] else Status 6)"
  using decode_uri [where u = upper and E = E and path = path] assms
  by (simp add: open_main_def decode_file_target_def file_uri_def)

theorem uri_opens_its_file_witness:
  "open_main True (\<lambda>_. True) [''BIONICX_OPEN_PDF=/v''] [''o'', ''file:///a%20b%25.PDF''] = Becomes ''/v'' [''/v'', ''/a b%.PDF'']"
proof -
  let ?E = "\<lambda>c. c \<in> {CHR '' '', CHR ''%''}"
  have u: "file_uri True ?E ''/a b%.PDF'' = ''file:///a%20b%25.PDF''" by code_simp
  have e: "bionicx_getenv [''BIONICX_OPEN_PDF=/v''] ''BIONICX_OPEN_PDF'' = Some ''/v''" by code_simp
  have s: "has_pdf_suffix ''/a b%.PDF''" by code_simp
  have p: "?E CHR ''%''" "CHR 0x00 \<notin> set ''/a b%.PDF''" by simp_all
  show ?thesis
    using uri_opens_its_file [where executable = "\<lambda>_. True" and env = "[''BIONICX_OPEN_PDF=/v'']" and program = "''o''"
      and upper = True and E = ?E and path = "''/a b%.PDF''"] p
    unfolding u e using s by simp
qed

section \<open>Relocating packages\<close>

text \<open>
  The mapped file is changed in place. \<open>None\<close> would be a loop that does not end; it has an empty
  prefix, which \<open>main\<close> refuses.
\<close>

partial_function (option) patch_loop :: "byte list \<Rightarrow> byte list \<Rightarrow> nat \<Rightarrow> byte list \<Rightarrow> nat \<Rightarrow> (byte list \<times> nat) option" where
  [code]: "patch_loop old new offset data in_file =
     (if length data - length old < offset then Some (data, in_file)
      else if take (length old) (drop offset data) = old
      then patch_loop old new (offset + length old) (splice offset new data) (in_file + 1)
      else patch_loop old new (offset + 1) data in_file)"

text \<open>A regular file, with the answers that the kernel gives about it.\<close>

record regular_file =
  open_error :: "errno option"
  fstat_ok :: bool
  mmap_ok :: bool
  content :: "byte list"

text \<open>The result, the file, and the replacements in it.\<close>

definition patch_file :: "byte list \<Rightarrow> byte list \<Rightarrow> regular_file \<Rightarrow> (int \<times> regular_file \<times> nat) option" where
  "patch_file old new f = (case open_error f of
      Some e \<Rightarrow> Some (if e = EACCES then 0 else - 1, f, 0)
    | None \<Rightarrow>
        if \<not> fstat_ok f \<or> length (content f) < length old then Some (0, f, 0)
        else if \<not> mmap_ok f then Some (- 1, f, 0)
        else map_option (\<lambda>(d, n). (0, f\<lparr>content := d\<rparr>, n)) (patch_loop old new 0 (content f) 0))"

text \<open>
  A tree of files: \<open>Gone\<close> what \<open>lstat\<close> fails for, \<open>Special\<close> neither file nor directory, a directory with
  the entries that \<open>readdir\<close> lists beside \<open>.\<close> and \<open>..\<close>, or none if it cannot be opened.
\<close>

datatype tree = Gone | Special | Regular regular_file | Directory "(string \<times> tree) list option"

record totals =
  files_changed :: nat
  replacements :: nat

text \<open>
  The result of a child is only reported. (The allocation of the child's path is taken to succeed.)
\<close>

fun walk :: "byte list \<Rightarrow> byte list \<Rightarrow> tree \<Rightarrow> totals \<Rightarrow> (int \<times> tree \<times> totals) option"
  and walk_entries ::
    "byte list \<Rightarrow> byte list \<Rightarrow> (string \<times> tree) list \<Rightarrow> totals \<Rightarrow> ((string \<times> tree) list \<times> totals) option" where
  "walk old new Gone n = Some (- 1, Gone, n)"
| "walk old new Special n = Some (0, Special, n)"
| "walk old new (Regular f) n = do {
     (r, f', k) \<leftarrow> patch_file old new f;
     Some (r, Regular f',
       if k = 0 then n else n\<lparr>files_changed := files_changed n + 1, replacements := replacements n + k\<rparr>) }"
| "walk old new (Directory None) n = Some (- 1, Directory None, n)"
| "walk old new (Directory (Some es)) n = do {
     (es', n') \<leftarrow> walk_entries old new es n;
     Some (0, Directory (Some es'), n') }"
| "walk_entries old new [] n = Some ([], n)"
| "walk_entries old new ((name, t) # es) n = do {
     (r, t', n) \<leftarrow> walk old new t n;
     (es', n) \<leftarrow> walk_entries old new es n;
     Some ((name, t') # es', n) }"

text \<open>The arguments are those behind the program's name and the root: the exit status, tree and totals.\<close>

definition relocate_main :: "byte list list \<Rightarrow> tree \<Rightarrow> (nat \<times> tree \<times> totals) option" where
  "relocate_main given root = (let none = \<lparr>files_changed = 0, replacements = 0\<rparr> in
     case given of
       [old, new] \<Rightarrow>
         if old = [] \<or> length old \<noteq> length new then Some (2, root, none)
         else map_option (\<lambda>(r, t, n). (if r \<noteq> 0 then 1 else 0, t, n)) (walk old new root none)
     | _ \<Rightarrow> Some (2, root, none))"

text \<open>
  What relocation means: the text is cut at the occurrences of the old prefix, from the left, so that
  none lies within a piece or across its end, and the occurrences are exchanged.
\<close>

definition relocated :: "byte list \<Rightarrow> byte list \<Rightarrow> byte list \<Rightarrow> byte list \<Rightarrow> nat \<Rightarrow> bool" where
  "relocated old new d d' n \<longleftrightarrow> (\<exists>ps p.
     d = concat (map (\<lambda>p. p @ old) ps) @ p \<and> d' = concat (map (\<lambda>p. p @ new) ps) @ p \<and> n = length ps \<and>
     (\<forall>q\<in>set ps. \<not> sublist old (butlast (q @ old))) \<and> \<not> sublist old p)"

lemma relocated_hit:
  assumes "old \<noteq> []" "relocated old new d d' n"
  shows "relocated old new (old @ d) (new @ d') (Suc n)"
proof -
  from assms(2) obtain ps p where "d = concat (map (\<lambda>p. p @ old) ps) @ p" "d' = concat (map (\<lambda>p. p @ new) ps) @ p"
    "n = length ps" "\<forall>q\<in>set ps. \<not> sublist old (butlast (q @ old))" "\<not> sublist old p"
    unfolding relocated_def by blast
  moreover have "\<not> sublist old (butlast ([] @ old))"
  proof
    assume "sublist old (butlast ([] @ old))"
    then have "old = []" using sublist_length_le [of old "butlast ([] @ old)"]
      by (cases "length old") simp_all
    then show False using assms(1) by simp
  qed
  ultimately show ?thesis unfolding relocated_def by (intro exI [of _ "[] # ps"] exI [of _ p]) simp
qed

lemma relocated_miss:
  assumes "relocated old new d d' n" "\<not> prefix old (c # d)"
  shows "relocated old new (c # d) (c # d') n"
proof -
  from assms(1) obtain ps p where d: "d = concat (map (\<lambda>p. p @ old) ps) @ p" "d' = concat (map (\<lambda>p. p @ new) ps) @ p"
    "n = length ps" "\<forall>q\<in>set ps. \<not> sublist old (butlast (q @ old))" "\<not> sublist old p"
    unfolding relocated_def by blast
  show ?thesis
  proof (cases ps)
    case Nil
    then have "\<not> sublist old (c # p)" using d assms(2) by (simp add: sublist_Cons_right)
    then show ?thesis using d Nil unfolding relocated_def by (intro exI [of _ "[]"] exI [of _ "c # p"]) simp
  next
    case (Cons q qs)
    have "old \<noteq> []" using assms(2) by auto
    then have b: "butlast ((c # q) @ old) = c # butlast (q @ old)" by simp
    have "\<not> prefix old (c # butlast (q @ old))"
    proof
      assume "prefix old (c # butlast (q @ old))"
      moreover have "prefix (c # butlast (q @ old)) (c # d)"
        using \<open>old \<noteq> []\<close> d(1) Cons by (simp add: butlast_append) (metis append_butlast_last_id append_assoc prefixI)
      ultimately show False using assms(2) prefix_order.trans by blast
    qed
    then have "\<not> sublist old (butlast ((c # q) @ old))" unfolding b using d(4) Cons by (simp add: sublist_Cons_right)
    then show ?thesis using d Cons unfolding relocated_def by (intro exI [of _ "(c # q) # qs"] exI [of _ p]) auto
  qed
qed

lemma relocated_short: "length d < length old \<Longrightarrow> relocated old new d d 0"
  unfolding relocated_def by (intro exI [of _ "[]"] exI [of _ d]) (auto dest: sublist_length_le)

lemma patch_loop_relocates:
  assumes "old \<noteq> []" "length new = length old" "length old \<le> length (pre @ d)"
  shows "\<exists>d' k. patch_loop old new (length pre) (pre @ d) n = Some (pre @ d', n + k) \<and> relocated old new d d' k"
  using assms(3)
proof (induction "length d" arbitrary: pre d n rule: less_induct)
  case less
  show ?case
  proof (cases "length d < length old")
    case True
    then have "length (pre @ d) - length old < length pre" using True less.prems unfolding length_append by linarith
    then have "patch_loop old new (length pre) (pre @ d) n = Some (pre @ d, n + 0)" by (subst patch_loop.simps) simp
    then show ?thesis using relocated_short [OF True] by blast
  next
    case False
    then have inside: "\<not> length (pre @ d) - length old < length pre" by simp
    show ?thesis
    proof (cases "take (length old) d = old")
      case True
      define r where "r = drop (length old) d"
      have d: "d = old @ r" using True by (metis append_take_drop_id r_def)
      have "splice (length pre) new (pre @ d) = (pre @ new) @ r"
        using assms(2) by (simp add: splice_def d)
      then have step: "patch_loop old new (length pre) (pre @ d) n =
          patch_loop old new (length (pre @ new)) ((pre @ new) @ r) (n + 1)"
        using True inside assms(2) by (subst patch_loop.simps) simp
      obtain r' k where "patch_loop old new (length (pre @ new)) ((pre @ new) @ r) (n + 1) =
          Some ((pre @ new) @ r', n + 1 + k)" "relocated old new r r' k"
        using less.hyps [of r "pre @ new" "n + 1"] assms(1,2) by (auto simp: d)
      then show ?thesis using step relocated_hit [OF assms(1)] d
        by (intro exI [of _ "new @ r'"] exI [of _ "Suc k"]) simp
    next
      case miss: False
      obtain c r where d: "d = c # r" using False assms(1) by (cases d) auto
      have step: "patch_loop old new (length pre) (pre @ d) n =
          patch_loop old new (length (pre @ [c])) ((pre @ [c]) @ r) n"
        using miss inside by (subst patch_loop.simps) (simp add: d)
      obtain r' k where "patch_loop old new (length (pre @ [c])) ((pre @ [c]) @ r) n =
          Some ((pre @ [c]) @ r', n + k)" "relocated old new r r' k"
        using less.hyps [of r "pre @ [c]" n] less.prems by (auto simp: d)
      moreover have "\<not> prefix old (c # r)" using miss d by (auto simp: prefix_def)
      ultimately show ?thesis using step relocated_miss d
        by (intro exI [of _ "c # r'"] exI [of _ k]) simp
    qed
  qed
qed

text \<open>What becomes of a file, and of a tree file by file (the same names and kinds at the same places).\<close>

definition file_relocated :: "byte list \<Rightarrow> byte list \<Rightarrow> regular_file \<Rightarrow> regular_file \<Rightarrow> nat \<Rightarrow> bool" where
  "file_relocated old new f f' n \<longleftrightarrow>
     (if open_error f = None \<and> fstat_ok f \<and> mmap_ok f
      then relocated old new (content f) (content f') n \<and> f' = f\<lparr>content := content f'\<rparr>
      else f' = f \<and> n = 0)"

text \<open>\<open>tree_relocated old new t t' n\<close>, where \<open>n\<close> lists the replacements in the files, in order.\<close>

inductive tree_relocated :: "byte list \<Rightarrow> byte list \<Rightarrow> tree \<Rightarrow> tree \<Rightarrow> nat list \<Rightarrow> bool"
  and entries_relocated ::
    "byte list \<Rightarrow> byte list \<Rightarrow> (string \<times> tree) list \<Rightarrow> (string \<times> tree) list \<Rightarrow> nat list \<Rightarrow> bool"
  for old new where
  same_gone: "tree_relocated old new Gone Gone []"
| same_special: "tree_relocated old new Special Special []"
| patched: "file_relocated old new f f' n \<Longrightarrow> tree_relocated old new (Regular f) (Regular f') [n]"
| closed: "tree_relocated old new (Directory None) (Directory None) []"
| entered: "entries_relocated old new es es' ns \<Longrightarrow> tree_relocated old new (Directory (Some es)) (Directory (Some es')) ns"
| no_entry: "entries_relocated old new [] [] []"
| add_entry: "\<lbrakk>tree_relocated old new t t' ns; entries_relocated old new es es' ms\<rbrakk> \<Longrightarrow>
    entries_relocated old new ((name, t) # es) ((name, t') # es') (ns @ ms)"

definition counted :: "totals \<Rightarrow> nat list \<Rightarrow> totals" where
  "counted n ns = \<lparr>files_changed = files_changed n + length (filter ((\<noteq>) 0) ns), replacements = replacements n + sum_list ns\<rparr>"

lemma counted_append: "counted n (ns @ ms) = counted (counted n ns) ms"
  by (simp add: counted_def)

lemma counted_Nil [simp]: "counted n [] = n"
  by (simp add: counted_def)

lemma patch_file_relocates:
  assumes "old \<noteq> []" "length new = length old"
  shows "\<exists>r f' k. patch_file old new f = Some (r, f', k) \<and> file_relocated old new f f' k"
proof (cases "open_error f = None \<and> fstat_ok f \<and> length old \<le> length (content f) \<and> mmap_ok f")
  case True
  then obtain d k where "patch_loop old new 0 (content f) 0 = Some (d, k)" "relocated old new (content f) d k"
    using patch_loop_relocates [OF assms, of "[]" "content f" 0] by auto
  then show ?thesis using True
    by (intro exI [of _ 0] exI [of _ "f\<lparr>content := d\<rparr>"] exI [of _ k]) (simp add: patch_file_def file_relocated_def)
next
  case False
  then have "\<exists>r. patch_file old new f = Some (r, f, 0)"
    by (auto simp: patch_file_def not_le split: option.split)
  moreover have "file_relocated old new f f 0"
    using False relocated_short [of "content f" old new] by (auto simp: file_relocated_def not_le)
  ultimately show ?thesis by blast
qed

lemma walk_relocates:
  "\<lbrakk>old \<noteq> []; length new = length old\<rbrakk> \<Longrightarrow>
    \<exists>r t' ns. walk old new t n = Some (r, t', counted n ns) \<and> tree_relocated old new t t' ns"
  "\<lbrakk>old \<noteq> []; length new = length old\<rbrakk> \<Longrightarrow>
    \<exists>es' ns. walk_entries old new es n = Some (es', counted n ns) \<and> entries_relocated old new es es' ns"
proof (induction old new t n and old new es n rule: walk_walk_entries.induct)
  case (3 old new f n)
  obtain r f' k where "patch_file old new f = Some (r, f', k)" "file_relocated old new f f' k"
    using patch_file_relocates [OF 3] by blast
  then show ?case by (intro exI [of _ r] exI [of _ "Regular f'"] exI [of _ "[k]"]) (simp add: counted_def patched)
next
  case (5 old new es n)
  then obtain es' ns where "walk_entries old new es n = Some (es', counted n ns)" "entries_relocated old new es es' ns"
    by blast
  then show ?case by (auto intro: entered)
next
  case (7 old new name t es n)
  obtain r t' ns where t: "walk old new t n = Some (r, t', counted n ns)" "tree_relocated old new t t' ns"
    using "7.IH"(1) [OF "7.prems"] by blast
  obtain es' ms where es: "walk_entries old new es (counted n ns) = Some (es', counted (counted n ns) ms)"
    "entries_relocated old new es es' ms"
    using "7.IH"(2) [OF t(1) refl refl "7.prems"] by blast
  have "walk_entries old new ((name, t) # es) n = Some ((name, t') # es', counted n (ns @ ms))"
    using t(1) es(1) by (simp add: counted_append)
  then show ?case using add_entry [OF t(2) es(2)] by blast
next
  case (1 old new n)
  show ?case by (intro exI [of _ "- 1"] exI [of _ Gone] exI [of _ "[]"]) (simp add: same_gone)
next
  case (2 old new n)
  show ?case by (intro exI [of _ 0] exI [of _ Special] exI [of _ "[]"]) (simp add: same_special)
next
  case (4 old new n)
  show ?case by (intro exI [of _ "- 1"] exI [of _ "Directory None"] exI [of _ "[]"]) (simp add: closed)
next
  case (6 old new n)
  show ?case by (intro exI [of _ "[]"]) (simp add: no_entry)
qed

text \<open>
C38: Relocation ends, for every tree of files, and rewrites in each file that can be written exactly the
  occurrences of the old prefix, scanned from the left; every other byte, every file size, every other
  file and the shape of the tree are as before, and the totals count the changed files and the
  replacements. The status is 0 or 1 (the root could not be searched).
\<close>
theorem relocation_exact:
  assumes "old \<noteq> []" "length old = length new"
  shows "\<exists>code root' ns. relocate_main [old, new] root = Some (code, root',
      \<lparr>files_changed = length (filter ((\<noteq>) 0) ns), replacements = sum_list ns\<rparr>) \<and>
    code \<le> 1 \<and> tree_relocated old new root root' ns"
proof -
  obtain r t' ns where "walk old new root \<lparr>files_changed = 0, replacements = 0\<rparr> =
      Some (r, t', counted \<lparr>files_changed = 0, replacements = 0\<rparr> ns)" "tree_relocated old new root t' ns"
    using walk_relocates(1) assms by metis
  then show ?thesis using assms
    by (intro exI [of _ "if r \<noteq> 0 then 1 else 0"] exI [of _ t'] exI [of _ ns]) (simp add: relocate_main_def counted_def)
qed

definition demo_file :: "byte list \<Rightarrow> regular_file" where
  "demo_file d = \<lparr>open_error = None, fstat_ok = True, mmap_ok = True, content = d\<rparr>"

lemma demo_patch: "patch_file [1, 1] [2, 3] (demo_file [1, 1, 1, 9, 1, 1]) = Some (0, demo_file [2, 3, 1, 9, 2, 3], 2)"
  by (simp add: patch_file_def demo_file_def patch_loop.simps splice_def)

theorem relocation_exact_witness:
  "\<exists>ns. relocate_main [[1, 1], [2, 3]] (Directory (Some [(''a'', Regular (demo_file [1, 1, 1, 9, 1, 1])), (''b'', Gone)])) =
      Some (0, Directory (Some [(''a'', Regular (demo_file [2, 3, 1, 9, 2, 3])), (''b'', Gone)]),
        \<lparr>files_changed = length (filter ((\<noteq>) 0) ns), replacements = sum_list ns\<rparr>) \<and>
    sum_list ns = 2"
proof -
  let ?t = "Directory (Some [(''a'', Regular (demo_file [1, 1, 1, 9, 1, 1])), (''b'', Gone)])"
  have "relocate_main [[1, 1], [2, 3]] ?t =
      Some (0, Directory (Some [(''a'', Regular (demo_file [2, 3, 1, 9, 2, 3])), (''b'', Gone)]),
        \<lparr>files_changed = 1, replacements = 2\<rparr>)"
    by (simp add: relocate_main_def demo_patch)
  with relocation_exact [of "[1, 1]" "[2, 3]" ?t] show ?thesis by auto
qed

section \<open>The report of a trapped system call\<close>

text \<open>\<open>append_decimal\<close>: the digits in an array of 16 (never used up by 32 bits).\<close>

function decimal_digits :: "u32 \<Rightarrow> string" where
  "decimal_digits value = digit (unat value mod 10) #
     (if value div 10 = 0 then [] else decimal_digits (value div 10))"
  by pat_completeness auto

lemma unat_div10: "unat ((w :: u32) div 10) = unat w div 10"
  by (simp add: unat_div)

termination decimal_digits
proof (relation "measure unat")
  fix w :: u32
  assume "w div 10 \<noteq> 0"
  then have "0 < unat w div 10" by (metis unat_div10 unsigned_eq_0_iff not_gr_zero)
  then have "unat w div 10 < unat w" by (intro div_less_dividend) auto
  then show "(w div 10, w) \<in> measure unat" by (simp add: unat_div10)
qed simp

declare decimal_digits.simps [simp del]

definition append_decimal :: "u32 \<Rightarrow> string" where
  "append_decimal value = rev (decimal_digits value)"

text \<open>The leading zeros are skipped; the last digit never is. \<open>i\<close> is \<open>shift div 4\<close>.\<close>

definition hex_at :: "u64 \<Rightarrow> nat \<Rightarrow> char" where
  "hex_at value i = hex_digit (unat (drop_bit (4 * i) value AND 15))"

fun skip_zeros :: "u64 \<Rightarrow> nat \<Rightarrow> nat" where
  "skip_zeros value 0 = 0"
| "skip_zeros value (Suc i) = (if drop_bit (4 * Suc i) value AND 15 = 0 then skip_zeros value i else Suc i)"

fun hex_from :: "u64 \<Rightarrow> nat \<Rightarrow> string" where
  "hex_from value 0 = [hex_at value 0]"
| "hex_from value (Suc i) = hex_at value (Suc i) # hex_from value i"

definition append_hex :: "u64 \<Rightarrow> string" where
  "append_hex value = ''0x'' @ hex_from value (skip_zeros value 15)"

definition report_sigsys :: "u32 \<Rightarrow> u64 \<Rightarrow> u32 \<Rightarrow> u64 \<Rightarrow> string" where
  "report_sigsys syscall arch code address =
     ''BXSIGSYS syscall='' @ append_decimal syscall @ '' arch='' @ append_hex arch @
     '' code='' @ append_decimal code @ '' address='' @ append_hex address @ [CHR 0x0A]"

lemma append_decimal_dec: "append_decimal v = dec (unat v)"
proof (induction v rule: decimal_digits.induct)
  case (1 v)
  show ?case
  proof (cases "v div 10 = 0")
    case True
    then have "unat v div 10 = 0" by (metis unat_div10 unsigned_0)
    then have "unat v < 10" by simp
    then show ?thesis using True by (simp add: append_decimal_def decimal_digits.simps [of v] dec.simps [of "unat v"])
  next
    case False
    then have "unat v div 10 \<noteq> 0" by (metis unat_div10 unsigned_eq_0_iff)
    then have "\<not> unat v < 10" by simp
    then show ?thesis using 1 [OF False] False
      by (simp add: append_decimal_def decimal_digits.simps [of v] dec.simps [of "unat v"] unat_div10)
  qed
qed

lemma length_append_hex: "length (append_hex v) \<le> 18"
proof -
  have "skip_zeros v i \<le> i" for i by (induction i) auto
  moreover have "length (hex_from v i) = Suc i" for i by (induction i) auto
  ultimately show ?thesis by (simp add: append_hex_def)
qed

lemma report_sigsys_fits: "length (report_sigsys syscall arch code address) \<le> 192"
proof -
  have "length (append_decimal v) \<le> 10" for v
    using length_dec_le [of "unat v" 9] unsigned_less [of v, where 'a = nat] by (simp add: append_decimal_dec)
  from this [of syscall] this [of code] show ?thesis
    using length_append_hex [of arch] length_append_hex [of address] by (simp add: report_sigsys_def)
qed

end
