(* ===== verification/Drawable.thy ===== *)
theory Drawable
  imports Prelude
begin

text \<open>
  The drawing primitives of the X server, \<open>winlator/src/drawable.c\<close>. A direct buffer of Java is a list
  of bytes; the code reads some as 32-bit integers, and these are lists of words. The source of a copy
  may be the destination's own buffer (\<open>None\<close>). An access outside of a buffer, a negative size and a
  \<open>memcpy\<close> of overlapping areas are \<open>None\<close>.

  Coordinates are integers in the range of \<open>jshort\<close>. An index that an \<open>int\<close> could not hold lies outside
  of every buffer, so it has no case of its own.
\<close>

section \<open>Buffers\<close>

definition buf_write :: "int \<Rightarrow> 'a list \<Rightarrow> 'a list \<Rightarrow> 'a list option" where
  "buf_write i ys d = (if i < 0 then None else mem_write (nat i) ys d)"

definition buf_read :: "int \<Rightarrow> int \<Rightarrow> 'a list \<Rightarrow> 'a list option" where
  "buf_read i n d = (if i < 0 \<or> n < 0 then None else mem_read (nat i) (nat n) d)"

definition memcpy :: "'a list option \<Rightarrow> int \<Rightarrow> int \<Rightarrow> int \<Rightarrow> 'a list \<Rightarrow> 'a list option" where
  "memcpy source j i n d =
     (case source of
        Some s \<Rightarrow> do { ys \<leftarrow> buf_read j n s; buf_write i ys d }
      | None \<Rightarrow> if \<bar>i - j\<bar> < n then None else do { ys \<leftarrow> buf_read j n d; buf_write i ys d })"

text \<open>\<open>for (i = 0; i < n; i++)\<close>\<close>

fun for_upto :: "nat \<Rightarrow> (nat \<Rightarrow> 'a \<Rightarrow> 'a option) \<Rightarrow> 'a \<Rightarrow> 'a option" where
  "for_upto 0 f s = Some s"
| "for_upto (Suc n) f s = do { s \<leftarrow> for_upto n f s; f n s }"

text \<open>The conversion of an \<open>int\<close> to a \<open>jshort\<close>.\<close>

definition short :: "int \<Rightarrow> int" where "short i = (i + 32768) mod 65536 - 32768"

section \<open>Colors\<close>

definition WHITE :: u32 where "WHITE = 0xffffff"
definition BLACK :: u32 where "BLACK = 0"

definition packColor :: "8 word \<Rightarrow> 8 word \<Rightarrow> 8 word \<Rightarrow> u32" where
  "packColor r g b = (let r = scast r :: u32; g = scast g :: u32; b = scast b :: u32 in
     push_bit 8 (r AND 0xff00) OR (g AND 0xff00) OR signed_drop_bit 8 b)"

definition unpackColor :: "u32 \<Rightarrow> byte list" where
  "unpackColor color = [ucast (color AND 255), ucast (drop_bit 8 color AND 255), ucast (drop_bit 16 color AND 255), 255]"

definition getBit :: "int \<Rightarrow> nat \<Rightarrow> byte list \<Rightarrow> bool option" where
  "getBit line x d = (if line < 0 then None else map_option (\<lambda>b. bit b (x mod 8)) (mem_get (nat line + x div 8) d))"

definition getBitmapBytePad :: "int \<Rightarrow> int" where
  "getBitmapBytePad width = ((width + 32 - 1) div 32) * 4"

datatype GCFunction =
    GCF_CLEAR | GCF_AND | GCF_AND_REVERSE | GCF_COPY | GCF_AND_INVERTED | GCF_NO_OP | GCF_XOR | GCF_OR
  | GCF_NOR | GCF_EQUIV | GCF_INVERT | GCF_OR_REVERSE | GCF_COPY_INVERTED | GCF_OR_INVERTED | GCF_NAND | GCF_SET

fun setPixelOp :: "u32 \<Rightarrow> u32 \<Rightarrow> GCFunction \<Rightarrow> u32" where
  "setPixelOp srcColor dstColor GCF_CLEAR = BLACK"
| "setPixelOp srcColor dstColor GCF_AND = srcColor AND dstColor"
| "setPixelOp srcColor dstColor GCF_AND_REVERSE = srcColor AND NOT dstColor"
| "setPixelOp srcColor dstColor GCF_COPY = srcColor"
| "setPixelOp srcColor dstColor GCF_AND_INVERTED = NOT srcColor AND dstColor"
| "setPixelOp srcColor dstColor GCF_XOR = srcColor XOR dstColor"
| "setPixelOp srcColor dstColor GCF_OR = srcColor OR dstColor"
| "setPixelOp srcColor dstColor GCF_NOR = NOT srcColor AND NOT dstColor"
| "setPixelOp srcColor dstColor GCF_EQUIV = NOT srcColor XOR dstColor"
| "setPixelOp srcColor dstColor GCF_INVERT = NOT dstColor"
| "setPixelOp srcColor dstColor GCF_OR_REVERSE = srcColor OR NOT dstColor"
| "setPixelOp srcColor dstColor GCF_COPY_INVERTED = NOT srcColor"
| "setPixelOp srcColor dstColor GCF_OR_INVERTED = NOT srcColor OR dstColor"
| "setPixelOp srcColor dstColor GCF_NAND = NOT srcColor OR NOT dstColor"
| "setPixelOp srcColor dstColor GCF_SET = WHITE"
| "setPixelOp srcColor dstColor GCF_NO_OP = dstColor"

section \<open>Areas\<close>

text \<open>The bitmap's rows are padded; the destination, of 32-bit pixels, is written without gaps.\<close>

definition drawBitmap :: "int \<Rightarrow> int \<Rightarrow> byte list \<Rightarrow> u32 list \<Rightarrow> u32 list option" where
  "drawBitmap width height srcData dstData =
     map_option snd (for_upto (nat height) (\<lambda>y s.
       for_upto (nat width) (\<lambda>x (p, d). do {
         b \<leftarrow> getBit (int y * getBitmapBytePad width) x srcData;
         d \<leftarrow> mem_set p (if b then WHITE else BLACK) d;
         Some (p + 1, d) }) s) (0, dstData))"

definition copyArea ::
    "int \<Rightarrow> int \<Rightarrow> int \<Rightarrow> int \<Rightarrow> int \<Rightarrow> int \<Rightarrow> int \<Rightarrow> int \<Rightarrow> byte list option \<Rightarrow> byte list \<Rightarrow> byte list option" where
  "copyArea srcX srcY dstX dstY width height srcStride dstStride srcData dstData =
     (let src = (srcX + srcY * srcStride) * 4; dst = (dstX + dstY * dstStride) * 4 in
      if width = srcStride \<and> width = dstStride then memcpy srcData src dst (width * height * 4) dstData
      else let width = short (width * 4); srcStride = short (srcStride * 4); dstStride = short (dstStride * 4) in
        for_upto (nat height) (\<lambda>y d.
          memcpy srcData (src + int y * srcStride) (dst + int y * dstStride) width d) dstData)"

definition get_color :: "int \<Rightarrow> byte list \<Rightarrow> u32 option" where
  "get_color i d = do {
     bs \<leftarrow> buf_read i 3 d;
     Some (push_bit 16 (ucast (bs ! 0)) OR push_bit 8 (ucast (bs ! 1)) OR ucast (bs ! 2)) }"

definition color_bytes :: "u32 \<Rightarrow> byte list" where
  "color_bytes c = [ucast (drop_bit 16 c AND 0xff), ucast (drop_bit 8 c AND 0xff), ucast (c AND 0xff)]"

definition copyAreaOp ::
    "int \<Rightarrow> int \<Rightarrow> int \<Rightarrow> int \<Rightarrow> int \<Rightarrow> int \<Rightarrow> int \<Rightarrow> int \<Rightarrow> byte list option \<Rightarrow> byte list \<Rightarrow> GCFunction \<Rightarrow>
     byte list option" where
  "copyAreaOp srcX srcY dstX dstY width height srcStride dstStride srcData dstData gcFunction =
     for_upto (nat height) (\<lambda>y. for_upto (nat width) (\<lambda>x d. do {
       let i = (int x + srcX + (int y + srcY) * srcStride) * 4;
       let j = (int x + dstX + (int y + dstY) * dstStride) * 4;
       srcColor \<leftarrow> get_color i (case srcData of None \<Rightarrow> d | Some s \<Rightarrow> s);
       dstColor \<leftarrow> get_color j d;
       buf_write j (color_bytes (setPixelOp srcColor dstColor gcFunction)) d })) dstData"

definition fillRect :: "int \<Rightarrow> int \<Rightarrow> int \<Rightarrow> int \<Rightarrow> u32 \<Rightarrow> int \<Rightarrow> byte list \<Rightarrow> byte list option" where
  "fillRect x y width height color stride dat =
     (if width < 0 \<and> 0 < height then None
      else let row = concat (replicate (nat width) (unpackColor color)) in
        for_upto (nat height) (\<lambda>i d. buf_write ((x + (int i + y) * stride) * 4) row d) dat)"

section \<open>Lines\<close>

text \<open>One position of the pen: \<open>lineWidth\<close> rows of as many pixels.\<close>

definition plot :: "byte list \<Rightarrow> int \<Rightarrow> int \<Rightarrow> int \<Rightarrow> int \<Rightarrow> byte list \<Rightarrow> byte list option" where
  "plot row lineWidth stride x0 y0 d =
     for_upto (nat lineWidth) (\<lambda>i d. buf_write ((x0 + (int i + y0) * stride) * 4) row d) d"

text \<open>The loop; \<open>None\<close> also when it does not end.\<close>

partial_function (option) line_loop ::
    "(int \<Rightarrow> int \<Rightarrow> byte list \<Rightarrow> byte list option) \<Rightarrow> int \<Rightarrow> int \<Rightarrow> int \<Rightarrow> int \<Rightarrow> int \<Rightarrow> int \<Rightarrow> int \<Rightarrow> int \<Rightarrow> int \<Rightarrow> byte list \<Rightarrow>
     byte list option" where
  [code]: "line_loop pen dx dy sx sy x1 y1 x0 y0 e1 d =
     (case pen x0 y0 d of
        None \<Rightarrow> None
      | Some d \<Rightarrow>
          if x0 = x1 \<and> y0 = y1 then Some d
          else let e2 = e1 * 2; h = dy \<le> e2; v = e2 \<le> dx in
            line_loop pen dx dy sx sy x1 y1 (if h then short (x0 + sx) else x0) (if v then short (y0 + sy) else y0)
              (e1 + (if h then dy else 0) + (if v then dx else 0)) d)"

text \<open>
  Filling the row of the pen counts its bytes in an \<open>int16_t\<close>, which turns negative from 8192 pixels on;
  a negative width makes no row, and nothing is drawn with it.
\<close>

definition drawLine :: "int \<Rightarrow> int \<Rightarrow> int \<Rightarrow> int \<Rightarrow> u32 \<Rightarrow> int \<Rightarrow> int \<Rightarrow> byte list \<Rightarrow> byte list option" where
  "drawLine x0 y0 x1 y1 color lineWidth stride dat =
     (let dx = \<bar>x1 - x0\<bar>; dy = - \<bar>y1 - y0\<bar>;
          sx = if x0 < x1 then 1 else - 1; sy = if y0 < y1 then 1 else - 1;
          row = concat (replicate (nat lineWidth) (unpackColor color)) in
      if 8192 \<le> lineWidth then None
      else line_loop (plot row lineWidth stride) dx dy sx sy x1 y1 x0 y0 (dx + dy) dat)"

section \<open>Masks and bitmaps\<close>

definition drawAlphaMaskedBitmap ::
    "8 word \<Rightarrow> 8 word \<Rightarrow> 8 word \<Rightarrow> 8 word \<Rightarrow> 8 word \<Rightarrow> 8 word \<Rightarrow> u32 list \<Rightarrow> u32 list \<Rightarrow> u32 list \<Rightarrow> u32 list option" where
  "drawAlphaMaskedBitmap foreRed foreGreen foreBlue backRed backGreen backBlue srcData maskData dstData =
     (let foreColor = packColor foreRed foreGreen foreBlue; backColor = packColor backRed backGreen backBlue in
      for_upto (length dstData) (\<lambda>i d. do {
        m \<leftarrow> mem_get i maskData;
        c \<leftarrow> if m = WHITE then do { s \<leftarrow> mem_get i srcData; Some ((if s = WHITE then foreColor else backColor) OR 0xff000000) }
             else Some 0;
        mem_set i c d }) dstData)"

text \<open>The bitmap: its width, height and pixels.\<close>

definition fromBitmap :: "nat \<Rightarrow> nat \<Rightarrow> byte list \<Rightarrow> byte list \<Rightarrow> byte list option" where
  "fromBitmap width height pixels dat =
     for_upto (width * height * 4) (\<lambda>i d. do { bs \<leftarrow> mem_read i 4 pixels; mem_write i bs d }) dat"

definition toBitmap :: "nat \<Rightarrow> nat \<Rightarrow> byte list \<Rightarrow> byte list option \<Rightarrow> byte list \<Rightarrow> byte list option" where
  "toBitmap width height colorData maskData pixels =
     for_upto (width * height) (\<lambda>k p. do {
       let i = k * 4;
       r \<leftarrow> mem_get i colorData; p \<leftarrow> mem_set (i + 2) r p;
       g \<leftarrow> mem_get (i + 1) colorData; p \<leftarrow> mem_set (i + 1) g p;
       b \<leftarrow> mem_get (i + 2) colorData; p \<leftarrow> mem_set i b p;
       a \<leftarrow> (case maskData of Some m \<Rightarrow> mem_get i m | None \<Rightarrow> mem_get (i + 3) colorData);
       mem_set (i + 3) a p }) pixels"

section \<open>Raster operations\<close>

text \<open>
  The codes of the X protocol: bit 0 of a function's code is its value when source and destination
  are both set, bit 1 when only the source is, bit 2 when only the destination is, bit 3 when none is.
\<close>

fun gx_code :: "GCFunction \<Rightarrow> nat" where
  "gx_code GCF_CLEAR = 0" | "gx_code GCF_AND = 1" | "gx_code GCF_AND_REVERSE = 2" | "gx_code GCF_COPY = 3"
| "gx_code GCF_AND_INVERTED = 4" | "gx_code GCF_NO_OP = 5" | "gx_code GCF_XOR = 6" | "gx_code GCF_OR = 7"
| "gx_code GCF_NOR = 8" | "gx_code GCF_EQUIV = 9" | "gx_code GCF_INVERT = 10" | "gx_code GCF_OR_REVERSE = 11"
| "gx_code GCF_COPY_INVERTED = 12" | "gx_code GCF_OR_INVERTED = 13" | "gx_code GCF_NAND = 14" | "gx_code GCF_SET = 15"

definition gx_bit :: "GCFunction \<Rightarrow> bool \<Rightarrow> bool \<Rightarrow> bool" where
  "gx_bit f s d = bit (gx_code f) (if s then (if d then 0 else 1) else if d then 2 else 3)"

lemma bit_WHITE: "bit WHITE k \<longleftrightarrow> k < 24"
proof -
  have "WHITE = mask 24" by (simp add: WHITE_def mask_eq_exp_minus_1)
  then have "bit WHITE k = bit (mask 24 :: u32) k" by (rule arg_cong)
  also have "\<dots> \<longleftrightarrow> k < 24" by (simp only: bit_mask_iff) auto
  finally show ?thesis .
qed

lemma raster_operation:
  assumes "k < 24"
  shows "bit (setPixelOp s d f) k = gx_bit f (bit s k) (bit d k)"
  using assms
  by (cases f; cases "bit s k"; cases "bit d k")
    (simp_all add: gx_bit_def bit_and_iff bit_or_iff bit_xor_iff bit_not_iff bit_WHITE BLACK_def bit_numeral_rec bit_Suc_0_iff)

section \<open>Grids of pixels\<close>

lemma for_upto_inv:
  assumes "P 0 s" "\<And>i t. i < n \<Longrightarrow> P i t \<Longrightarrow> \<exists>t'. f i t = Some t' \<and> P (Suc i) t'"
  shows "\<exists>t. for_upto n f s = Some t \<and> P n t"
  using assms
proof (induction n)
  case (Suc n)
  then obtain t where t: "for_upto n f s = Some t" "P n t" by (metis less_Suc_eq)
  then obtain t' where "f n t = Some t'" "P (Suc n) t'" using Suc.prems(2) by blast
  then show ?case using t by simp
qed simp

lemma for_upto_None: "i < n \<Longrightarrow> for_upto i f s = Some t \<Longrightarrow> f i t = None \<Longrightarrow> for_upto n f s = None"
  by (induction n) (auto simp: less_Suc_eq)

definition pixel :: "int \<Rightarrow> int \<Rightarrow> int \<Rightarrow> byte list \<Rightarrow> byte list" where
  "pixel stride x y d = take 4 (drop (4 * nat (x + y * stride)) d)"

text \<open>The pixels of a drawable: those of its complete rows.\<close>

definition on_grid :: "int \<Rightarrow> byte list \<Rightarrow> int \<Rightarrow> int \<Rightarrow> bool" where
  "on_grid stride d x y \<longleftrightarrow> 0 \<le> x \<and> x < stride \<and> 0 \<le> y \<and> (y + 1) * stride * 4 \<le> int (length d)"

definition inside :: "int \<Rightarrow> int \<Rightarrow> int \<Rightarrow> int \<Rightarrow> int \<Rightarrow> int \<Rightarrow> bool" where
  "inside x y w h a b \<longleftrightarrow> x \<le> a \<and> a < x + w \<and> y \<le> b \<and> b < y + h"

definition fits_grid :: "int \<Rightarrow> byte list \<Rightarrow> int \<Rightarrow> int \<Rightarrow> int \<Rightarrow> int \<Rightarrow> bool" where
  "fits_grid stride d x y w h \<longleftrightarrow> 0 \<le> x \<and> 0 \<le> y \<and> 0 \<le> w \<and> 0 \<le> h \<and> x + w \<le> stride \<and>
     (y + h) * stride * 4 \<le> int (length d)"

lemma block_splice:
  assumes "length ys = 4 * w" "4 * (q + w) \<le> length d" "4 * (p + 1) \<le> length d"
  shows "take 4 (drop (4 * p) (splice (4 * q) ys d)) =
    (if q \<le> p \<and> p < q + w then take 4 (drop (4 * (p - q)) ys) else take 4 (drop (4 * p) d))"
    (is "?l = ?r")
proof (rule nth_equalityI)
  have l: "length ?l = 4" using assms by simp
  have "q \<le> p \<Longrightarrow> p < q + w \<Longrightarrow> 4 * (p - q) + 4 \<le> 4 * w" by linarith
  then have r: "length ?r = 4" using assms by auto
  show "length ?l = length ?r" using l r by simp
  fix i assume "i < length ?l"
  then have i: "i < 4" using l by simp
  have c: "(4 * q \<le> 4 * p + i \<and> 4 * p + i < 4 * q + length ys) = (q \<le> p \<and> p < q + w)" using assms(1) i by auto
  have "?l ! i = splice (4 * q) ys d ! (4 * p + i)" using i assms by simp
  also have "\<dots> = (if q \<le> p \<and> p < q + w then ys ! (4 * p + i - 4 * q) else d ! (4 * p + i))"
    using assms i by (subst nth_splice) (simp_all add: c)
  also have "\<dots> = ?r ! i"
  proof (cases "q \<le> p \<and> p < q + w")
    case True
    then have "4 * p + i - 4 * q = 4 * (p - q) + i" "4 * (p - q) + i < length ys" using assms(1) i by auto
    then show ?thesis using True i by simp
  next
    case False
    show ?thesis using i assms by (simp only: False if_False) simp
  qed
  finally show "?l ! i = ?r ! i" .
qed

lemma row_iff:
  fixes x y :: int
  assumes "0 \<le> a" "a < stride" "0 \<le> x" "x + w \<le> stride"
  shows "x + y * stride \<le> a + b * stride \<and> a + b * stride < x + y * stride + w \<longleftrightarrow> b = y \<and> x \<le> a \<and> a < x + w"
proof (cases b y rule: linorder_cases)
  case less
  then have "(b + 1) * stride \<le> y * stride" using assms by (intro mult_right_mono) auto
  then show ?thesis using assms less by (auto simp: algebra_simps)
next
  case greater
  then have "(y + 1) * stride \<le> b * stride" using assms by (intro mult_right_mono) auto
  then show ?thesis using assms greater by (auto simp: algebra_simps)
qed auto

text \<open>Writing \<open>w\<close> pixels from \<open>(x, y)\<close> on.\<close>

lemma write_row:
  assumes "0 \<le> x" "0 \<le> y" "0 \<le> w" "x + w \<le> stride" "(y + 1) * stride * 4 \<le> int (length d)"
    and "length r = 4 * nat w"
  obtains d' where "buf_write ((x + y * stride) * 4) r d = Some d'" "length d' = length d"
    "\<And>a b. on_grid stride d a b \<Longrightarrow> pixel stride a b d' =
       (if b = y \<and> x \<le> a \<and> a < x + w then take 4 (drop (4 * nat (a - x)) r) else pixel stride a b d)"
proof -
  define Q where "Q = x + y * stride"
  let ?q = Q
  have st: "0 \<le> stride" using assms by linarith
  have q: "0 \<le> ?q" using assms(1,2) st by (simp add: Q_def)
  have i: "nat (?q * 4) = 4 * nat ?q" using q by (simp add: nat_mult_distrib)
  have "(?q + w) * 4 \<le> (y + 1) * stride * 4" using assms(4) by (simp add: Q_def algebra_simps)
  then have "(?q + w) * 4 \<le> int (length d)" using assms(5) by linarith
  then have "int (4 * (nat ?q + nat w)) \<le> int (length d)" using q assms(3) by simp
  then have fit: "4 * (nat ?q + nat w) \<le> length d" by (simp only: of_nat_le_iff)
  have "buf_write (?q * 4) r d = Some (splice (4 * nat ?q) r d)"
    using q fit assms(6) i by (simp add: buf_write_def)
  moreover have "length (splice (4 * nat ?q) r d) = length d" using fit assms(6) by simp
  moreover have "pixel stride a b (splice (4 * nat ?q) r d) =
       (if b = y \<and> x \<le> a \<and> a < x + w then take 4 (drop (4 * nat (a - x)) r) else pixel stride a b d)"
    if g: "on_grid stride d a b" for a b
  proof -
    define P where "P = a + b * stride"
    let ?p = P
    have a: "0 \<le> a" "a < stride" "0 \<le> b" using g by (simp_all add: on_grid_def)
    have p: "0 \<le> ?p" using a st by (simp add: P_def)
    have "(?p + 1) * 4 \<le> (b + 1) * stride * 4" using a by (simp add: P_def algebra_simps)
    then have "(?p + 1) * 4 \<le> int (length d)" using g unfolding on_grid_def by linarith
    then have "int (4 * (nat ?p + 1)) \<le> int (length d)" using p by simp
    then have "4 * (nat ?p + 1) \<le> length d" by (simp only: of_nat_le_iff)
    note block_splice [OF assms(6) fit this]
    moreover have "nat ?q \<le> nat ?p \<and> nat ?p < nat ?q + nat w \<longleftrightarrow> b = y \<and> x \<le> a \<and> a < x + w"
      using row_iff [OF a(1,2) assms(1,4), of y b] p q assms(3) unfolding P_def [symmetric] Q_def [symmetric]
      by linarith
    moreover have "b = y \<Longrightarrow> nat ?p - nat ?q = nat (a - x)" using p q by (simp add: P_def Q_def nat_diff_distrib)
    ultimately show ?thesis unfolding pixel_def P_def [symmetric] by auto
  qed
  ultimately show thesis using that unfolding Q_def by blast
qed

lemma on_grid_length: "length d' = length d \<Longrightarrow> on_grid stride d' = on_grid stride d"
  by (simp add: on_grid_def fun_eq_iff)

lemma write_rows:
  assumes "fits_grid stride d x y w h" "\<And>i. i < nat h \<Longrightarrow> length (r i) = 4 * nat w"
  shows "\<exists>d'. for_upto (nat h) (\<lambda>i. buf_write ((x + (int i + y) * stride) * 4) (r i)) d = Some d' \<and>
    length d' = length d \<and>
    (\<forall>a b. on_grid stride d a b \<longrightarrow> pixel stride a b d' =
      (if inside x y w h a b then take 4 (drop (4 * nat (a - x)) (r (nat (b - y)))) else pixel stride a b d))"
proof -
  let ?P = "\<lambda>n t. length t = length d \<and> (\<forall>a b. on_grid stride d a b \<longrightarrow> pixel stride a b t =
      (if inside x y w (int n) a b then take 4 (drop (4 * nat (a - x)) (r (nat (b - y)))) else pixel stride a b d))"
  have g: "0 \<le> x" "0 \<le> y" "0 \<le> w" "0 \<le> h" "x + w \<le> stride" "(y + h) * stride * 4 \<le> int (length d)"
    using assms(1) by (simp_all add: fits_grid_def)
  have "\<exists>t. for_upto (nat h) (\<lambda>i. buf_write ((x + (int i + y) * stride) * 4) (r i)) d = Some t \<and> ?P (nat h) t"
  proof (rule for_upto_inv)
    show "?P 0 d" by (auto simp: inside_def)
    fix i t assume i: "i < nat h" and P: "?P i t"
    have "(int i + y + 1) * stride \<le> (y + h) * stride" using i g by (intro mult_right_mono) linarith+
    then have "(int i + y + 1) * stride * 4 \<le> int (length t)" using g(6) P by linarith
    then obtain t' where t': "buf_write ((x + (int i + y) * stride) * 4) (r i) t = Some t'" "length t' = length t"
      "\<And>a b. on_grid stride t a b \<Longrightarrow> pixel stride a b t' =
         (if b = int i + y \<and> x \<le> a \<and> a < x + w then take 4 (drop (4 * nat (a - x)) (r i)) else pixel stride a b t)"
      using write_row [of x "int i + y" w stride t "r i"] g assms(2) [OF i] by auto
    have "?P (Suc i) t'"
    proof (intro conjI allI impI)
      show "length t' = length d" using t'(2) P by simp
      fix a b assume ab: "on_grid stride d a b"
      have "on_grid stride t a b" using ab P by (simp add: on_grid_def)
      then have eq: "pixel stride a b t' = (if b = int i + y \<and> x \<le> a \<and> a < x + w
          then take 4 (drop (4 * nat (a - x)) (r i)) else pixel stride a b t)" by (rule t'(3))
      show "pixel stride a b t' = (if inside x y w (int (Suc i)) a b
          then take 4 (drop (4 * nat (a - x)) (r (nat (b - y)))) else pixel stride a b d)"
      proof (cases "b = int i + y")
        case True
        then show ?thesis using eq P ab by (auto simp: inside_def)
      next
        case False
        then have "inside x y w (int (Suc i)) a b = inside x y w (int i) a b" by (auto simp: inside_def)
        then show ?thesis using eq P ab False by simp
      qed
    qed
    then show "\<exists>t'. buf_write ((x + (int i + y) * stride) * 4) (r i) t = Some t' \<and> ?P (Suc i) t'" using t'(1) by blast
  qed
  then show ?thesis using g(4) by simp
qed

lemma for_upto_cong: "(\<And>i. i < n \<Longrightarrow> f i = g i) \<Longrightarrow> for_upto n f s = for_upto n g s"
  by (induction n) auto

lemma length_unpackColor [simp]: "length (unpackColor color) = 4"
  by (simp add: unpackColor_def)

lemma length_row [simp]: "length c = 4 \<Longrightarrow> length (concat (replicate n c)) = 4 * n"
  by (induction n) auto

lemma nth_row: "length c = 4 \<Longrightarrow> k < n \<Longrightarrow> take 4 (drop (4 * k) (concat (replicate n c))) = c"
proof (induction n arbitrary: k)
  case (Suc n)
  then show ?case by (cases k) auto
qed simp

text \<open>A rectangle of one color, everything else as before.\<close>

definition painted :: "int \<Rightarrow> byte list \<Rightarrow> (int \<Rightarrow> int \<Rightarrow> bool) \<Rightarrow> byte list \<Rightarrow> byte list \<Rightarrow> bool" where
  "painted stride c area d d' \<longleftrightarrow> length d' = length d \<and>
     (\<forall>a b. on_grid stride d a b \<longrightarrow> pixel stride a b d' = (if area a b then c else pixel stride a b d))"

lemma rectangle_painted:
  assumes "fits_grid stride d x y w h" "length c = 4"
  shows "\<exists>d'. for_upto (nat h) (\<lambda>i. buf_write ((x + (int i + y) * stride) * 4) (concat (replicate (nat w) c))) d = Some d' \<and>
    painted stride c (inside x y w h) d d'"
proof -
  obtain d' where d': "for_upto (nat h) (\<lambda>i. buf_write ((x + (int i + y) * stride) * 4) (concat (replicate (nat w) c))) d = Some d'"
    "length d' = length d"
    "\<forall>a b. on_grid stride d a b \<longrightarrow> pixel stride a b d' = (if inside x y w h a b
       then take 4 (drop (4 * nat (a - x)) (concat (replicate (nat w) c))) else pixel stride a b d)"
    using write_rows [OF assms(1), of "\<lambda>_. concat (replicate (nat w) c)"] assms(2) by auto
  have "take 4 (drop (4 * nat (a - x)) (concat (replicate (nat w) c))) = c" if "inside x y w h a b" for a b
    using that assms(2) by (intro nth_row) (auto simp: inside_def)
  then show ?thesis using d' by (auto simp: painted_def)
qed

text \<open>
Filling a rectangle that lies within a drawable writes only within its buffer and gives exactly the
  pixels of the rectangle the color (opaque); every other pixel keeps its value.
\<close>
theorem fill_rectangle_exact:
  assumes "fits_grid stride d x y w h"
  shows "\<exists>d'. fillRect x y w h color stride d = Some d' \<and> length d' = length d \<and>
    (\<forall>a b. on_grid stride d a b \<longrightarrow>
      pixel stride a b d' = (if inside x y w h a b then unpackColor color else pixel stride a b d))"
  using rectangle_painted [OF assms, of "unpackColor color"] assms
  by (auto simp: fillRect_def painted_def fits_grid_def)

theorem fill_rectangle_exact_witness:
  "\<exists>d'. fillRect 1 0 1 2 0x10203 2 (replicate 16 0) = Some d' \<and> length d' = 16 \<and>
    pixel 2 1 1 d' = [3, 2, 1, 255] \<and> pixel 2 0 1 d' = [0, 0, 0, 0]"
proof -
  have f: "fits_grid 2 (replicate 16 0) 1 0 1 2" by (simp add: fits_grid_def)
  have g: "on_grid 2 (replicate 16 0) 1 1" "on_grid 2 (replicate 16 0) 0 1" by (simp_all add: on_grid_def)
  have u: "unpackColor 0x10203 = [3, 2, 1, 255]" by (simp add: unpackColor_def)
  have p: "pixel 2 0 1 (replicate 16 0) = [0, 0, 0, 0]" by (simp add: pixel_def numeral_eq_Suc)
  from fill_rectangle_exact [OF f, of "0x10203"] show ?thesis using g u p by (auto simp: inside_def)
qed

lemma short_small: "- 32768 \<le> i \<Longrightarrow> i < 32768 \<Longrightarrow> short i = i"
  by (simp add: short_def)

lemma read_row:
  assumes "fits_grid ss s x y w h" "i < nat h"
  shows "buf_read ((x + (int i + y) * ss) * 4) (w * 4) s =
      Some (take (4 * nat w) (drop (4 * nat (x + (int i + y) * ss)) s))"
    and "4 * nat (x + (int i + y) * ss) + 4 * nat w \<le> length s"
proof -
  have g: "0 \<le> x" "0 \<le> y" "0 \<le> w" "x + w \<le> ss" "(y + h) * ss * 4 \<le> int (length s)" "0 \<le> ss"
    using assms(1) by (simp_all add: fits_grid_def)
  define Q where "Q = x + (int i + y) * ss"
  have q: "0 \<le> Q" using g by (simp add: Q_def)
  have "(int i + y + 1) * ss \<le> (y + h) * ss" using assms(2) g by (intro mult_right_mono) linarith+
  moreover have "Q + w \<le> (int i + y + 1) * ss" using g by (simp add: Q_def algebra_simps)
  ultimately have "Q + w \<le> (y + h) * ss" by simp
  then have "(Q + w) * 4 \<le> ((y + h) * ss) * 4" by simp
  then have "(Q + w) * 4 \<le> int (length s)" using g(5) by (rule order_trans)
  then have "int (4 * nat Q + 4 * nat w) \<le> int (length s)" using q g(3) by simp
  then show le: "4 * nat Q + 4 * nat w \<le> length s" by (simp only: of_nat_le_iff)
  show "buf_read (Q * 4) (w * 4) s = Some (take (4 * nat w) (drop (4 * nat Q) s))"
    using q g(3) le by (simp add: buf_read_def nat_mult_distrib mult.commute)
qed

lemma pixel_of_row:
  assumes "0 \<le> x" "0 \<le> y" "0 \<le> ss" "0 \<le> k" "k < w"
  shows "take 4 (drop (4 * nat k) (take (4 * nat w) (drop (4 * nat (x + y * ss)) s))) = pixel ss (x + k) y s"
proof -
  have "4 * nat (x + k + y * ss) = 4 * nat k + 4 * nat (x + y * ss)" using assms by (simp add: nat_add_distrib)
  moreover have "4 \<le> 4 * nat w - 4 * nat k" using assms by linarith
  ultimately show ?thesis by (simp add: pixel_def drop_take min_def)
qed

lemma copy_rows:
  assumes "fits_grid ss s sx sy w h" "fits_grid ds d x y w h"
  shows "\<exists>d'. for_upto (nat h) (\<lambda>i. memcpy (Some s) ((sx + (int i + sy) * ss) * 4) ((x + (int i + y) * ds) * 4) (w * 4)) d =
      Some d' \<and> length d' = length d \<and>
    (\<forall>a b. on_grid ds d a b \<longrightarrow> pixel ds a b d' =
      (if inside x y w h a b then pixel ss (a - x + sx) (b - y + sy) s else pixel ds a b d))"
proof -
  let ?r = "\<lambda>i. take (4 * nat w) (drop (4 * nat (sx + (int i + sy) * ss)) s)"
  have eq: "for_upto (nat h) (\<lambda>i. memcpy (Some s) ((sx + (int i + sy) * ss) * 4) ((x + (int i + y) * ds) * 4) (w * 4)) d =
      for_upto (nat h) (\<lambda>i. buf_write ((x + (int i + y) * ds) * 4) (?r i)) d"
    by (rule for_upto_cong, rule ext) (simp only: memcpy_def read_row(1) [OF assms(1)] option.case bind.bind_lunit)
  have len: "length (?r i) = 4 * nat w" if "i < nat h" for i using read_row(2) [OF assms(1) that] by simp
  obtain d' where d': "for_upto (nat h) (\<lambda>i. buf_write ((x + (int i + y) * ds) * 4) (?r i)) d = Some d'"
    "length d' = length d"
    "\<forall>a b. on_grid ds d a b \<longrightarrow> pixel ds a b d' =
      (if inside x y w h a b then take 4 (drop (4 * nat (a - x)) (?r (nat (b - y)))) else pixel ds a b d)"
    using write_rows [OF assms(2), of ?r] len by blast
  have "take 4 (drop (4 * nat (a - x)) (?r (nat (b - y)))) = pixel ss (a - x + sx) (b - y + sy) s"
    if "inside x y w h a b" for a b
    using pixel_of_row [of sx "b - y + sy" ss "a - x" w s] that assms(1)
    by (auto simp: inside_def fits_grid_def algebra_simps)
  then show ?thesis using d' eq by auto
qed

lemma block_iff:
  fixes y h w :: int
  assumes "0 \<le> a" "a < w"
  shows "y * w \<le> a + b * w \<and> a + b * w < y * w + h * w \<longleftrightarrow> y \<le> b \<and> b < y + h"
proof
  assume p: "y * w \<le> a + b * w \<and> a + b * w < y * w + h * w"
  have "y * w < (b + 1) * w" using p assms by (simp add: algebra_simps)
  moreover have "b * w < (y + h) * w" using p assms by (simp add: algebra_simps)
  ultimately show "y \<le> b \<and> b < y + h" using assms by (auto simp: mult_less_cancel_right)
next
  assume b: "y \<le> b \<and> b < y + h"
  have "y * w \<le> b * w" using b assms by (intro mult_right_mono) auto
  moreover have "(b + 1) * w \<le> (y + h) * w" using b assms by (intro mult_right_mono) auto
  ultimately show "y * w \<le> a + b * w \<and> a + b * w < y * w + h * w"
    using assms unfolding distrib_right mult_1_left by linarith
qed

lemma block_bytes:
  assumes "fits_grid w s 0 y w h"
  shows "4 * nat (y * w) + 4 * nat (w * h) \<le> length s" "0 \<le> y * w" "0 \<le> w * h"
proof -
  have g: "0 \<le> y" "0 \<le> w" "0 \<le> h" "(y + h) * w * 4 \<le> int (length s)" using assms by (simp_all add: fits_grid_def)
  show nn: "0 \<le> y * w" "0 \<le> w * h" using g by simp_all
  have "int (4 * nat (y * w) + 4 * nat (w * h)) = (y + h) * w * 4" using nn by (simp add: algebra_simps)
  then have "int (4 * nat (y * w) + 4 * nat (w * h)) \<le> int (length s)" using g(4) by (rule ord_eq_le_trans)
  then show "4 * nat (y * w) + 4 * nat (w * h) \<le> length s" by (simp only: of_nat_le_iff)
qed

lemma copy_block:
  assumes "fits_grid w s 0 sy w h" "fits_grid w d 0 y w h"
  shows "\<exists>d'. memcpy (Some s) ((0 + sy * w) * 4) ((0 + y * w) * 4) (w * h * 4) d = Some d' \<and> length d' = length d \<and>
    (\<forall>a b. on_grid w d a b \<longrightarrow> pixel w a b d' =
      (if inside 0 y w h a b then pixel w (a - 0 + 0) (b - y + sy) s else pixel w a b d))"
proof -
  define S Q K where "S = nat (sy * w)" "Q = nat (y * w)" "K = nat (w * h)"
  note sb = block_bytes [OF assms(1)] and db = block_bytes [OF assms(2)]
  let ?ys = "take (4 * K) (drop (4 * S) s)"
  have i: "nat (sy * w * 4) = 4 * S" "nat (y * w * 4) = 4 * Q" "nat (w * h * 4) = 4 * K"
    using sb(2,3) db(2) by (simp_all add: S_Q_K_def nat_mult_distrib)
  have len: "length ?ys = 4 * K" using sb(1) by (simp add: S_Q_K_def)
  have fit: "4 * (Q + K) \<le> length d" using db(1) by (simp add: S_Q_K_def)
  have "buf_read (sy * w * 4) (w * h * 4) s = Some ?ys"
    using i sb by (simp add: buf_read_def S_Q_K_def not_less mult.commute [of h w])
  moreover have "buf_write (y * w * 4) ?ys d = Some (splice (4 * Q) ?ys d)"
    using i db(2) len fit by (simp add: buf_write_def not_less mult.commute [of w y])
  ultimately have "memcpy (Some s) ((0 + sy * w) * 4) ((0 + y * w) * 4) (w * h * 4) d = Some (splice (4 * Q) ?ys d)"
    by (simp add: memcpy_def)
  moreover have "length (splice (4 * Q) ?ys d) = length d" using len fit by simp
  moreover have "pixel w a b (splice (4 * Q) ?ys d) =
      (if inside 0 y w h a b then pixel w (a - 0 + 0) (b - y + sy) s else pixel w a b d)" if g: "on_grid w d a b" for a b
  proof -
    have a: "0 \<le> a" "a < w" "0 \<le> b" "(b + 1) * w * 4 \<le> int (length d)" using g by (simp_all add: on_grid_def)
    define P where "P = nat (a + b * w)"
    have p: "int P = a + b * w" using a by (simp add: P_def)
    have "(a + b * w + 1) * 4 \<le> (b + 1) * w * 4" using a by (simp add: algebra_simps)
    then have "int (4 * (P + 1)) \<le> int (length d)" using a(4) p by simp
    then have "4 * (P + 1) \<le> length d" by (simp only: of_nat_le_iff)
    note block_splice [OF len fit this]
    moreover have q: "int Q = y * w" "int K = h * w" "int S = sy * w" using sb(2,3) db(2) by (simp_all add: S_Q_K_def mult.commute)
    moreover have iff: "(Q \<le> P \<and> P < Q + K) = inside 0 y w h a b"
    proof -
      have "(Q \<le> P \<and> P < Q + K) = (int Q \<le> int P \<and> int P < int Q + int K)" by linarith
      also have "\<dots> = inside 0 y w h a b" using block_iff [OF a(1,2), of y b h] a by (simp add: p q inside_def)
      finally show ?thesis .
    qed
    moreover have "take 4 (drop (4 * (P - Q)) ?ys) = pixel w (a - 0 + 0) (b - y + sy) s" if "inside 0 y w h a b"
    proof -
      have le: "Q \<le> P" "P < Q + K" using that iff by auto
      have "int (P - Q + S) = a + (b - y + sy) * w" using le(1) p q by (simp add: of_nat_diff algebra_simps)
      then have "nat (a + (b - y + sy) * w) = P - Q + S" by (metis nat_int)
      moreover have "4 \<le> 4 * K - 4 * (P - Q)" using le by linarith
      ultimately show ?thesis by (simp add: pixel_def drop_take min_def distrib_left)
    qed
    ultimately show ?thesis by (simp only: pixel_def P_def [symmetric]) auto
  qed
  ultimately show ?thesis by blast
qed

text \<open>
Copying an area between two drawables, both areas within them and rows of fewer than 8192 pixels:
  every pixel of the target area becomes the pixel of the source at the same distance, no other
  changes, and no byte outside of the buffers is touched; copying whole rows at once and row by row
  agree.
\<close>
theorem copy_area_exact:
  assumes "fits_grid ss s sx sy w h" "fits_grid ds d x y w h" "ss < 8192" "ds < 8192"
  shows "\<exists>d'. copyArea sx sy x y w h ss ds (Some s) d = Some d' \<and> length d' = length d \<and>
    (\<forall>a b. on_grid ds d a b \<longrightarrow> pixel ds a b d' =
      (if inside x y w h a b then pixel ss (a - x + sx) (b - y + sy) s else pixel ds a b d))"
proof (cases "w = ss \<and> w = ds")
  case True
  then have eqs: "ss = w" "ds = w" "sx = 0" "x = 0" using assms(1,2) by (auto simp: fits_grid_def)
  show ?thesis using copy_block [of w s sy h d y] assms(1,2) unfolding eqs by (simp add: copyArea_def)
next
  case False
  have g: "0 \<le> w" "w \<le> ss" "w \<le> ds" using assms(1,2) by (auto simp: fits_grid_def)
  have short: "short (w * 4) = w * 4" "short (ss * 4) = ss * 4" "short (ds * 4) = ds * 4"
    using g assms(3,4) by (simp_all add: short_small)
  have "copyArea sx sy x y w h ss ds (Some s) d = for_upto (nat h)
      (\<lambda>i. memcpy (Some s) ((sx + sy * ss) * 4 + int i * (ss * 4)) ((x + y * ds) * 4 + int i * (ds * 4)) (w * 4)) d"
    using False by (simp only: copyArea_def short Let_def if_False)
  also have "\<dots> = for_upto (nat h)
      (\<lambda>i. memcpy (Some s) ((sx + (int i + sy) * ss) * 4) ((x + (int i + y) * ds) * 4) (w * 4)) d"
    by (rule for_upto_cong) (simp add: algebra_simps)
  finally show ?thesis using copy_rows [OF assms(1,2)] by simp
qed

theorem copy_area_exact_witness:
  "\<exists>d'. copyArea 1 0 0 1 1 1 2 2 (Some [1, 2, 3, 4, 5, 6, 7, 8]) (replicate 16 0) = Some d' \<and> length d' = 16 \<and>
    pixel 2 0 1 d' = [5, 6, 7, 8]"
proof -
  have f: "fits_grid 2 [1, 2, 3, 4, 5, 6, 7, 8 :: byte] 1 0 1 1" "fits_grid 2 (replicate 16 (0 :: byte)) 0 1 1 1"
    by (simp_all add: fits_grid_def)
  have g: "on_grid 2 (replicate 16 0) 0 1" by (simp add: on_grid_def)
  have p: "pixel 2 1 0 [1, 2, 3, 4, 5, 6, 7, 8] = [5, 6, 7, 8]" by (simp add: pixel_def numeral_eq_Suc)
  from copy_area_exact [OF f] show ?thesis using g p by (auto simp: inside_def)
qed

text \<open>Rows of 8192 pixels and more: the byte count of a row is negative as a \<open>jshort\<close>.\<close>

lemma copy_area_wide:
  assumes "8192 \<le> w" "w < 16384" "0 < h" "ss \<noteq> w \<or> ds \<noteq> w"
  shows "copyArea sx sy x y w h ss ds (Some s) d = None"
proof -
  have "(w * 4 + 32768) mod 65536 = w * 4 + 32768 - 65536"
    using mod_add_self2 [of "w * 4 - 32768" 65536] assms(1,2) by (simp add: mod_pos_pos_trivial add.commute)
  then have "short (w * 4) = w * 4 - 65536" by (simp add: short_def)
  then have neg: "short (w * 4) < 0" using assms(2) by simp
  have "\<not> (w = ss \<and> w = ds)" using assms(4) by auto
  then have "copyArea sx sy x y w h ss ds (Some s) d = for_upto (nat h) (\<lambda>i.
      memcpy (Some s) ((sx + sy * ss) * 4 + int i * short (ss * 4)) ((x + y * ds) * 4 + int i * short (ds * 4)) (short (w * 4))) d"
    by (simp only: copyArea_def Let_def if_False)
  also have "\<dots> = None" using neg assms(3) by (intro for_upto_None [of 0]) (simp_all add: memcpy_def buf_read_def)
  finally show ?thesis .
qed

section \<open>Copying with a raster operation\<close>

definition color_of :: "byte list \<Rightarrow> u32" where
  "color_of p = push_bit 16 (ucast (p ! 0)) OR push_bit 8 (ucast (p ! 1)) OR ucast (p ! 2)"

lemma bit_color_bytes:
  assumes "k < 24"
  shows "bit (color_of (color_bytes c @ xs)) k = bit c k"
proof -
  have m: "(0xff :: u32) = mask 8" by (simp add: mask_eq_exp_minus_1)
  consider "k < 8" | "8 \<le> k" "k < 16" | "16 \<le> k" using assms by linarith
  then show ?thesis
    unfolding color_of_def color_bytes_def m
    by cases (use assms in \<open>auto simp: bit_simps\<close>)
qed

lemma pixel_bytes:
  assumes "on_grid stride d x y"
  shows "length (pixel stride x y d) = 4" "0 \<le> x + y * stride" "4 * nat (x + y * stride) + 4 \<le> length d"
proof -
  have a: "0 \<le> x" "x < stride" "0 \<le> y" "(y + 1) * stride * 4 \<le> int (length d)" using assms by (simp_all add: on_grid_def)
  show nn: "0 \<le> x + y * stride" using a by simp
  have "(x + y * stride + 1) * 4 \<le> (y + 1) * stride * 4" using a by (simp add: algebra_simps)
  then have "(x + y * stride + 1) * 4 \<le> int (length d)" using a(4) by (rule order_trans)
  then have "int (4 * nat (x + y * stride) + 4) \<le> int (length d)" using nn by simp
  then show le: "4 * nat (x + y * stride) + 4 \<le> length d" by (simp only: of_nat_le_iff)
  show "length (pixel stride x y d) = 4" using le by (simp add: pixel_def)
qed

lemma get_color_pixel:
  assumes "on_grid stride d x y"
  shows "get_color ((x + y * stride) * 4) d = Some (color_of (pixel stride x y d))"
proof -
  note b = pixel_bytes [OF assms]
  define P where "P = nat (x + y * stride)"
  have n: "(x + y * stride) * 4 = int (4 * P)" using b(2) by (simp add: P_def)
  have "4 * P + 4 \<le> length d" using b(3) by (simp add: P_def)
  then have "buf_read ((x + y * stride) * 4) 3 d = Some (take 3 (drop (4 * P) d))"
    by (simp only: n buf_read_def) (simp add: nat_mult_distrib)
  moreover have "take 3 (drop (4 * P) d) ! i = pixel stride x y d ! i" if "i < 3" for i
    using that by (simp add: pixel_def P_def)
  ultimately show ?thesis by (simp add: get_color_def color_of_def)
qed

lemma write_color:
  assumes "on_grid stride d x y"
  shows "\<exists>d'. buf_write ((x + y * stride) * 4) (color_bytes c) d = Some d' \<and> length d' = length d \<and>
    (\<forall>a b. on_grid stride d a b \<longrightarrow> pixel stride a b d' =
      (if a = x \<and> b = y then color_bytes c @ [pixel stride x y d ! 3] else pixel stride a b d))"
proof -
  note b = pixel_bytes [OF assms]
  define P where "P = nat (x + y * stride)"
  have n: "nat ((x + y * stride) * 4) = 4 * P" using b(2) by (simp add: nat_mult_distrib P_def)
  let ?r = "color_bytes c @ [pixel stride x y d ! 3]"
  have l: "length (color_bytes c) = 3" by (simp add: color_bytes_def)
  have "pixel stride x y d ! 3 = d ! (4 * P + 3)" using b(3) by (simp add: pixel_def P_def)
  moreover have "drop (4 * P + 3) d = d ! (4 * P + 3) # drop (4 * P + 4) d"
  proof -
    have "Suc (4 * P + 3) = 4 * P + 4" by simp
    then show ?thesis using Cons_nth_drop_Suc [of "4 * P + 3" d] b(3) by (simp add: P_def add.commute)
  qed
  ultimately have "splice (4 * P) (color_bytes c) d = splice (4 * P) ?r d" using l by (simp add: splice_def)
  then have eq: "buf_write ((x + y * stride) * 4) (color_bytes c) d = buf_write ((x + y * stride) * 4) ?r d"
    using b(2,3) l n by (simp add: buf_write_def mem_write_def P_def)
  obtain d' where "buf_write ((x + y * stride) * 4) ?r d = Some d'" "length d' = length d"
    "\<And>a b. on_grid stride d a b \<Longrightarrow> pixel stride a b d' =
       (if b = y \<and> x \<le> a \<and> a < x + 1 then take 4 (drop (4 * nat (a - x)) ?r) else pixel stride a b d)"
    using write_row [of x y 1 stride d ?r] assms l by (auto simp: on_grid_def)
  then show ?thesis unfolding eq using l by (intro exI [of _ d']) auto
qed

text \<open>The operation on one pixel: the color channels are combined, the fourth byte stays.\<close>

definition combined :: "GCFunction \<Rightarrow> byte list \<Rightarrow> byte list \<Rightarrow> byte list" where
  "combined f p q = color_bytes (setPixelOp (color_of p) (color_of q) f) @ [q ! 3]"

lemma combined_bits:
  "combined f p q ! 3 = q ! 3"
  "k < 24 \<Longrightarrow> bit (color_of (combined f p q)) k = gx_bit f (bit (color_of p) k) (bit (color_of q) k)"
  by (simp_all add: combined_def bit_color_bytes raster_operation) (simp add: color_bytes_def)

lemma for_upto_pixels:
  assumes "fits_grid stride d x y w h"
    and step: "\<And>i j t. i < nat h \<Longrightarrow> j < nat w \<Longrightarrow> length t = length d \<Longrightarrow>
      \<exists>t'. f i j t = Some t' \<and> length t' = length d \<and>
        (\<forall>a b. on_grid stride d a b \<longrightarrow> pixel stride a b t' =
          (if a = x + int j \<and> b = y + int i then g i j (pixel stride a b t) else pixel stride a b t))"
  shows "\<exists>d'. for_upto (nat h) (\<lambda>i. for_upto (nat w) (f i)) d = Some d' \<and> length d' = length d \<and>
    (\<forall>a b. on_grid stride d a b \<longrightarrow> pixel stride a b d' =
      (if inside x y w h a b then g (nat (b - y)) (nat (a - x)) (pixel stride a b d) else pixel stride a b d))"
proof -
  let ?done = "\<lambda>n m a b. inside x y w (int n) a b \<or> x \<le> a \<and> a < x + int m \<and> b = y + int n"
  let ?P = "\<lambda>n m t. length t = length d \<and> (\<forall>a b. on_grid stride d a b \<longrightarrow> pixel stride a b t =
      (if ?done n m a b then g (nat (b - y)) (nat (a - x)) (pixel stride a b d) else pixel stride a b d))"
  have g: "0 \<le> x" "0 \<le> y" "0 \<le> w" "0 \<le> h" using assms(1) by (simp_all add: fits_grid_def)
  have "\<exists>t. for_upto (nat h) (\<lambda>i. for_upto (nat w) (f i)) d = Some t \<and> ?P (nat h) 0 t"
  proof (rule for_upto_inv)
    show "?P 0 0 d" by (auto simp: inside_def)
    fix i t assume i: "i < nat h" and P: "?P i 0 t"
    have "\<exists>t'. for_upto (nat w) (f i) t = Some t' \<and> ?P i (nat w) t'"
    proof (rule for_upto_inv)
      show "?P i 0 t" by (rule P)
      fix j u assume j: "j < nat w" and Pu: "?P i j u"
      then obtain u' where u': "f i j u = Some u'" "length u' = length d"
        "\<forall>a b. on_grid stride d a b \<longrightarrow> pixel stride a b u' =
          (if a = x + int j \<and> b = y + int i then g i j (pixel stride a b u) else pixel stride a b u)"
        using step [OF i j] by blast
      have "?P i (Suc j) u'"
      proof (intro conjI allI impI)
        show "length u' = length d" by (rule u'(2))
        fix a b assume ab: "on_grid stride d a b"
        show "pixel stride a b u' = (if ?done i (Suc j) a b then g (nat (b - y)) (nat (a - x)) (pixel stride a b d)
            else pixel stride a b d)"
        proof (cases "a = x + int j \<and> b = y + int i")
          case True
          then have "\<not> ?done i j a b" "?done i (Suc j) a b" by (auto simp: inside_def)
          then show ?thesis using True u'(3) Pu ab by simp
        next
          case False
          then have "?done i (Suc j) a b = ?done i j a b" by auto
          moreover have "pixel stride a b u' = pixel stride a b u"
            using u'(3) ab unfolding if_not_P [OF False] by (metis (no_types, lifting) False)
          ultimately show ?thesis using Pu ab by presburger
        qed
      qed
      then show "\<exists>t'. f i j u = Some t' \<and> ?P i (Suc j) t'" using u'(1) by blast
    qed
    then obtain t' where t': "for_upto (nat w) (f i) t = Some t'" "?P i (nat w) t'" by blast
    moreover have "?done i (nat w) a b = ?done (Suc i) 0 a b" for a b using g(3) by (auto simp: inside_def)
    ultimately show "\<exists>t'. for_upto (nat w) (f i) t = Some t' \<and> ?P (Suc i) 0 t'" by (intro exI [of _ t']) simp
  qed
  moreover have "?done (nat h) 0 a b = inside x y w h a b" for a b using g(4) by (auto simp: inside_def)
  ultimately show ?thesis by simp
qed

lemma inside_on_grid:
  assumes "fits_grid stride d x y w h" "inside x y w h a b"
  shows "on_grid stride d a b"
proof -
  have g: "0 \<le> x" "0 \<le> y" "x + w \<le> stride" "(y + h) * stride * 4 \<le> int (length d)" "b + 1 \<le> y + h"
    using assms by (auto simp: fits_grid_def inside_def)
  have "(b + 1) * stride \<le> (y + h) * stride"
    using g assms by (intro mult_right_mono) (auto simp: fits_grid_def)
  then have "(b + 1) * stride * 4 \<le> (y + h) * stride * 4" by simp
  then have "(b + 1) * stride * 4 \<le> int (length d)" using g(4) by (rule order_trans)
  then show ?thesis using g assms(2) by (simp add: on_grid_def inside_def)
qed

lemma copy_op_pixels:
  assumes "fits_grid ss s sx sy w h" "fits_grid ds d x y w h"
  shows "\<exists>d'. copyAreaOp sx sy x y w h ss ds (Some s) d f = Some d' \<and> length d' = length d \<and>
    (\<forall>a b. on_grid ds d a b \<longrightarrow> pixel ds a b d' =
      (if inside x y w h a b then combined f (pixel ss (a - x + sx) (b - y + sy) s) (pixel ds a b d) else pixel ds a b d))"
proof -
  let ?F = "\<lambda>i j d. do {
       srcColor \<leftarrow> get_color ((int j + sx + (int i + sy) * ss) * 4) s;
       dstColor \<leftarrow> get_color ((int j + x + (int i + y) * ds) * 4) d;
       buf_write ((int j + x + (int i + y) * ds) * 4) (color_bytes (setPixelOp srcColor dstColor f)) d }"
  let ?g = "\<lambda>i j. combined f (pixel ss (int j + sx) (int i + sy) s)"
  have eq: "copyAreaOp sx sy x y w h ss ds (Some s) d f = for_upto (nat h) (\<lambda>i. for_upto (nat w) (?F i)) d"
    by (simp add: copyAreaOp_def Let_def)
  have step: "\<exists>t'. ?F i j t = Some t' \<and> length t' = length d \<and>
        (\<forall>a b. on_grid ds d a b \<longrightarrow> pixel ds a b t' =
          (if a = x + int j \<and> b = y + int i then ?g i j (pixel ds a b t) else pixel ds a b t))"
    if ij: "i < nat h" "j < nat w" and t: "length t = length d" for i j t
  proof -
    have "on_grid ss s (int j + sx) (int i + sy)"
      using ij by (intro inside_on_grid [OF assms(1)]) (auto simp: inside_def)
    note src = get_color_pixel [OF this]
    have "on_grid ds d (int j + x) (int i + y)"
      using ij by (intro inside_on_grid [OF assms(2)]) (auto simp: inside_def)
    then have grid: "on_grid ds t (int j + x) (int i + y)" using t by (simp add: on_grid_def)
    note dst = get_color_pixel [OF this]
    have same: "on_grid ds t = on_grid ds d" using t by (rule on_grid_length)
    let ?p = "pixel ss (int j + sx) (int i + sy) s" and ?q = "pixel ds (int j + x) (int i + y) t"
    obtain t' where t': "buf_write ((int j + x + (int i + y) * ds) * 4) (color_bytes (setPixelOp (color_of ?p) (color_of ?q) f)) t = Some t'"
      "length t' = length t" "\<forall>a b. on_grid ds t a b \<longrightarrow> pixel ds a b t' =
        (if a = int j + x \<and> b = int i + y then combined f ?p ?q else pixel ds a b t)"
      using write_color [OF grid] unfolding combined_def by blast
    have run: "?F i j t = Some t'" by (simp only: src dst bind.bind_lunit t'(1))
    have pix: "pixel ds a b t' = (if a = x + int j \<and> b = y + int i then ?g i j (pixel ds a b t) else pixel ds a b t)"
      if "on_grid ds d a b" for a b
    proof (cases "a = x + int j \<and> b = y + int i")
      case True
      then have "a = int j + x" "b = int i + y" by simp_all
      then show ?thesis using t'(3) that same True by metis
    next
      case False
      then have "\<not> (a = int j + x \<and> b = int i + y)" by auto
      then show ?thesis using t'(3) that same False by metis
    qed
    show ?thesis
    proof (intro exI conjI allI impI)
      show "?F i j t = Some t'" by (rule run)
      show "length t' = length d" using t'(2) t by simp
    qed (rule pix)
  qed
  obtain d' where "for_upto (nat h) (\<lambda>i. for_upto (nat w) (?F i)) d = Some d'" "length d' = length d"
    "\<forall>a b. on_grid ds d a b \<longrightarrow> pixel ds a b d' =
      (if inside x y w h a b then ?g (nat (b - y)) (nat (a - x)) (pixel ds a b d) else pixel ds a b d)"
    using for_upto_pixels [OF assms(2), of ?F ?g] step by blast
  then show ?thesis unfolding eq by (intro exI [of _ d']) (auto simp: inside_def)
qed

text \<open>
C37: A copy with a raster operation combines, within the area, every one of the 24 color bits of the
  target pixel with the bit of the source pixel by the truth table that the X protocol gives for the
  function's code (\<open>GXclear\<close> to \<open>GXset\<close>); the fourth byte of these pixels and all other pixels stay,
  and no byte outside of the buffers is touched.
\<close>
theorem copy_area_op_exact:
  assumes "fits_grid ss s sx sy w h" "fits_grid ds d x y w h"
  shows "\<exists>d'. copyAreaOp sx sy x y w h ss ds (Some s) d f = Some d' \<and> length d' = length d \<and>
    (\<forall>a b. on_grid ds d a b \<and> \<not> inside x y w h a b \<longrightarrow> pixel ds a b d' = pixel ds a b d) \<and>
    (\<forall>a b k. inside x y w h a b \<longrightarrow> pixel ds a b d' ! 3 = pixel ds a b d ! 3 \<and>
      (k < 24 \<longrightarrow> bit (color_of (pixel ds a b d')) k =
        gx_bit f (bit (color_of (pixel ss (a - x + sx) (b - y + sy) s)) k) (bit (color_of (pixel ds a b d)) k)))"
proof -
  obtain d' where d': "copyAreaOp sx sy x y w h ss ds (Some s) d f = Some d'" "length d' = length d"
    "\<forall>a b. on_grid ds d a b \<longrightarrow> pixel ds a b d' =
      (if inside x y w h a b then combined f (pixel ss (a - x + sx) (b - y + sy) s) (pixel ds a b d) else pixel ds a b d)"
    using copy_op_pixels [OF assms] by blast
  have "pixel ds a b d' = combined f (pixel ss (a - x + sx) (b - y + sy) s) (pixel ds a b d)" if "inside x y w h a b" for a b
    using d'(3) that inside_on_grid [OF assms(2) that] by simp
  then show ?thesis using d'
    by (intro exI [of _ d']) (simp add: combined_bits)
qed

theorem copy_area_op_exact_witness:
  "\<exists>d'. copyAreaOp 0 0 1 0 1 1 1 2 (Some [1, 2, 3, 9]) [0, 0, 0, 0, 4, 6, 3, 7] GCF_XOR = Some d' \<and>
    pixel 2 1 0 d' ! 3 = 7 \<and> pixel 2 0 0 d' = [0, 0, 0, 0] \<and> bit (color_of (pixel 2 1 0 d')) 16"
proof -
  have f: "fits_grid 1 [1, 2, 3, 9 :: byte] 0 0 1 1" "fits_grid 2 [0, 0, 0, 0, 4, 6, 3, 7 :: byte] 1 0 1 1"
    by (simp_all add: fits_grid_def)
  have g: "on_grid 2 [0, 0, 0, 0, 4, 6, 3, 7] 0 0" "\<not> inside 1 0 1 1 0 0" "inside 1 0 1 1 1 0"
    by (simp_all add: on_grid_def inside_def)
  have p: "pixel 2 1 0 [0, 0, 0, 0, 4, 6, 3, 7] = [4, 6, 3, 7]" "pixel 2 0 0 [0, 0, 0, 0, 4, 6, 3, 7] = [0, 0, 0, 0]"
    "pixel 1 0 0 [1, 2, 3, 9] = [1, 2, 3, 9]"
    by (simp_all add: pixel_def numeral_eq_Suc)
  have b: "bit (color_of [1, 2, 3, 9]) 16" "\<not> bit (color_of [4, 6, 3, 7]) 16" "gx_bit GCF_XOR True False"
    by code_simp+
  obtain d' where d: "copyAreaOp 0 0 1 0 1 1 1 2 (Some [1, 2, 3, 9]) [0, 0, 0, 0, 4, 6, 3, 7] GCF_XOR = Some d'"
    "\<forall>a b. on_grid 2 [0, 0, 0, 0, 4, 6, 3, 7] a b \<and> \<not> inside 1 0 1 1 a b \<longrightarrow>
      pixel 2 a b d' = pixel 2 a b [0, 0, 0, 0, 4, 6, 3, 7]"
    "\<forall>a b k. inside 1 0 1 1 a b \<longrightarrow> pixel 2 a b d' ! 3 = pixel 2 a b [0, 0, 0, 0, 4, 6, 3, 7] ! 3 \<and>
      (k < 24 \<longrightarrow> bit (color_of (pixel 2 a b d')) k = gx_bit GCF_XOR (bit (color_of (pixel 1 (a - 1 + 0) (b - 0 + 0) [1, 2, 3, 9])) k)
        (bit (color_of (pixel 2 a b [0, 0, 0, 0, 4, 6, 3, 7])) k))"
    using copy_area_op_exact [OF f, of GCF_XOR] by blast
  show ?thesis using d(1) d(2) [rule_format, of 0 0] d(3) [rule_format, of 1 0 16] g p b
    by (intro exI [of _ d']) simp
qed

section \<open>The path of a line\<close>

text \<open>
  After \<open>i\<close> steps along one axis and \<open>j\<close> along the other the error term is \<open>(1 + j) X - (1 + i) Y\<close>, for
  the distances \<open>X\<close> and \<open>Y\<close>. The pen never leaves the ideal line by more than half a pixel.
\<close>

definition near :: "int \<Rightarrow> int \<Rightarrow> int \<Rightarrow> int \<Rightarrow> bool" where
  "near X Y i j \<longleftrightarrow> 2 * \<bar>i * Y - j * X\<bar> \<le> max X Y"

lemma two_abs: "2 * \<bar>u :: int\<bar> \<le> m \<longleftrightarrow> 2 * u \<le> m \<and> - m \<le> 2 * u"
  by linarith

lemma line_step:
  fixes X Y i j :: int
  assumes "0 \<le> i" "i \<le> X" "0 \<le> j" "j \<le> Y" "\<not> (i = X \<and> j = Y)" "near X Y i j"
    and "e = (1 + j) * X - (1 + i) * Y" "h \<longleftrightarrow> - Y \<le> e * 2" "v \<longleftrightarrow> e * 2 \<le> X"
  shows "h \<or> v" "h \<Longrightarrow> i < X" "v \<Longrightarrow> j < Y" "Y \<le> X \<Longrightarrow> h" "X \<le> Y \<Longrightarrow> v"
    "near X Y (if h then i + 1 else i) (if v then j + 1 else j)"
proof -
  define z where "z = i * Y - j * X"
  have e: "e = X - Y - z" using assms(7) by (simp add: z_def algebra_simps)
  have n: "2 * \<bar>z\<bar> \<le> max X Y" using assms(6) by (simp add: near_def z_def)
  have h: "h \<longleftrightarrow> 2 * z \<le> 2 * X - Y" and v: "v \<longleftrightarrow> X - 2 * Y \<le> 2 * z" using assms(8,9) by (auto simp: e)
  show "h \<or> v" using assms(1-4) unfolding h v by linarith
  show "h \<Longrightarrow> i < X"
  proof (rule ccontr)
    assume "h" "\<not> i < X"
    then have "i = X" "j < Y" using assms(2,4,5) by auto
    then have "X * 1 \<le> X * (Y - j)" using assms(1) by (intro mult_left_mono) auto
    then have "X \<le> z" using \<open>i = X\<close> by (simp add: z_def algebra_simps)
    then show False using \<open>h\<close> assms(3) \<open>j < Y\<close> unfolding h by linarith
  qed
  show "v \<Longrightarrow> j < Y"
  proof (rule ccontr)
    assume "v" "\<not> j < Y"
    then have "j = Y" "i < X" using assms(2,4,5) by auto
    then have "Y * 1 \<le> Y * (X - i)" using assms(3) by (intro mult_left_mono) auto
    then have "Y \<le> - z" using \<open>j = Y\<close> by (simp add: z_def algebra_simps)
    then show False using \<open>v\<close> assms(1) \<open>i < X\<close> unfolding v by linarith
  qed
  show "h" if "Y \<le> X"
  proof -
    have "2 * \<bar>z\<bar> \<le> X" using n that by simp
    then show "h" unfolding h using that by linarith
  qed
  show "v" if "X \<le> Y"
  proof -
    have "2 * \<bar>z\<bar> \<le> Y" using n that by simp
    then show "v" unfolding v using that by linarith
  qed
  have step: "(if h then i + 1 else i) * Y - (if v then j + 1 else j) * X = z + (if h then Y else 0) - (if v then X else 0)"
    by (simp add: z_def algebra_simps)
  show "near X Y (if h then i + 1 else i) (if v then j + 1 else j)"
  proof (cases "Y \<le> X")
    case True
    then have "2 * \<bar>z\<bar> \<le> X" "max X Y = X" using n by simp_all
    then have "2 * \<bar>z + (if h then Y else 0) - (if v then X else 0)\<bar> \<le> max X Y"
      using True assms(1-4) unfolding h v by (auto simp: two_abs)
    then show ?thesis unfolding near_def step .
  next
    case False
    then have "2 * \<bar>z\<bar> \<le> Y" "max X Y = Y" using n by simp_all
    then have "2 * \<bar>z + (if h then Y else 0) - (if v then X else 0)\<bar> \<le> max X Y"
      using False assms(1-4) unfolding h v by (auto simp: two_abs)
    then show ?thesis unfolding near_def step .
  qed
qed

fun trace :: "(int \<Rightarrow> int \<Rightarrow> byte list \<Rightarrow> byte list option) \<Rightarrow> (int \<times> int) list \<Rightarrow> byte list \<Rightarrow> byte list option" where
  "trace pen [] d = Some d"
| "trace pen ((x, y) # ps) d = do { d \<leftarrow> pen x y d; trace pen ps d }"

definition adjacent :: "int \<times> int \<Rightarrow> int \<times> int \<Rightarrow> bool" where
  "adjacent p q \<longleftrightarrow> p \<noteq> q \<and> \<bar>fst p - fst q\<bar> \<le> 1 \<and> \<bar>snd p - snd q\<bar> \<le> 1"

lemma line_loop_trace:
  fixes x0 y0 x1 y1 :: int
  defines "X \<equiv> \<bar>x1 - x0\<bar>" and "Y \<equiv> \<bar>y1 - y0\<bar>"
  defines "sx \<equiv> if x0 < x1 then 1 else - 1" and "sy \<equiv> if y0 < y1 then 1 else - 1"
  assumes "- 32768 \<le> x0" "x0 < 32768" "- 32768 \<le> y0" "y0 < 32768"
    and "- 32768 \<le> x1" "x1 < 32768" "- 32768 \<le> y1" "y1 < 32768"
    and "0 \<le> i" "i \<le> X" "0 \<le> j" "j \<le> Y" "near X Y i j"
  shows "\<exists>ps. (\<forall>pen d. line_loop pen X (- Y) sx sy x1 y1 (x0 + i * sx) (y0 + j * sy) ((1 + j) * X - (1 + i) * Y) d = trace pen ps d) \<and>
    ps \<noteq> [] \<and> hd ps = (x0 + i * sx, y0 + j * sy) \<and> last ps = (x1, y1) \<and> successively adjacent ps \<and>
    int (length ps) = max X Y - (if Y \<le> X then i else j) + 1 \<and>
    (\<forall>(x, y) \<in> set ps. \<exists>i j. 0 \<le> i \<and> i \<le> X \<and> 0 \<le> j \<and> j \<le> Y \<and> near X Y i j \<and> x = x0 + i * sx \<and> y = y0 + j * sy)"
  using assms(13-17)
proof (induction "nat (X + Y - i - j)" arbitrary: i j rule: less_induct)
  case less
  let ?x = "x0 + i * sx" and ?y = "y0 + j * sy" and ?e = "(1 + j) * X - (1 + i) * Y"
  have ends: "?x = x1 \<longleftrightarrow> i = X" "?y = y1 \<longleftrightarrow> j = Y" by (auto simp: X_def Y_def sx_def sy_def abs_if)
  show ?case
  proof (cases "i = X \<and> j = Y")
    case True
    then have "line_loop pen X (- Y) sx sy x1 y1 ?x ?y ?e d = trace pen [(?x, ?y)] d" for pen d
      using ends by (subst line_loop.simps) (auto split: option.split)
    then show ?thesis using True ends less.prems
      by (intro exI [of _ "[(?x, ?y)]"]) (auto simp: max_def)
  next
    case False
    define h where "h \<longleftrightarrow> - Y \<le> ?e * 2"
    define v where "v \<longleftrightarrow> ?e * 2 \<le> X"
    note st = line_step [OF less.prems(1-4) False less.prems(5) refl h_def v_def]
    define i' where "i' = (if h then i + 1 else i)"
    define j' where "j' = (if v then j + 1 else j)"
    have range: "0 \<le> i'" "i' \<le> X" "0 \<le> j'" "j' \<le> Y" "near X Y i' j'"
      using st less.prems by (auto simp: i'_def j'_def)
    have x': "(if h then short (?x + sx) else ?x) = x0 + i' * sx"
      using st(2) less.prems(1) assms(5,6,9,10)
      by (auto simp: i'_def short_def sx_def X_def abs_if algebra_simps split: if_splits)
    have y': "(if v then short (?y + sy) else ?y) = y0 + j' * sy"
      using st(3) less.prems(3) assms(7,8,11,12)
      by (auto simp: j'_def short_def sy_def Y_def abs_if algebra_simps split: if_splits)
    have e': "?e + (if h then - Y else 0) + (if v then X else 0) = (1 + j') * X - (1 + i') * Y"
      by (simp add: i'_def j'_def algebra_simps)
    have less': "nat (X + Y - i' - j') < nat (X + Y - i - j)"
      using st(1-3) less.prems by (auto simp: i'_def j'_def)
    obtain ps where ps: "\<forall>pen d. line_loop pen X (- Y) sx sy x1 y1 (x0 + i' * sx) (y0 + j' * sy) ((1 + j') * X - (1 + i') * Y) d = trace pen ps d"
      "ps \<noteq> []" "hd ps = (x0 + i' * sx, y0 + j' * sy)" "last ps = (x1, y1)" "successively adjacent ps"
      "int (length ps) = max X Y - (if Y \<le> X then i' else j') + 1"
      "\<forall>(x, y) \<in> set ps. \<exists>i j. 0 \<le> i \<and> i \<le> X \<and> 0 \<le> j \<and> j \<le> Y \<and> near X Y i j \<and> x = x0 + i * sx \<and> y = y0 + j * sy"
      using less.hyps [OF less' range] by blast
    have "line_loop pen X (- Y) sx sy x1 y1 ?x ?y ?e d = trace pen ((?x, ?y) # ps) d" for pen d
    proof -
      have "\<not> (?x = x1 \<and> ?y = y1)" using False ends by simp
      then have "line_loop pen X (- Y) sx sy x1 y1 ?x ?y ?e d = (case pen ?x ?y d of
          None \<Rightarrow> None
        | Some d \<Rightarrow> line_loop pen X (- Y) sx sy x1 y1 (if h then short (?x + sx) else ?x) (if v then short (?y + sy) else ?y)
            (?e + (if h then - Y else 0) + (if v then X else 0)) d)"
        by (subst line_loop.simps) (simp only: Let_def h_def v_def if_False)
      also have "\<dots> = trace pen ((?x, ?y) # ps) d"
        unfolding x' y' e' ps(1) [rule_format] by (cases "pen ?x ?y d") simp_all
      finally show ?thesis .
    qed
    moreover have "adjacent (?x, ?y) (hd ps)"
      using st(1) by (auto simp: adjacent_def ps(3) i'_def j'_def sx_def sy_def)
    moreover have "int (length ((?x, ?y) # ps)) = max X Y - (if Y \<le> X then i else j) + 1"
      using ps(6) st(4,5) by (auto simp: i'_def j'_def)
    ultimately show ?thesis using ps less.prems
      by (intro exI [of _ "(?x, ?y) # ps"]) (auto simp: successively_Cons)
  qed
qed

lemma trace_painted:
  assumes "length c = 4" "\<And>x y. (x, y) \<in> set ps \<Longrightarrow> fits_grid stride d x y n n"
  shows "\<exists>d'. trace (plot (concat (replicate (nat n) c)) n stride) ps d = Some d' \<and>
    painted stride c (\<lambda>a b. \<exists>(x, y)\<in>set ps. inside x y n n a b) d d'"
  using assms(2)
proof (induction ps arbitrary: d)
  case (Cons p ps)
  obtain x y where p: "p = (x, y)" by fastforce
  have "fits_grid stride d x y n n" using Cons.prems p by simp
  from rectangle_painted [OF this assms(1)]
  obtain d1 where d1: "plot (concat (replicate (nat n) c)) n stride x y d = Some d1" "painted stride c (inside x y n n) d d1"
    unfolding plot_def by blast
  have len: "length d1 = length d" using d1(2) by (simp add: painted_def)
  then have "fits_grid stride d1 x y n n" if "(x, y) \<in> set ps" for x y
    using Cons.prems [of x y] that by (simp add: fits_grid_def)
  then obtain d' where d': "trace (plot (concat (replicate (nat n) c)) n stride) ps d1 = Some d'"
    "painted stride c (\<lambda>a b. \<exists>(x, y)\<in>set ps. inside x y n n a b) d1 d'"
    using Cons.IH by blast
  have "painted stride c (\<lambda>a b. \<exists>(x, y)\<in>set (p # ps). inside x y n n a b) d d'"
    unfolding painted_def
  proof (intro conjI allI impI)
    show "length d' = length d" using d'(2) len by (simp add: painted_def)
    fix a b assume ab: "on_grid stride d a b"
    then have "on_grid stride d1 a b" using len by (simp add: on_grid_def)
    then show "pixel stride a b d' = (if \<exists>(x, y)\<in>set (p # ps). inside x y n n a b then c else pixel stride a b d)"
      using d1(2) d'(2) ab p by (auto simp: painted_def)
  qed
  then show ?case using d1(1) d'(1) p by auto
qed (simp add: painted_def)

lemma between_fits:
  assumes "fits_grid stride d x0 y0 n n" "fits_grid stride d x1 y1 n n"
    and "min x0 x1 \<le> x" "x \<le> max x0 x1" "min y0 y1 \<le> y" "y \<le> max y0 y1"
  shows "fits_grid stride d x y n n"
proof -
  have "0 \<le> stride" using assms(1) by (simp add: fits_grid_def)
  then have "(y + n) * stride \<le> (max y0 y1 + n) * stride" using assms(6) by (intro mult_right_mono) auto
  then have "(y + n) * stride * 4 \<le> (max y0 y1 + n) * stride * 4" by simp
  also have "\<dots> \<le> int (length d)" using assms(1,2) by (auto simp: fits_grid_def max_def)
  finally show ?thesis using assms by (auto simp: fits_grid_def min_def max_def split: if_splits)
qed

text \<open>
C36: Drawing a line returns. It moves the pen from the first point to the last one, from pixel to
  neighboring pixel, over as many pixels as the longer distance has; every one lies within half a
  pixel of the ideal line along the other axis. Exactly the squares of the pen on this path get the
  color, and no byte outside of the buffer is touched when both ends fit.
\<close>
theorem line_accurate:
  assumes "fits_grid stride d x0 y0 n n" "fits_grid stride d x1 y1 n n" "n < 8192"
    and "x0 < 32768" "y0 < 32768" "x1 < 32768" "y1 < 32768"
  shows "\<exists>ps d'. drawLine x0 y0 x1 y1 color n stride d = Some d' \<and>
    ps \<noteq> [] \<and> hd ps = (x0, y0) \<and> last ps = (x1, y1) \<and> successively adjacent ps \<and>
    int (length ps) = max \<bar>x1 - x0\<bar> \<bar>y1 - y0\<bar> + 1 \<and>
    (\<forall>x y. (x, y) \<in> set ps \<longrightarrow> 2 * \<bar>(x - x0) * (y1 - y0) - (y - y0) * (x1 - x0)\<bar> \<le> max \<bar>x1 - x0\<bar> \<bar>y1 - y0\<bar>) \<and>
    length d' = length d \<and>
    (\<forall>a b. on_grid stride d a b \<longrightarrow> pixel stride a b d' =
      (if \<exists>(x, y)\<in>set ps. inside x y n n a b then unpackColor color else pixel stride a b d))"
proof -
  define X Y where "X = \<bar>x1 - x0\<bar>" "Y = \<bar>y1 - y0\<bar>"
  define sx sy :: int where "sx = (if x0 < x1 then 1 else - 1)" "sy = (if y0 < y1 then 1 else - 1)"
  have g: "0 \<le> x0" "0 \<le> y0" "0 \<le> x1" "0 \<le> y1" using assms(1,2) by (simp_all add: fits_grid_def)
  have ends: "x1 - x0 = X * sx" "y1 - y0 = Y * sy" by (simp_all add: X_Y_def sx_sy_def abs_if)
  have signs: "\<bar>sx\<bar> = 1" "\<bar>sy\<bar> = 1" by (simp_all add: sx_sy_def)
  obtain ps where ps: "\<And>pen d. line_loop pen X (- Y) sx sy x1 y1 x0 y0 (X - Y) d = trace pen ps d"
    "ps \<noteq> []" "hd ps = (x0, y0)" "last ps = (x1, y1)" "successively adjacent ps" "int (length ps) = max X Y + 1"
    "\<And>x y. (x, y) \<in> set ps \<Longrightarrow>
       \<exists>i j. 0 \<le> i \<and> i \<le> X \<and> 0 \<le> j \<and> j \<le> Y \<and> near X Y i j \<and> x = x0 + i * sx \<and> y = y0 + j * sy"
  proof -
    have "0 \<le> X" "0 \<le> Y" "near X Y 0 0" by (simp_all add: X_Y_def near_def)
    then show thesis
      using line_loop_trace [of x0 y0 x1 y1 0 0] g assms(4-7) that
      unfolding X_Y_def [symmetric] sx_sy_def [symmetric] by fastforce
  qed
  have fits: "fits_grid stride d x y n n" if mem: "(x, y) \<in> set ps" for x y
  proof -
    obtain i j where "0 \<le> i" "i \<le> X" "0 \<le> j" "j \<le> Y" "x = x0 + i * sx" "y = y0 + j * sy" using ps(7) [OF mem] by blast
    then show ?thesis by (intro between_fits [OF assms(1,2)]) (auto simp: X_Y_def sx_sy_def)
  qed
  have close: "2 * \<bar>(x - x0) * (y1 - y0) - (y - y0) * (x1 - x0)\<bar> \<le> max X Y" if mem: "(x, y) \<in> set ps" for x y
  proof -
    obtain i j where ij: "near X Y i j" "x = x0 + i * sx" "y = y0 + j * sy" using ps(7) [OF mem] by blast
    have "(x - x0) * (y1 - y0) - (y - y0) * (x1 - x0) = (sx * sy) * (i * Y - j * X)"
      by (simp add: ij ends algebra_simps)
    then show ?thesis using ij(1) signs by (simp add: near_def abs_mult)
  qed
  obtain d' where d': "trace (plot (concat (replicate (nat n) (unpackColor color))) n stride) ps d = Some d'"
    "painted stride (unpackColor color) (\<lambda>a b. \<exists>(x, y)\<in>set ps. inside x y n n a b) d d'"
    using trace_painted [OF length_unpackColor fits] by blast
  have "drawLine x0 y0 x1 y1 color n stride d = Some d'"
    using assms(3) d'(1) ps(1) unfolding drawLine_def X_Y_def [symmetric] sx_sy_def [symmetric] Let_def by simp
  then show ?thesis unfolding X_Y_def [symmetric]
    using ps(2-6) close d'(2) by (intro exI [of _ ps] exI [of _ d']) (auto simp: painted_def)
qed

theorem line_accurate_witness:
  "\<exists>(ps :: (int \<times> int) list) d'. drawLine 0 0 2 1 7 1 3 (replicate 24 0) = Some d' \<and> length ps = 3 \<and> last ps = (2, 1) \<and>
    pixel 3 2 1 d' = unpackColor 7"
proof -
  have f: "fits_grid 3 (replicate 24 (0 :: byte)) 0 0 1 1" "fits_grid 3 (replicate 24 (0 :: byte)) 2 1 1 1"
    by (simp_all add: fits_grid_def)
  have g: "on_grid 3 (replicate 24 0) 2 1" by (simp add: on_grid_def)
  obtain ps d' where p: "drawLine 0 0 2 1 7 1 3 (replicate 24 0) = Some d'" "ps \<noteq> []" "last ps = (2, 1)"
    "int (length ps) = 3" "\<forall>a b. on_grid 3 (replicate 24 0) a b \<longrightarrow> pixel 3 a b d' =
      (if \<exists>(x, y)\<in>set ps. inside x y 1 1 a b then unpackColor 7 else pixel 3 a b (replicate 24 0))"
    using line_accurate [OF f, of 7] by auto
  then have "(2, 1) \<in> set ps" by (metis last_in_set)
  then have "\<exists>(x, y)\<in>set ps. inside x y 1 1 2 1" by (intro bexI [of _ "(2, 1)"]) (simp_all add: inside_def)
  then show ?thesis using p g by auto
qed

section \<open>Where the code goes wrong\<close>

text \<open>A color is packed from the signs of its components alone; blue, if negative, sets every bit.\<close>

lemma packed_signs: "packColor 0x7f 0x7f 0x7f = 0" "packColor 0x80 0 0 = 0xff0000" "packColor 0 0 0x80 = 0xffffffff"
  by (code_simp, code_simp, code_simp)

text \<open>The last bytes are copied in groups of four.\<close>

lemma from_bitmap_overflows:
  assumes "length pixels = width * height * 4" "length d = width * height * 4" "0 < width" "0 < height"
  shows "fromBitmap width height pixels d = None"
proof -
  obtain m where m: "width * height * 4 = m + 4" using assms(3,4)
    by (metis One_nat_def Suc_leI add.commute le_add_diff_inverse mult_le_mono1 nat_0_less_mult_iff nat_mult_1)
  have "\<exists>t. for_upto (Suc m) (\<lambda>i d. do { bs \<leftarrow> mem_read i 4 pixels; mem_write i bs d }) d = Some t \<and> length t = m + 4"
    using assms m by (intro for_upto_inv [where P = "\<lambda>_ t. length t = m + 4"]) (auto simp: mem_ok)
  then show ?thesis using assms m
    by (auto simp: fromBitmap_def intro!: for_upto_None [of "Suc m"] simp: mem_read_def)
qed

end
