(* ===== verification/ThreadPool.thy ===== *)
theory ThreadPool
  imports ListMset
begin

text \<open>
  The thread pool of the renderers, \<open>winlator/include/thread_pool.h\<close>: worker threads, a queue of
  tasks under one mutex, counters under another, a condition variable for each.

  A critical section is one step. \<open>pthread_cond_wait\<close> leaves it asleep, \<open>pthread_cond_signal\<close> wakes one
  sleeper (whichever), \<open>pthread_cond_broadcast\<close> all of them, and a sleeper may also wake up unasked, as
  POSIX has it. Tasks come from any thread; one client waits for the pool and destroys it.
\<close>

section \<open>State\<close>

text \<open>The linked list of tasks from \<open>firstTask\<close> to \<open>lastTask\<close> is a list.\<close>

record 't pool =
  numThreads :: byte
  numThreadsWorking :: byte
  running :: bool
  tasks :: "'t list"

text \<open>
  Where a worker is: before the test of \<open>running\<close>, before the lock, asleep, with the task that it was
  given, behind the task, behind the loop, ended. Where the client is: outside, before the test of
  \<open>ThreadPool_wait\<close>, asleep in it; \<open>Freed\<close> when the pool is gone.
\<close>

datatype 't worker = Outer | Inside | Asleep | Took "'t option" | Finished | Exiting | Gone

datatype client = Outside | Testing | Sleeping | Freed

record 't sys =
  pool :: "'t pool"
  workers :: "'t worker list"
  client :: client
  destroying :: bool
  submitted :: "'t multiset"
  completed :: "'t multiset"
  dropped :: "'t multiset"

section \<open>Operations on the pool\<close>

fun ThreadPool_getTask :: "'t pool \<Rightarrow> 't option \<times> 't pool" where
  "ThreadPool_getTask p = (case tasks p of
      [] \<Rightarrow> (None, p)
    | [t] \<Rightarrow> (Some t, p\<lparr>tasks := []\<rparr>)
    | t # ts \<Rightarrow> (Some t, p\<lparr>tasks := ts\<rparr>))"

text \<open>\<open>uint8_t numThreads\<close> keeps the lower byte of the number of threads that are created.\<close>

definition ThreadPool_init :: "nat \<Rightarrow> 't pool" where
  "ThreadPool_init n = \<lparr>numThreads = of_nat n, numThreadsWorking = 0, running = True, tasks = []\<rparr>"

definition ThreadPool_run :: "'t \<Rightarrow> 't pool \<Rightarrow> 't pool" where
  "ThreadPool_run t p = p\<lparr>tasks := tasks p @ [t]\<rparr>"

definition wait_condition :: "'t pool \<Rightarrow> bool" where
  "wait_condition p \<longleftrightarrow> (\<not> running p \<and> 0 < numThreads p) \<or> tasks p \<noteq> [] \<or> 0 < numThreadsWorking p"

definition ThreadPool_stop :: "'t pool \<Rightarrow> 't pool" where
  "ThreadPool_stop p = p\<lparr>tasks := [], running := False\<rparr>"

text \<open>The locked sections of a worker: taking a task, being done with it, ending.\<close>

definition worker_take :: "'t pool \<Rightarrow> 't option \<times> 't pool" where
  "worker_take p = ThreadPool_getTask (p\<lparr>numThreadsWorking := numThreadsWorking p + 1\<rparr>)"

definition worker_done :: "'t pool \<Rightarrow> bool \<times> 't pool" where
  "worker_done p = (let n = numThreadsWorking p - 1 in (n = 0, p\<lparr>numThreadsWorking := n\<rparr>))"

definition worker_leave :: "'t pool \<Rightarrow> 't pool" where
  "worker_leave p = p\<lparr>numThreads := numThreads p - 1\<rparr>"

section \<open>Steps\<close>

text \<open>\<open>threadIdleCond\<close> has at most the client as a sleeper; the workers sleep on \<open>taskCond\<close>.\<close>

definition wake_client :: "bool \<Rightarrow> client \<Rightarrow> client" where
  "wake_client signal c = (if signal \<and> c = Sleeping then Testing else c)"

inductive signal_workers :: "'t worker list \<Rightarrow> 't worker list \<Rightarrow> bool" where
  nobody: "Asleep \<notin> set ws \<Longrightarrow> signal_workers ws ws"
| one: "\<lbrakk>i < length ws; ws ! i = Asleep\<rbrakk> \<Longrightarrow> signal_workers ws (ws[i := Inside])"

definition all_awake :: "'t worker list \<Rightarrow> 't worker list" where
  "all_awake ws = map (\<lambda>w. if w = Asleep then Inside else w) ws"

text \<open>The step of worker \<open>i\<close>.\<close>

definition worker_step :: "'t worker \<Rightarrow> 't sys \<Rightarrow> 't worker \<times> 't sys" where
  "worker_step w s = (let p = pool s in case w of
      Outer \<Rightarrow> (if running p then Inside else Exiting, s)
    | Inside \<Rightarrow>
        if tasks p = [] \<and> running p then (Asleep, s)
        else (case worker_take p of (t, p') \<Rightarrow> (Took t, s\<lparr>pool := p'\<rparr>))
    | Took t \<Rightarrow> (Finished, s\<lparr>completed := completed s + (case t of None \<Rightarrow> {#} | Some t \<Rightarrow> {#t#})\<rparr>)
    | Finished \<Rightarrow> (case worker_done p of (idle, p') \<Rightarrow>
        (Outer, s\<lparr>pool := p', client := wake_client idle (client s)\<rparr>))
    | Exiting \<Rightarrow> (Gone, s\<lparr>pool := worker_leave p, client := wake_client True (client s)\<rparr>)
    | Asleep \<Rightarrow> (Asleep, s)
    | Gone \<Rightarrow> (Gone, s))"

text \<open>
  \<open>internal\<close>: what happens without new tasks and without unasked wake-ups, while the client is in
  \<open>ThreadPool_wait\<close>. Returning from the wait in \<open>ThreadPool_destroy\<close> frees the pool.
\<close>

inductive internal :: "'t sys \<Rightarrow> 't sys \<Rightarrow> bool" where
  work: "\<lbrakk>i < length (workers s); workers s ! i \<notin> {Asleep, Gone}; worker_step (workers s ! i) s = (w, s')\<rbrakk> \<Longrightarrow>
    internal s (s'\<lparr>workers := (workers s)[i := w]\<rparr>)"
| sleep: "\<lbrakk>client s = Testing; wait_condition (pool s)\<rbrakk> \<Longrightarrow> internal s (s\<lparr>client := Sleeping\<rparr>)"
| return: "\<lbrakk>client s = Testing; \<not> wait_condition (pool s)\<rbrakk> \<Longrightarrow>
    internal s (s\<lparr>client := if destroying s then Freed else Outside\<rparr>)"

inductive pool_step :: "'t sys \<Rightarrow> 't sys \<Rightarrow> bool" where
  inner: "internal s s' \<Longrightarrow> pool_step s s'"
| run: "\<lbrakk>running (pool s); signal_workers (workers s) ws\<rbrakk> \<Longrightarrow>
    pool_step s (s\<lparr>pool := ThreadPool_run t (pool s), workers := ws, submitted := add_mset t (submitted s)\<rparr>)"
| wait: "\<lbrakk>client s = Outside; \<not> destroying s\<rbrakk> \<Longrightarrow> pool_step s (s\<lparr>client := Testing\<rparr>)"
| destroy: "\<lbrakk>client s = Outside; \<not> destroying s\<rbrakk> \<Longrightarrow>
    pool_step s (s\<lparr>pool := ThreadPool_stop (pool s), workers := all_awake (workers s),
      dropped := dropped s + mset (tasks (pool s)), destroying := True, client := Testing\<rparr>)"
| spurious: "\<lbrakk>i < length (workers s); workers s ! i = Asleep\<rbrakk> \<Longrightarrow>
    pool_step s (s\<lparr>workers := (workers s)[i := Inside]\<rparr>)"
| spurious_client: "client s = Sleeping \<Longrightarrow> pool_step s (s\<lparr>client := Testing\<rparr>)"

definition new_pool :: "nat \<Rightarrow> 't sys" where
  "new_pool n = \<lparr>pool = ThreadPool_init n, workers = replicate n Outer, client = Outside, destroying = False,
     submitted = {#}, completed = {#}, dropped = {#}\<rparr>"

section \<open>The invariant\<close>

definition busy :: "'t worker \<Rightarrow> bool" where
  "busy w \<longleftrightarrow> (case w of Took _ \<Rightarrow> True | Finished \<Rightarrow> True | _ \<Rightarrow> False)"

definition held :: "'t worker \<Rightarrow> 't multiset" where
  "held w = (case w of Took (Some t) \<Rightarrow> {#t#} | _ \<Rightarrow> {#})"

lemma busy_simps [simp]:
  "busy (Took t)" "busy Finished" "\<not> busy Outer" "\<not> busy Inside" "\<not> busy Asleep" "\<not> busy Exiting" "\<not> busy Gone"
  by (simp_all add: busy_def)

lemma held_simps [simp]:
  "held (Took (Some t)) = {#t#}" "held (Took None) = {#}" "held Finished = {#}" "held Outer = {#}" "held Inside = {#}"
  "held Asleep = {#}" "held Exiting = {#}" "held Gone = {#}"
  by (simp_all add: held_def)

text \<open>What holds of the pool and the multiset \<open>W\<close> of its workers.\<close>

definition counted :: "'t pool \<Rightarrow> 't worker multiset \<Rightarrow> bool" where
  "counted p W \<longleftrightarrow> numThreadsWorking p = of_nat (size (filter_mset busy W)) \<and>
     numThreads p = of_nat (size (filter_mset (\<lambda>w. w \<noteq> Gone) W)) \<and>
     (running p \<longrightarrow> Exiting \<notin># W \<and> Gone \<notin># W) \<and>
     (\<not> running p \<longrightarrow> Asleep \<notin># W \<and> tasks p = []) \<and>
     (tasks p \<noteq> [] \<longrightarrow> (\<exists>w. w \<in># W \<and> w \<noteq> Asleep))"

definition pool_inv :: "nat \<Rightarrow> 't sys \<Rightarrow> bool" where
  "pool_inv n s \<longleftrightarrow> length (workers s) = n \<and> counted (pool s) (mset (workers s)) \<and>
     submitted s = completed s + dropped s + mset (tasks (pool s)) + (\<Sum>w\<in>#mset (workers s). held w) \<and>
     (running (pool s) \<longleftrightarrow> \<not> destroying s) \<and>
     (client s = Sleeping \<longrightarrow> wait_condition (pool s)) \<and>
     (client s = Outside \<longrightarrow> \<not> destroying s) \<and>
     (client s = Freed \<longrightarrow> destroying s \<and> set (workers s) \<subseteq> {Gone})"

lemma of_nat_byte: "k < 256 \<Longrightarrow> (of_nat k = (0 :: byte)) = (k = 0)"
  by (auto simp: word_of_nat_eq_0_iff dest: dvd_imp_le)

lemma getTask_simps [simp]:
  "ThreadPool_getTask p = (case tasks p of [] \<Rightarrow> (None, p) | t # ts \<Rightarrow> (Some t, p\<lparr>tasks := ts\<rparr>))"
  by (auto split: list.split)

declare ThreadPool_getTask.simps [simp del]

lemma wait_condition_iff:
  assumes "counted p W" "size W < 256"
  shows "wait_condition p \<longleftrightarrow> tasks p \<noteq> [] \<or> (\<exists>w. w \<in># W \<and> (busy w \<or> \<not> running p \<and> w \<noteq> Gone))"
proof -
  have "size (filter_mset busy W) < 256" "size (filter_mset (\<lambda>w. w \<noteq> Gone) W) < 256"
    using assms(2) size_filter_mset_lesseq le_less_trans by blast+
  note of_nat_byte [OF this(1)] of_nat_byte [OF this(2)]
  then have "0 < numThreadsWorking p \<longleftrightarrow> filter_mset busy W \<noteq> {#}" "0 < numThreads p \<longleftrightarrow> filter_mset (\<lambda>w. w \<noteq> Gone) W \<noteq> {#}"
    using assms(1) by (simp_all add: counted_def word_neq_0_conv [symmetric])
  then show ?thesis by (auto simp: wait_condition_def)
qed

text \<open>One worker leaves its place for \<open>v\<close>; the pool, the client and the finished tasks may change with it.\<close>

lemma pool_inv_move:
  assumes "pool_inv n s" "i < length (workers s)" "mset (workers s) = add_mset (workers s ! i) M"
    and "mset ((workers s)[i := v]) = add_mset v M" "counted q (add_mset v M)" "running q = running (pool s)"
    and "c = Sleeping \<longrightarrow> wait_condition q" "c \<noteq> Freed" "c = Outside \<longrightarrow> client s = Outside"
    and "k + held v + mset (tasks q) = completed s + held (workers s ! i) + mset (tasks (pool s))"
  shows "pool_inv n (s\<lparr>pool := q, client := c, completed := k, workers := (workers s)[i := v]\<rparr>)"
proof -
  let ?H = "sum_mset (image_mset held M)"
  have "submitted s = completed s + dropped s + mset (tasks (pool s)) + (held (workers s ! i) + ?H)"
    using assms(1,3) by (simp add: pool_inv_def)
  also have "\<dots> = dropped s + (completed s + held (workers s ! i) + mset (tasks (pool s))) + ?H" by (simp add: ac_simps)
  also have "\<dots> = dropped s + (k + held v + mset (tasks q)) + ?H" by (simp only: assms(10))
  also have "\<dots> = k + dropped s + mset (tasks q) + (held v + ?H)" by (simp add: ac_simps)
  finally show ?thesis using assms(1,4-9) by (simp add: pool_inv_def)
qed

lemma counted_move:
  assumes "counted p (add_mset w M)" "busy v = busy w" "v \<noteq> Gone" "w \<noteq> Gone" "v = Exiting \<longrightarrow> \<not> running p"
    "v = Asleep \<longrightarrow> running p \<and> tasks p = []"
  shows "counted p (add_mset v M)"
  using assms by (auto simp: counted_def)

lemma worker_step_inv:
  assumes inv: "pool_inv n s" and n: "n < 256"
    and i: "i < length (workers s)" "workers s ! i \<notin> {Asleep, Gone}" "worker_step (workers s ! i) s = (v, t)"
  shows "pool_inv n (t\<lparr>workers := (workers s)[i := v]\<rparr>)"
proof -
  obtain M where M: "mset (workers s) = add_mset (workers s ! i) M" "\<And>v. mset ((workers s)[i := v]) = add_mset v M"
    by (rule mset_at [OF i(1)]) blast
  note move = pool_inv_move [OF inv i(1) M(1) M(2)]
  have size: "size (add_mset v M) < 256" for v
    using inv n M(1) size_mset [of "workers s"] by (simp add: pool_inv_def)
  have old: "counted (pool s) (add_mset (workers s ! i) M)" using inv M(1) by (simp add: pool_inv_def)
  have awake: "client s \<noteq> Freed" using inv i(1,2) by (auto simp: pool_inv_def dest: nth_mem)
  have waked: "wake_client b (client s) \<noteq> Freed" "wake_client b (client s) = Outside \<longrightarrow> client s = Outside" for b
    using awake by (auto simp: wake_client_def)
  have stay: "client s = Sleeping \<longrightarrow> wait_condition (pool s)" using inv by (simp add: pool_inv_def)
  show ?thesis
  proof (cases "workers s ! i")
    case Outer
    have t: "v = (if running (pool s) then Inside else Exiting)" "t = s"
      using i(3) Outer by (simp_all add: worker_step_def Let_def split: if_splits)
    have "counted (pool s) (add_mset v M)" by (rule counted_move [OF old]) (auto simp: Outer t)
    from move [OF this refl stay awake, of "completed s"] show ?thesis by (simp add: t Outer)
  next
    case Inside
    show ?thesis
    proof (cases "tasks (pool s) = [] \<and> running (pool s)")
      case True
      have t: "v = Asleep" "t = s" using i(3) Inside True by (simp_all add: worker_step_def Let_def)
      have "counted (pool s) (add_mset v M)" by (rule counted_move [OF old]) (auto simp: Inside t True)
      from move [OF this refl stay awake, of "completed s"] show ?thesis by (simp add: t Inside)
    next
      case False
      let ?q = "(pool s)\<lparr>numThreadsWorking := numThreadsWorking (pool s) + 1, tasks := tl (tasks (pool s))\<rparr>"
      obtain u where u: "v = Took u" "t = s\<lparr>pool := ?q\<rparr>" "held (Took u) + mset (tl (tasks (pool s))) = mset (tasks (pool s))"
        using i(3) Inside False by (cases "tasks (pool s)") (auto simp: worker_step_def worker_take_def Let_def)
      have c: "counted ?q (add_mset (Took u) M)"
        using old Inside False by (cases "running (pool s)") (auto simp: counted_def)
      have "wait_condition ?q" unfolding wait_condition_iff [OF c size] by (intro disjI2 exI [of _ "Took u"]) simp
      with move [OF _ _ _ awake, of ?q "Took u" "completed s"] c show ?thesis
        by (simp add: u(1,2) Inside add.assoc u(3))
    qed
  next
    case (Took u)
    have t: "v = Finished" "t = s\<lparr>completed := completed s + held (Took u)\<rparr>"
      using i(3) Took by (auto simp: worker_step_def Let_def split: option.splits)
    have "counted (pool s) (add_mset v M)" by (rule counted_move [OF old]) (auto simp: Took t)
    from move [OF this refl stay awake, of "completed s + held (Took u)"]
    show ?thesis by (simp add: t Took)
  next
    case Finished
    let ?q = "(pool s)\<lparr>numThreadsWorking := numThreadsWorking (pool s) - 1\<rparr>"
    have t: "v = Outer" "t = s\<lparr>pool := ?q, client := wake_client (numThreadsWorking ?q = 0) (client s)\<rparr>"
      using i(3) Finished by (simp_all add: worker_step_def worker_done_def Let_def)
    have c: "counted ?q (add_mset v M)" using old Finished t(1) by (auto simp: counted_def)
    have sl: "client t = Sleeping \<longrightarrow> wait_condition ?q"
      by (auto simp: t wake_client_def wait_condition_def word_neq_0_conv [symmetric] split: if_splits)
    have "pool_inv n (s\<lparr>pool := ?q, client := client t, completed := completed s, workers := (workers s)[i := v]\<rparr>)"
      by (rule move [OF c _ sl]) (simp_all add: t Finished waked)
    then show ?thesis by (simp add: t)
  next
    case Exiting
    let ?q = "(pool s)\<lparr>numThreads := numThreads (pool s) - 1\<rparr>"
    have t: "v = Gone" "t = s\<lparr>pool := ?q, client := wake_client True (client s)\<rparr>"
      using i(3) Exiting by (simp_all add: worker_step_def worker_leave_def Let_def)
    have c: "counted ?q (add_mset v M)" using old Exiting t(1) by (auto simp: counted_def)
    have sl: "client t = Sleeping \<longrightarrow> wait_condition ?q" by (simp add: t wake_client_def)
    have "pool_inv n (s\<lparr>pool := ?q, client := client t, completed := completed s, workers := (workers s)[i := v]\<rparr>)"
      by (rule move [OF c _ sl]) (simp_all add: t Exiting waked)
    then show ?thesis by (simp add: t)
  qed (use i(2) in auto)
qed

lemma internal_inv:
  assumes "internal s t" "pool_inv n s" "n < 256"
  shows "pool_inv n t"
  using assms
proof (induction rule: internal.induct)
  case (work i s w t)
  show ?case by (rule worker_step_inv [OF work.prems work.hyps])
next
  case (sleep s)
  then show ?case by (simp add: pool_inv_def)
next
  case (return s)
  have "counted (pool s) (mset (workers s))" "size (mset (workers s)) < 256" using return.prems by (simp_all add: pool_inv_def)
  from wait_condition_iff [OF this] return.hyps(2)
  have "\<not> running (pool s) \<longrightarrow> set (workers s) \<subseteq> {Gone}" by auto
  then show ?case using return.prems by (auto simp: pool_inv_def)
qed

lemma counted_wake:
  assumes "counted p (add_mset Asleep M)"
  shows "counted p (add_mset Inside M)"
  using assms by (auto simp: counted_def)

lemma wait_condition_run: "wait_condition (ThreadPool_run t p)"
  by (simp add: wait_condition_def ThreadPool_run_def)

lemma pool_inv_wake:
  assumes "pool_inv n s" "i < length (workers s)" "workers s ! i = Asleep"
  shows "pool_inv n (s\<lparr>workers := (workers s)[i := Inside]\<rparr>)"
proof -
  obtain M where M: "mset (workers s) = add_mset (workers s ! i) M" "\<And>v. mset ((workers s)[i := v]) = add_mset v M"
    by (rule mset_at [OF assms(2)]) blast
  have "client s \<noteq> Freed" using assms by (auto simp: pool_inv_def dest: nth_mem)
  moreover have "counted (pool s) (add_mset Inside M)"
    using assms(1,3) M(1) by (intro counted_wake) (simp add: pool_inv_def)
  ultimately show ?thesis using assms(1,3) M by (simp add: pool_inv_def)
qed

lemma pool_inv_signal:
  assumes "pool_inv n s" "signal_workers (workers s) ws"
  shows "pool_inv n (s\<lparr>workers := ws\<rparr>)"
  using assms(2)
proof cases
  case (one i)
  then show ?thesis using pool_inv_wake [OF assms(1)] by simp
qed (use assms(1) in simp)

lemma awake_after_signal:
  assumes "signal_workers ws ws'" "ws \<noteq> []"
  shows "\<exists>w. w \<in> set ws' \<and> w \<noteq> Asleep"
  using assms(1)
proof cases
  case nobody
  then show ?thesis using assms(2) by (metis hd_in_set)
next
  case (one i)
  then show ?thesis by (metis set_update_memI worker.distinct)
qed

lemma pool_inv_run:
  assumes "pool_inv n s" "running (pool s)" "\<exists>w. w \<in> set (workers s) \<and> w \<noteq> Asleep"
  shows "pool_inv n (s\<lparr>pool := ThreadPool_run t (pool s), submitted := add_mset t (submitted s)\<rparr>)"
  using assms by (auto simp: pool_inv_def counted_def ThreadPool_run_def wait_condition_def)

lemma awake_all: "mset (all_awake ws) = image_mset (\<lambda>w. if w = Asleep then Inside else w) (mset ws)"
  by (simp add: all_awake_def)

lemma pool_inv_destroy:
  assumes "pool_inv n s" "client s = Outside" "\<not> destroying s"
  shows "pool_inv n (s\<lparr>pool := ThreadPool_stop (pool s), workers := all_awake (workers s),
      dropped := dropped s + mset (tasks (pool s)), destroying := True, client := Testing\<rparr>)"
proof -
  let ?f = "\<lambda>w. if w = Asleep then Inside else w"
  have b: "filter_mset busy (image_mset ?f W) = filter_mset busy W" for W :: "'a worker multiset"
    by (induction W) auto
  have g: "size (filter_mset (\<lambda>w. w \<noteq> Gone) (image_mset ?f W)) = size (filter_mset (\<lambda>w. w \<noteq> Gone) W)"
    for W :: "'a worker multiset" by (induction W) auto
  have h: "image_mset held (image_mset ?f W) = image_mset held W" for W :: "'a worker multiset"
    by (induction W) auto
  have "counted (ThreadPool_stop (pool s)) (mset (all_awake (workers s)))"
    using assms(1) unfolding awake_all by (auto simp: pool_inv_def counted_def ThreadPool_stop_def b g split: if_splits)
  then show ?thesis using assms h [of "mset (workers s)"]
    by (simp add: pool_inv_def ThreadPool_stop_def awake_all) (simp add: all_awake_def)
qed

lemma pool_step_inv:
  assumes "pool_step s t" "pool_inv n s" "0 < n" "n < 256"
  shows "pool_inv n t"
  using assms
proof (induction rule: pool_step.induct)
  case (inner s t)
  show ?case by (rule internal_inv [OF inner(1,2,4)])
next
  case (run s ws t)
  let ?s = "s\<lparr>workers := ws\<rparr>"
  have "workers s \<noteq> []" using run.prems by (auto simp: pool_inv_def)
  then have "\<exists>w. w \<in> set (workers ?s) \<and> w \<noteq> Asleep" using awake_after_signal [OF run.hyps(2)] by simp
  moreover have "pool_inv n ?s" by (rule pool_inv_signal [OF run.prems(1) run.hyps(2)])
  ultimately have "pool_inv n (?s\<lparr>pool := ThreadPool_run t (pool ?s), submitted := add_mset t (submitted ?s)\<rparr>)"
    using run.hyps(1) by (intro pool_inv_run) simp_all
  moreover have "?s\<lparr>pool := ThreadPool_run t (pool ?s), submitted := add_mset t (submitted ?s)\<rparr> =
      s\<lparr>pool := ThreadPool_run t (pool s), workers := ws, submitted := add_mset t (submitted s)\<rparr>" by simp
  ultimately show ?case by (simp only:)
next
  case (wait s)
  then show ?case by (simp add: pool_inv_def)
next
  case (destroy s)
  show ?case by (rule pool_inv_destroy [OF destroy.prems(1) destroy.hyps])
next
  case (spurious i s)
  show ?case by (rule pool_inv_wake [OF spurious.prems(1) spurious.hyps])
next
  case (spurious_client s)
  then show ?case by (simp add: pool_inv_def)
qed

lemma new_pool_inv: "pool_inv n (new_pool n)"
proof -
  have "filter_mset P (replicate_mset n x) = (if P x then replicate_mset n x else {#})" for P and x :: "'a worker"
    by (induction n) auto
  moreover have "sum_mset (image_mset held (replicate_mset n Outer)) = {#}" by (induction n) auto
  ultimately show ?thesis
    by (simp add: pool_inv_def counted_def new_pool_def ThreadPool_init_def)
qed

lemma pool_reachable_inv:
  assumes "pool_step\<^sup>*\<^sup>* (new_pool n) s" "0 < n" "n < 256"
  shows "pool_inv n s"
  using assms(1)
proof (induction rule: rtranclp_induct)
  case base
  then show ?case by (rule new_pool_inv)
next
  case (step s t)
  then show ?case using pool_step_inv assms(2,3) by blast
qed

section \<open>Waiting\<close>

lemma quiescent:
  assumes "pool_inv n s" "n < 256" "\<not> wait_condition (pool s)"
  shows "submitted s = completed s + dropped s" "\<forall>w\<in>set (workers s). \<not> busy w"
    "destroying s \<longrightarrow> set (workers s) \<subseteq> {Gone}"
proof -
  have "counted (pool s) (mset (workers s))" "size (mset (workers s)) < 256" using assms(1,2) by (simp_all add: pool_inv_def)
  from wait_condition_iff [OF this] assms(3)
  have idle: "tasks (pool s) = []" "\<forall>w\<in>set (workers s). \<not> busy w" "\<not> running (pool s) \<longrightarrow> set (workers s) \<subseteq> {Gone}"
    by auto
  have "\<forall>w\<in>set (workers s). held w = {#}" using idle(2) by (auto simp: busy_def held_def split: worker.splits)
  then have "image_mset held (mset (workers s)) = image_mset (\<lambda>_. {#}) (mset (workers s))" by (intro image_mset_cong) simp
  then have "sum_mset (image_mset held (mset (workers s))) = {#}" by simp
  then show "submitted s = completed s + dropped s" using assms(1) idle(1) by (simp add: pool_inv_def)
  show "\<forall>w\<in>set (workers s). \<not> busy w" by (rule idle(2))
  show "destroying s \<longrightarrow> set (workers s) \<subseteq> {Gone}" using idle(3) assms(1) by (simp add: pool_inv_def)
qed

text \<open>
C34: In every reachable state of a pool of 1 to 255 threads, whatever the interleaving, the choice of the
  woken sleepers and the unasked wake-ups: when the test of \<open>ThreadPool_wait\<close> lets the client go, every
  submitted task has been completed or was dropped by \<open>ThreadPool_destroy\<close>, each exactly once, no
  worker is at a task, and if the pool is being destroyed every worker has ended, so that none uses
  it after it is freed. No wake-up is lost: the client sleeps only while its condition holds, and
  while there are tasks not all workers sleep.
\<close>
theorem pool_wait_complete:
  assumes "pool_step\<^sup>*\<^sup>* (new_pool n) s" "0 < n" "n < 256"
  shows "(client s = Testing \<and> \<not> wait_condition (pool s) \<longrightarrow> submitted s = completed s + dropped s \<and>
      (\<forall>w\<in>set (workers s). \<not> busy w) \<and> (destroying s \<longrightarrow> set (workers s) \<subseteq> {Gone})) \<and>
    (client s = Freed \<longrightarrow> set (workers s) \<subseteq> {Gone}) \<and>
    (client s = Sleeping \<longrightarrow> wait_condition (pool s)) \<and>
    (tasks (pool s) \<noteq> [] \<longrightarrow> (\<exists>w\<in>set (workers s). w \<noteq> Asleep))"
proof -
  have inv: "pool_inv n s" by (rule pool_reachable_inv [OF assms])
  then have "client s = Freed \<longrightarrow> set (workers s) \<subseteq> {Gone}" "client s = Sleeping \<longrightarrow> wait_condition (pool s)"
    "tasks (pool s) \<noteq> [] \<longrightarrow> (\<exists>w\<in>set (workers s). w \<noteq> Asleep)"
    by (auto simp: pool_inv_def counted_def)
  with quiescent [OF inv assms(3)] show ?thesis by blast
qed

text \<open>Without new tasks and unasked wake-ups every step brings the pool closer to rest.\<close>

definition weight :: "bool \<Rightarrow> 't worker \<Rightarrow> nat" where
  "weight r w = (case w of Outer \<Rightarrow> 2 | Inside \<Rightarrow> if r then 1 else 5 | Asleep \<Rightarrow> 0 | Took _ \<Rightarrow> 4 | Finished \<Rightarrow> 3
     | Exiting \<Rightarrow> 1 | Gone \<Rightarrow> 0)"

definition remaining :: "'t sys \<Rightarrow> nat" where
  "remaining s = 2 * (sum_list (map (weight (running (pool s))) (workers s)) + 6 * length (tasks (pool s))) +
     (if client s = Testing then 1 else 0)"

lemma weight_update:
  "i < length ws \<Longrightarrow> sum_list (map f (ws[i := v])) + f (ws ! i) = sum_list (map f ws) + (f v :: nat)"
proof (induction ws arbitrary: i)
  case (Cons w ws)
  then show ?case by (cases i) auto
qed simp

lemma internal_decreases:
  assumes "internal s t" "pool_inv n s"
  shows "remaining t < remaining s"
  using assms
proof (induction rule: internal.induct)
  case (work i s v t)
  let ?r = "running (pool s)" and ?w = "workers s ! i"
  have r: "running (pool t) = ?r"
    using work.hyps(3) by (auto simp: worker_step_def worker_take_def worker_done_def worker_leave_def Let_def split: worker.splits list.splits if_splits)
  have down: "weight ?r v + 6 * length (tasks (pool t)) < weight ?r ?w + 6 * length (tasks (pool s))"
    using work.hyps(2,3) by (cases ?w)
      (auto simp: worker_step_def worker_take_def worker_done_def worker_leave_def weight_def Let_def split: list.splits if_splits)
  have "sum_list (map (weight ?r) ((workers s)[i := v])) + weight ?r ?w = sum_list (map (weight ?r) (workers s)) + weight ?r v"
    by (rule weight_update [OF work.hyps(1)])
  then show ?case using down r by (simp add: remaining_def)
qed (auto simp: remaining_def)

lemma internal_progress:
  assumes "pool_inv n s" "n < 256" "client s \<in> {Testing, Sleeping}"
  shows "\<exists>t. internal s t"
proof (cases "client s = Testing")
  case True
  then show ?thesis using internal.sleep internal.return by blast
next
  case False
  have c: "counted (pool s) (mset (workers s))" "size (mset (workers s)) < 256" using assms(1,2) by (simp_all add: pool_inv_def)
  have "wait_condition (pool s)" using assms(1,3) False by (simp add: pool_inv_def)
  then have "\<exists>w. w \<in> set (workers s) \<and> w \<notin> {Asleep, Gone}"
    unfolding wait_condition_iff [OF c] using c(1) by (auto simp: counted_def)
  then obtain i where "i < length (workers s)" "workers s ! i \<notin> {Asleep, Gone}" by (metis in_set_conv_nth)
  moreover obtain v t where "worker_step (workers s ! i) s = (v, t)" by fastforce
  ultimately show ?thesis using internal.work by blast
qed

lemma internal_returns:
  assumes "internal s t" "client s \<in> {Testing, Sleeping}" "client t \<in> {Outside, Freed}"
  shows "\<not> wait_condition (pool s) \<and> submitted t = submitted s \<and> completed t = completed s \<and> dropped t = dropped s"
  using assms
proof (induction rule: internal.induct)
  case (work i s v t)
  have "client t \<in> {client s, Testing}"
    using work.hyps(3) by (auto simp: worker_step_def worker_take_def worker_done_def wake_client_def Let_def
      split: worker.splits prod.splits if_splits)
  then show ?case using work.prems by auto
qed auto

text \<open>
C35: \<open>ThreadPool_wait\<close> returns, also from within \<open>ThreadPool_destroy\<close>: while the client is in it some thread
  can always go on, and however the threads are scheduled, once no new tasks come and every task
  returns, the client gets out after finitely many steps, with all tasks completed or dropped.
\<close>
theorem pool_wait_returns:
  assumes "pool_step\<^sup>*\<^sup>* (new_pool n) s" "0 < n" "n < 256" "client s \<in> {Testing, Sleeping}"
  shows "(\<exists>t. internal s t) \<and>
    (\<forall>f. f 0 = s \<and> (\<forall>i. client (f i) \<in> {Testing, Sleeping} \<longrightarrow> internal (f i) (f (Suc i))) \<longrightarrow>
      (\<exists>i. client (f i) \<in> {Outside, Freed} \<and> submitted (f i) = completed (f i) + dropped (f i)))"
proof (intro conjI allI impI)
  have inv: "pool_inv n s" by (rule pool_reachable_inv [OF assms(1-3)])
  show "\<exists>t. internal s t" by (rule internal_progress [OF inv assms(3,4)])
  fix f assume f: "f 0 = s \<and> (\<forall>i. client (f i) \<in> {Testing, Sleeping} \<longrightarrow> internal (f i) (f (Suc i)))"
  let ?in = "\<lambda>i. client (f i) \<in> {Testing, Sleeping}"
  have inv_run: "pool_inv n (f i) \<and> remaining (f i) + i \<le> remaining s" if "\<forall>j<i. ?in j" for i
    using that
  proof (induction i)
    case (Suc i)
    then have "internal (f i) (f (Suc i))" "pool_inv n (f i)" "remaining (f i) + i \<le> remaining s" using f by auto
    then show ?case using internal_inv [OF _ _ assms(3)] internal_decreases by fastforce
  qed (use f inv in simp)
  have "\<exists>i. \<not> ?in i"
  proof (rule ccontr)
    assume "\<not> ?thesis"
    then have "remaining (f (Suc (remaining s))) + Suc (remaining s) \<le> remaining s" using inv_run by blast
    then show False by simp
  qed
  then obtain i where i: "\<not> ?in i" "\<forall>j<i. ?in j" using exists_least_iff [of "\<lambda>i. \<not> ?in i"] by blast
  then obtain k where k: "i = Suc k" using f assms(4) by (cases i) auto
  have out: "client (f i) \<in> {Outside, Freed}" using i(1) by (cases "client (f i)") auto
  have "pool_inv n (f k)" "?in k" using inv_run [of k] i(2) k by auto
  moreover have "internal (f k) (f i)" using f \<open>?in k\<close> k by blast
  ultimately have "submitted (f i) = completed (f i) + dropped (f i)"
    using internal_returns [of "f k" "f i"] out quiescent(1) [of n "f k"] assms(3) by auto
  then show "\<exists>i. client (f i) \<in> {Outside, Freed} \<and> submitted (f i) = completed (f i) + dropped (f i)" using out by blast
qed

text \<open>One task for one thread, and a client that has gone to sleep over it.\<close>

definition demo_pool :: "nat sys" where
  "demo_pool = (new_pool 1)\<lparr>pool := ThreadPool_run 7 (ThreadPool_init 1), submitted := {#7#}, client := Sleeping\<rparr>"

lemma demo_pool_reachable: "pool_step\<^sup>*\<^sup>* (new_pool 1) demo_pool"
proof -
  let ?s1 = "(new_pool 1)\<lparr>pool := ThreadPool_run 7 (ThreadPool_init 1), workers := [Outer], submitted := {#7#}\<rparr> :: nat sys"
  have "pool_step (new_pool 1) ?s1"
    using pool_step.run [of "new_pool 1" "[Outer]" 7] signal_workers.nobody [of "[Outer]"]
    by (simp add: new_pool_def ThreadPool_init_def)
  moreover have "pool_step ?s1 (?s1\<lparr>client := Testing\<rparr>)"
    by (rule pool_step.wait) (simp_all add: new_pool_def)
  moreover have "pool_step (?s1\<lparr>client := Testing\<rparr>) (?s1\<lparr>client := Testing, client := Sleeping\<rparr>)"
    by (rule pool_step.inner, rule internal.sleep) (simp_all add: wait_condition_run)
  moreover have "?s1\<lparr>client := Testing, client := Sleeping\<rparr> = demo_pool" by (simp add: demo_pool_def new_pool_def)
  ultimately show ?thesis by (metis (no_types, lifting) converse_rtranclp_into_rtranclp rtranclp.rtrancl_refl)
qed

theorem pool_wait_complete_witness:
  "wait_condition (pool demo_pool) \<and> (\<exists>w\<in>set (workers demo_pool). w \<noteq> Asleep)"
proof -
  have "client demo_pool = Sleeping" "tasks (pool demo_pool) \<noteq> []"
    by (simp_all add: demo_pool_def ThreadPool_run_def)
  then show ?thesis using pool_wait_complete [OF demo_pool_reachable] by simp
qed

theorem pool_wait_returns_witness: "\<exists>t. internal demo_pool t"
  using pool_wait_returns [OF demo_pool_reachable] by (simp add: demo_pool_def)

end
