(* ===== verification/Timelines.thy ===== *)
theory Timelines
  imports Prelude
begin

text \<open>
  The timeline semaphores that the Vortek renderer emulates for drivers without them,
  \<open>vortekrenderer/src/timeline_semaphore.c\<close>, with the handlers of \<open>request_handler.c\<close> that use them
  and the walks over \<open>pNext\<close> chains of \<open>vortek.h\<close>.

  The Vulkan driver is a parameter: a record of the functions of \<open>vulkanWrapper\<close> over an arbitrary
  state. A \<open>pNext\<close> chain is the list of its structures, which takes it to end.
\<close>

section \<open>Chains of structures\<close>

type_synonym semaphore = u64

datatype vk_structure =
    SemaphoreTypeCreateInfo "nat" "u64"
  | TimelineSemaphoreSubmitInfo "u64 list"
  | OtherStructure nat

definition SEMAPHORE_TYPE_CREATE_INFO :: nat where "SEMAPHORE_TYPE_CREATE_INFO = 1000207002"
definition TIMELINE_SEMAPHORE_SUBMIT_INFO :: nat where "TIMELINE_SEMAPHORE_SUBMIT_INFO = 1000207003"
definition SEMAPHORE_TYPE_TIMELINE :: nat where "SEMAPHORE_TYPE_TIMELINE = 1"

fun sType :: "vk_structure \<Rightarrow> nat" where
  "sType (SemaphoreTypeCreateInfo _ _) = SEMAPHORE_TYPE_CREATE_INFO"
| "sType (TimelineSemaphoreSubmitInfo _) = TIMELINE_SEMAPHORE_SUBMIT_INFO"
| "sType (OtherStructure t) = t"

fun findNextVkStructure :: "nat \<Rightarrow> vk_structure list \<Rightarrow> vk_structure list" where
  "findNextVkStructure type [] = []"
| "findNextVkStructure type (cur # pNext) =
    (if sType cur = type then cur # pNext else findNextVkStructure type pNext)"

fun removeNextVkStructure :: "nat \<Rightarrow> vk_structure list \<Rightarrow> vk_structure list" where
  "removeNextVkStructure type [] = []"
| "removeNextVkStructure type (cur # pNext) =
    (if sType cur = type then pNext else cur # removeNextVkStructure type pNext)"

fun invert_onto :: "vk_structure list \<Rightarrow> vk_structure list \<Rightarrow> vk_structure list" where
  "invert_onto [] pPrev = pPrev"
| "invert_onto (cur # pNext) pPrev = invert_onto pNext (cur # pPrev)"

definition invertVkStructuresChain :: "vk_structure list \<Rightarrow> vk_structure list" where
  "invertVkStructuresChain pNext = invert_onto pNext []"

section \<open>State\<close>

text \<open>
  A registered timeline and its address: \<open>emulatedTimelines\<close> holds the pointers, and what they point to
  is allocated exactly as long as it is registered. The pending signals are the first
  \<open>pendingSubmitCount\<close> entries of the two arrays, the semaphores in \<open>rpcSignaled\<close> its first
  \<open>rpcSignaledCount\<close> entries.
\<close>

record timeline =
  tl_semaphore :: semaphore
  tl_value :: u64

record timelines =
  emulatedTimelines :: "(nat \<times> timeline) list"
  pendingSubmit :: "(semaphore \<times> u64) list"
  rpcSignaled :: "semaphore list"

definition MAX_PENDING_SUBMIT_SIGNALS :: nat where "MAX_PENDING_SUBMIT_SIGNALS = 32"
definition MAX_RPC_SIGNALED :: nat where "MAX_RPC_SIGNALED = 64"

fun find_in :: "(nat \<times> timeline) list \<Rightarrow> semaphore \<Rightarrow> nat option" where
  "find_in [] s = None"
| "find_in ((p, t) # ts) s = (if tl_semaphore t = s then Some p else find_in ts s)"

definition emulatedFind :: "semaphore \<Rightarrow> timelines \<Rightarrow> nat option" where
  "emulatedFind s st = find_in (emulatedTimelines st) s"

fun consume_from :: "nat list \<Rightarrow> semaphore \<Rightarrow> semaphore list \<Rightarrow> bool \<times> semaphore list" where
  "consume_from [] s xs = (False, xs)"
| "consume_from (i # is) s xs =
    (if xs ! i \<noteq> s then consume_from is s xs else (True, butlast (xs[i := last xs])))"

definition consumeRpcSignaledLocked :: "semaphore \<Rightarrow> timelines \<Rightarrow> bool \<times> timelines" where
  "consumeRpcSignaledLocked s st = (if s = 0 then (False, st)
     else case consume_from [0..<length (rpcSignaled st)] s (rpcSignaled st) of
       (found, xs) \<Rightarrow> (found, st\<lparr>rpcSignaled := xs\<rparr>))"

definition waitSatisfiedLocked :: "semaphore \<Rightarrow> timelines \<Rightarrow> bool \<times> timelines" where
  "waitSatisfiedLocked s st = (if s = 0 then (False, st)
     else if emulatedFind s st \<noteq> None then (True, st)
     else consumeRpcSignaledLocked s st)"

definition stashEmulatedSignal :: "semaphore \<Rightarrow> u64 \<Rightarrow> timelines \<Rightarrow> timelines" where
  "stashEmulatedSignal s v st = (if MAX_PENDING_SUBMIT_SIGNALS \<le> length (pendingSubmit st) then st
     else st\<lparr>pendingSubmit := pendingSubmit st @ [(s, v)]\<rparr>)"

text \<open>\<open>calloc\<close> may fail here: \<open>p\<close> is what it returns.\<close>

definition emulatedRegister :: "nat option \<Rightarrow> semaphore \<Rightarrow> u64 \<Rightarrow> timelines \<Rightarrow> timelines" where
  "emulatedRegister p s initial st = (case p of None \<Rightarrow> st
     | Some p \<Rightarrow> st\<lparr>emulatedTimelines := emulatedTimelines st @ [(p, \<lparr>tl_semaphore = s, tl_value = initial\<rparr>)]\<rparr>)"

fun unregister_in :: "(nat \<times> timeline) list \<Rightarrow> semaphore \<Rightarrow> (nat \<times> timeline) list" where
  "unregister_in [] s = []"
| "unregister_in ((p, t) # ts) s = (if tl_semaphore t = s then ts else (p, t) # unregister_in ts s)"

definition emulatedUnregister :: "semaphore \<Rightarrow> timelines \<Rightarrow> timelines" where
  "emulatedUnregister s st = st\<lparr>emulatedTimelines := unregister_in (emulatedTimelines st) s\<rparr>"

definition isTimelineCreate :: "vk_structure list \<Rightarrow> u64 option" where
  "isTimelineCreate pNext = (case findNextVkStructure SEMAPHORE_TYPE_CREATE_INFO pNext of
      SemaphoreTypeCreateInfo type initial # _ \<Rightarrow> if type \<noteq> SEMAPHORE_TYPE_TIMELINE then None else Some initial
    | _ \<Rightarrow> None)"

section \<open>The driver\<close>

definition VK_SUCCESS :: int where "VK_SUCCESS = 0"
definition VK_ERROR_DEVICE_LOST :: int where "VK_ERROR_DEVICE_LOST = -4"

text \<open>
  \<open>VkSubmitInfo\<close> with its arrays; a count may be less than an array is long, never more. Of
  \<open>VkSubmitInfo2\<close> an array may be NULL whatever the count. The entries of its arrays keep what they hold
  beside the semaphore as a third component.
\<close>

record submit =
  pNext :: "vk_structure list"
  waitSemaphoreCount :: nat
  pWaitSemaphores :: "semaphore list"
  pWaitDstStageMask :: "u32 list option"
  commandBufferCount :: nat
  signalSemaphoreCount :: nat
  pSignalSemaphores :: "semaphore list"

type_synonym semaphore_submit = "semaphore \<times> u64 \<times> u64"

record submit2 =
  waitSemaphoreInfoCount :: nat
  pWaitSemaphoreInfos :: "semaphore_submit list option"
  commandBufferInfoCount :: nat
  signalSemaphoreInfoCount :: nat
  pSignalSemaphoreInfos :: "semaphore_submit list option"

record 'h driver =
  vkCreateSemaphore :: "vk_structure list \<Rightarrow> 'h \<Rightarrow> int \<times> semaphore \<times> 'h"
  vkDestroySemaphore :: "semaphore \<Rightarrow> 'h \<Rightarrow> 'h"
  vkSignalSemaphore :: "semaphore \<Rightarrow> u64 \<Rightarrow> 'h \<Rightarrow> int \<times> 'h"
  vkGetSemaphoreCounterValue :: "semaphore \<Rightarrow> 'h \<Rightarrow> int \<times> u64 \<times> 'h"
  vkQueueSubmit :: "submit list \<Rightarrow> u64 \<Rightarrow> 'h \<Rightarrow> int \<times> 'h"
  vkQueueSubmit2 :: "submit2 list \<Rightarrow> u64 \<Rightarrow> 'h \<Rightarrow> int \<times> 'h"
  vkWaitSemaphores :: "(semaphore \<times> u64) list \<Rightarrow> u64 \<Rightarrow> 'h \<Rightarrow> int \<times> 'h"

section \<open>Operations\<close>

definition TimelineSemaphore_create ::
  "'h driver \<Rightarrow> nat option \<Rightarrow> vk_structure list \<Rightarrow> bool \<Rightarrow> timelines \<times> 'h \<Rightarrow> int \<times> semaphore \<times> timelines \<times> 'h" where
  "TimelineSemaphore_create D p createInfo hostTimeline = (\<lambda>(st, h).
    case isTimelineCreate createInfo of
      Some initial \<Rightarrow>
        if \<not> hostTimeline then
          (case vkCreateSemaphore D [] h of (result, s, h) \<Rightarrow>
            (result, s, (if result = VK_SUCCESS then emulatedRegister p s initial st else st), h))
        else (case vkCreateSemaphore D createInfo h of (result, s, h) \<Rightarrow> (result, s, st, h))
    | None \<Rightarrow> (case vkCreateSemaphore D createInfo h of (result, s, h) \<Rightarrow> (result, s, st, h)))"

definition TimelineSemaphore_destroy :: "'h driver \<Rightarrow> semaphore \<Rightarrow> timelines \<times> 'h \<Rightarrow> timelines \<times> 'h" where
  "TimelineSemaphore_destroy D s = (\<lambda>(st, h). (emulatedUnregister s st, vkDestroySemaphore D s h))"

text \<open>The timeline at an address; \<open>upd_timeline\<close> writes through the pointer.\<close>

definition at_ptr :: "nat \<Rightarrow> timelines \<Rightarrow> timeline option" where
  "at_ptr p st = map_of (emulatedTimelines st) p"

definition upd_timeline :: "nat \<Rightarrow> (u64 \<Rightarrow> u64) \<Rightarrow> timelines \<Rightarrow> timelines" where
  "upd_timeline p f st = st\<lparr>emulatedTimelines :=
     map (\<lambda>(q, t). (q, if q = p then t\<lparr>tl_value := f (tl_value t)\<rparr> else t)) (emulatedTimelines st)\<rparr>"

definition TimelineSemaphore_signal :: "'h driver \<Rightarrow> semaphore \<Rightarrow> u64 \<Rightarrow> timelines \<times> 'h \<Rightarrow> int \<times> timelines \<times> 'h" where
  "TimelineSemaphore_signal D s v = (\<lambda>(st, h).
    case emulatedFind s st of
      None \<Rightarrow> (case vkSignalSemaphore D s v h of (result, h) \<Rightarrow> (result, st, h))
    | Some p \<Rightarrow> (VK_SUCCESS, upd_timeline p (\<lambda>old. if v > old then v else old) st, h))"

definition TimelineSemaphore_counter :: "'h driver \<Rightarrow> semaphore \<Rightarrow> timelines \<times> 'h \<Rightarrow> (int \<times> u64 \<times> timelines \<times> 'h) option" where
  "TimelineSemaphore_counter D s = (\<lambda>(st, h).
    case emulatedFind s st of
      None \<Rightarrow> (case vkGetSemaphoreCounterValue D s h of (result, v, h) \<Rightarrow> Some (result, v, st, h))
    | Some p \<Rightarrow> do { t \<leftarrow> at_ptr p st; Some (VK_SUCCESS, tl_value t, st, h) })"

definition TimelineSemaphore_rpcSignal :: "semaphore \<Rightarrow> timelines \<Rightarrow> timelines" where
  "TimelineSemaphore_rpcSignal s st = (if s = 0 then st
     else case emulatedFind s st of
       Some p \<Rightarrow> upd_timeline p (\<lambda>v. v + 1) st
     | None \<Rightarrow>
         if s \<in> set (rpcSignaled st) then st
         else if length (rpcSignaled st) < MAX_RPC_SIGNALED then st\<lparr>rpcSignaled := rpcSignaled st @ [s]\<rparr>
         else st)"

fun signal_all :: "'h driver \<Rightarrow> (semaphore \<times> u64) list \<Rightarrow> timelines \<times> 'h \<Rightarrow> timelines \<times> 'h" where
  "signal_all D [] c = c"
| "signal_all D ((s, v) # svs) c = signal_all D svs (snd (TimelineSemaphore_signal D s v c))"

definition TimelineSemaphore_flushSubmitSignals :: "'h driver \<Rightarrow> timelines \<times> 'h \<Rightarrow> timelines \<times> 'h" where
  "TimelineSemaphore_flushSubmitSignals D = (\<lambda>(st, h).
    signal_all D (pendingSubmit st) (st\<lparr>pendingSubmit := []\<rparr>, h))"

section \<open>Filtering submits\<close>

text \<open>The loops over the waits and the signals of a submit; the list is of the indices to go.\<close>

definition move_entry :: "nat \<Rightarrow> nat \<Rightarrow> 'a list \<Rightarrow> 'a list option" where
  "move_entry kept i xs = do { x \<leftarrow> mem_get i xs; mem_set kept x xs }"

fun filter_waits :: "nat list \<Rightarrow> nat \<Rightarrow> submit \<Rightarrow> timelines \<Rightarrow> (submit \<times> timelines) option" where
  "filter_waits [] kept b st = Some (b\<lparr>waitSemaphoreCount := kept\<rparr>, st)"
| "filter_waits (i # is) kept b st = do {
     s \<leftarrow> mem_get i (pWaitSemaphores b);
     case waitSatisfiedLocked s st of
       (True, st) \<Rightarrow> filter_waits is kept b st
     | (False, st) \<Rightarrow>
         if kept \<noteq> i then do {
           ws \<leftarrow> move_entry kept i (pWaitSemaphores b);
           ms \<leftarrow> (case pWaitDstStageMask b of None \<Rightarrow> Some None | Some ms \<Rightarrow> map_option Some (move_entry kept i ms));
           filter_waits is (kept + 1) (b\<lparr>pWaitSemaphores := ws, pWaitDstStageMask := ms\<rparr>) st
         } else filter_waits is (kept + 1) b st
   }"

definition signal_value :: "vk_structure list \<Rightarrow> nat \<Rightarrow> u64" where
  "signal_value timelineInfo i = (case timelineInfo of
      TimelineSemaphoreSubmitInfo vs # _ \<Rightarrow> if i < length vs then vs ! i else 0
    | _ \<Rightarrow> 0)"

fun filter_signals :: "vk_structure list \<Rightarrow> nat list \<Rightarrow> nat \<Rightarrow> submit \<Rightarrow> timelines \<Rightarrow> (submit \<times> timelines) option" where
  "filter_signals timelineInfo [] kept b st = Some (b\<lparr>signalSemaphoreCount := kept\<rparr>, st)"
| "filter_signals timelineInfo (i # is) kept b st = do {
     s \<leftarrow> mem_get i (pSignalSemaphores b);
     if emulatedFind s st \<noteq> None then
       filter_signals timelineInfo is kept b (stashEmulatedSignal s (signal_value timelineInfo i) st)
     else if kept \<noteq> i then do {
       ss \<leftarrow> move_entry kept i (pSignalSemaphores b);
       filter_signals timelineInfo is (kept + 1) (b\<lparr>pSignalSemaphores := ss\<rparr>) st
     } else filter_signals timelineInfo is (kept + 1) b st
   }"

definition has_work :: "submit \<Rightarrow> bool" where
  "has_work b \<longleftrightarrow> waitSemaphoreCount b \<noteq> 0 \<or> commandBufferCount b \<noteq> 0 \<or> signalSemaphoreCount b \<noteq> 0"

definition filter_submit :: "submit \<Rightarrow> timelines \<Rightarrow> (submit \<times> timelines) option" where
  "filter_submit b st = do {
     (b, st) \<leftarrow> filter_waits [0..<waitSemaphoreCount b] 0 b st;
     (b, st) \<leftarrow> filter_signals (findNextVkStructure TIMELINE_SEMAPHORE_SUBMIT_INFO (pNext b))
       [0..<signalSemaphoreCount b] 0 b st;
     let b = (if waitSemaphoreCount b = 0 \<and> signalSemaphoreCount b = 0
       then b\<lparr>pNext := removeNextVkStructure TIMELINE_SEMAPHORE_SUBMIT_INFO (pNext b)\<rparr> else b);
     Some (b, st)
   }"

fun TimelineSemaphore_filterSubmits :: "submit list \<Rightarrow> timelines \<Rightarrow> (bool \<times> submit list \<times> timelines) option" where
  "TimelineSemaphore_filterSubmits [] st = Some (False, [], st)"
| "TimelineSemaphore_filterSubmits (b # bs) st = do {
     (b, st) \<leftarrow> filter_submit b st;
     (hostWork, bs, st) \<leftarrow> TimelineSemaphore_filterSubmits bs st;
     Some (has_work b \<or> hostWork, b # bs, st)
   }"

text \<open>The same for \<open>VkSubmitInfo2\<close>. Waits in a NULL array are dropped, signals in one are kept.\<close>

fun filter_waits2 :: "nat list \<Rightarrow> nat \<Rightarrow> semaphore_submit list option \<Rightarrow> timelines \<Rightarrow>
    (nat \<times> semaphore_submit list option \<times> timelines) option" where
  "filter_waits2 [] kept ws st = Some (kept, ws, st)"
| "filter_waits2 (i # is) kept None st = filter_waits2 is kept None st"
| "filter_waits2 (i # is) kept (Some ws) st = do {
     w \<leftarrow> mem_get i ws;
     case waitSatisfiedLocked (fst w) st of
       (True, st) \<Rightarrow> filter_waits2 is kept (Some ws) st
     | (False, st) \<Rightarrow>
         if kept \<noteq> i then do { ws \<leftarrow> mem_set kept w ws; filter_waits2 is (kept + 1) (Some ws) st }
         else filter_waits2 is (kept + 1) (Some ws) st
   }"

fun filter_signals2 :: "nat list \<Rightarrow> nat \<Rightarrow> semaphore_submit list option \<Rightarrow> timelines \<Rightarrow>
    (nat \<times> semaphore_submit list option \<times> timelines) option" where
  "filter_signals2 [] kept ss st = Some (kept, ss, st)"
| "filter_signals2 (i # is) kept None st = filter_signals2 is (kept + 1) None st"
| "filter_signals2 (i # is) kept (Some ss) st = do {
     s \<leftarrow> mem_get i ss;
     if emulatedFind (fst s) st \<noteq> None then
       filter_signals2 is kept (Some ss) (stashEmulatedSignal (fst s) (fst (snd s)) st)
     else if kept \<noteq> i then do { ss \<leftarrow> mem_set kept s ss; filter_signals2 is (kept + 1) (Some ss) st }
     else filter_signals2 is (kept + 1) (Some ss) st
   }"

definition has_work2 :: "submit2 \<Rightarrow> bool" where
  "has_work2 b \<longleftrightarrow> waitSemaphoreInfoCount b \<noteq> 0 \<or> commandBufferInfoCount b \<noteq> 0 \<or> signalSemaphoreInfoCount b \<noteq> 0"

fun TimelineSemaphore_filterSubmits2 :: "submit2 list \<Rightarrow> timelines \<Rightarrow> (bool \<times> submit2 list \<times> timelines) option" where
  "TimelineSemaphore_filterSubmits2 [] st = Some (False, [], st)"
| "TimelineSemaphore_filterSubmits2 (b # bs) st = do {
     (nw, ws, st) \<leftarrow> filter_waits2 [0..<waitSemaphoreInfoCount b] 0 (pWaitSemaphoreInfos b) st;
     (ns, ss, st) \<leftarrow> filter_signals2 [0..<signalSemaphoreInfoCount b] 0 (pSignalSemaphoreInfos b) st;
     let b = b\<lparr>waitSemaphoreInfoCount := nw, pWaitSemaphoreInfos := ws,
               signalSemaphoreInfoCount := ns, pSignalSemaphoreInfos := ss\<rparr>;
     (hostWork, bs, st) \<leftarrow> TimelineSemaphore_filterSubmits2 bs st;
     Some (has_work2 b \<or> hostWork, b # bs, st)
   }"

section \<open>Handlers\<close>

text \<open>What \<open>vt_handle_vkQueueSubmit\<close> does with the semaphores: filter, submit unless nothing is left and
  there is no fence, flush on success. It answers the client with the result.\<close>

definition vt_handle_vkQueueSubmit ::
  "'h driver \<Rightarrow> submit list \<Rightarrow> u64 \<Rightarrow> timelines \<times> 'h \<Rightarrow> (int \<times> timelines \<times> 'h) option" where
  "vt_handle_vkQueueSubmit D submits fence = (\<lambda>(st, h). do {
     (hostWork, submits, st) \<leftarrow> TimelineSemaphore_filterSubmits submits st;
     let (result, h) = (if hostWork \<or> fence \<noteq> 0 then vkQueueSubmit D submits fence h else (VK_SUCCESS, h));
     let (st, h) = (if result = VK_SUCCESS then TimelineSemaphore_flushSubmitSignals D (st, h) else (st, h));
     Some (result, st, h)
   })"

definition vt_handle_vkQueueSubmit2 ::
  "'h driver \<Rightarrow> submit2 list \<Rightarrow> u64 \<Rightarrow> timelines \<times> 'h \<Rightarrow> (int \<times> timelines \<times> 'h) option" where
  "vt_handle_vkQueueSubmit2 D submits fence = (\<lambda>(st, h). do {
     (hostWork, submits, st) \<leftarrow> TimelineSemaphore_filterSubmits2 submits st;
     let (result, h) = (if hostWork \<or> fence \<noteq> 0 then vkQueueSubmit2 D submits fence h else (VK_SUCCESS, h));
     let (st, h) = (if result = VK_SUCCESS then TimelineSemaphore_flushSubmitSignals D (st, h) else (st, h));
     Some (result, st, h)
   })"

text \<open>The waits that \<open>vt_handle_vkQueuePresentKHR\<close> leaves to the blit of each image.\<close>

definition present_waits :: "semaphore list option \<Rightarrow> nat \<Rightarrow> timelines \<Rightarrow> (nat \<times> semaphore list option \<times> timelines) option" where
  "present_waits ws n st = (case ws of
      Some ws \<Rightarrow>
        if n \<noteq> 0 then do {
          let b = \<lparr>pNext = [], waitSemaphoreCount = n, pWaitSemaphores = ws, pWaitDstStageMask = None,
                   commandBufferCount = 0, signalSemaphoreCount = 0, pSignalSemaphores = []\<rparr>;
          (_, bs, st) \<leftarrow> TimelineSemaphore_filterSubmits [b] st;
          b \<leftarrow> mem_get 0 bs;
          Some (waitSemaphoreCount b, Some (pWaitSemaphores b), st)
        } else Some (n, Some ws, st)
    | None \<Rightarrow> Some (n, None, st))"

section \<open>Chains\<close>

lemma findNextVkStructure_dropWhile:
  "findNextVkStructure type xs = dropWhile (\<lambda>x. sType x \<noteq> type) xs"
  by (induction xs) auto

lemma removeNextVkStructure_split:
  "removeNextVkStructure type xs =
     takeWhile (\<lambda>x. sType x \<noteq> type) xs @ tl (findNextVkStructure type xs)"
  by (induction xs) auto

lemma invertVkStructuresChain_rev: "invertVkStructuresChain xs = rev xs"
proof -
  have "invert_onto xs ys = rev xs @ ys" for ys by (induction xs arbitrary: ys) auto
  then show ?thesis by (simp add: invertVkStructuresChain_def)
qed

section \<open>Compacting an array in place\<close>

text \<open>The first \<open>i\<close> entries of \<open>xs0\<close> have been seen, those with \<open>K\<close> moved to the front.\<close>

definition compacted :: "(nat \<Rightarrow> bool) \<Rightarrow> nat \<Rightarrow> 'a list \<Rightarrow> 'a list \<Rightarrow> bool" where
  "compacted K i xs0 xs \<longleftrightarrow> length xs = length xs0 \<and> drop i xs = drop i xs0 \<and>
     take (length (filter K [0..<i])) xs = map ((!) xs0) (filter K [0..<i])"

lemma length_kept: "length (filter K [0..<i]) \<le> i"
  using length_filter_le [of K "[0..<i]"] by simp

lemma compacted_0 [simp]: "compacted K 0 xs xs"
  by (simp add: compacted_def)

lemma compacted_length: "compacted K i xs0 xs \<Longrightarrow> length xs = length xs0"
  by (simp add: compacted_def)

lemma drop_Suc_eq: "drop i xs = drop i ys \<Longrightarrow> drop (Suc i) xs = drop (Suc i) ys"
  by (metis drop_Suc tl_drop)

lemma compacted_nth: "compacted K i xs0 xs \<Longrightarrow> i < length xs0 \<Longrightarrow> xs ! i = xs0 ! i"
  unfolding compacted_def by (metis hd_drop_conv_nth)

lemma compacted_skip: "compacted K i xs0 xs \<Longrightarrow> \<not> K i \<Longrightarrow> compacted K (Suc i) xs0 xs"
  by (auto simp: compacted_def dest: drop_Suc_eq)

lemma compacted_set:
  assumes c: "compacted K i xs0 xs" and K: "K i" and i: "i < length xs0"
  shows "compacted K (Suc i) xs0 (xs[length (filter K [0..<i]) := xs0 ! i])"
proof -
  let ?k = "length (filter K [0..<i])"
  have k: "?k \<le> i" "?k < length xs" using length_kept [of K i] i c by (auto simp: compacted_def)
  have "take (Suc ?k) (xs[?k := xs0 ! i]) = take ?k xs @ [xs0 ! i]"
    using k(2) by (simp add: take_Suc_conv_app_nth)
  moreover have "drop (Suc i) (xs[?k := xs0 ! i]) = drop (Suc i) xs" using k(1) by simp
  ultimately show ?thesis using c K by (auto simp: compacted_def dest: drop_Suc_eq)
qed

lemma compacted_keep:
  assumes "compacted K i xs0 xs" "K i" "i < length xs0" "length (filter K [0..<i]) = i"
  shows "compacted K (Suc i) xs0 xs"
proof -
  have "xs[i := xs0 ! i] = xs" using compacted_nth [OF assms(1,3)] by (metis list_update_id)
  then show ?thesis using compacted_set [OF assms(1-3)] assms(4) by simp
qed

lemma compacted_move:
  assumes "compacted K i xs0 xs" "K i" "i < length xs0"
  shows "\<exists>ys. move_entry (length (filter K [0..<i])) i xs = Some ys \<and> compacted K (Suc i) xs0 ys"
  using compacted_set [OF assms] compacted_nth [OF assms(1,3)] length_kept [of K i] assms(3) compacted_length [OF assms(1)]
  by (simp add: move_entry_def mem_get_def mem_set_def)

section \<open>Well-formed states\<close>

definition timelines_ok :: "timelines \<Rightarrow> bool" where
  "timelines_ok st \<longleftrightarrow> distinct (map fst (emulatedTimelines st)) \<and>
     distinct (map (tl_semaphore \<circ> snd) (emulatedTimelines st)) \<and>
     length (pendingSubmit st) \<le> MAX_PENDING_SUBMIT_SIGNALS \<and>
     distinct (rpcSignaled st) \<and> length (rpcSignaled st) \<le> MAX_RPC_SIGNALED"

definition emulated :: "timelines \<Rightarrow> semaphore \<Rightarrow> bool" where
  "emulated st s \<longleftrightarrow> emulatedFind s st \<noteq> None"

lemma emulatedFind_update [simp]:
  "emulatedFind s (st\<lparr>rpcSignaled := xs\<rparr>) = emulatedFind s st"
  "emulatedFind s (st\<lparr>pendingSubmit := ps\<rparr>) = emulatedFind s st"
  by (simp_all add: emulatedFind_def)

lemma emulated_update [simp]:
  "emulated (st\<lparr>rpcSignaled := xs\<rparr>) = emulated st"
  "emulated (st\<lparr>pendingSubmit := ps\<rparr>) = emulated st"
  by (auto simp: emulated_def fun_eq_iff)

lemma consume_from_spec:
  assumes "i \<le> length xs" "s \<notin> set (take i xs)" "distinct xs"
  shows "\<exists>ys. consume_from [i..<length xs] s xs = (s \<in> set xs, ys) \<and> distinct ys \<and> set ys = set xs - {s}"
  using assms
proof (induction "length xs - i" arbitrary: i)
  case 0
  then show ?case by auto
next
  case (Suc d)
  then have i: "i < length xs" by simp
  then have up: "[i..<length xs] = i # [Suc i..<length xs]" by (simp add: upt_conv_Cons)
  show ?case
  proof (cases "xs ! i = s")
    case False
    then have "s \<notin> set (take (Suc i) xs)" using Suc.prems(2) i by (simp add: take_Suc_conv_app_nth)
    then show ?thesis using Suc.hyps(1) [of "Suc i"] Suc.hyps(2) Suc.prems i up False by auto
  next
    case True
    obtain ys z where xs: "xs = ys @ [z]" using i by (cases xs rule: rev_cases) auto
    have "butlast (xs[i := last xs]) = (if i < length ys then ys[i := z] else ys)"
      using i by (auto simp: xs list_update_append less_Suc_eq)
    moreover have "distinct (if i < length ys then ys[i := z] else ys)"
      using Suc.prems(3) by (auto simp: xs distinct_list_update)
    moreover have "set (if i < length ys then ys[i := z] else ys) = set xs - {s}"
    proof (cases "i < length ys")
      case True
      then have "ys ! i = s" using \<open>xs ! i = s\<close> by (simp add: xs nth_append)
      moreover have "set (ys[i := z]) = insert z (set ys - {ys ! i})"
        using Suc.prems(3) True by (simp add: xs set_update_distinct)
      ultimately show ?thesis using True Suc.prems(3) by (auto simp: xs dest: nth_mem)
    next
      case False
      then have "z = s" using i \<open>xs ! i = s\<close> by (auto simp: xs nth_append split: if_splits)
      then show ?thesis using False Suc.prems(3) by (auto simp: xs)
    qed
    ultimately show ?thesis using True i up nth_mem [OF i] by simp
  qed
qed

lemma waitSatisfiedLocked_spec:
  assumes "distinct (rpcSignaled st)"
  shows "\<exists>xs. waitSatisfiedLocked s st = (s \<noteq> 0 \<and> (emulated st s \<or> s \<in> set (rpcSignaled st)), st\<lparr>rpcSignaled := xs\<rparr>) \<and>
    distinct xs \<and> set xs = set (rpcSignaled st) - {t. t = s \<and> s \<noteq> 0 \<and> \<not> emulated st s}"
proof -
  obtain ys where "consume_from [0..<length (rpcSignaled st)] s (rpcSignaled st) = (s \<in> set (rpcSignaled st), ys)"
    "distinct ys" "set ys = set (rpcSignaled st) - {s}"
    using consume_from_spec [of 0 "rpcSignaled st" s] assms by auto
  moreover have "st = st\<lparr>rpcSignaled := rpcSignaled st\<rparr>" by simp
  ultimately show ?thesis using assms
    by (cases "s = 0 \<or> emulated st s") (auto simp: waitSatisfiedLocked_def consumeRpcSignaledLocked_def emulated_def
      intro: exI [of _ ys] exI [of _ "rpcSignaled st"])
qed

section \<open>The waits that the driver sees\<close>

text \<open>
  The wait at index \<open>i\<close> of \<open>ws\<close> stays with the driver when nobody has signalled it on this side: it is
  not emulated, and not one of the semaphores in \<open>rpcSignaled\<close>, or no longer one because a wait in \<open>W\<close> or
  earlier in \<open>ws\<close> has used it up.
\<close>

definition host_wait :: "timelines \<Rightarrow> semaphore set \<Rightarrow> semaphore list \<Rightarrow> nat \<Rightarrow> bool" where
  "host_wait st W ws i \<longleftrightarrow> ws ! i = 0 \<or>
     \<not> emulated st (ws ! i) \<and> (ws ! i \<notin> set (rpcSignaled st) \<or> ws ! i \<in> W \<union> set (take i ws))"

definition rpc_left :: "timelines \<Rightarrow> semaphore list \<Rightarrow> semaphore list \<Rightarrow> bool" where
  "rpc_left st ws xs \<longleftrightarrow> distinct xs \<and>
     set xs = set (rpcSignaled st) - {s \<in> set ws. s \<noteq> 0 \<and> \<not> emulated st s}"

lemma rpc_left_step:
  assumes "rpc_left st (take i ws) xs" "i < length ws"
  obtains ys where "waitSatisfiedLocked (ws ! i) (st\<lparr>rpcSignaled := xs\<rparr>) =
      (\<not> host_wait st {} ws i, st\<lparr>rpcSignaled := ys\<rparr>)" "rpc_left st (take (Suc i) ws) ys"
proof -
  obtain ys where ys: "waitSatisfiedLocked (ws ! i) (st\<lparr>rpcSignaled := xs\<rparr>) =
      (ws ! i \<noteq> 0 \<and> (emulated st (ws ! i) \<or> ws ! i \<in> set xs), st\<lparr>rpcSignaled := ys\<rparr>)" "distinct ys"
    "set ys = set xs - {t. t = ws ! i \<and> ws ! i \<noteq> 0 \<and> \<not> emulated st (ws ! i)}"
    using waitSatisfiedLocked_spec [of "st\<lparr>rpcSignaled := xs\<rparr>" "ws ! i"] assms(1) by (auto simp: rpc_left_def)
  have "(ws ! i \<noteq> 0 \<and> (emulated st (ws ! i) \<or> ws ! i \<in> set xs)) = (\<not> host_wait st {} ws i)"
    using assms(1) by (auto simp: rpc_left_def host_wait_def)
  moreover have "rpc_left st (take (Suc i) ws) ys"
    using assms ys(2,3) by (auto simp: rpc_left_def take_Suc_conv_app_nth)
  ultimately show ?thesis using ys(1) that by simp
qed

definition same_rest :: "submit \<Rightarrow> submit \<Rightarrow> bool" where
  "same_rest b0 b \<longleftrightarrow> pNext b = pNext b0 \<and> commandBufferCount b = commandBufferCount b0"

definition waits_seen :: "submit \<Rightarrow> timelines \<Rightarrow> nat \<Rightarrow> submit \<Rightarrow> timelines \<Rightarrow> bool" where
  "waits_seen b0 st0 i b st \<longleftrightarrow> same_rest b0 b \<and>
     signalSemaphoreCount b = signalSemaphoreCount b0 \<and> pSignalSemaphores b = pSignalSemaphores b0 \<and>
     compacted (host_wait st0 {} (pWaitSemaphores b0)) i (pWaitSemaphores b0) (pWaitSemaphores b) \<and>
     rel_option (compacted (host_wait st0 {} (pWaitSemaphores b0)) i) (pWaitDstStageMask b0) (pWaitDstStageMask b) \<and>
     st0\<lparr>rpcSignaled := rpcSignaled st\<rparr> = st \<and> rpc_left st0 (take i (pWaitSemaphores b0)) (rpcSignaled st)"

lemma move_masks:
  assumes "rel_option (compacted K i) ms0 ms" "K i" "\<And>m. ms0 = Some m \<Longrightarrow> i < length m"
  shows "\<exists>ms'. (case ms of None \<Rightarrow> Some None | Some m \<Rightarrow> map_option Some (move_entry (length (filter K [0..<i])) i m)) = Some ms' \<and>
    rel_option (compacted K (Suc i)) ms0 ms'"
proof (cases ms)
  case (Some m)
  then obtain m0 where "ms0 = Some m0" "compacted K i m0 m" using assms(1) by (cases ms0) auto
  then show ?thesis using compacted_move [of K i m0 m] assms(2,3) Some by auto
qed (use assms(1) in \<open>cases ms0; simp\<close>)

lemma masks_skip:
  "rel_option (compacted K i) ms0 ms \<Longrightarrow> \<not> K i \<Longrightarrow> rel_option (compacted K (Suc i)) ms0 ms"
  by (cases ms0; cases ms) (auto intro: compacted_skip)

lemma masks_keep:
  "rel_option (compacted K i) ms0 ms \<Longrightarrow> K i \<Longrightarrow> (\<And>m. ms0 = Some m \<Longrightarrow> i < length m) \<Longrightarrow>
   length (filter K [0..<i]) = i \<Longrightarrow> rel_option (compacted K (Suc i)) ms0 ms"
  by (cases ms0; cases ms) (auto intro: compacted_keep)

lemma waits_seen_step:
  assumes "waits_seen b0 st0 i b st" "rpc_left st0 (take (Suc i) (pWaitSemaphores b0)) ys"
    and "compacted (host_wait st0 {} (pWaitSemaphores b0)) (Suc i) (pWaitSemaphores b0) ws"
    and "rel_option (compacted (host_wait st0 {} (pWaitSemaphores b0)) (Suc i)) (pWaitDstStageMask b0) ms"
  shows "waits_seen b0 st0 (Suc i) (b\<lparr>pWaitSemaphores := ws, pWaitDstStageMask := ms\<rparr>) (st0\<lparr>rpcSignaled := ys\<rparr>)"
proof -
  have "same_rest b0 b" "signalSemaphoreCount b = signalSemaphoreCount b0" "pSignalSemaphores b = pSignalSemaphores b0"
    using assms(1) by (simp_all only: waits_seen_def)
  then show ?thesis using assms(2-4) by (simp add: waits_seen_def same_rest_def)
qed

lemma filter_waits_loop:
  assumes "waits_seen b0 st0 i b st" "i \<le> n" "n \<le> length (pWaitSemaphores b0)"
    and masks: "\<And>ms. pWaitDstStageMask b0 = Some ms \<Longrightarrow> n \<le> length ms"
    and "k = length (filter (host_wait st0 {} (pWaitSemaphores b0)) [0..<i])"
  shows "\<exists>b' st'. filter_waits [i..<n] k b st = Some (b', st') \<and> waits_seen b0 st0 n b' st' \<and>
    waitSemaphoreCount b' = length (filter (host_wait st0 {} (pWaitSemaphores b0)) [0..<n])"
  using assms(1,2,5)
proof (induction "n - i" arbitrary: i b st k)
  case 0
  then have "i = n" by simp
  then show ?case using 0 by (simp add: waits_seen_def same_rest_def)
next
  case (Suc d)
  let ?ws0 = "pWaitSemaphores b0" and ?K = "host_wait st0 {} (pWaitSemaphores b0)"
  have i: "i < n" "i < length ?ws0" and d: "d = n - Suc i" using Suc.hyps(2) assms(3) by simp_all
  have up: "[i..<n] = i # [Suc i..<n]" using i(1) by (simp add: upt_conv_Cons)
  note IH = Suc.hyps(1) [OF d _ Suc_leI [OF i(1)]]
  have ws: "compacted ?K i ?ws0 (pWaitSemaphores b)" "rel_option (compacted ?K i) (pWaitDstStageMask b0) (pWaitDstStageMask b)"
    and xs: "st0\<lparr>rpcSignaled := rpcSignaled st\<rparr> = st" "rpc_left st0 (take i ?ws0) (rpcSignaled st)"
    using Suc.prems(1) by (simp_all only: waits_seen_def)
  obtain ys where "waitSatisfiedLocked (?ws0 ! i) (st0\<lparr>rpcSignaled := rpcSignaled st\<rparr>) = (\<not> ?K i, st0\<lparr>rpcSignaled := ys\<rparr>)"
    and left: "rpc_left st0 (take (Suc i) ?ws0) ys"
    by (rule rpc_left_step [OF xs(2) i(2)]) blast
  then have ys: "waitSatisfiedLocked (?ws0 ! i) st = (\<not> ?K i, st0\<lparr>rpcSignaled := ys\<rparr>)" by (simp only: xs(1))
  have get: "mem_get i (pWaitSemaphores b) = Some (?ws0 ! i)"
    using compacted_nth [OF ws(1) i(2)] compacted_length [OF ws(1)] i(2) by (simp add: mem_get_def)
  have masks_i: "\<And>m. pWaitDstStageMask b0 = Some m \<Longrightarrow> i < length m" using masks i(1) by fastforce
  note step = waits_seen_step [OF Suc.prems(1) left]
  have b: "b\<lparr>pWaitSemaphores := pWaitSemaphores b, pWaitDstStageMask := pWaitDstStageMask b\<rparr> = b" by simp
  show ?case
  proof (cases "?K i")
    case False
    have "waits_seen b0 st0 (Suc i) b (st0\<lparr>rpcSignaled := ys\<rparr>)"
      using step [OF compacted_skip [of ?K, OF ws(1) False] masks_skip [of ?K, OF ws(2) False]] by (simp add: b)
    from IH [OF this, of k] show ?thesis using False Suc.prems(3) by (simp add: up get ys)
  next
    case True
    show ?thesis
    proof (cases "k = i")
      case eq: True
      then have k: "length (filter ?K [0..<i]) = i" using Suc.prems(3) by simp
      have "waits_seen b0 st0 (Suc i) b (st0\<lparr>rpcSignaled := ys\<rparr>)"
        using step [OF compacted_keep [of ?K, OF ws(1) True i(2) k] masks_keep [of ?K, OF ws(2) True masks_i k]] by (simp add: b)
      from IH [OF this, of "Suc k"] show ?thesis using True eq k by (simp add: up get ys)
    next
      case ne: False
      obtain ws' where ws': "move_entry k i (pWaitSemaphores b) = Some ws'" "compacted ?K (Suc i) ?ws0 ws'"
        using compacted_move [of ?K, OF ws(1) True i(2)] Suc.prems(3) by blast
      obtain ms' where ms': "(case pWaitDstStageMask b of None \<Rightarrow> Some None | Some m \<Rightarrow> map_option Some (move_entry k i m)) = Some ms'"
        "rel_option (compacted ?K (Suc i)) (pWaitDstStageMask b0) ms'"
        using move_masks [of ?K, OF ws(2) True masks_i] Suc.prems(3) by blast
      have "Suc k = length (filter ?K [0..<Suc i])" using True Suc.prems(3) by simp
      from IH [OF step [OF ws'(2) ms'(2)] this] show ?thesis
        using True ne by (simp add: up get ys ws'(1) ms'(1))
    qed
  qed
qed

section \<open>The signals that the driver sees\<close>

definition host_signal :: "timelines \<Rightarrow> semaphore list \<Rightarrow> nat \<Rightarrow> bool" where
  "host_signal st ss i \<longleftrightarrow> \<not> emulated st (ss ! i)"

definition emulated_signals :: "timelines \<Rightarrow> submit \<Rightarrow> (semaphore \<times> u64) list" where
  "emulated_signals st b = (let info = findNextVkStructure TIMELINE_SEMAPHORE_SUBMIT_INFO (pNext b) in
     map (\<lambda>i. (pSignalSemaphores b ! i, signal_value info i))
       (filter (\<lambda>i. emulated st (pSignalSemaphores b ! i)) [0..<signalSemaphoreCount b]))"

lemma stash_take:
  assumes "pendingSubmit st = take MAX_PENDING_SUBMIT_SIGNALS xs"
  shows "stashEmulatedSignal s v st = st\<lparr>pendingSubmit := take MAX_PENDING_SUBMIT_SIGNALS (xs @ [(s, v)])\<rparr>"
  using assms by (auto simp: stashEmulatedSignal_def)

lemma filter_signals_loop:
  assumes "compacted (host_signal st0 ss0) i ss0 (pSignalSemaphores b)" "i \<le> n" "n \<le> length ss0"
    and "k = length (filter (host_signal st0 ss0) [0..<i])"
    and "st = st0\<lparr>pendingSubmit := take MAX_PENDING_SUBMIT_SIGNALS (pend @ map (\<lambda>i. (ss0 ! i, signal_value info i))
           (filter (\<lambda>i. emulated st0 (ss0 ! i)) [0..<i]))\<rparr>"
  shows "\<exists>ss. filter_signals info [i..<n] k b st =
      Some (b\<lparr>pSignalSemaphores := ss, signalSemaphoreCount := length (filter (host_signal st0 ss0) [0..<n])\<rparr>,
        st0\<lparr>pendingSubmit := take MAX_PENDING_SUBMIT_SIGNALS (pend @ map (\<lambda>i. (ss0 ! i, signal_value info i))
           (filter (\<lambda>i. emulated st0 (ss0 ! i)) [0..<n]))\<rparr>) \<and>
    compacted (host_signal st0 ss0) n ss0 ss"
  using assms(1,2,4,5)
proof (induction "n - i" arbitrary: i b st k)
  case 0
  then have "i = n" by simp
  then show ?case using 0 by (intro exI [of _ "pSignalSemaphores b"]) simp
next
  case (Suc d)
  let ?K = "host_signal st0 ss0" and ?P = "\<lambda>i. pend @ map (\<lambda>i. (ss0 ! i, signal_value info i))
           (filter (\<lambda>i. emulated st0 (ss0 ! i)) [0..<i])"
  have i: "i < n" "i < length ss0" and d: "d = n - Suc i" using Suc.hyps(2) assms(3) by simp_all
  have up: "[i..<n] = i # [Suc i..<n]" using i(1) by (simp add: upt_conv_Cons)
  note IH = Suc.hyps(1) [OF d _ Suc_leI [OF i(1)]]
  have get: "mem_get i (pSignalSemaphores b) = Some (ss0 ! i)"
    using compacted_nth [OF Suc.prems(1) i(2)] compacted_length [OF Suc.prems(1)] i(2) by (simp add: mem_get_def)
  have find: "(emulatedFind (ss0 ! i) st \<noteq> None) = (\<not> ?K i)" by (simp add: Suc.prems(4) host_signal_def emulated_def)
  show ?case
  proof (cases "?K i")
    case False
    have k: "k = length (filter ?K [0..<Suc i])" using False Suc.prems(3) by simp
    have "stashEmulatedSignal (ss0 ! i) (signal_value info i) st =
        st0\<lparr>pendingSubmit := take MAX_PENDING_SUBMIT_SIGNALS (?P (Suc i))\<rparr>"
      using stash_take [of st "?P i" "ss0 ! i"] False Suc.prems(4) by (simp add: host_signal_def)
    note st = this and IH [OF compacted_skip [of ?K, OF Suc.prems(1) False] k st]
    moreover obtain p where "emulatedFind (ss0 ! i) st = Some p" using find False by auto
    ultimately show ?thesis by (simp add: up get del: take_append upt_Suc)
  next
    case True
    have none: "emulatedFind (ss0 ! i) st = None" using find True by auto
    have k: "Suc k = length (filter ?K [0..<Suc i])" using True Suc.prems(3) by simp
    have st: "st = st0\<lparr>pendingSubmit := take MAX_PENDING_SUBMIT_SIGNALS (?P (Suc i))\<rparr>"
      using True Suc.prems(4) by (simp add: host_signal_def)
    show ?thesis
    proof (cases "k = i")
      case eq: True
      then have "length (filter ?K [0..<i]) = i" using Suc.prems(3) by simp
      from IH [OF compacted_keep [of ?K, OF Suc.prems(1) True i(2) this] k st] show ?thesis
        using eq by (simp add: up get none del: take_append upt_Suc)
    next
      case ne: False
      obtain ss where ss: "move_entry k i (pSignalSemaphores b) = Some ss" "compacted ?K (Suc i) ss0 ss"
        using compacted_move [of ?K, OF Suc.prems(1) True i(2)] Suc.prems(3) by blast
      from IH [OF _ k st, of "b\<lparr>pSignalSemaphores := ss\<rparr>"] show ?thesis
        using ne ss(2) by (simp add: up get none ss(1) del: take_append upt_Suc)
    qed
  qed
qed

section \<open>A batch of submits\<close>

definition arrays_ok :: "submit \<Rightarrow> bool" where
  "arrays_ok b \<longleftrightarrow> waitSemaphoreCount b \<le> length (pWaitSemaphores b) \<and>
     (\<forall>ms. pWaitDstStageMask b = Some ms \<longrightarrow> waitSemaphoreCount b \<le> length ms) \<and>
     signalSemaphoreCount b \<le> length (pSignalSemaphores b)"

definition submit_waits :: "submit \<Rightarrow> semaphore list" where
  "submit_waits b = take (waitSemaphoreCount b) (pWaitSemaphores b)"

text \<open>
  What the driver is to get for the submit \<open>b\<close> after waits on \<open>W\<close>: the waits and the signals that are its own,
  in order, each wait with its stage mask, and the rest unchanged, except that the values of the timelines
  go when no semaphore is left.
\<close>

definition host_submit :: "timelines \<Rightarrow> semaphore set \<Rightarrow> submit \<Rightarrow> submit \<Rightarrow> bool" where
  "host_submit st W b b' \<longleftrightarrow>
     (let waits = filter (host_wait st W (pWaitSemaphores b)) [0..<waitSemaphoreCount b];
          signals = filter (host_signal st (pSignalSemaphores b)) [0..<signalSemaphoreCount b]
      in submit_waits b' = map ((!) (pWaitSemaphores b)) waits \<and>
         map_option (take (waitSemaphoreCount b')) (pWaitDstStageMask b') =
           map_option (\<lambda>ms. map ((!) ms) waits) (pWaitDstStageMask b) \<and>
         take (signalSemaphoreCount b') (pSignalSemaphores b') = map ((!) (pSignalSemaphores b)) signals \<and>
         waitSemaphoreCount b' = length waits \<and> signalSemaphoreCount b' = length signals \<and>
         commandBufferCount b' = commandBufferCount b \<and>
         pNext b' = (if waits = [] \<and> signals = []
           then removeNextVkStructure TIMELINE_SEMAPHORE_SUBMIT_INFO (pNext b) else pNext b))"

lemma compacted_masks:
  assumes "rel_option (compacted K n) ms0 ms"
  shows "map_option (take (length (filter K [0..<n]))) ms = map_option (\<lambda>ms. map ((!) ms) (filter K [0..<n])) ms0"
  using assms by (cases ms0; cases ms) (simp_all add: compacted_def)

lemma masks_none: "rel_option R ms0 ms \<Longrightarrow> map_option (\<lambda>_. c) ms = map_option (\<lambda>_. c) ms0"
  by (cases ms0; cases ms) simp_all

lemma filter_submit_spec:
  assumes "arrays_ok b" "distinct (rpcSignaled st)" "length (pendingSubmit st) \<le> MAX_PENDING_SUBMIT_SIGNALS"
  shows "\<exists>b' st'. filter_submit b st = Some (b', st') \<and> host_submit st {} b b' \<and>
    emulatedTimelines st' = emulatedTimelines st \<and> rpc_left st (submit_waits b) (rpcSignaled st') \<and>
    pendingSubmit st' = take MAX_PENDING_SUBMIT_SIGNALS (pendingSubmit st @ emulated_signals st b)"
proof -
  let ?K = "host_wait st {} (pWaitSemaphores b)" and ?S = "host_signal st (pSignalSemaphores b)"
  let ?n = "waitSemaphoreCount b" and ?m = "signalSemaphoreCount b"
  have "waits_seen b st 0 b st"
    using assms(2) by (simp add: waits_seen_def same_rest_def rpc_left_def option.rel_refl)
  from filter_waits_loop [OF this le0, of ?n 0] assms(1)
  obtain c u where c: "filter_waits [0..<?n] 0 b st = Some (c, u)" "waits_seen b st ?n c u"
    "waitSemaphoreCount c = length (filter ?K [0..<?n])" by (auto simp: arrays_ok_def)
  have u: "st\<lparr>rpcSignaled := rpcSignaled u\<rparr> = u" and left: "rpc_left st (submit_waits b) (rpcSignaled u)"
    and same: "pNext c = pNext b" "commandBufferCount c = commandBufferCount b" "signalSemaphoreCount c = ?m"
      "pSignalSemaphores c = pSignalSemaphores b"
    and ws: "compacted ?K ?n (pWaitSemaphores b) (pWaitSemaphores c)"
      "rel_option (compacted ?K ?n) (pWaitDstStageMask b) (pWaitDstStageMask c)"
    using c(2) unfolding waits_seen_def same_rest_def submit_waits_def by blast+
  have find: "emulatedFind s u = emulatedFind s st" "emulated u = emulated st" "host_signal u = host_signal st" for s
    by (subst u [symmetric], simp add: emulated_def host_signal_def fun_eq_iff)+
  have tl: "emulatedTimelines u = emulatedTimelines st" "pendingSubmit u = pendingSubmit st"
    by (subst u [symmetric], simp)+
  let ?info = "findNextVkStructure TIMELINE_SEMAPHORE_SUBMIT_INFO (pNext b)"
  obtain ss where ss: "filter_signals ?info [0..<?m] 0 c u =
      Some (c\<lparr>pSignalSemaphores := ss, signalSemaphoreCount := length (filter ?S [0..<?m])\<rparr>,
        u\<lparr>pendingSubmit := take MAX_PENDING_SUBMIT_SIGNALS (pendingSubmit st @ emulated_signals st b)\<rparr>)"
    "compacted ?S ?m (pSignalSemaphores b) ss"
    using filter_signals_loop [of u "pSignalSemaphores b" 0 c ?m 0 u "pendingSubmit st" ?info] assms(1,3)
    by (auto simp: find same arrays_ok_def tl emulated_signals_def simp del: take_append)
  let ?d = "c\<lparr>pSignalSemaphores := ss, signalSemaphoreCount := length (filter ?S [0..<?m])\<rparr>"
  let ?b = "if waitSemaphoreCount ?d = 0 \<and> signalSemaphoreCount ?d = 0
       then ?d\<lparr>pNext := removeNextVkStructure TIMELINE_SEMAPHORE_SUBMIT_INFO (pNext ?d)\<rparr> else ?d"
  have "host_submit st {} b ?b"
    using ws ss(2) c(3) same compacted_masks [OF ws(2)] masks_none [OF ws(2), of "[] :: u32 list"]
    by (simp add: host_submit_def submit_waits_def compacted_def Let_def)
  moreover have "filter_submit b st = Some (?b,
      u\<lparr>pendingSubmit := take MAX_PENDING_SUBMIT_SIGNALS (pendingSubmit st @ emulated_signals st b)\<rparr>)"
    using c(1) ss(1) same by (simp add: filter_submit_def del: take_append)
  ultimately show ?thesis using left tl by (auto simp del: take_append)
qed

fun host_batch :: "timelines \<Rightarrow> semaphore set \<Rightarrow> submit list \<Rightarrow> submit list \<Rightarrow> bool" where
  "host_batch st W [] bs' = (bs' = [])"
| "host_batch st W (b # bs) (b' # bs') = (host_submit st W b b' \<and> host_batch st (W \<union> set (submit_waits b)) bs bs')"
| "host_batch st W (b # bs) [] = False"

definition batch_signals :: "timelines \<Rightarrow> submit list \<Rightarrow> (semaphore \<times> u64) list" where
  "batch_signals st bs = take MAX_PENDING_SUBMIT_SIGNALS (pendingSubmit st @ concat (map (emulated_signals st) bs))"

lemma emulated_cong: "emulatedTimelines u = emulatedTimelines st \<Longrightarrow> emulated u = emulated st"
  by (simp add: emulated_def emulatedFind_def fun_eq_iff)

lemma host_batch_later:
  assumes "emulatedTimelines u = emulatedTimelines st" "rpc_left st ws (rpcSignaled u)"
  shows "host_batch u W bs bs' = host_batch st (W \<union> set ws) bs bs'"
proof -
  have emu: "emulated u = emulated st" by (rule emulated_cong [OF assms(1)])
  have "host_wait u W xs i = host_wait st (W \<union> set ws) xs i" for W xs i
    using assms(2) by (auto simp: host_wait_def emu rpc_left_def)
  then have "host_wait u W = host_wait st (W \<union> set ws)" for W by (simp add: fun_eq_iff)
  moreover have "host_signal u = host_signal st" by (simp add: host_signal_def emu fun_eq_iff)
  ultimately have submit: "host_submit u W b b' = host_submit st (W \<union> set ws) b b'" for W b b'
    by (simp only: host_submit_def)
  show ?thesis
  proof (induction bs arbitrary: W bs')
    case (Cons b bs)
    then show ?case by (cases bs') (simp_all add: submit Un_commute Un_left_commute Un_assoc)
  qed simp
qed

lemma take_prefix_append: "take k (take k xs @ ys) = take k (xs @ ys)"
  by (cases "k \<le> length xs") auto

lemma filterSubmits_spec:
  assumes "distinct (rpcSignaled st)" "length (pendingSubmit st) \<le> MAX_PENDING_SUBMIT_SIGNALS" "\<forall>b\<in>set bs. arrays_ok b"
  shows "\<exists>hostWork bs' st'. TimelineSemaphore_filterSubmits bs st = Some (hostWork, bs', st') \<and>
    host_batch st {} bs bs' \<and> (hostWork \<longleftrightarrow> (\<exists>b\<in>set bs'. has_work b)) \<and>
    emulatedTimelines st' = emulatedTimelines st \<and> rpc_left st (concat (map submit_waits bs)) (rpcSignaled st') \<and>
    pendingSubmit st' = batch_signals st bs"
  using assms
proof (induction bs arbitrary: st)
  case Nil
  then show ?case by (auto simp: rpc_left_def batch_signals_def)
next
  case (Cons b bs)
  obtain c u where c: "filter_submit b st = Some (c, u)" "host_submit st {} b c"
    "emulatedTimelines u = emulatedTimelines st" "rpc_left st (submit_waits b) (rpcSignaled u)"
    "pendingSubmit u = take MAX_PENDING_SUBMIT_SIGNALS (pendingSubmit st @ emulated_signals st b)"
    using filter_submit_spec [of b st] Cons.prems by auto
  have "distinct (rpcSignaled u)" "length (pendingSubmit u) \<le> MAX_PENDING_SUBMIT_SIGNALS"
    using c(4,5) by (auto simp: rpc_left_def simp del: take_append)
  from Cons.IH [OF this] Cons.prems(3) obtain hw cs v where v: "TimelineSemaphore_filterSubmits bs u = Some (hw, cs, v)"
    "host_batch u {} bs cs" "hw \<longleftrightarrow> (\<exists>b\<in>set cs. has_work b)" "emulatedTimelines v = emulatedTimelines u"
    "rpc_left u (concat (map submit_waits bs)) (rpcSignaled v)" "pendingSubmit v = batch_signals u bs" by auto
  have emu: "emulated u = emulated st" by (rule emulated_cong [OF c(3)])
  have "emulated_signals u = emulated_signals st" by (simp add: fun_eq_iff emulated_signals_def emu)
  then have "pendingSubmit v = batch_signals st (b # bs)"
    using v(6) by (simp add: batch_signals_def c(5) take_prefix_append del: take_append)
  moreover have "rpc_left st (concat (map submit_waits (b # bs))) (rpcSignaled v)"
    using v(5) c(4) by (auto simp: rpc_left_def emu)
  moreover have "host_batch st {} (b # bs) (c # cs)"
    using c(2) v(2) by (simp add: host_batch_later [OF c(3,4)])
  ultimately show ?case using c(1,3) v(1,3,4) by simp
qed

section \<open>Values of timelines\<close>

definition counter :: "timelines \<Rightarrow> semaphore \<Rightarrow> u64 option" where
  "counter st s = (case emulatedFind s st of None \<Rightarrow> None | Some p \<Rightarrow> map_option tl_value (at_ptr p st))"

lemma find_in_upd: "find_in (map (\<lambda>(q, t). (q, if q = p then t\<lparr>tl_value := f (tl_value t)\<rparr> else t)) ts) s = find_in ts s"
  by (induction ts) auto

lemma emulatedFind_upd [simp]: "emulatedFind s (upd_timeline p f st) = emulatedFind s st"
  by (simp add: emulatedFind_def upd_timeline_def find_in_upd)

lemma find_in_SomeD: "find_in ts s = Some p \<Longrightarrow> \<exists>t. (p, t) \<in> set ts \<and> tl_semaphore t = s"
  by (induction ts) (auto split: if_splits)

lemma emulatedFind_inj:
  assumes "distinct (map fst (emulatedTimelines st))" "emulatedFind s st = Some p" "emulatedFind t st = Some p"
  shows "s = t"
proof -
  obtain a b where "(p, a) \<in> set (emulatedTimelines st)" "tl_semaphore a = s" "(p, b) \<in> set (emulatedTimelines st)" "tl_semaphore b = t"
    using find_in_SomeD [OF assms(2) [unfolded emulatedFind_def]] find_in_SomeD [OF assms(3) [unfolded emulatedFind_def]] by blast
  then show ?thesis using eq_key_imp_eq_value [OF assms(1), of p a b] by simp
qed

lemma at_ptr_upd: "at_ptr q (upd_timeline p f st) =
   (if q = p then map_option (\<lambda>t. t\<lparr>tl_value := f (tl_value t)\<rparr>) (at_ptr q st) else at_ptr q st)"
proof -
  have m: "map_of (map (\<lambda>(r, t). (r, if r = p then t\<lparr>tl_value := f (tl_value t)\<rparr> else t)) ts) q =
      (if q = p then map_option (\<lambda>t. t\<lparr>tl_value := f (tl_value t)\<rparr>) (map_of ts q) else map_of ts q)" for ts
    by (induction ts) auto
  show ?thesis by (simp add: at_ptr_def upd_timeline_def m)
qed

lemma counter_upd:
  assumes "distinct (map fst (emulatedTimelines st))" "emulatedFind s st = Some p"
  shows "counter (upd_timeline p f st) = (counter st)(s := map_option f (counter st s))"
proof
  fix t
  show "counter (upd_timeline p f st) t = ((counter st)(s := map_option f (counter st s))) t"
  proof (cases "t = s")
    case True
    then show ?thesis using assms(2) by (simp add: counter_def at_ptr_upd option.map_comp comp_def)
  next
    case False
    then have "emulatedFind t st \<noteq> Some p" using emulatedFind_inj [OF assms] by blast
    then show ?thesis using False by (simp add: counter_def at_ptr_upd split: option.split)
  qed
qed

lemma counter_None: "counter st s = None \<Longrightarrow> distinct (map fst (emulatedTimelines st)) \<Longrightarrow> emulatedFind s st = None"
  using find_in_SomeD [of "emulatedTimelines st" s]
  by (fastforce simp: counter_def emulatedFind_def at_ptr_def split: option.splits)

lemma upd_keys [simp]:
  "map fst (emulatedTimelines (upd_timeline p f st)) = map fst (emulatedTimelines st)"
  "map (tl_semaphore \<circ> snd) (emulatedTimelines (upd_timeline p f st)) = map (tl_semaphore \<circ> snd) (emulatedTimelines st)"
  "pendingSubmit (upd_timeline p f st) = pendingSubmit st" "rpcSignaled (upd_timeline p f st) = rpcSignaled st"
  by (auto simp: upd_timeline_def)

definition raised :: "(semaphore \<times> u64) list \<Rightarrow> semaphore \<Rightarrow> u64 \<Rightarrow> u64" where
  "raised svs s v = Max (insert v {w. (s, w) \<in> set svs})"

lemma raised_simps [simp]:
  "raised [] s v = v"
  "raised ((t, w) # svs) s v = raised svs s (if t = s \<and> v < w then w else v)"
proof -
  show "raised [] s v = v" by (simp add: raised_def)
  have fin: "finite {w. (s, w) \<in> set svs}" using finite_set [of "map snd svs"] by (rule finite_subset [rotated]) force
  have "{x. (s, x) \<in> set ((t, w) # svs)} = (if t = s then insert w {w. (s, w) \<in> set svs} else {w. (s, w) \<in> set svs})"
    by auto
  then show "raised ((t, w) # svs) s v = raised svs s (if t = s \<and> v < w then w else v)"
    using fin by (cases "{w. (s, w) \<in> set svs} = {}") (auto simp: raised_def max_def)
qed

lemma counter_cong: "emulatedTimelines u = emulatedTimelines st \<Longrightarrow> counter u = counter st"
  by (rule ext) (simp add: counter_def emulatedFind_def at_ptr_def split: option.split)

text \<open>What signalling \<open>svs\<close> one by one makes of the timelines and the driver.\<close>

definition signalled :: "(semaphore \<times> u64) list \<Rightarrow> timelines \<Rightarrow> 'h \<Rightarrow> timelines \<Rightarrow> 'h \<Rightarrow> bool" where
  "signalled svs st h st' h' \<longleftrightarrow> (\<forall>s. counter st' s = map_option (raised svs s) (counter st s)) \<and>
    emulated st' = emulated st \<and> map fst (emulatedTimelines st') = map fst (emulatedTimelines st) \<and>
    map (tl_semaphore \<circ> snd) (emulatedTimelines st') = map (tl_semaphore \<circ> snd) (emulatedTimelines st) \<and>
    pendingSubmit st' = pendingSubmit st \<and> rpcSignaled st' = rpcSignaled st \<and>
    ((\<forall>(s, v)\<in>set svs. emulated st s) \<longrightarrow> h' = h)"

lemma signal_all_spec:
  assumes "distinct (map fst (emulatedTimelines st))" "signal_all D svs (st, h) = (st', h')"
  shows "signalled svs st h st' h'"
  using assms
proof (induction svs arbitrary: st h)
  case Nil
  then show ?case by (simp add: signalled_def option.map_ident_strong)
next
  case (Cons sv svs)
  obtain s v where sv: "sv = (s, v)" by fastforce
  show ?case
  proof (cases "emulatedFind s st")
    case None
    obtain r h1 where h1: "vkSignalSemaphore D s v h = (r, h1)" by fastforce
    have "signalled svs st h1 st' h'"
      using Cons.IH [OF Cons.prems(1)] Cons.prems(2) None h1 by (simp add: sv TimelineSemaphore_signal_def)
    moreover have "map_option (raised (sv # svs) t) (counter st t) = map_option (raised svs t) (counter st t)" for t
      using None by (cases "t = s"; cases "counter st t") (auto simp: sv counter_def)
    moreover have "\<not> emulated st s" using None by (simp add: emulated_def)
    ultimately show ?thesis by (simp add: signalled_def sv del: raised_simps)
  next
    case (Some p)
    let ?u = "upd_timeline p (\<lambda>old. if v > old then v else old) st"
    have "signalled svs ?u h st' h'"
      using Cons.IH [of ?u] Cons.prems Some by (simp add: sv TimelineSemaphore_signal_def)
    moreover have "map_option (raised svs t) (counter ?u t) = map_option (raised (sv # svs) t) (counter st t)" for t
      by (cases "t = s"; cases "counter st t") (auto simp: sv counter_upd [OF Cons.prems(1) Some])
    moreover have "emulated ?u = emulated st" by (simp add: emulated_def fun_eq_iff)
    ultimately show ?thesis by (simp add: signalled_def sv)
  qed
qed

lemma flush_spec:
  assumes "distinct (map fst (emulatedTimelines st))" "TimelineSemaphore_flushSubmitSignals D (st, h) = (st', h')"
  shows "signalled (pendingSubmit st) (st\<lparr>pendingSubmit := []\<rparr>) h st' h'"
  using signal_all_spec [of "st\<lparr>pendingSubmit := []\<rparr>" D "pendingSubmit st" h] assms
  by (simp add: TimelineSemaphore_flushSubmitSignals_def)

lemma filtered_ok:
  assumes "timelines_ok st" "emulatedTimelines u = emulatedTimelines st" "rpc_left st ws (rpcSignaled u)"
    "pendingSubmit u = batch_signals st bs"
  shows "timelines_ok u"
proof -
  have "card (set (rpcSignaled u)) \<le> card (set (rpcSignaled st))"
    using assms(3) by (intro card_mono) (auto simp: rpc_left_def)
  moreover have "distinct (rpcSignaled u)" using assms(3) by (simp add: rpc_left_def)
  ultimately have "length (rpcSignaled u) \<le> length (rpcSignaled st)"
    using assms(1) by (simp add: timelines_ok_def distinct_card)
  then show ?thesis using assms by (simp add: timelines_ok_def rpc_left_def batch_signals_def del: take_append)
qed

section \<open>Submitting\<close>

definition demo_timelines :: timelines where
  "demo_timelines = \<lparr>emulatedTimelines = [(0x1000, \<lparr>tl_semaphore = 7, tl_value = 3\<rparr>)],
     pendingSubmit = [], rpcSignaled = [9]\<rparr>"

definition demo_submit :: submit where
  "demo_submit = \<lparr>pNext = [OtherStructure 5, TimelineSemaphoreSubmitInfo [4, 5]], waitSemaphoreCount = 4,
     pWaitSemaphores = [9, 7, 8, 9], pWaitDstStageMask = Some [1, 2, 3, 4], commandBufferCount = 0,
     signalSemaphoreCount = 2, pSignalSemaphores = [6, 7]\<rparr>"

lemma demo_timelines_ok: "timelines_ok demo_timelines \<and> arrays_ok demo_submit"
  by (simp add: timelines_ok_def demo_timelines_def demo_submit_def arrays_ok_def
    MAX_PENDING_SUBMIT_SIGNALS_def MAX_RPC_SIGNALED_def)

text \<open>
C25: Filtering a batch of submits never reads outside its arrays. The driver gets, for each submit and in
  order, exactly the waits and signals that are its own: no emulated semaphore, and of a semaphore that the
  renderer itself has signalled not the first wait. Every wait keeps its stage mask. There is work for the
  driver exactly when a submit has semaphores or command buffers left, and the emulated signals are
  remembered with their values, the first 32 of them.
\<close>
theorem filtered_submits:
  assumes "timelines_ok st" "\<forall>b\<in>set bs. arrays_ok b"
  shows "\<exists>hostWork bs' st'. TimelineSemaphore_filterSubmits bs st = Some (hostWork, bs', st') \<and>
    host_batch st {} bs bs' \<and> (hostWork \<longleftrightarrow> (\<exists>b\<in>set bs'. has_work b)) \<and>
    (\<forall>b\<in>set bs'. \<forall>s\<in>set (submit_waits b). s = 0 \<or> \<not> emulated st s) \<and>
    pendingSubmit st' = batch_signals st bs \<and> timelines_ok st'"
proof -
  obtain hw bs' st' where f: "TimelineSemaphore_filterSubmits bs st = Some (hw, bs', st')" "host_batch st {} bs bs'"
    "hw \<longleftrightarrow> (\<exists>b\<in>set bs'. has_work b)" "emulatedTimelines st' = emulatedTimelines st"
    "rpc_left st (concat (map submit_waits bs)) (rpcSignaled st')" "pendingSubmit st' = batch_signals st bs"
    using filterSubmits_spec [of st bs] assms by (auto simp: timelines_ok_def)
  have "\<forall>b\<in>set bs'. \<forall>s\<in>set (submit_waits b). s = 0 \<or> \<not> emulated st s" if "host_batch st W bs bs'" for W
    using that
  proof (induction st W bs bs' rule: host_batch.induct)
    case (2 st W b bs b' bs')
    have "\<forall>s\<in>set (submit_waits b'). s = 0 \<or> \<not> emulated st s"
      using 2(2) by (auto simp: host_submit_def Let_def host_wait_def)
    then show ?case using 2 by simp
  qed simp_all
  moreover have "timelines_ok st'" by (rule filtered_ok [OF assms(1) f(4,5,6)])
  ultimately show ?thesis using f by blast
qed

theorem filtered_submits_witness:
  "TimelineSemaphore_filterSubmits [demo_submit] demo_timelines \<noteq> None"
  using filtered_submits [of demo_timelines "[demo_submit]"] demo_timelines_ok by auto


definition demo_driver :: "nat driver" where
  "demo_driver = \<lparr>vkCreateSemaphore = (\<lambda>_ h. (0, of_nat h, Suc h)), vkDestroySemaphore = (\<lambda>_ h. h),
     vkSignalSemaphore = (\<lambda>_ _ h. (0, h)), vkGetSemaphoreCounterValue = (\<lambda>_ h. (0, 0, h)),
     vkQueueSubmit = (\<lambda>_ _ h. (0, h)), vkQueueSubmit2 = (\<lambda>_ _ h. (0, h)), vkWaitSemaphores = (\<lambda>_ _ h. (0, h))\<rparr>"


end
