(* ===== verification/TimelineWaits.thy ===== *)
theory TimelineWaits
  imports Timelines
begin

text \<open>
  Waits for emulated timelines, \<open>waitSemaphoresThread\<close> of \<open>vortekrenderer/src/timeline_semaphore.c\<close>: threads
  that sleep on the condition variable of a timeline while others signal, create and destroy timelines.
\<close>

section \<open>The thread\<close>

text \<open>
  \<open>waitSemaphoresThread\<close> between its accesses to what is shared: before the test whether all semaphores are
  emulated, before the lookup of semaphore \<open>i\<close>, before the test of the value at \<open>p\<close>, asleep on its
  condition variable, behind the write to the event descriptor.
\<close>

datatype wait_phase = Starting | Lookup nat | Testing nat nat | Asleep nat nat | Notified u64

record waiter =
  wanted :: "(semaphore \<times> u64) list"
  wtimeout :: u64
  phase :: wait_phase

definition notify_value :: "int \<Rightarrow> u64" where
  "notify_value result = (if result = VK_SUCCESS then 1 else if result = VK_ERROR_DEVICE_LOST then 2 else 3)"

definition all_emulated :: "timelines \<Rightarrow> (semaphore \<times> u64) list \<Rightarrow> bool" where
  "all_emulated st svs \<longleftrightarrow> 0 < length svs \<and> (\<forall>(s, v)\<in>set svs. emulatedFind s st \<noteq> None)"

text \<open>The next step of the thread; \<open>None\<close> when it is asleep or ended, or follows a dangling pointer.\<close>

definition waitSemaphoresThread :: "'h driver \<Rightarrow> waiter \<Rightarrow> timelines \<times> 'h \<Rightarrow> (wait_phase \<times> 'h) option" where
  "waitSemaphoresThread D w = (\<lambda>(st, h). case phase w of
      Starting \<Rightarrow>
        if all_emulated st (wanted w) then Some (Lookup 0, h)
        else (case vkWaitSemaphores D (wanted w) (wtimeout w) h of (result, h) \<Rightarrow> Some (Notified (notify_value result), h))
    | Lookup i \<Rightarrow>
        if i < length (wanted w) then
          (case emulatedFind (fst (wanted w ! i)) st of
            None \<Rightarrow> Some (Notified (notify_value VK_ERROR_DEVICE_LOST), h)
          | Some p \<Rightarrow> Some (Testing i p, h))
        else Some (Notified (notify_value VK_SUCCESS), h)
    | Testing i p \<Rightarrow> do {
        t \<leftarrow> at_ptr p st;
        Some (if tl_value t < snd (wanted w ! i) then Asleep i p else Lookup (i + 1), h)
      }
    | Asleep i p \<Rightarrow> None
    | Notified v \<Rightarrow> None)"

definition TimelineSemaphore_asyncWait :: "(semaphore \<times> u64) list \<Rightarrow> u64 \<Rightarrow> waiter" where
  "TimelineSemaphore_asyncWait svs t = \<lparr>wanted = svs, wtimeout = t, phase = Starting\<rparr>"

definition broadcast :: "nat \<Rightarrow> waiter \<Rightarrow> waiter" where
  "broadcast p w = (case phase w of Asleep i q \<Rightarrow> if q = p then w\<lparr>phase := Testing i q\<rparr> else w | _ \<Rightarrow> w)"

record 'h wait_sys =
  tls :: timelines
  drv :: 'h
  waiters :: "waiter list"

definition waits_for :: "waiter \<Rightarrow> semaphore \<Rightarrow> bool" where
  "waits_for w s \<longleftrightarrow> (case phase w of Notified _ \<Rightarrow> False | _ \<Rightarrow> s \<in> fst ` set (wanted w))"

text \<open>
  The steps of the renderer: semaphores are created and, as Vulkan demands, destroyed when nobody waits for
  them any more; submits are filtered; the pending signals are taken and, like those of clients, signalled
  one at a time; waits begin and go on, and sleepers may wake up unasked.
\<close>

inductive wait_sys_step :: "'h driver \<Rightarrow> 'h wait_sys \<Rightarrow> 'h wait_sys \<Rightarrow> bool" for D where
  create: "\<lbrakk>p \<notin> fst ` set (emulatedTimelines (tls c)); \<not> emulated (tls c) s\<rbrakk> \<Longrightarrow>
    wait_sys_step D c (c\<lparr>tls := emulatedRegister (Some p) s initial (tls c), drv := h\<rparr>)"
| destroy: "\<forall>w\<in>set (waiters c). \<not> waits_for w s \<Longrightarrow>
    wait_sys_step D c (c\<lparr>tls := emulatedUnregister s (tls c), drv := h\<rparr>)"
| filter: "TimelineSemaphore_filterSubmits bs (tls c) = Some (hostWork, bs', st) \<Longrightarrow>
    \<forall>b\<in>set bs. arrays_ok b \<Longrightarrow> wait_sys_step D c (c\<lparr>tls := st, drv := h\<rparr>)"
| take_pending: "wait_sys_step D c (c\<lparr>tls := (tls c)\<lparr>pendingSubmit := []\<rparr>\<rparr>)"
| signal: "\<lbrakk>emulatedFind s (tls c) = Some p; TimelineSemaphore_signal D s v (tls c, drv c) = (result, st, h)\<rbrakk> \<Longrightarrow>
    wait_sys_step D c (c\<lparr>tls := st, drv := h, waiters := map (broadcast p) (waiters c)\<rparr>)"
| host_signal: "\<lbrakk>\<not> emulated (tls c) s; TimelineSemaphore_signal D s v (tls c, drv c) = (result, st, h)\<rbrakk> \<Longrightarrow>
    wait_sys_step D c (c\<lparr>tls := st, drv := h\<rparr>)"
| begin_wait: "wait_sys_step D c (c\<lparr>waiters := waiters c @ [TimelineSemaphore_asyncWait svs t]\<rparr>)"
| go_on: "\<lbrakk>i < length (waiters c); waitSemaphoresThread D (waiters c ! i) (tls c, drv c) = Some (f, h)\<rbrakk> \<Longrightarrow>
    wait_sys_step D c (c\<lparr>drv := h, waiters := (waiters c)[i := (waiters c ! i)\<lparr>phase := f\<rparr>]\<rparr>)"
| spurious: "\<lbrakk>i < length (waiters c); phase (waiters c ! i) = Asleep j p\<rbrakk> \<Longrightarrow>
    wait_sys_step D c (c\<lparr>waiters := (waiters c)[i := (waiters c ! i)\<lparr>phase := Testing j p\<rparr>]\<rparr>)"

definition wait_sys_start :: "'h \<Rightarrow> 'h wait_sys" where
  "wait_sys_start h = \<lparr>tls = \<lparr>emulatedTimelines = [], pendingSubmit = [], rpcSignaled = []\<rparr>, drv = h, waiters = []\<rparr>"

section \<open>No wakeup is lost\<close>

definition reached :: "timelines \<Rightarrow> semaphore \<times> u64 \<Rightarrow> bool" where
  "reached st sv \<longleftrightarrow> (\<exists>c. counter st (fst sv) = Some c \<and> snd sv \<le> c)"

definition at_index :: "timelines \<Rightarrow> waiter \<Rightarrow> nat \<Rightarrow> bool" where
  "at_index st w i \<longleftrightarrow> i \<le> length (wanted w) \<and> (\<forall>sv\<in>set (wanted w). counter st (fst sv) \<noteq> None) \<and>
     (\<forall>j<i. reached st (wanted w ! j))"

definition waiter_ok :: "timelines \<Rightarrow> waiter \<Rightarrow> bool" where
  "waiter_ok st w \<longleftrightarrow> (case phase w of
      Lookup i \<Rightarrow> at_index st w i
    | Testing i p \<Rightarrow> i < length (wanted w) \<and> at_index st w i \<and> emulatedFind (fst (wanted w ! i)) st = Some p
    | Asleep i p \<Rightarrow> i < length (wanted w) \<and> at_index st w i \<and> emulatedFind (fst (wanted w ! i)) st = Some p \<and>
        \<not> reached st (wanted w ! i)
    | _ \<Rightarrow> True)"

definition wait_inv :: "'h wait_sys \<Rightarrow> bool" where
  "wait_inv c \<longleftrightarrow> timelines_ok (tls c) \<and> (\<forall>w\<in>set (waiters c). waiter_ok (tls c) w)"

lemma at_index_phase [simp]: "at_index st (w\<lparr>phase := f\<rparr>) i = at_index st w i"
  by (simp add: at_index_def)

text \<open>A change of the timelines after which each wait is as near to its end as before.\<close>

definition kept_for :: "timelines \<Rightarrow> timelines \<Rightarrow> waiter \<Rightarrow> bool" where
  "kept_for st st' w \<longleftrightarrow> (\<forall>s\<in>fst ` set (wanted w). emulatedFind s st' = emulatedFind s st \<and> counter st' s = counter st s)"

lemma waiter_ok_kept:
  assumes "waiter_ok st w" "kept_for st st' w \<or> phase w = Starting \<or> (\<exists>v. phase w = Notified v)"
  shows "waiter_ok st' w"
proof -
  have same: "at_index st' w i = at_index st w i" "i < length (wanted w) \<Longrightarrow> reached st' (wanted w ! i) = reached st (wanted w ! i)"
    if "kept_for st st' w" for i
    using that unfolding kept_for_def at_index_def reached_def by (auto dest: nth_mem)
  show ?thesis
    using assms same by (auto simp: waiter_ok_def kept_for_def split: wait_phase.splits)
qed

lemma find_in_distinct:
  assumes "(p, t) \<in> set ts" "distinct (map (tl_semaphore \<circ> snd) ts)"
  shows "find_in ts (tl_semaphore t) = Some p"
  using assms by (induction ts) (auto simp: rev_image_eqI)

lemma counter_emulated:
  assumes "timelines_ok st" "emulatedFind s st = Some p"
  shows "\<exists>t. at_ptr p st = Some t \<and> counter st s = Some (tl_value t)"
proof -
  obtain t where "(p, t) \<in> set (emulatedTimelines st)"
    using find_in_SomeD assms(2) unfolding emulatedFind_def by blast
  then have "at_ptr p st = Some t" using assms(1) by (simp add: at_ptr_def timelines_ok_def)
  then show ?thesis using assms(2) by (simp add: counter_def)
qed

lemma counter_emulated_iff: "timelines_ok st \<Longrightarrow> counter st s \<noteq> None \<longleftrightarrow> emulated st s"
  using counter_emulated [of st s] by (cases "emulatedFind s st") (auto simp: emulated_def counter_def)

lemma find_in_append: "find_in (ts @ us) s = (case find_in ts s of None \<Rightarrow> find_in us s | Some p \<Rightarrow> Some p)"
  by (induction ts) auto

lemma find_in_None: "find_in ts s = None \<longleftrightarrow> s \<notin> (tl_semaphore \<circ> snd) ` set ts"
proof -
  have "find_in ts s = None \<longleftrightarrow> (\<forall>(p, t)\<in>set ts. tl_semaphore t \<noteq> s)"
    by (induction ts) (auto split: if_splits)
  then show ?thesis by (auto simp: image_iff)
qed

lemma register_ok:
  assumes "timelines_ok st" "p \<notin> fst ` set (emulatedTimelines st)" "\<not> emulated st s"
  shows "timelines_ok (emulatedRegister (Some p) s v st)"
    and "counter st t \<noteq> None \<Longrightarrow> emulatedFind t (emulatedRegister (Some p) s v st) = emulatedFind t st \<and>
      counter (emulatedRegister (Some p) s v st) t = counter st t"
proof -
  show "timelines_ok (emulatedRegister (Some p) s v st)"
    using assms by (auto simp: timelines_ok_def emulatedRegister_def emulated_def emulatedFind_def find_in_None image_comp)
  assume c: "counter st t \<noteq> None"
  then obtain q where q: "emulatedFind t st = Some q" by (auto simp: counter_def split: option.splits)
  then have "at_ptr q (emulatedRegister (Some p) s v st) = at_ptr q st"
    using counter_emulated [OF assms(1) q] by (auto simp: at_ptr_def emulatedRegister_def map_add_def)
  moreover have "emulatedFind t (emulatedRegister (Some p) s v st) = Some q"
    using q by (simp add: emulatedFind_def emulatedRegister_def find_in_append)
  ultimately show "emulatedFind t (emulatedRegister (Some p) s v st) = emulatedFind t st \<and>
      counter (emulatedRegister (Some p) s v st) t = counter st t"
    using q by (simp add: counter_def)
qed

lemma unregister_in_other:
  assumes "distinct (map fst ts)" "t \<noteq> s"
  shows "find_in (unregister_in ts s) t = find_in ts t"
    and "find_in ts t = Some p \<Longrightarrow> map_of (unregister_in ts s) p = map_of ts p"
proof -
  show "find_in (unregister_in ts s) t = find_in ts t"
    using assms(2) by (induction ts s rule: unregister_in.induct) auto
  show "find_in ts t = Some p \<Longrightarrow> map_of (unregister_in ts s) p = map_of ts p"
    using assms
  proof (induction ts s rule: unregister_in.induct)
    case (2 q u ts s)
    show ?case
    proof (cases "tl_semaphore u = t")
      case True
      then show ?thesis using 2 by simp
    next
      case False
      then have "find_in ts t = Some p" using 2(2) by simp
      moreover from this have "p \<noteq> q" using 2(3) find_in_SomeD [of ts t p] by (auto simp: rev_image_eqI)
      ultimately show ?thesis using 2(1,3,4) by auto
    qed
  qed simp
qed

lemma unregister_subset: "set (unregister_in ts s) \<subseteq> set ts"
  "distinct (map f ts) \<Longrightarrow> distinct (map f (unregister_in ts s))"
proof -
  show sub: "set (unregister_in ts s) \<subseteq> set ts" for ts s by (induction ts s rule: unregister_in.induct) auto
  show "distinct (map f ts) \<Longrightarrow> distinct (map f (unregister_in ts s))"
  proof (induction ts s rule: unregister_in.induct)
    case (2 p t ts s)
    have "f (p, t) \<notin> f ` set (unregister_in ts s)" using image_mono [OF sub [of ts s], of f] 2(2) by auto
    then show ?case using 2 by simp
  qed simp
qed

lemma unregister_ok:
  assumes "timelines_ok st"
  shows "timelines_ok (emulatedUnregister s st)"
    and "t \<noteq> s \<Longrightarrow> emulatedFind t (emulatedUnregister s st) = emulatedFind t st \<and>
      counter (emulatedUnregister s st) t = counter st t"
proof -
  show "timelines_ok (emulatedUnregister s st)"
    using assms by (simp add: timelines_ok_def emulatedUnregister_def unregister_subset)
  assume ne: "t \<noteq> s"
  have d: "distinct (map fst (emulatedTimelines st))" using assms by (simp add: timelines_ok_def)
  have find: "emulatedFind t (emulatedUnregister s st) = emulatedFind t st"
    using unregister_in_other(1) [OF d ne] by (simp add: emulatedFind_def emulatedUnregister_def)
  moreover have "at_ptr p (emulatedUnregister s st) = at_ptr p st" if "emulatedFind t st = Some p" for p
    using unregister_in_other(2) [OF d ne, of p] that by (simp add: emulatedFind_def at_ptr_def emulatedUnregister_def)
  ultimately show "emulatedFind t (emulatedUnregister s st) = emulatedFind t st \<and>
      counter (emulatedUnregister s st) t = counter st t"
    by (simp add: counter_def split: option.split)
qed

lemma signalled_waiter:
  assumes ok: "timelines_ok st" and p: "emulatedFind s st = Some p" and w: "waiter_ok st w"
    and st': "st' = upd_timeline p (\<lambda>old. if v > old then v else old) st"
  shows "waiter_ok st' (broadcast p w)"
proof -
  have counters: "counter st' = (counter st)(s := map_option (\<lambda>old. if v > old then v else old) (counter st s))"
    using counter_upd [OF _ p] ok st' by (simp add: timelines_ok_def)
  have find: "emulatedFind t st' = emulatedFind t st" for t by (simp add: st')
  have up: "reached st' sv" if "reached st sv" for sv
  proof -
    obtain c where c: "counter st (fst sv) = Some c" "snd sv \<le> c" using \<open>reached st sv\<close> by (auto simp: reached_def)
    have "counter st' (fst sv) = Some (if fst sv = s \<and> v > c then v else c)"
      using c(1) by (cases "fst sv = s") (simp_all add: counters)
    then show ?thesis using c(2) by (auto simp: reached_def)
  qed
  have some: "counter st t \<noteq> None \<Longrightarrow> counter st' t \<noteq> None" for t by (cases "t = s") (auto simp: counters)
  have at: "at_index st w i \<Longrightarrow> at_index st' w i" for i using up some by (auto simp: at_index_def)
  have other: "reached st' sv = reached st sv" if "emulatedFind (fst sv) st \<noteq> Some p" for sv
    using that p by (cases "fst sv = s") (auto simp: reached_def counters)
  show ?thesis
  proof (cases "phase w")
    case (Asleep i q)
    show ?thesis
    proof (cases "q = p")
      case True
      then show ?thesis using w at Asleep by (simp add: waiter_ok_def broadcast_def find)
    next
      case False
      then have "reached st' (wanted w ! i) = reached st (wanted w ! i)"
        using w Asleep other by (simp add: waiter_ok_def)
      then show ?thesis using w at Asleep False by (simp add: waiter_ok_def broadcast_def find)
    qed
  qed (use w at in \<open>simp_all add: waiter_ok_def broadcast_def find\<close>)
qed

lemma kept_for_counters:
  assumes "waiter_ok st w" "\<And>t. counter st t \<noteq> None \<Longrightarrow> t \<in> fst ` set (wanted w) \<Longrightarrow> emulatedFind t st' = emulatedFind t st \<and> counter st' t = counter st t"
  shows "kept_for st st' w \<or> phase w = Starting \<or> (\<exists>v. phase w = Notified v)"
  using assms by (cases "phase w") (auto simp: waiter_ok_def at_index_def kept_for_def)

lemma go_on_ok:
  assumes "timelines_ok st" "waiter_ok st w" "waitSemaphoresThread D w (st, h) = Some (f, h')"
  shows "waiter_ok st (w\<lparr>phase := f\<rparr>)"
proof (cases "phase w")
  case Starting
  have "\<forall>sv\<in>set (wanted w). counter st (fst sv) \<noteq> None" if emu: "all_emulated st (wanted w)"
  proof
    fix sv assume "sv \<in> set (wanted w)"
    then obtain p where "emulatedFind (fst sv) st = Some p" using emu by (fastforce simp: all_emulated_def)
    then show "counter st (fst sv) \<noteq> None" using counter_emulated [OF assms(1)] by auto
  qed
  then show ?thesis using assms(3) Starting
    by (auto simp: waitSemaphoresThread_def waiter_ok_def at_index_def split: if_splits prod.splits)
next
  case (Lookup i)
  then show ?thesis using assms(2,3)
    by (auto simp: waitSemaphoresThread_def waiter_ok_def at_index_def split: if_splits option.splits)
next
  case (Testing i p)
  then have i: "i < length (wanted w)" "at_index st w i" "emulatedFind (fst (wanted w ! i)) st = Some p"
    using assms(2) by (simp_all add: waiter_ok_def)
  obtain t where t: "at_ptr p st = Some t" "counter st (fst (wanted w ! i)) = Some (tl_value t)"
    using counter_emulated [OF assms(1) i(3)] by blast
  have f: "f = (if tl_value t < snd (wanted w ! i) then Asleep i p else Lookup (i + 1))"
    using assms(3) Testing t(1) by (simp add: waitSemaphoresThread_def)
  show ?thesis
  proof (cases "tl_value t < snd (wanted w ! i)")
    case True
    then show ?thesis using i t(2) f by (simp add: waiter_ok_def at_index_def reached_def)
  next
    case False
    then have "reached st (wanted w ! i)" using t(2) by (simp add: reached_def)
    then show ?thesis using i f False by (auto simp: waiter_ok_def at_index_def less_Suc_eq)
  qed
qed (use assms(3) in \<open>simp_all add: waitSemaphoresThread_def\<close>)

lemma wait_inv_start: "wait_inv (wait_sys_start h)"
  by (simp add: wait_inv_def wait_sys_start_def timelines_ok_def)

lemma wait_inv_kept:
  assumes "wait_inv c" "timelines_ok st"
    and "\<And>w t. w \<in> set (waiters c) \<Longrightarrow> waits_for w t \<Longrightarrow> counter (tls c) t \<noteq> None \<Longrightarrow>
      emulatedFind t st = emulatedFind t (tls c) \<and> counter st t = counter (tls c) t"
  shows "wait_inv (c\<lparr>tls := st, drv := h\<rparr>)"
proof -
  have "waiter_ok st w" if w: "w \<in> set (waiters c)" for w
  proof (cases "phase w = Starting \<or> (\<exists>v. phase w = Notified v)")
    case True
    then show ?thesis by (auto simp: waiter_ok_def)
  next
    case False
    then have "\<And>t. t \<in> fst ` set (wanted w) \<Longrightarrow> waits_for w t" by (auto simp: waits_for_def split: wait_phase.split)
    then show ?thesis
      using waiter_ok_kept kept_for_counters [of "tls c" w st] assms(1,3) w by (auto simp: wait_inv_def)
  qed
  then show ?thesis using assms(2) by (simp add: wait_inv_def)
qed

lemma wait_sys_step_inv: "wait_sys_step D c c' \<Longrightarrow> wait_inv c \<Longrightarrow> wait_inv c'"
proof (induction rule: wait_sys_step.induct)
  case (create p c s initial h)
  then have "timelines_ok (tls c)" by (simp add: wait_inv_def)
  from register_ok [OF this create(1,2)] show ?case by (intro wait_inv_kept [OF create(3)]) auto
next
  case (destroy c s h)
  then have "timelines_ok (tls c)" by (simp add: wait_inv_def)
  note u = unregister_ok [OF this]
  show ?case
  proof (rule wait_inv_kept [OF destroy(2) u(1)])
    fix w t assume "w \<in> set (waiters c)" "waits_for w t"
    then have "t \<noteq> s" using destroy(1) by blast
    then show "emulatedFind t (emulatedUnregister s (tls c)) = emulatedFind t (tls c) \<and>
        counter (emulatedUnregister s (tls c)) t = counter (tls c) t" by (rule u(2))
  qed
next
  case (filter bs c hw bs' st h)
  have ok: "timelines_ok (tls c)" using filter(3) by (simp add: wait_inv_def)
  obtain hw bs' u where f: "TimelineSemaphore_filterSubmits bs (tls c) = Some (hw, bs', u)"
    "emulatedTimelines u = emulatedTimelines (tls c)"
    "rpc_left (tls c) (concat (map submit_waits bs)) (rpcSignaled u)" "pendingSubmit u = batch_signals (tls c) bs"
    using filterSubmits_spec [of "tls c" bs] ok filter(2) by (auto simp: timelines_ok_def)
  have "u = st" using f(1) filter(1) by simp
  then show ?case using filtered_ok [OF ok f(2-4)] counter_cong [OF f(2)] f(2)
    by (intro wait_inv_kept [OF filter(3)]) (simp_all add: emulatedFind_def)
next
  case (take_pending c)
  have "counter ((tls c)\<lparr>pendingSubmit := []\<rparr>) = counter (tls c)" by (rule counter_cong) simp
  then have "wait_inv (c\<lparr>tls := (tls c)\<lparr>pendingSubmit := []\<rparr>, drv := drv c\<rparr>)"
    using take_pending by (intro wait_inv_kept) (simp_all add: wait_inv_def timelines_ok_def)
  then show ?case by simp
next
  case (signal s c p v result st h)
  let ?f = "\<lambda>old. if v > old then v else old"
  have st: "st = upd_timeline p ?f (tls c)" using signal(1,2) by (simp add: TimelineSemaphore_signal_def)
  have "timelines_ok st" using signal(3) by (simp add: wait_inv_def timelines_ok_def st)
  then show ?case using signal(3) signalled_waiter [OF _ signal(1) _ st] by (auto simp: wait_inv_def)
next
  case (host_signal c s v result st h)
  then have "st = tls c" by (auto simp: TimelineSemaphore_signal_def emulated_def split: prod.splits)
  then show ?case using host_signal(3) by (simp add: wait_inv_def)
next
  case (begin_wait c svs t)
  then show ?case by (auto simp: wait_inv_def waiter_ok_def TimelineSemaphore_asyncWait_def)
next
  case (go_on i c f h)
  then have "waiter_ok (tls c) ((waiters c ! i)\<lparr>phase := f\<rparr>)"
    using go_on_ok [of "tls c" "waiters c ! i" D "drv c" f h] by (simp add: wait_inv_def)
  then show ?case using go_on(3) by (auto simp: wait_inv_def dest!: subsetD [OF set_update_subset_insert])
next
  case (spurious i c j p)
  then have "waiter_ok (tls c) ((waiters c ! i)\<lparr>phase := Testing j p\<rparr>)"
    by (auto simp: wait_inv_def waiter_ok_def dest!: bspec [of _ _ "waiters c ! i"])
  then show ?case using spurious(3) by (auto simp: wait_inv_def dest!: subsetD [OF set_update_subset_insert])
qed

lemma wait_reachable_inv: "(wait_sys_step D)\<^sup>*\<^sup>* (wait_sys_start h) c \<Longrightarrow> wait_inv c"
  by (induction rule: rtranclp_induct) (auto intro: wait_inv_start wait_sys_step_inv)

text \<open>A thread left alone for \<open>n\<close> steps.\<close>

fun run_wait :: "nat \<Rightarrow> 'h driver \<Rightarrow> waiter \<Rightarrow> timelines \<times> 'h \<Rightarrow> waiter" where
  "run_wait 0 D w c = w"
| "run_wait (Suc n) D w (st, h) = (case waitSemaphoresThread D w (st, h) of
      None \<Rightarrow> w | Some (f, h) \<Rightarrow> run_wait n D (w\<lparr>phase := f\<rparr>) (st, h))"

lemma run_wait_ended: "phase w = Notified v \<Longrightarrow> run_wait n D w (st, h) = w"
  by (cases n) (simp_all add: waitSemaphoresThread_def)

definition wait_steps_left :: "waiter \<Rightarrow> nat" where
  "wait_steps_left w = (case phase w of
      Lookup i \<Rightarrow> 2 * (length (wanted w) - i) + 1
    | Testing i p \<Rightarrow> 2 * (length (wanted w) - i)
    | _ \<Rightarrow> 0)"

lemma reached_returns:
  assumes "timelines_ok st" "waiter_ok st w" "\<forall>sv\<in>set (wanted w). reached st sv" "0 < wait_steps_left w"
    "wait_steps_left w \<le> n"
  shows "phase (run_wait n D w (st, h)) = Notified 1"
  using assms(2-)
proof (induction n arbitrary: w h)
  case (Suc n)
  consider (lookup) i where "phase w = Lookup i" | (test) i p where "phase w = Testing i p"
    using Suc.prems(3) by (cases "phase w") (auto simp: wait_steps_left_def)
  then show ?case
  proof cases
    case lookup
    then have at: "at_index st w i" using Suc.prems(1) by (simp add: waiter_ok_def)
    show ?thesis
    proof (cases "i < length (wanted w)")
      case True
      then obtain p where p: "emulatedFind (fst (wanted w ! i)) st = Some p"
        using at by (fastforce simp: at_index_def counter_def split: option.splits dest: nth_mem)
      let ?w = "w\<lparr>phase := Testing i p\<rparr>"
      have "waiter_ok st ?w" using at True p by (simp add: waiter_ok_def)
      then have "phase (run_wait n D ?w (st, h)) = Notified 1"
        using Suc.prems(2,4) True lookup by (intro Suc.IH) (simp_all add: wait_steps_left_def)
      then show ?thesis using True p lookup by (simp add: waitSemaphoresThread_def)
    next
      case False
      then show ?thesis using lookup
        by (simp add: waitSemaphoresThread_def notify_value_def run_wait_ended)
    qed
  next
    case test
    then have i: "i < length (wanted w)" "at_index st w i" "emulatedFind (fst (wanted w ! i)) st = Some p"
      using Suc.prems(1) by (simp_all add: waiter_ok_def)
    obtain t where t: "at_ptr p st = Some t" "counter st (fst (wanted w ! i)) = Some (tl_value t)"
      using counter_emulated [OF assms(1) i(3)] by blast
    have r: "reached st (wanted w ! i)" using Suc.prems(2) i(1) by (metis nth_mem)
    let ?w = "w\<lparr>phase := Lookup (Suc i)\<rparr>"
    have "waiter_ok st ?w" using i(1,2) r by (auto simp: waiter_ok_def at_index_def less_Suc_eq)
    then have "phase (run_wait n D ?w (st, h)) = Notified 1"
      using Suc.prems(2,4) i(1) test by (intro Suc.IH) (simp_all add: wait_steps_left_def)
    moreover have "\<not> tl_value t < snd (wanted w ! i)" using r t(2) by (simp add: reached_def)
    ultimately show ?thesis using t(1) test by (simp add: waitSemaphoresThread_def)
  qed
qed simp

text \<open>
C18: However signals, submits, creations, destructions and waits interleave, no wakeup is lost. A thread that
  waits for emulated timelines sleeps only while the timeline at hand is below the value it waits for;
  once all values are reached a thread that is awake writes the success value after at most two steps for
  each semaphore; and it writes no other value, nor this one before every value is reached.
\<close>
theorem timeline_waits:
  assumes "(wait_sys_step D)\<^sup>*\<^sup>* (wait_sys_start h) c" "w \<in> set (waiters c)" "phase w \<noteq> Starting"
  shows "(\<forall>i p. phase w = Asleep i p \<longrightarrow>
      (\<exists>v. counter (tls c) (fst (wanted w ! i)) = Some v \<and> v < snd (wanted w ! i))) \<and>
    ((\<forall>sv\<in>set (wanted w). reached (tls c) sv) \<and> (\<forall>v. phase w \<noteq> Notified v) \<longrightarrow>
      phase (run_wait (2 * length (wanted w) + 1) D w (tls c, drv c)) = Notified 1) \<and>
    (\<forall>v h'. waitSemaphoresThread D w (tls c, drv c) = Some (Notified v, h') \<longrightarrow>
      v = 1 \<and> (\<forall>sv\<in>set (wanted w). reached (tls c) sv))"
proof (intro conjI allI impI)
  have ok: "timelines_ok (tls c)" "waiter_ok (tls c) w"
    using wait_reachable_inv [OF assms(1)] assms(2) by (simp_all add: wait_inv_def)
  show "\<exists>v. counter (tls c) (fst (wanted w ! i)) = Some v \<and> v < snd (wanted w ! i)" if "phase w = Asleep i p" for i p
    using ok(2) that counter_emulated [OF ok(1), of "fst (wanted w ! i)" p] by (auto simp: waiter_ok_def reached_def)
  show "phase (run_wait (2 * length (wanted w) + 1) D w (tls c, drv c)) = Notified 1"
    if r: "(\<forall>sv\<in>set (wanted w). reached (tls c) sv) \<and> (\<forall>v. phase w \<noteq> Notified v)"
  proof (rule reached_returns [OF ok])
    have "\<And>i. i < length (wanted w) \<Longrightarrow> reached (tls c) (wanted w ! i)" using r by auto
    then show "0 < wait_steps_left w" "wait_steps_left w \<le> 2 * length (wanted w) + 1"
      using ok(2) r assms(3) by (auto simp: wait_steps_left_def waiter_ok_def split: wait_phase.split)
  qed (use r in blast)
  fix v h' assume v: "waitSemaphoresThread D w (tls c, drv c) = Some (Notified v, h')"
  then obtain i where i: "phase w = Lookup i"
    using assms(3) by (cases "phase w") (auto simp: waitSemaphoresThread_def split: if_splits bind_splits)
  then have at: "at_index (tls c) w i" using ok(2) by (simp add: waiter_ok_def)
  have "i = length (wanted w)"
  proof (rule ccontr)
    assume "i \<noteq> length (wanted w)"
    then have "i < length (wanted w)" using at by (simp add: at_index_def)
    then show False using v i at
      by (auto simp: waitSemaphoresThread_def at_index_def counter_def split: option.splits dest!: bspec [OF _ nth_mem])
  qed
  then show "v = 1" "\<forall>sv\<in>set (wanted w). reached (tls c) sv"
    using v i at by (simp_all add: waitSemaphoresThread_def notify_value_def at_index_def all_set_conv_all_nth)
qed

text \<open>A thread that has gone to sleep over the value 5 of a timeline at 3.\<close>

definition demo_waiting :: "nat wait_sys" where
  "demo_waiting = \<lparr>tls = \<lparr>emulatedTimelines = [(0, \<lparr>tl_semaphore = 7, tl_value = 3\<rparr>)], pendingSubmit = [], rpcSignaled = []\<rparr>,
     drv = 0, waiters = [\<lparr>wanted = [(7, 5)], wtimeout = 0, phase = Asleep 0 0\<rparr>]\<rparr>"

lemma demo_waiting_reachable: "(wait_sys_step demo_driver)\<^sup>*\<^sup>* (wait_sys_start 0) demo_waiting"
proof -
  let ?tls = "tls demo_waiting"
  let ?c = "\<lambda>ws. \<lparr>tls = ?tls, drv = 0, waiters = ws\<rparr> :: nat wait_sys"
  let ?w = "\<lambda>f. [\<lparr>wanted = [(7 :: u64, 5 :: u64)], wtimeout = 0, phase = f\<rparr>]"
  have 1: "wait_sys_step demo_driver (wait_sys_start 0) (?c [])"
    using wait_sys_step.create [of 0 "wait_sys_start 0" 7 demo_driver 0 3]
    by (simp add: wait_sys_start_def emulated_def emulatedFind_def emulatedRegister_def demo_waiting_def)
  have 2: "wait_sys_step demo_driver (?c []) (?c (?w Starting))"
    using wait_sys_step.begin_wait [of demo_driver "?c []" "[(7, 5)]" 0] by (simp add: TimelineSemaphore_asyncWait_def)
  have go: "waitSemaphoresThread demo_driver (?w f ! 0) (?tls, 0) = Some (g, 0) \<Longrightarrow>
      wait_sys_step demo_driver (?c (?w f)) (?c (?w g))" for f g
    using wait_sys_step.go_on [of 0 "?c (?w f)" demo_driver g 0] by simp
  note step = waitSemaphoresThread_def all_emulated_def emulatedFind_def at_ptr_def demo_waiting_def
  have "wait_sys_step demo_driver (?c (?w Starting)) (?c (?w (Lookup 0)))" by (rule go) (simp add: step)
  moreover have "wait_sys_step demo_driver (?c (?w (Lookup 0))) (?c (?w (Testing 0 0)))" by (rule go) (simp add: step)
  moreover have "wait_sys_step demo_driver (?c (?w (Testing 0 0))) (?c (?w (Asleep 0 0)))" by (rule go) (simp add: step)
  moreover have "?c (?w (Asleep 0 0)) = demo_waiting" by (simp add: demo_waiting_def)
  ultimately show ?thesis using 1 2 by (metis (no_types, lifting) converse_rtranclp_into_rtranclp rtranclp.rtrancl_refl)
qed

theorem timeline_waits_witness:
  "\<exists>v. counter (tls demo_waiting) 7 = Some v \<and> v < 5"
  using timeline_waits [OF demo_waiting_reachable, of "waiters demo_waiting ! 0"] by (simp add: demo_waiting_def)

end
