(* ===== verification/VkMemory.thy ===== *)
theory VkMemory
  imports Prelude "HOL-Library.Multiset"
begin

text \<open>
  Device memory of the Vortek renderer: \<open>vortekrenderer/src/resource_memory.c\<close>, the memory types of
  \<open>vulkan_helper.c\<close>, the DMA buffers of \<open>winlator/include/dma_utils.h\<close>, and the handlers of
  \<open>request_handler.c\<close> that allocate, free and map memory.

  Driver, kernel and Android are a parameter: each call is answered by an arbitrary function of everything
  that happened before, which is kept in a log. The log records what was acquired and released, so that
  leaks and double releases can be stated.
\<close>

section \<open>Handles and their ledger\<close>

datatype handle = Buffer u64 | Memory u64 | Fd int | HardwareBuffer u64

datatype alloc_chain = GuestChain | Dedicated u64 | ImportFd int | ImportHardwareBuffer u64

datatype request = ION_IOC_FREE | ION_IOC_ALLOC u64 | ION_IOC_SHARE | ION_IOC_NEW_ALLOC u64 | DMA_HEAP_IOCTL_ALLOC u64

text \<open>A driver that imports a descriptor takes it over; a hardware buffer owns those of its native handle.\<close>

datatype event =
    BufferCreated u64 | BufferDestroyed u64
  | MemoryAllocated u64 alloc_chain | MemoryFreed u64
  | FdOpened int | FdClosed int
  | HardwareBufferAllocated u64 "int list" | HardwareBufferReleased u64 "int list"
  | IoctlTried int request | CallFailed

fun acquired :: "event \<Rightarrow> handle multiset" where
  "acquired (BufferCreated b) = {#Buffer b#}"
| "acquired (MemoryAllocated m _) = {#Memory m#}"
| "acquired (FdOpened fd) = {#Fd fd#}"
| "acquired (HardwareBufferAllocated a fds) = add_mset (HardwareBuffer a) (mset (map Fd fds))"
| "acquired _ = {#}"

fun released :: "event \<Rightarrow> handle multiset" where
  "released (BufferDestroyed b) = {#Buffer b#}"
| "released (MemoryAllocated _ (ImportFd fd)) = {#Fd fd#}"
| "released (MemoryFreed m) = {#Memory m#}"
| "released (FdClosed fd) = {#Fd fd#}"
| "released (HardwareBufferReleased a fds) = add_mset (HardwareBuffer a) (mset (map Fd fds))"
| "released _ = {#}"

text \<open>The handles after a log; \<open>None\<close> when something is released that is not held.\<close>

fun balance :: "event list \<Rightarrow> handle multiset \<Rightarrow> handle multiset option" where
  "balance [] H = Some H"
| "balance (e # es) H = (if released e \<subseteq># H then balance es (H - released e + acquired e) else None)"

lemma balance_append: "balance (es @ fs) H = (case balance es H of None \<Rightarrow> None | Some H' \<Rightarrow> balance fs H')"
  by (induction es arbitrary: H) auto

section \<open>The environment\<close>

record env =
  vkCreateBuffer :: "event list \<Rightarrow> u64 \<Rightarrow> int \<times> u64"
  vkGetBufferMemoryRequirements :: "event list \<Rightarrow> u64 \<Rightarrow> u64"
  vkAllocateMemory :: "event list \<Rightarrow> alloc_chain \<Rightarrow> u64 \<Rightarrow> u32 \<Rightarrow> int \<times> u64"
  vkGetMemoryFd :: "event list \<Rightarrow> u64 \<Rightarrow> int \<times> int"
  AHardwareBuffer_allocate :: "event list \<Rightarrow> u32 \<Rightarrow> (u64 \<times> int list) option"
  open_fd :: "event list \<Rightarrow> string \<Rightarrow> int"
  ioctl :: "event list \<Rightarrow> int \<Rightarrow> request \<Rightarrow> int \<times> int \<times> int"
  dup_fd :: "event list \<Rightarrow> int \<Rightarrow> int"

definition VK_SUCCESS :: int where "VK_SUCCESS = 0"

definition EINTR :: int where "EINTR = 4"
definition EAGAIN :: int where "EAGAIN = 11"
definition ENOTTY :: int where "ENOTTY = 25"

definition opened :: "int \<Rightarrow> event list \<Rightarrow> int \<times> event list" where
  "opened fd log = (fd, log @ [if 0 \<le> fd then FdOpened fd else CallFailed])"

definition sys_open :: "env \<Rightarrow> string \<Rightarrow> event list \<Rightarrow> int \<times> event list" where
  "sys_open E path log = opened (open_fd E log path) log"

definition sys_dup :: "env \<Rightarrow> int \<Rightarrow> event list \<Rightarrow> int \<times> event list" where
  "sys_dup E fd log = opened (dup_fd E log fd) log"

definition sys_close :: "int \<Rightarrow> event list \<Rightarrow> event list" where
  "sys_close fd log = log @ [if 0 \<le> fd then FdClosed fd else CallFailed]"

definition CLOSEFD :: "int \<Rightarrow> event list \<Rightarrow> event list" where
  "CLOSEFD fd log = (if 0 < fd then sys_close fd log else log)"

section \<open>DMA buffers\<close>

text \<open>An \<open>ioctl\<close> that is interrupted is tried again, without end if need be.\<close>

definition interrupted :: "int \<times> int \<times> int \<Rightarrow> bool" where
  "interrupted r = (case r of (res, errno, _) \<Rightarrow> res = -1 \<and> (errno = EINTR \<or> errno = EAGAIN))"

partial_function (option) safe_ioctl :: "env \<Rightarrow> int \<Rightarrow> request \<Rightarrow> event list \<Rightarrow> ((int \<times> int \<times> int) \<times> event list) option" where
  "safe_ioctl E fd req log =
     (let r = ioctl E log fd req; log = log @ [IoctlTried fd req]
      in if interrupted r then safe_ioctl E fd req log else Some (r, log))"

text \<open>A request that gives a new descriptor on success.\<close>

definition ioctl_fd :: "env \<Rightarrow> int \<Rightarrow> request \<Rightarrow> event list \<Rightarrow> (int \<times> int \<times> event list) option" where
  "ioctl_fd E fd req log = do {
     ((res, _, out), log) \<leftarrow> safe_ioctl E fd req log;
     Some (res, out, if res = 0 then log @ [FdOpened out] else log)
   }"

definition ion_alloc :: "env \<Rightarrow> u64 \<Rightarrow> int \<Rightarrow> event list \<Rightarrow> (int \<times> event list) option" where
  "ion_alloc E len ion_fd log = do {
     ((res, errno, _), log) \<leftarrow> safe_ioctl E ion_fd ION_IOC_FREE log;
     if 0 \<le> res \<or> errno \<noteq> ENOTTY then do {
       ((res, _), log) \<leftarrow> safe_ioctl E ion_fd (ION_IOC_ALLOC len) log;
       if res \<noteq> 0 then Some (-1, sys_close ion_fd log)
       else do {
         (res, share, log) \<leftarrow> ioctl_fd E ion_fd ION_IOC_SHARE log;
         if res \<noteq> 0 then Some (-1, sys_close ion_fd log)
         else do {
           ((res, _), log) \<leftarrow> safe_ioctl E ion_fd ION_IOC_FREE log;
           let log = sys_close ion_fd log;
           Some (if res \<noteq> 0 then -1 else share, log)
         }
       }
     } else do {
       (res, out, log) \<leftarrow> ioctl_fd E ion_fd (ION_IOC_NEW_ALLOC len) log;
       Some (if res \<noteq> 0 then -1 else out, sys_close ion_fd log)
     }
   }"

definition dmabuf_alloc :: "env \<Rightarrow> u64 \<Rightarrow> event list \<Rightarrow> (int \<times> event list) option" where
  "dmabuf_alloc E len log = (
     let (dma_fd, log) = sys_open E ''/dev/dma_heap/system-uncached'' log;
         (dma_fd, log) = (if dma_fd < 0 then sys_open E ''/dev/dma_heap/system'' log else (dma_fd, log))
     in if 0 \<le> dma_fd then do {
          (res, out, log) \<leftarrow> ioctl_fd E dma_fd (DMA_HEAP_IOCTL_ALLOC len) log;
          Some (if res \<noteq> 0 then -1 else out, sys_close dma_fd log)
        } else
          (case sys_open E ''/dev/ion'' log of (ion_fd, log) \<Rightarrow>
            if ion_fd < 0 then Some (-1, log) else ion_alloc E len ion_fd log))"

section \<open>Memory types\<close>

definition HOST_VISIBLE_BIT :: u32 where "HOST_VISIBLE_BIT = 2"
definition HOST_COHERENT_BIT :: u32 where "HOST_COHERENT_BIT = 4"
definition HOST_CACHED_BIT :: u32 where "HOST_CACHED_BIT = 8"

text \<open>\<open>DeviceMemoryInfo\<close>; of the memory types only their property flags are read.\<close>

record device_memory_info =
  memoryTypes :: "u32 list"
  maxAllocationSize :: u64

fun type_index_from :: "u32 list \<Rightarrow> u32 \<Rightarrow> u32 \<Rightarrow> u32 \<Rightarrow> u32" where
  "type_index_from [] i typeBits properties = 0"
| "type_index_from (flags # rest) i typeBits properties =
    (if typeBits AND 1 \<noteq> 0 \<and> flags AND properties \<noteq> 0 then i
     else type_index_from rest (i + 1) (drop_bit 1 typeBits) properties)"

definition getMemoryTypeIndex :: "device_memory_info \<Rightarrow> u32 \<Rightarrow> u32 \<Rightarrow> u32" where
  "getMemoryTypeIndex I typeBits properties = type_index_from (memoryTypes I) 0 typeBits properties"

definition getMemoryPropertyFlags :: "device_memory_info \<Rightarrow> u32 \<Rightarrow> u32" where
  "getMemoryPropertyFlags I i =
     (if memoryTypes I = [] \<or> length (memoryTypes I) \<le> unat i then 0 else memoryTypes I ! unat i)"

definition isHostVisibleMemory :: "device_memory_info \<Rightarrow> u32 \<Rightarrow> bool" where
  "isHostVisibleMemory I i = (if memoryTypes I = [] \<or> length (memoryTypes I) \<le> unat i then False
     else memoryTypes I ! unat i AND (HOST_VISIBLE_BIT OR HOST_COHERENT_BIT OR HOST_CACHED_BIT) \<noteq> 0)"

section \<open>Resource memory\<close>

datatype resource_memory_type = TYPE_AUTO | TYPE_OPAQUE_FD | TYPE_DMA_BUF | TYPE_AHARDWAREBUFFER

record vk_context =
  maxDeviceMemory :: u16
  hasExternalMemoryFd :: bool
  hasExternalMemoryDMABuf :: bool
  resourceMemoryType :: resource_memory_type

text \<open>\<open>maxDeviceMemory\<close> is a \<open>short\<close>. A hardware buffer is its address with the descriptors of its native handle.\<close>

record resource_memory =
  fd :: int
  hardwareBuffer :: "(u64 \<times> int list) option"
  buffer :: u64
  memory :: u64
  allocationSize :: u64

definition internalAllocate :: resource_memory where
  "internalAllocate = \<lparr>fd = -1, hardwareBuffer = None, buffer = 0, memory = 0, allocationSize = 0\<rparr>"

text \<open>The size is an \<open>int\<close> here: the lower half of a \<open>VkDeviceSize\<close>.\<close>

definition allocateHardwareBuffer :: "env \<Rightarrow> u64 \<Rightarrow> event list \<Rightarrow> (u64 \<times> int list) option \<times> event list" where
  "allocateHardwareBuffer E len log = (case AHardwareBuffer_allocate E log (ucast len) of
      None \<Rightarrow> (None, log @ [CallFailed])
    | Some (a, fds) \<Rightarrow> (Some (a, fds), log @ [HardwareBufferAllocated a fds]))"

definition AHardwareBuffer_getFd :: "u64 \<times> int list \<Rightarrow> int" where
  "AHardwareBuffer_getFd a = (if 0 < length (snd a) then snd a ! 0 else -1)"

definition vk_create_buffer :: "env \<Rightarrow> u64 \<Rightarrow> event list \<Rightarrow> int \<times> u64 \<times> event list" where
  "vk_create_buffer E len log = (case vkCreateBuffer E log len of (result, b) \<Rightarrow>
     (result, b, log @ [if result = VK_SUCCESS then BufferCreated b else CallFailed]))"

definition vk_allocate :: "env \<Rightarrow> alloc_chain \<Rightarrow> u64 \<Rightarrow> u32 \<Rightarrow> event list \<Rightarrow> int \<times> u64 \<times> event list" where
  "vk_allocate E chain len type log = (case vkAllocateMemory E log chain len type of (result, m) \<Rightarrow>
     (result, m, log @ [if result = VK_SUCCESS then MemoryAllocated m chain else CallFailed]))"

definition vk_get_fd :: "env \<Rightarrow> u64 \<Rightarrow> event list \<Rightarrow> int \<times> int \<times> event list" where
  "vk_get_fd E m log = (case vkGetMemoryFd E log m of (result, f) \<Rightarrow>
     (result, f, log @ [if result = VK_SUCCESS then FdOpened f else CallFailed]))"

text \<open>
  The three ways to host-visible memory and the way to any other. Each gives whether it got through to the
  end or jumped to \<open>error\<close>, the resource as far as it is filled in, the size that \<open>memoryInfo\<close> then has,
  and the log.
\<close>

type_synonym attempt = "bool \<times> resource_memory \<times> u64 \<times> event list"

definition allocate_opaque :: "env \<Rightarrow> u64 \<Rightarrow> u32 \<Rightarrow> resource_memory \<Rightarrow> event list \<Rightarrow> attempt" where
  "allocate_opaque E len type r log =
     (let (result, b, log) = vk_create_buffer E len log; r = r\<lparr>buffer := b\<rparr>
      in if result \<noteq> VK_SUCCESS then (False, r, len, log)
      else let len = vkGetBufferMemoryRequirements E log b;
               (result, m, log) = vk_allocate E (Dedicated b) len type log; r = r\<lparr>memory := m\<rparr>
      in if result \<noteq> VK_SUCCESS then (False, r, len, log)
      else let (result, f, log) = vk_get_fd E m log
      in if result \<noteq> VK_SUCCESS \<or> f \<le> 0 then (False, r, len, log)
      else (True, r\<lparr>fd := f\<rparr>, len, log))"

definition allocate_hardware :: "env \<Rightarrow> u64 \<Rightarrow> u32 \<Rightarrow> resource_memory \<Rightarrow> event list \<Rightarrow> attempt" where
  "allocate_hardware E len type r log =
     (case allocateHardwareBuffer E len log of
        (None, log) \<Rightarrow> (False, r, len, log)
      | (Some a, log) \<Rightarrow>
          let r = r\<lparr>hardwareBuffer := Some a\<rparr>; f = AHardwareBuffer_getFd a
          in if f \<le> 0 then (False, r, len, log)
          else let (result, m, log) = vk_allocate E (ImportHardwareBuffer (fst a)) len type log; r = r\<lparr>memory := m\<rparr>
          in if result \<noteq> VK_SUCCESS then (False, r, len, log)
          else (True, r\<lparr>fd := f\<rparr>, len, log))"

definition allocate_dmabuf :: "env \<Rightarrow> u64 \<Rightarrow> u32 \<Rightarrow> resource_memory \<Rightarrow> event list \<Rightarrow> attempt option" where
  "allocate_dmabuf E len type r log = do {
     (f, log) \<leftarrow> dmabuf_alloc E len log;
     Some (if 0 < f then
       let (dupFd, log) = sys_dup E f log;
           (result, m, log) = vk_allocate E (ImportFd dupFd) len type log;
           r = r\<lparr>memory := m\<rparr>
       in if result = VK_SUCCESS then (True, r\<lparr>fd := f\<rparr>, len, log)
          else allocate_hardware E len type r (CLOSEFD dupFd (CLOSEFD f log))
     else allocate_hardware E len type r log)
   }"

definition allocate_plain :: "env \<Rightarrow> u64 \<Rightarrow> u32 \<Rightarrow> resource_memory \<Rightarrow> event list \<Rightarrow> attempt" where
  "allocate_plain E len type r log =
     (let (result, m, log) = vk_allocate E GuestChain len type log; r = r\<lparr>memory := m\<rparr>
      in (result = VK_SUCCESS, r, len, log))"

definition memory_kinds :: "vk_context \<Rightarrow> bool \<times> bool" where
  "memory_kinds C = (case resourceMemoryType C of
      TYPE_OPAQUE_FD \<Rightarrow> (True, False)
    | TYPE_DMA_BUF \<Rightarrow> (False, True)
    | TYPE_AHARDWAREBUFFER \<Rightarrow> (False, False)
    | TYPE_AUTO \<Rightarrow> (hasExternalMemoryFd C, hasExternalMemoryDMABuf C))"

definition allocate_by_kind ::
  "env \<Rightarrow> vk_context \<Rightarrow> device_memory_info \<Rightarrow> u64 \<Rightarrow> u32 \<Rightarrow> resource_memory \<Rightarrow> event list \<Rightarrow> attempt option" where
  "allocate_by_kind E C I len type r log =
     (if isHostVisibleMemory I type then
        (case memory_kinds C of (opaque, dmabuf) \<Rightarrow>
          if opaque then Some (allocate_opaque E len type r log)
          else
            let type = (if getMemoryPropertyFlags I type AND HOST_CACHED_BIT \<noteq> 0
                  then getMemoryTypeIndex I 0x7FFFFFFF (HOST_VISIBLE_BIT OR HOST_COHERENT_BIT) else type)
            in if dmabuf then allocate_dmabuf E len type r log
               else Some (allocate_hardware E len type r log))
      else Some (allocate_plain E len type r log))"

text \<open>What has been allocated is a field of the context; here it goes along with the log.\<close>

definition ResourceMemory_free :: "resource_memory option \<Rightarrow> u64 \<times> event list \<Rightarrow> u64 \<times> event list" where
  "ResourceMemory_free r = (\<lambda>(used, log). case r of None \<Rightarrow> (used, log) | Some r \<Rightarrow>
     let log = (if buffer r \<noteq> 0 then log @ [BufferDestroyed (buffer r)] else log);
         log = CLOSEFD (fd r) log;
         (used, log) = (if memory r \<noteq> 0
           then (if used > allocationSize r then used - allocationSize r else 0, log @ [MemoryFreed (memory r)])
           else (used, log))
     in (used, case hardwareBuffer r of None \<Rightarrow> log | Some (a, fds) \<Rightarrow> log @ [HardwareBufferReleased a fds]))"

definition memory_limit :: "vk_context \<Rightarrow> device_memory_info \<Rightarrow> u64" where
  "memory_limit C I = (let m = push_bit 20 (scast (maxDeviceMemory C)) in if m = 0 then maxAllocationSize I else m)"

definition ResourceMemory_allocate ::
  "env \<Rightarrow> vk_context \<Rightarrow> device_memory_info \<Rightarrow> u64 \<Rightarrow> u32 \<Rightarrow> u64 \<times> event list \<Rightarrow>
    (resource_memory option \<times> u64 \<times> event list) option" where
  "ResourceMemory_allocate E C I len type = (\<lambda>(used, log).
     if used + len \<ge> memory_limit C I then Some (None, used, log)
     else do {
       (ok, r, len, log) \<leftarrow> allocate_by_kind E C I len type internalAllocate log;
       Some (if ok then (Some (r\<lparr>allocationSize := len\<rparr>), used + len, log)
             else (None, ResourceMemory_free (Some r) (used, log)))
     })"

section \<open>Handlers\<close>

text \<open>The resources whose addresses the client has as ids, what is allocated, and the log.\<close>

record memory_sys =
  resources :: "(u64 \<times> resource_memory) list"
  totalAllocationSize :: u64
  events :: "event list"

definition VK_ERROR_OUT_OF_DEVICE_MEMORY :: int where "VK_ERROR_OUT_OF_DEVICE_MEMORY = -2"
definition VK_ERROR_MEMORY_MAP_FAILED :: int where "VK_ERROR_MEMORY_MAP_FAILED = -5"

text \<open>\<open>p\<close> is the address of the new resource.\<close>

definition vt_handle_vkAllocateMemory ::
  "env \<Rightarrow> vk_context \<Rightarrow> device_memory_info \<Rightarrow> u64 \<Rightarrow> u32 \<Rightarrow> u64 \<Rightarrow> memory_sys \<Rightarrow> (int \<times> memory_sys) option" where
  "vt_handle_vkAllocateMemory E C I len type p s = do {
     (r, used, log) \<leftarrow> ResourceMemory_allocate E C I len type (totalAllocationSize s, events s);
     Some (case r of
        Some r \<Rightarrow> (VK_SUCCESS, s\<lparr>resources := (p, r) # resources s, totalAllocationSize := used, events := log\<rparr>)
      | None \<Rightarrow> (VK_ERROR_OUT_OF_DEVICE_MEMORY, s\<lparr>totalAllocationSize := used, events := log\<rparr>))
   }"

text \<open>An id that is not that of a live resource is undefined behaviour.\<close>

definition vt_handle_vkFreeMemory :: "u64 \<Rightarrow> memory_sys \<Rightarrow> memory_sys option" where
  "vt_handle_vkFreeMemory p s = (if p = 0 then Some s
     else do {
       r \<leftarrow> map_of (resources s) p;
       let (used, log) = ResourceMemory_free (Some r) (totalAllocationSize s, events s);
       Some (s\<lparr>resources := filter (\<lambda>(q, _). q \<noteq> p) (resources s), totalAllocationSize := used, events := log\<rparr>)
     })"

definition vt_handle_vkMapMemory :: "u64 \<Rightarrow> memory_sys \<Rightarrow> (int \<times> int) option" where
  "vt_handle_vkMapMemory p s = do {
     r \<leftarrow> map_of (resources s) p;
     Some (if fd r \<noteq> -1 then VK_SUCCESS else VK_ERROR_MEMORY_MAP_FAILED, fd r)
   }"

section \<open>What the environment keeps to\<close>

text \<open>
  A call that creates a handle gives one exactly when it succeeds; a failed one leaves \<open>VK_NULL_HANDLE\<close>,
  which the code relies on. Only a descriptor can be imported; descriptor 0 stays taken, and no request is interrupted for ever.
\<close>

definition handle_result :: "int \<times> u64 \<Rightarrow> bool" where
  "handle_result r \<longleftrightarrow> (fst r = VK_SUCCESS) = (snd r \<noteq> 0)"

definition env_ok :: "env \<Rightarrow> bool" where
  "env_ok E \<longleftrightarrow> (\<forall>log len. handle_result (vkCreateBuffer E log len)) \<and>
     (\<forall>log chain len type. handle_result (vkAllocateMemory E log chain len type)) \<and>
     (\<forall>log f len type. f \<le> 0 \<longrightarrow> fst (vkAllocateMemory E log (ImportFd f) len type) \<noteq> VK_SUCCESS) \<and>
     (\<forall>log m. fst (vkGetMemoryFd E log m) = VK_SUCCESS \<longrightarrow> 0 < snd (vkGetMemoryFd E log m)) \<and>
     (\<forall>log path. open_fd E log path \<noteq> 0) \<and> (\<forall>log f. dup_fd E log f \<noteq> 0) \<and>
     (\<forall>log f req. \<exists>n. \<not> interrupted (ioctl E (log @ replicate n (IoctlTried f req)) f req)) \<and>
     (\<forall>log f req. fst (ioctl E log f req) = 0 \<longrightarrow> 0 < snd (snd (ioctl E log f req)))"

text \<open>Freeing an ION handle right after it was shared succeeds.\<close>

definition ion_free_ok :: "env \<Rightarrow> bool" where
  "ion_free_ok E \<longleftrightarrow> (\<forall>log f out n.
     let r = ioctl E (log @ [IoctlTried f ION_IOC_SHARE, FdOpened out] @ replicate n (IoctlTried f ION_IOC_FREE)) f ION_IOC_FREE
     in interrupted r \<or> fst r = 0)"

section \<open>Balance\<close>

definition moves :: "event list \<Rightarrow> event list \<Rightarrow> handle multiset \<Rightarrow> handle multiset \<Rightarrow> bool" where
  "moves log log' H H' \<longleftrightarrow> (\<exists>es. log' = log @ es \<and> balance es H = Some H')"

lemma moves_refl [simp, intro]: "moves log log H H"
  by (simp add: moves_def)

lemma moves_trans: "moves l1 l2 H1 H2 \<Longrightarrow> moves l2 l3 H2 H3 \<Longrightarrow> moves l1 l3 H1 H3"
  by (auto simp: moves_def balance_append)

lemma moves_event: "released e \<subseteq># H \<Longrightarrow> H' = H - released e + acquired e \<Longrightarrow> moves log (log @ [e]) H H'"
  by (simp add: moves_def)

lemma moves_neutral: "released e = {#} \<Longrightarrow> acquired e = {#} \<Longrightarrow> moves log (log @ [e]) H H"
  by (rule moves_event) auto

definition fd_held :: "int \<Rightarrow> handle multiset" where
  "fd_held f = (if 0 < f then {#Fd f#} else {#})"

lemma sys_open_moves:
  assumes "env_ok E" "sys_open E path log = (f, log')"
  shows "moves log log' H (H + fd_held f) \<and> f \<noteq> 0"
  using assms by (auto simp: sys_open_def opened_def env_ok_def fd_held_def intro: moves_event moves_neutral)

lemma sys_dup_moves:
  assumes "env_ok E" "sys_dup E g log = (f, log')"
  shows "moves log log' H (H + fd_held f) \<and> f \<noteq> 0"
  using assms by (auto simp: sys_dup_def opened_def env_ok_def fd_held_def intro: moves_event moves_neutral)

lemma sys_close_moves: "0 < f \<Longrightarrow> moves log (sys_close f log) (H + {#Fd f#}) H"
  by (auto simp: sys_close_def intro: moves_event)

lemma CLOSEFD_moves: "moves log (CLOSEFD f log) (H + fd_held f) H"
  using sys_close_moves [of f log H] by (simp add: CLOSEFD_def fd_held_def)

lemma safe_ioctl_returns:
  assumes "env_ok E"
  obtains r n where "safe_ioctl E f req log = Some (r, log @ replicate (Suc n) (IoctlTried f req))"
    "r = ioctl E (log @ replicate n (IoctlTried f req)) f req" "\<not> interrupted r"
proof -
  have "\<exists>r n. safe_ioctl E f req log = Some (r, log @ replicate (Suc n) (IoctlTried f req)) \<and>
      r = ioctl E (log @ replicate n (IoctlTried f req)) f req \<and> \<not> interrupted r"
    if "\<not> interrupted (ioctl E (log @ replicate k (IoctlTried f req)) f req)" for k
    using that
  proof (induction k arbitrary: log)
    case 0
    then show ?case by (intro exI [of _ 0] exI) (simp add: safe_ioctl.simps [of E f req log] Let_def)
  next
    case (Suc k)
    show ?case
    proof (cases "interrupted (ioctl E log f req)")
      case True
      have "\<not> interrupted (ioctl E ((log @ [IoctlTried f req]) @ replicate k (IoctlTried f req)) f req)"
        using Suc.prems by simp
      from Suc.IH [OF this] obtain r n where
        "safe_ioctl E f req (log @ [IoctlTried f req]) = Some (r, (log @ [IoctlTried f req]) @ replicate (Suc n) (IoctlTried f req))"
        "r = ioctl E ((log @ [IoctlTried f req]) @ replicate n (IoctlTried f req)) f req" "\<not> interrupted r" by blast
      then show ?thesis using True
        by (intro exI [of _ r] exI [of _ "Suc n"]) (simp add: safe_ioctl.simps [of E f req log] Let_def)
    next
      case False
      then show ?thesis by (intro exI [of _ 0] exI) (simp add: safe_ioctl.simps [of E f req log] Let_def)
    qed
  qed
  then show thesis using assms that unfolding env_ok_def by metis
qed

lemma moves_tries: "moves log (log @ replicate n (IoctlTried f req)) H H"
proof -
  have "balance (replicate n (IoctlTried f req)) H = Some H" by (induction n) auto
  then show ?thesis by (simp add: moves_def)
qed

lemma safe_ioctl_moves:
  assumes "env_ok E"
  obtains res errno out log' where "safe_ioctl E f req log = Some ((res, errno, out), log')" "moves log log' H H"
  using safe_ioctl_returns [OF assms, of f req log] moves_tries by (metis prod_cases3)

lemma ioctl_fd_moves:
  assumes "env_ok E"
  obtains res out log' where "ioctl_fd E f req log = Some (res, out, log')"
    "moves log log' H (H + (if res = 0 then fd_held out else {#}))"
    "res = 0 \<Longrightarrow> 0 < out \<and> (\<exists>l. log' = l @ [IoctlTried f req, FdOpened out])"
proof -
  obtain r n where r: "safe_ioctl E f req log = Some (r, log @ replicate (Suc n) (IoctlTried f req))"
    "r = ioctl E (log @ replicate n (IoctlTried f req)) f req"
    by (rule safe_ioctl_returns [OF assms]) blast
  obtain res errno out where res: "r = (res, errno, out)" by (cases r) auto
  have out: "res = 0 \<Longrightarrow> 0 < out" using assms r(2) res unfolding env_ok_def by (metis fst_conv snd_conv)
  let ?l = "log @ replicate (Suc n) (IoctlTried f req)"
  show thesis
  proof (cases "res = 0")
    case True
    show thesis
    proof (rule that)
      show "ioctl_fd E f req log = Some (res, out, ?l @ [FdOpened out])" using r(1) res True by (simp add: ioctl_fd_def)
      show "moves log (?l @ [FdOpened out]) H (H + (if res = 0 then fd_held out else {#}))"
        by (rule moves_trans [OF moves_tries moves_event]) (use True out in \<open>simp_all add: fd_held_def\<close>)
      have "?l @ [FdOpened out] = (log @ replicate n (IoctlTried f req)) @ [IoctlTried f req, FdOpened out]"
        by (simp add: replicate_append_same)
      then show "0 < out \<and> (\<exists>l. ?l @ [FdOpened out] = l @ [IoctlTried f req, FdOpened out])" using out True by blast
    qed
  next
    case False
    then show thesis using that [of res out ?l] r(1) res moves_tries by (simp add: ioctl_fd_def del: replicate.simps)
  qed
qed

lemma ion_alloc_moves:
  assumes E: "env_ok E" "ion_free_ok E" and f: "0 < f"
  obtains g log' where "ion_alloc E len f log = Some (g, log')" "moves log log' (H + {#Fd f#}) (H + fd_held g)" "g \<noteq> 0"
proof -
  let ?H = "H + {#Fd f#}"
  have closed: "moves log l ?H (?H + fd_held g) \<Longrightarrow> moves log (sys_close f l) ?H (H + fd_held g)" for l g
    using sys_close_moves [OF f, of l "H + fd_held g"] by (auto intro: moves_trans simp: add_ac)
  have none: "fd_held (-1) = {#}" by (simp add: fd_held_def)
  have closed_none: "moves log l ?H ?H \<Longrightarrow> moves log (sys_close f l) ?H H" for l
    using closed [of l "-1"] by (simp add: none)
  obtain res errno x l1 where probe: "safe_ioctl E f ION_IOC_FREE log = Some ((res, errno, x), l1)" "moves log l1 ?H ?H"
    by (rule safe_ioctl_moves [OF E(1)])
  show thesis
  proof (cases "0 \<le> res \<or> errno \<noteq> ENOTTY")
    case True
    obtain res2 y z l2 where a: "safe_ioctl E f (ION_IOC_ALLOC len) l1 = Some ((res2, y, z), l2)" "moves l1 l2 ?H ?H"
      by (rule safe_ioctl_moves [OF E(1)])
    note l2 = moves_trans [OF probe(2) a(2)]
    show thesis
    proof (cases "res2 = 0")
      case zero: True
      obtain res3 share l3 where s: "ioctl_fd E f ION_IOC_SHARE l2 = Some (res3, share, l3)"
        "moves l2 l3 ?H (?H + (if res3 = 0 then fd_held share else {#}))"
        "res3 = 0 \<Longrightarrow> 0 < share \<and> (\<exists>l. l3 = l @ [IoctlTried f ION_IOC_SHARE, FdOpened share])"
        by (rule ioctl_fd_moves [OF E(1), of f ION_IOC_SHARE l2 ?H]) blast
      show thesis
      proof (cases "res3 = 0")
        case shared: True
        obtain r4 n where r4: "safe_ioctl E f ION_IOC_FREE l3 = Some (r4, l3 @ replicate (Suc n) (IoctlTried f ION_IOC_FREE))"
          "r4 = ioctl E (l3 @ replicate n (IoctlTried f ION_IOC_FREE)) f ION_IOC_FREE" "\<not> interrupted r4"
          by (rule safe_ioctl_returns [OF E(1)]) blast
        obtain l where "l3 = l @ [IoctlTried f ION_IOC_SHARE, FdOpened share]" using s(3) shared by blast
        then have zero4: "fst r4 = 0" using E(2) r4(2,3) unfolding ion_free_ok_def Let_def by (metis append_assoc)
        let ?l4 = "l3 @ replicate (Suc n) (IoctlTried f ION_IOC_FREE)"
        have "moves log ?l4 ?H (?H + fd_held share)"
          using s(2) shared by (intro moves_trans [OF l2 moves_trans [OF _ moves_tries]]) simp
        from closed [OF this] show thesis
          using that [of share "sys_close f ?l4"] probe(1) True a(1) zero s(1) s(3) [OF shared] shared r4(1) zero4
          by (auto simp: ion_alloc_def Let_def split_beta simp del: replicate.simps)
      next
        case False
        have "moves log l3 ?H ?H" using moves_trans [OF l2 s(2)] False by simp
        then show thesis using that [of "-1" "sys_close f l3"] closed_none probe(1) True a(1) zero s(1) False none
          by (simp add: ion_alloc_def)
      qed
    next
      case False
      then show thesis using that [of "-1" "sys_close f l2"] closed_none [OF l2] probe(1) True a(1) none
        by (simp add: ion_alloc_def)
    qed
  next
    case False
    obtain res2 out l2 where a: "ioctl_fd E f (ION_IOC_NEW_ALLOC len) l1 = Some (res2, out, l2)"
      "moves l1 l2 ?H (?H + (if res2 = 0 then fd_held out else {#}))" "res2 = 0 \<Longrightarrow> 0 < out"
      by (rule ioctl_fd_moves [OF E(1), of f "ION_IOC_NEW_ALLOC len" l1 ?H]) blast
    have "moves log l2 ?H (?H + fd_held (if res2 \<noteq> 0 then -1 else out))"
      using moves_trans [OF probe(2) a(2)] none by (simp split: if_splits)
    note closed [OF this]
    moreover have "ion_alloc E len f log = Some (if res2 \<noteq> 0 then -1 else out, sys_close f l2)"
      using probe(1) False a(1) by (simp add: ion_alloc_def)
    moreover have "(if res2 \<noteq> 0 then -1 else out) \<noteq> 0" using a(3) by (simp split: if_splits) linarith
    ultimately show thesis by (intro that)
  qed
qed

lemma dmabuf_alloc_moves:
  assumes E: "env_ok E" "ion_free_ok E"
  obtains g log' where "dmabuf_alloc E len log = Some (g, log')" "moves log log' H (H + fd_held g)" "g \<noteq> 0"
proof -
  obtain f1 l1 where 1: "sys_open E ''/dev/dma_heap/system-uncached'' log = (f1, l1)" by fastforce
  obtain f2 l2 where 2: "(if f1 < 0 then sys_open E ''/dev/dma_heap/system'' l1 else (f1, l1)) = (f2, l2)" by fastforce
  have o1: "moves log l1 H (H + fd_held f1)" "f1 \<noteq> 0" using sys_open_moves [OF E(1) 1, of H] by auto
  have "moves log l2 H (H + fd_held f2) \<and> f2 \<noteq> 0"
  proof (cases "f1 < 0")
    case True
    then have "moves l1 l2 H (H + fd_held f2) \<and> f2 \<noteq> 0" using 2 sys_open_moves [OF E(1), of _ l1 f2 l2 H] by simp
    then show ?thesis using o1(1) True by (auto simp: fd_held_def intro: moves_trans)
  qed (use 2 o1 in auto)
  then have o2: "moves log l2 H (H + fd_held f2)" "f2 \<noteq> 0" by auto
  show thesis
  proof (cases "0 \<le> f2")
    case True
    then have pos: "0 < f2" using o2(2) by simp
    obtain res out l3 where a: "ioctl_fd E f2 (DMA_HEAP_IOCTL_ALLOC len) l2 = Some (res, out, l3)"
      "moves l2 l3 (H + fd_held f2) (H + fd_held f2 + (if res = 0 then fd_held out else {#}))" "res = 0 \<Longrightarrow> 0 < out"
      by (rule ioctl_fd_moves [OF E(1), of f2 "DMA_HEAP_IOCTL_ALLOC len" l2 "H + fd_held f2"]) blast
    let ?g = "if res \<noteq> 0 then -1 else out"
    show thesis
    proof (rule that)
      show "dmabuf_alloc E len log = Some (?g, sys_close f2 l3)" using 1 2 True a(1) by (simp add: dmabuf_alloc_def)
      show "moves log (sys_close f2 l3) H (H + fd_held ?g)"
        using moves_trans [OF moves_trans [OF o2(1) a(2)] , of "sys_close f2 l3" "H + fd_held ?g"]
          sys_close_moves [OF pos, of l3 "H + fd_held ?g"] pos
        by (auto simp: fd_held_def add_ac split: if_splits)
      show "?g \<noteq> 0" using a(3) by (simp split: if_splits) linarith
    qed
  next
    case False
    obtain f3 l3 where 3: "sys_open E ''/dev/ion'' l2 = (f3, l3)" by fastforce
    have o3: "moves log l3 H (H + fd_held f3)" "f3 \<noteq> 0"
      using sys_open_moves [OF E(1) 3, of H] o2(1) False by (auto simp: fd_held_def intro: moves_trans)
    show thesis
    proof (cases "f3 < 0")
      case True
      then show thesis using that [of "-1" l3] 1 2 3 False o3(1) by (simp add: dmabuf_alloc_def fd_held_def)
    next
      case pos: False
      then have "0 < f3" using o3(2) by simp
      then obtain g l4 where "ion_alloc E len f3 l3 = Some (g, l4)" "moves l3 l4 (H + {#Fd f3#}) (H + fd_held g)" "g \<noteq> 0"
        by (rule ion_alloc_moves [OF E])
      then show thesis using that [of g l4] 1 2 3 False pos o3 \<open>0 < f3\<close>
        by (auto simp: dmabuf_alloc_def fd_held_def intro: moves_trans)
    qed
  qed
qed

section \<open>What a resource holds\<close>

definition owned :: "resource_memory \<Rightarrow> handle multiset" where
  "owned r = (if buffer r \<noteq> 0 then {#Buffer (buffer r)#} else {#}) + (if memory r \<noteq> 0 then {#Memory (memory r)#} else {#}) +
     (case hardwareBuffer r of None \<Rightarrow> fd_held (fd r) | Some (a, fds) \<Rightarrow> add_mset (HardwareBuffer a) (mset (map Fd fds)))"

lemma owned_internalAllocate [simp]: "owned internalAllocate = {#}"
  by (simp add: owned_def internalAllocate_def fd_held_def)

fun attempt_ok :: "handle multiset \<Rightarrow> event list \<Rightarrow> attempt \<Rightarrow> bool" where
  "attempt_ok H log (ok, r, len, log') \<longleftrightarrow> moves log log' H (H + owned r) \<and>
     (ok \<longrightarrow> memory r \<noteq> 0) \<and> (\<not> ok \<longrightarrow> fd r = -1 \<and> allocationSize r = 0) \<and>
     (\<forall>a fds. ok \<and> hardwareBuffer r = Some (a, fds) \<longrightarrow> 0 < fd r \<and> fd r = hd fds \<and> fds \<noteq> [])"

lemma vk_allocate_moves:
  assumes "env_ok E" "vk_allocate E chain len type log = (result, m, log')" "\<And>f. chain \<noteq> ImportFd f"
  shows "moves log log' H (H + (if m \<noteq> 0 then {#Memory m#} else {#})) \<and> (result = VK_SUCCESS) = (m \<noteq> 0)"
proof -
  have "(result = VK_SUCCESS) = (m \<noteq> 0)"
    using assms(1,2) unfolding env_ok_def handle_result_def vk_allocate_def by (auto split: prod.splits) (metis fst_conv snd_conv)+
  moreover have "released (MemoryAllocated m chain) = {#}" using assms(3) by (cases chain) auto
  ultimately show ?thesis using assms(2)
    by (auto simp: vk_allocate_def split: prod.splits intro: moves_event moves_neutral)
qed

lemma vk_create_buffer_moves:
  assumes "env_ok E" "vk_create_buffer E len log = (result, b, log')"
  shows "moves log log' H (H + (if b \<noteq> 0 then {#Buffer b#} else {#})) \<and> (result = VK_SUCCESS) = (b \<noteq> 0)"
proof -
  have "(result = VK_SUCCESS) = (b \<noteq> 0)"
    using assms unfolding env_ok_def handle_result_def vk_create_buffer_def by (auto split: prod.splits) (metis fst_conv snd_conv)+
  then show ?thesis using assms(2)
    by (auto simp: vk_create_buffer_def split: prod.splits intro: moves_event moves_neutral)
qed

lemma vk_get_fd_moves:
  assumes "env_ok E" "vk_get_fd E m log = (result, f, log')"
  shows "moves log log' H (H + (if result = VK_SUCCESS then fd_held f else {#})) \<and> (result = VK_SUCCESS \<longrightarrow> 0 < f)"
proof -
  have "result = VK_SUCCESS \<longrightarrow> 0 < f"
    using assms unfolding env_ok_def vk_get_fd_def by (auto split: prod.splits) (metis fst_conv snd_conv)
  then show ?thesis using assms(2)
    by (auto simp: vk_get_fd_def fd_held_def split: prod.splits intro: moves_event moves_neutral)
qed

lemma allocate_plain_ok: "env_ok E \<Longrightarrow> attempt_ok H log (allocate_plain E len type internalAllocate log)"
  using vk_allocate_moves [of E GuestChain len type log _ _ _ H]
  by (auto simp: allocate_plain_def internalAllocate_def owned_def fd_held_def split: prod.splits)

lemma allocate_opaque_ok:
  assumes "env_ok E"
  shows "attempt_ok H log (allocate_opaque E len type internalAllocate log)"
proof -
  obtain r1 b l1 where 1: "vk_create_buffer E len log = (r1, b, l1)" by (metis prod_cases3)
  note b = vk_create_buffer_moves [OF assms 1, of H]
  let ?len = "vkGetBufferMemoryRequirements E l1 b"
  obtain r2 m l2 where 2: "vk_allocate E (Dedicated b) ?len type l1 = (r2, m, l2)" by (metis prod_cases3)
  note m = vk_allocate_moves [OF assms 2, of "H + (if b \<noteq> 0 then {#Buffer b#} else {#})"]
  obtain r3 f l3 where 3: "vk_get_fd E m l2 = (r3, f, l3)" by (metis prod_cases3)
  note f = vk_get_fd_moves [OF assms 3, of "H + (if b \<noteq> 0 then {#Buffer b#} else {#}) + (if m \<noteq> 0 then {#Memory m#} else {#})"]
  note steps = allocate_opaque_def 1 2 3 internalAllocate_def owned_def fd_held_def Let_def
  show ?thesis
  proof (cases "r1 = VK_SUCCESS")
    case False
    then show ?thesis using b by (simp add: steps)
  next
    case ok1: True
    note bm = moves_trans [OF conjunct1 [OF b] conjunct1 [OF m]]
    show ?thesis
    proof (cases "r2 = VK_SUCCESS")
      case False
      then show ?thesis using ok1 b m bm by (simp add: steps)
    next
      case ok2: True
      note bmf = moves_trans [OF bm conjunct1 [OF f]]
      show ?thesis using ok1 ok2 b m f bmf by (cases "r3 = VK_SUCCESS") (simp_all add: steps)
    qed
  qed
qed

lemma allocate_hardware_ok:
  assumes "env_ok E"
  shows "attempt_ok H log (allocate_hardware E len type internalAllocate log)"
proof (cases "AHardwareBuffer_allocate E log (ucast len)")
  case None
  then show ?thesis
    by (auto simp: allocate_hardware_def allocateHardwareBuffer_def intro: moves_neutral)
      (simp_all add: internalAllocate_def)
next
  case (Some afds)
  obtain a fds where afds: "afds = (a, fds)" by fastforce
  let ?l = "log @ [HardwareBufferAllocated a fds]" and ?A = "add_mset (HardwareBuffer a) (mset (map Fd fds))"
  have A: "moves log ?l H (H + ?A)" by (rule moves_event) auto
  obtain r m l2 where 2: "vk_allocate E (ImportHardwareBuffer a) len type ?l = (r, m, l2)" by (metis prod_cases3)
  note m = vk_allocate_moves [OF assms 2, of "H + ?A"]
  note Am = moves_trans [OF A conjunct1 [OF m]]
  show ?thesis using Some A m Am 2
    by (auto simp: afds allocate_hardware_def allocateHardwareBuffer_def AHardwareBuffer_getFd_def Let_def
      internalAllocate_def owned_def hd_conv_nth add_ac)
qed

lemma allocate_dmabuf_ok:
  assumes E: "env_ok E" "ion_free_ok E"
  shows "\<exists>a. allocate_dmabuf E len type internalAllocate log = Some a \<and> attempt_ok H log a"
proof -
  obtain f l1 where 1: "dmabuf_alloc E len log = Some (f, l1)" "moves log l1 H (H + fd_held f)" "f \<noteq> 0"
    by (rule dmabuf_alloc_moves [OF E, of len log H])
  have trans: "moves log l H H \<Longrightarrow> attempt_ok H l a \<Longrightarrow> attempt_ok H log a" for l a
    by (cases a) (auto intro: moves_trans)
  show ?thesis
  proof (cases "0 < f")
    case False
    then have "moves log l1 H H" using 1(2) by (simp add: fd_held_def)
    from trans [OF this allocate_hardware_ok [OF E(1)]] show ?thesis using 1(1) False by (simp add: allocate_dmabuf_def)
  next
    case True
    obtain g l2 where 2: "sys_dup E f l1 = (g, l2)" by fastforce
    note dup = sys_dup_moves [OF E(1) 2, of "H + fd_held f"]
    obtain r m l3 where 3: "vk_allocate E (ImportFd g) len type l2 = (r, m, l3)" by (metis prod_cases3)
    then have r: "(r = VK_SUCCESS) = (m \<noteq> 0)"
      using E(1) unfolding env_ok_def handle_result_def vk_allocate_def by (auto split: prod.splits) (metis fst_conv snd_conv)+
    show ?thesis
    proof (cases "r = VK_SUCCESS")
      case False
      then have "l3 = l2 @ [CallFailed]" using 3 by (auto simp: vk_allocate_def split: prod.splits)
      then have "moves log l3 H (H + fd_held f + fd_held g)"
        using moves_trans [OF moves_trans [OF 1(2) conjunct1 [OF dup]], of l3] moves_neutral [of CallFailed l2] by simp
      then have "moves log (CLOSEFD f l3) H (H + fd_held g)"
        using CLOSEFD_moves [of l3 f "H + fd_held g"] by (auto simp: add_ac intro: moves_trans)
      then have "moves log (CLOSEFD g (CLOSEFD f l3)) H H"
        by (rule moves_trans [OF _ CLOSEFD_moves])
      from trans [OF this allocate_hardware_ok [OF E(1)]] show ?thesis
        using 1(1) True 2 3 False r by (simp add: allocate_dmabuf_def internalAllocate_def)
    next
      case ok: True
      then have l3: "l3 = l2 @ [MemoryAllocated m (ImportFd g)]" using 3 by (auto simp: vk_allocate_def split: prod.splits)
      have import_fd: "moves l2 l3 (H + fd_held f + fd_held g) (H + (fd_held f + {#Memory m#}))" if "0 < g"
        unfolding l3 using that by (intro moves_event) (simp_all add: fd_held_def)
      show ?thesis
      proof (cases "0 < g")
        case pos: True
        have "moves log l3 H (H + (fd_held f + {#Memory m#}))"
          by (rule moves_trans [OF moves_trans [OF 1(2) conjunct1 [OF dup]] import_fd [OF pos]])
        then show ?thesis using 1(1) True 2 3 ok r
          by (auto simp: allocate_dmabuf_def internalAllocate_def owned_def fd_held_def add_ac)
      next
        case False
        then have "fst (vkAllocateMemory E l2 (ImportFd g) len type) \<noteq> VK_SUCCESS"
          using E(1) unfolding env_ok_def by (metis not_less)
        then show ?thesis using ok 3 by (auto simp: vk_allocate_def split: prod.splits)
      qed
    qed
  qed
qed

lemma allocate_by_kind_ok:
  assumes "env_ok E" "ion_free_ok E"
  shows "\<exists>a. allocate_by_kind E C I len type internalAllocate log = Some a \<and> attempt_ok H log a"
proof -
  obtain opaque dmabuf where k: "memory_kinds C = (opaque, dmabuf)" by fastforce
  note ways = allocate_dmabuf_ok [OF assms] allocate_hardware_ok [OF assms(1)] allocate_opaque_ok [OF assms(1)]
    allocate_plain_ok [OF assms(1)]
  show ?thesis
    by (cases "isHostVisibleMemory I type"; cases opaque; cases dmabuf)
      (simp_all add: allocate_by_kind_def k Let_def ways del: split_paired_Ex attempt_ok.simps)
qed

section \<open>Freeing\<close>

lemma free_moves:
  assumes "hardwareBuffer r = None \<or> fd r = -1" "ResourceMemory_free (Some r) (used, log) = (used', log')"
  shows "moves log log' (H + owned r) H"
    and "used' = (if memory r \<noteq> 0 then if used > allocationSize r then used - allocationSize r else 0 else used)"
proof -
  let ?B = "if buffer r \<noteq> 0 then {#Buffer (buffer r)#} else {#}"
  let ?M = "if memory r \<noteq> 0 then {#Memory (memory r)#} else {#}"
  let ?R = "case hardwareBuffer r of None \<Rightarrow> {#} | Some (a, fds) \<Rightarrow> add_mset (HardwareBuffer a) (mset (map Fd fds))"
  let ?F = "if hardwareBuffer r = None then fd_held (fd r) else {#}"
  let ?l1 = "if buffer r \<noteq> 0 then log @ [BufferDestroyed (buffer r)] else log"
  let ?l2 = "CLOSEFD (fd r) ?l1"
  let ?l3 = "if memory r \<noteq> 0 then ?l2 @ [MemoryFreed (memory r)] else ?l2"
  have own: "owned r = ?B + ?F + ?M + ?R" by (auto simp: owned_def split: option.split)
  have 1: "moves log ?l1 (H + ?F + ?M + ?R + ?B) (H + ?F + ?M + ?R)" by (auto intro: moves_event)
  have "fd_held (fd r) = ?F" using assms(1) by (auto simp: fd_held_def)
  then have 2: "moves ?l1 ?l2 (H + ?M + ?R + ?F) (H + ?M + ?R)" using CLOSEFD_moves [of ?l1 "fd r" "H + ?M + ?R"] by simp
  have 3: "moves ?l2 ?l3 (H + ?R + ?M) (H + ?R)" by (auto intro: moves_event)
  have "log' = (case hardwareBuffer r of None \<Rightarrow> ?l3 | Some (a, fds) \<Rightarrow> ?l3 @ [HardwareBufferReleased a fds])"
    using assms(2) by (auto simp: ResourceMemory_free_def Let_def split: option.split)
  then have 4: "moves ?l3 log' (H + ?R) H"
  proof (cases "hardwareBuffer r")
    case (Some afds)
    obtain a fds where afds: "afds = (a, fds)" by fastforce
    have "moves ?l3 (?l3 @ [HardwareBufferReleased a fds]) (H + ?R) H"
      by (rule moves_event) (simp_all add: Some afds)
    then show ?thesis using \<open>log' = _\<close> by (simp add: Some afds)
  qed simp
  have "moves log ?l2 (H + ?F + ?M + ?R + ?B) (H + ?M + ?R)"
    by (rule moves_trans [OF 1]) (use 2 in \<open>simp only: add_ac\<close>)
  moreover have "moves ?l2 log' (H + ?M + ?R) H"
    by (rule moves_trans [OF _ 4]) (use 3 in \<open>simp only: add_ac\<close>)
  ultimately have "moves log log' (H + ?F + ?M + ?R + ?B) H" by (rule moves_trans)
  moreover have "H + owned r = H + ?F + ?M + ?R + ?B" by (simp only: own add_ac)
  ultimately show "moves log log' (H + owned r) H" by (simp only:)
  show "used' = (if memory r \<noteq> 0 then if used > allocationSize r then used - allocationSize r else 0 else used)"
    using assms(2) by (auto simp: ResourceMemory_free_def Let_def split: option.splits if_splits)
qed

lemma owned_size [simp]: "owned (r\<lparr>allocationSize := n\<rparr>) = owned r"
  by (simp add: owned_def split: option.split)

lemma ResourceMemory_allocate_spec:
  assumes "env_ok E" "ion_free_ok E"
  obtains r used' log' where "ResourceMemory_allocate E C I len type (used, log) = Some (r, used', log')"
    "r = None \<Longrightarrow> used' = used \<and> moves log log' H H"
    "\<And>m. r = Some m \<Longrightarrow> used + len < memory_limit C I \<and> used' = used + allocationSize m \<and>
      moves log log' H (H + owned m) \<and> memory m \<noteq> 0 \<and>
      (\<forall>a fds. hardwareBuffer m = Some (a, fds) \<longrightarrow> 0 < fd m \<and> fd m = hd fds \<and> fds \<noteq> [])"
proof -
  obtain ok r n l1 where a: "allocate_by_kind E C I len type internalAllocate log = Some (ok, r, n, l1)"
    "attempt_ok H log (ok, r, n, l1)"
    using allocate_by_kind_ok [OF assms, of C I len type log H] by (metis prod_cases4)
  obtain t2 l2 where f: "ResourceMemory_free (Some r) (used, l1) = (t2, l2)" by fastforce
  show thesis
  proof (cases "used + len < memory_limit C I")
    case False
    then show thesis using that [of None used log] by (simp add: ResourceMemory_allocate_def not_less)
  next
    case True
    show thesis
    proof (cases ok)
      case True
      show thesis
      proof (rule that)
        show "ResourceMemory_allocate E C I len type (used, log) = Some (Some (r\<lparr>allocationSize := n\<rparr>), used + n, l1)"
          using a(1) \<open>used + len < memory_limit C I\<close> True by (simp add: ResourceMemory_allocate_def)
        show "used + len < memory_limit C I \<and> used + n = used + allocationSize m \<and>
          moves log l1 H (H + owned m) \<and> memory m \<noteq> 0 \<and>
          (\<forall>a fds. hardwareBuffer m = Some (a, fds) \<longrightarrow> 0 < fd m \<and> fd m = hd fds \<and> fds \<noteq> [])"
          if "Some (r\<lparr>allocationSize := n\<rparr>) = Some m" for m
          using that a(2) True \<open>used + len < memory_limit C I\<close> by auto
      qed simp
    next
      case False
      then have r: "fd r = -1" "allocationSize r = 0" "moves log l1 H (H + owned r)" using a(2) by auto
      note freed = free_moves [OF disjI2 [OF r(1)] f]
      have "t2 = used" using freed(2) r(2) by (auto simp: word_gt_0)
      moreover have "moves log l2 H H" by (rule moves_trans [OF r(3) freed(1)])
      moreover have "ResourceMemory_allocate E C I len type (used, log) = Some (None, t2, l2)"
        using a(1) f False iffD2 [OF not_le \<open>used + len < memory_limit C I\<close>] by (simp add: ResourceMemory_allocate_def)
      ultimately show thesis by (intro that [of None t2 l2]) simp_all
    qed
  qed
qed

end
