(* ===== verification/VkAccount.thy ===== *)
theory VkAccount
  imports VkMemory
begin

text \<open>
  What the allocation of device memory guarantees: no path leaks, the account of a run is exact, and where the
  code releases a descriptor twice.
\<close>

section \<open>Allocation\<close>


text \<open>An environment in which descriptors, handles and calls are numbered by the length of the log.\<close>

definition demo_env :: env where
  "demo_env = \<lparr>vkCreateBuffer = (\<lambda>log _. (-1, 0)), vkGetBufferMemoryRequirements = (\<lambda>_ _. 4096),
     vkAllocateMemory = (\<lambda>log chain _ _. case chain of ImportFd _ \<Rightarrow> (-1, 0) | _ \<Rightarrow> (0, 5)),
     vkGetMemoryFd = (\<lambda>_ _. (-1, -1)), AHardwareBuffer_allocate = (\<lambda>_ _. Some (9, [40, 41])),
     open_fd = (\<lambda>log _. 30 + int (length log)), ioctl = (\<lambda>log _ _. (0, 0, 50 + int (length log))),
     dup_fd = (\<lambda>log _. 70 + int (length log))\<rparr>"

lemma demo_env_ok: "env_ok demo_env \<and> ion_free_ok demo_env"
  by (auto simp: env_ok_def ion_free_ok_def demo_env_def handle_result_def VK_SUCCESS_def interrupted_def
    split: alloc_chain.split)

definition demo_info :: device_memory_info where
  "demo_info = \<lparr>memoryTypes = [1, 6], maxAllocationSize = 0x10000000\<rparr>"

definition demo_context :: vk_context where
  "demo_context = \<lparr>maxDeviceMemory = 0, hasExternalMemoryFd = True, hasExternalMemoryDMABuf = False,
     resourceMemoryType = TYPE_AHARDWAREBUFFER\<rparr>"


text \<open>
  A hardware buffer's descriptor is closed twice. The descriptor that \<open>AHardwareBuffer_getFd\<close> takes from the
  native handle still belongs to the handle; freeing the resource closes it and then releases the buffer,
  which closes it again: unless another file has got the same number meanwhile, something that is not open.
\<close>
theorem hardware_fd_closed_twice:
  assumes "env_ok E" "ion_free_ok E"
    and "ResourceMemory_allocate E C I len type (used, log) = Some (Some m, used', log')"
    and "hardwareBuffer m = Some (a, fds)" "Fd (fd m) \<notin># H" "distinct fds"
  shows "moves log log' H (H + owned m) \<and>
    (\<nexists>H'. moves log' (snd (ResourceMemory_free (Some m) (used', log'))) (H + owned m) H')"
proof -
  have m: "moves log log' H (H + owned m)" "memory m \<noteq> 0" "0 < fd m" "fd m = hd fds" "fds \<noteq> []"
    by (rule ResourceMemory_allocate_spec [OF assms(1,2), of C I len type used log H]; use assms(3,4) in auto)+
  let ?B = "if buffer m \<noteq> 0 then {#Buffer (buffer m)#} else {#}"
  let ?es = "(if buffer m \<noteq> 0 then [BufferDestroyed (buffer m)] else []) @
    [FdClosed (fd m), MemoryFreed (memory m), HardwareBufferReleased a fds]"
  have log: "snd (ResourceMemory_free (Some m) (used', log')) = log' @ ?es"
    using m(2,3) assms(4) by (simp add: ResourceMemory_free_def CLOSEFD_def sys_close_def Let_def)
  have own: "owned m = ?B + {#Memory (memory m)#} + add_mset (HardwareBuffer a) (mset (map Fd fds))"
    using m(2) assms(4) by (simp add: owned_def)
  have "count (mset (map Fd fds)) (Fd (fd m)) = 1"
    using m(4,5) assms(6) by (cases fds) (auto simp: count_eq_zero_iff)
  then have one: "count (H + owned m) (Fd (fd m)) = 1"
    using assms(5) by (simp add: own count_eq_zero_iff [symmetric] not_in_iff)
  have gone: "balance [HardwareBufferReleased a fds] K = None" if "Fd (fd m) \<notin># K" for K
  proof -
    have "Fd (fd m) \<in># released (HardwareBufferReleased a fds)" using m(4,5) by (cases fds) auto
    then have "\<not> released (HardwareBufferReleased a fds) \<subseteq># K" using that mset_subset_eqD by metis
    then show ?thesis by (simp only: balance.simps if_False)
  qed
  have "balance ?es K = None" if "count K (Fd (fd m)) = 1" for K
  proof -
    have 1: "balance [FdClosed (fd m), MemoryFreed (memory m), HardwareBufferReleased a fds] L = None"
      if "count L (Fd (fd m)) = 1" for L
    proof -
      have "Fd (fd m) \<notin># L - {#Fd (fd m)#} - {#Memory (memory m)#}"
        using that by (simp add: not_in_iff)
      from gone [OF this] show ?thesis by simp
    qed
    have "count (K - {#Buffer (buffer m)#}) (Fd (fd m)) = 1" using that by simp
    then show ?thesis using 1 [OF that] 1 [of "K - {#Buffer (buffer m)#}"] by (simp del: balance.simps(2) add: balance.simps(2) [of "BufferDestroyed _"])
  qed
  then show ?thesis using m(1) one log by (simp add: moves_def)
qed

definition demo_resource :: resource_memory where
  "demo_resource = \<lparr>fd = 40, hardwareBuffer = Some (9, [40, 41]), buffer = 0, memory = 5, allocationSize = 4096\<rparr>"

lemma demo_allocation: "ResourceMemory_allocate demo_env demo_context demo_info 4096 1 (0, []) =
    Some (Some demo_resource, 4096, [HardwareBufferAllocated 9 [40, 41], MemoryAllocated 5 (ImportHardwareBuffer 9)])"
  by (simp add: ResourceMemory_allocate_def allocate_by_kind_def memory_limit_def demo_context_def demo_info_def
    isHostVisibleMemory_def HOST_VISIBLE_BIT_def HOST_COHERENT_BIT_def HOST_CACHED_BIT_def memory_kinds_def
    getMemoryPropertyFlags_def allocate_hardware_def allocateHardwareBuffer_def demo_env_def AHardwareBuffer_getFd_def
    vk_allocate_def VK_SUCCESS_def internalAllocate_def demo_resource_def)

theorem hardware_fd_closed_twice_witness:
  "\<nexists>H'. moves [HardwareBufferAllocated 9 [40, 41], MemoryAllocated 5 (ImportHardwareBuffer 9)]
     (snd (ResourceMemory_free (Some demo_resource)
       (4096, [HardwareBufferAllocated 9 [40, 41], MemoryAllocated 5 (ImportHardwareBuffer 9)]))) (owned demo_resource) H'"
  using hardware_fd_closed_twice [OF conjunct1 [OF demo_env_ok] conjunct2 [OF demo_env_ok] demo_allocation, of 9 "[40, 41]" "{#}"]
  by (simp add: demo_resource_def)

text \<open>
  The properties asked for are taken as alternatives: the first type with one of them is the answer, and
  type 0 when there is none.
\<close>

lemma type_index_from_spec:
  assumes "length fs + unat i < 2 ^ 32"
  shows "type_index_from fs i bits props =
    (if \<exists>j<length fs. bit bits j \<and> fs ! j AND props \<noteq> 0
     then i + of_nat (LEAST j. j < length fs \<and> bit bits j \<and> fs ! j AND props \<noteq> 0) else 0)"
  using assms
proof (induction fs arbitrary: i bits)
  case (Cons f fs)
  have bit0: "(bits AND 1 \<noteq> 0) = bit bits 0" by (simp add: and_one_eq bit_0 odd_iff_mod_2_eq_one)
  let ?P = "\<lambda>j. j < length (f # fs) \<and> bit bits j \<and> (f # fs) ! j AND props \<noteq> 0"
  let ?Q = "\<lambda>j. j < length fs \<and> bit (drop_bit 1 bits) j \<and> fs ! j AND props \<noteq> 0"
  have PQ: "?P (Suc j) = ?Q j" for j by (simp add: bit_drop_bit_eq)
  show ?case
  proof (cases "?P 0")
    case True
    then have "(LEAST j. ?P j) = 0" by (intro Least_equality) auto
    moreover have "\<exists>j. ?P j" using True by blast
    ultimately show ?thesis using True bit0 by auto
  next
    case False
    have step: "type_index_from (f # fs) i bits props = type_index_from fs (i + 1) (drop_bit 1 bits) props"
      using False bit0 by auto
    have "unat (i + 1) \<le> unat i + 1" by (simp add: unat_word_ariths)
    then have IH: "type_index_from fs (i + 1) (drop_bit 1 bits) props =
        (if \<exists>j. ?Q j then i + 1 + of_nat (LEAST j. ?Q j) else 0)"
      using Cons.IH [of "i + 1" "drop_bit 1 bits"] Cons.prems by auto
    have ex: "(\<exists>j. ?P j) = (\<exists>j. ?Q j)"
    proof
      assume "\<exists>j. ?P j"
      then obtain j where j: "?P j" by blast
      then obtain k where "j = Suc k" using False by (cases j) auto
      then show "\<exists>j. ?Q j" using j PQ by blast
    qed (use PQ in blast)
    show ?thesis
    proof (cases "\<exists>j. ?Q j")
      case True
      then obtain n where "?P n" using PQ by blast
      then have "(LEAST j. ?P j) = Suc (LEAST j. ?P (Suc j))" by (rule Least_Suc) (rule False)
      then have "(LEAST j. ?P j) = Suc (LEAST j. ?Q j)" by (simp only: PQ)
      then show ?thesis using step IH ex True by (simp add: algebra_simps)
    qed (use step IH ex in auto)
  qed
qed simp

lemma visible_and_coherent_not_both:
  "getMemoryTypeIndex \<lparr>memoryTypes = [2, 6], maxAllocationSize = 0\<rparr> 0x7FFFFFFF (HOST_VISIBLE_BIT OR HOST_COHERENT_BIT) = 0"
  by (simp add: getMemoryTypeIndex_def HOST_VISIBLE_BIT_def HOST_COHERENT_BIT_def)

section \<open>The account of a run\<close>

datatype memory_call = AllocateMemory u64 u32 u64 | FreeMemory u64

text \<open>One handler; \<open>calloc\<close> gives an address that is not in use.\<close>

fun memory_call_step :: "env \<Rightarrow> vk_context \<Rightarrow> device_memory_info \<Rightarrow> memory_call \<Rightarrow> memory_sys \<Rightarrow> memory_sys option" where
  "memory_call_step E C I (AllocateMemory len type p) s =
     (if p = 0 \<or> p \<in> fst ` set (resources s) then None
      else map_option snd (vt_handle_vkAllocateMemory E C I len type p s))"
| "memory_call_step E C I (FreeMemory p) s = vt_handle_vkFreeMemory p s"

fun memory_run :: "env \<Rightarrow> vk_context \<Rightarrow> device_memory_info \<Rightarrow> memory_call list \<Rightarrow> memory_sys \<Rightarrow> memory_sys option" where
  "memory_run E C I [] s = Some s"
| "memory_run E C I (c # cs) s = do { s \<leftarrow> memory_call_step E C I c s; memory_run E C I cs s }"

definition live_sizes :: "memory_sys \<Rightarrow> nat" where
  "live_sizes s = sum_list (map (unat \<circ> allocationSize \<circ> snd) (resources s))"

definition live_handles :: "memory_sys \<Rightarrow> handle multiset" where
  "live_handles s = sum_list (map (owned \<circ> snd) (resources s))"

definition memory_inv :: "nat \<Rightarrow> memory_sys \<Rightarrow> bool" where
  "memory_inv n s \<longleftrightarrow> distinct (map fst (resources s)) \<and> length (resources s) \<le> n \<and>
     (\<forall>r\<in>set (resources s). unat (allocationSize (snd r)) < 2 ^ 48 \<and> memory (snd r) \<noteq> 0 \<and> hardwareBuffer (snd r) = None) \<and>
     unat (totalAllocationSize s) = live_sizes s \<and> balance (events s) {#} = Some (live_handles s)"

lemma sum_list_remove_key:
  fixes g :: "'k \<times> 'v \<Rightarrow> 'a::comm_monoid_add"
  assumes "distinct (map fst xs)" "map_of xs k = Some v"
  shows "sum_list (map g xs) = g (k, v) + sum_list (map g (filter (\<lambda>(q, _). q \<noteq> k) xs))"
  using assms
proof (induction xs)
  case (Cons x xs)
  obtain q w where x: "x = (q, w)" by fastforce
  show ?case
  proof (cases "q = k")
    case True
    then have "filter (\<lambda>(q, _). q \<noteq> k) xs = xs" using Cons.prems(1) x by (auto simp: filter_id_conv rev_image_eqI)
    then show ?thesis using True Cons.prems(2) x by simp
  next
    case False
    then show ?thesis using Cons x by (simp add: add.left_commute)
  qed
qed simp

lemma filter_keys_distinct: "distinct (map fst xs) \<Longrightarrow> distinct (map fst (filter P xs))"
  by (induction xs) (auto simp: image_iff)

lemma opaque_attempt:
  assumes "fst (memory_kinds C)" "allocate_by_kind E C I len type internalAllocate log = Some (ok, r, n, l)"
    "unat len < b" "\<forall>log buf. unat (vkGetBufferMemoryRequirements E log buf) < b"
  shows "hardwareBuffer r = None \<and> unat n < b"
proof -
  obtain dm where k: "memory_kinds C = (True, dm)" using assms(1) by (metis prod.collapse)
  show ?thesis
  proof (cases "isHostVisibleMemory I type")
    case True
    then have "(ok, r, n, l) = allocate_opaque E len type internalAllocate log"
      using assms(2) k by (simp add: allocate_by_kind_def)
    then show ?thesis using assms(3,4)
      by (auto simp: allocate_opaque_def internalAllocate_def Let_def split: prod.splits if_splits)
  next
    case False
    then have "(ok, r, n, l) = allocate_plain E len type internalAllocate log"
      using assms(2) by (simp add: allocate_by_kind_def)
    then show ?thesis using assms(3)
      by (auto simp: allocate_plain_def internalAllocate_def Let_def split: prod.splits)
  qed
qed

lemma live_sizes_bound: "memory_inv n s \<Longrightarrow> live_sizes s \<le> n * 2 ^ 48"
proof -
  assume inv: "memory_inv n s"
  have "sum_list (map (unat \<circ> allocationSize \<circ> snd) rs) \<le> length rs * 2 ^ 48"
    if "\<forall>r\<in>set rs. unat (allocationSize (snd r)) < 2 ^ 48" for rs :: "(u64 \<times> resource_memory) list"
    using that by (induction rs) auto
  then have "live_sizes s \<le> length (resources s) * 2 ^ 48" using inv by (simp add: live_sizes_def memory_inv_def)
  also have "\<dots> \<le> n * 2 ^ 48" using inv by (simp add: memory_inv_def)
  finally show ?thesis .
qed

lemma allocate_step_inv:
  assumes E: "env_ok E" "ion_free_ok E" and C: "fst (memory_kinds C)"
    and small: "unat len < 2 ^ 48" "\<forall>log b. unat (vkGetBufferMemoryRequirements E log b) < 2 ^ 48"
    and inv: "memory_inv n s" "n < 2 ^ 16" and p: "p \<notin> fst ` set (resources s)"
  shows "\<exists>result s'. vt_handle_vkAllocateMemory E C I len type p s = Some (result, s') \<and> memory_inv (Suc n) s'"
proof -
  let ?t = "totalAllocationSize s" and ?H = "live_handles s"
  obtain r t' l where a: "ResourceMemory_allocate E C I len type (?t, events s) = Some (r, t', l)"
    "r = None \<Longrightarrow> t' = ?t \<and> moves (events s) l ?H ?H"
    "\<And>m. r = Some m \<Longrightarrow> ?t + len < memory_limit C I \<and> t' = ?t + allocationSize m \<and> moves (events s) l ?H (?H + owned m) \<and> memory m \<noteq> 0 \<and>
      (\<forall>a fds. hardwareBuffer m = Some (a, fds) \<longrightarrow> 0 < fd m \<and> fd m = hd fds \<and> fds \<noteq> [])"
    by (rule ResourceMemory_allocate_spec [OF E, of C I len type ?t "events s" ?H]) blast
  have bal: "balance l {#} = Some H'" if "moves (events s) l ?H H'" for H'
    using that inv(1) by (auto simp: moves_def memory_inv_def balance_append)
  show ?thesis
  proof (cases r)
    case None
    then show ?thesis using a(1,2) bal inv(1)
      by (auto simp: vt_handle_vkAllocateMemory_def memory_inv_def live_sizes_def live_handles_def)
  next
    case (Some m)
    note m = a(3) [OF Some]
    obtain ok r0 k l0 where by_kind: "allocate_by_kind E C I len type internalAllocate (events s) = Some (ok, r0, k, l0)"
      using allocate_by_kind_ok [OF E, of C I len type "events s" "{#}"] by (metis prod_cases4)
    have "ok \<and> m = r0\<lparr>allocationSize := k\<rparr>"
      using a(1) by_kind m Some by (auto simp: ResourceMemory_allocate_def split: if_splits)
    then have hw: "hardwareBuffer m = None" "unat (allocationSize m) < 2 ^ 48"
      using opaque_attempt [OF C by_kind small] by auto
    have "live_sizes s + unat (allocationSize m) < 2 ^ 64"
    proof -
      have "n * 2 ^ 48 + 2 ^ 48 \<le> (2 :: nat) ^ 64" using inv(2) by simp
      then show ?thesis using live_sizes_bound [OF inv(1)] hw(2) by linarith
    qed
    then have "unat t' = live_sizes s + unat (allocationSize m)"
      using m inv(1) by (simp add: memory_inv_def unat_word_ariths)
    moreover have "balance l {#} = Some (owned m + ?H)" using bal m by (simp add: add.commute)
    ultimately show ?thesis using a(1) Some m hw p inv(1)
      by (simp add: vt_handle_vkAllocateMemory_def memory_inv_def live_sizes_def live_handles_def)
  qed
qed

lemma free_step_inv:
  assumes inv: "memory_inv n s" and p: "p = 0 \<or> p \<in> fst ` set (resources s)"
  shows "\<exists>s'. vt_handle_vkFreeMemory p s = Some s' \<and> memory_inv n s'"
proof (cases "p = 0")
  case False
  let ?rest = "filter (\<lambda>(q, _). q \<noteq> p) (resources s)"
  have keys: "distinct (map fst (resources s))" using inv by (simp add: memory_inv_def)
  obtain r where r: "map_of (resources s) p = Some r" using p False by (metis map_of_eq_None_iff not_Some_eq)
  then have "(p, r) \<in> set (resources s)" by (rule map_of_SomeD)
  then have own: "memory r \<noteq> 0" "hardwareBuffer r = None" using inv by (auto simp: memory_inv_def)
  obtain t' l where f: "ResourceMemory_free (Some r) (totalAllocationSize s, events s) = (t', l)" by fastforce
  have sizes: "live_sizes s = unat (allocationSize r) + sum_list (map (unat \<circ> allocationSize \<circ> snd) ?rest)"
    using sum_list_remove_key [OF keys r, of "unat \<circ> allocationSize \<circ> snd"] by (simp add: live_sizes_def)
  have handles: "live_handles s = sum_list (map (owned \<circ> snd) ?rest) + owned r"
    using sum_list_remove_key [OF keys r, of "owned \<circ> snd"] by (simp add: live_handles_def add.commute)
  note freed = free_moves [OF disjI1 [OF own(2)] f]
  have "unat t' = sum_list (map (unat \<circ> allocationSize \<circ> snd) ?rest)"
    using freed(2) own(1) inv sizes by (auto simp: memory_inv_def unat_sub word_le_nat_alt word_less_nat_alt)
  moreover have "balance l {#} = Some (sum_list (map (owned \<circ> snd) ?rest))"
    using freed(1) [of "sum_list (map (owned \<circ> snd) ?rest)"] inv handles
    by (auto simp: moves_def memory_inv_def balance_append)
  moreover have "length ?rest \<le> n" using inv length_filter_le le_trans unfolding memory_inv_def by blast
  ultimately show ?thesis using r f False inv keys
    by (simp add: vt_handle_vkFreeMemory_def memory_inv_def live_sizes_def live_handles_def filter_keys_distinct)
qed (use inv in \<open>simp add: vt_handle_vkFreeMemory_def\<close>)

definition no_memory :: memory_sys where
  "no_memory = \<lparr>resources = [], totalAllocationSize = 0, events = []\<rparr>"

lemma memory_call_inv:
  assumes "env_ok E" "ion_free_ok E" "fst (memory_kinds C)" "\<forall>log b. unat (vkGetBufferMemoryRequirements E log b) < 2 ^ 48"
    and "memory_inv n s" "n < 2 ^ 16" "memory_call_step E C I c s = Some s'"
    and "\<And>len type p. c = AllocateMemory len type p \<Longrightarrow> unat len < 2 ^ 48"
  shows "memory_inv (Suc n) s'"
proof (cases c)
  case (AllocateMemory len type p)
  have p: "p \<noteq> 0 \<and> p \<notin> fst ` set (resources s)"
    and s': "map_option snd (vt_handle_vkAllocateMemory E C I len type p s) = Some s'"
    using assms(7) AllocateMemory by (simp_all split: if_splits)
  obtain result u where "vt_handle_vkAllocateMemory E C I len type p s = Some (result, u)" "memory_inv (Suc n) u"
    using allocate_step_inv [OF assms(1-3) assms(8) [OF AllocateMemory] assms(4-6) conjunct2 [OF p]] by blast
  then show ?thesis using s' by simp
next
  case (FreeMemory p)
  have "p = 0 \<or> p \<in> fst ` set (resources s)"
    using assms(7) FreeMemory by (auto simp: vt_handle_vkFreeMemory_def split: if_splits bind_splits dest!: map_of_SomeD) force
  then obtain u where "vt_handle_vkFreeMemory p s = Some u" "memory_inv n u" using free_step_inv [OF assms(5)] by blast
  then have "memory_inv n s'" using assms(7) FreeMemory by simp
  then show ?thesis by (simp add: memory_inv_def)
qed

lemma memory_run_inv:
  assumes "env_ok E" "ion_free_ok E" "fst (memory_kinds C)" "\<forall>log b. unat (vkGetBufferMemoryRequirements E log b) < 2 ^ 48"
    and "\<forall>len type p. AllocateMemory len type p \<in> set cs \<longrightarrow> unat len < 2 ^ 48"
  shows "memory_inv n s \<Longrightarrow> n + length cs \<le> 2 ^ 16 \<Longrightarrow> memory_run E C I cs s = Some s' \<Longrightarrow> memory_inv (n + length cs) s'"
  using assms(5)
proof (induction cs arbitrary: n s)
  case (Cons c cs)
  then obtain u where u: "memory_call_step E C I c s = Some u" "memory_run E C I cs u = Some s'"
    by (auto split: bind_splits)
  have "memory_inv (Suc n) u"
    by (rule memory_call_inv [OF assms(1-4) Cons.prems(1) _ u(1)]) (use Cons.prems(2,4) in auto)
  moreover have "\<forall>len type p. AllocateMemory len type p \<in> set cs \<longrightarrow> unat len < 2 ^ 48"
    using Cons.prems(4) by (meson list.set_intros(2))
  ultimately show ?case using Cons.IH [OF _ _ u(2), of "Suc n"] Cons.prems(2) by simp
qed simp


definition opaque_env :: env where
  "opaque_env = demo_env\<lparr>vkCreateBuffer := (\<lambda>_ _. (0, 3)), vkGetMemoryFd := (\<lambda>_ _. (0, 44))\<rparr>"

lemma opaque_env_ok: "env_ok opaque_env \<and> ion_free_ok opaque_env"
  by (auto simp: opaque_env_def env_ok_def ion_free_ok_def demo_env_def handle_result_def VK_SUCCESS_def interrupted_def
    split: alloc_chain.split)

definition opaque_context :: vk_context where
  "opaque_context = demo_context\<lparr>resourceMemoryType := TYPE_OPAQUE_FD\<rparr>"


end
