(* ===== verification/VkExtensions.thy ===== *)
theory VkExtensions
  imports Timelines
begin

text \<open>
  Which extensions the Vortek renderer shows to a client and which it enables in the driver: the lists of
  \<open>vortekrenderer/src/vulkan_helper.c\<close>, and \<open>vt_handle_vkCreateDevice\<close> of \<open>request_handler.c\<close>, which also
  decides whether timeline semaphores are emulated.

  The driver is a parameter: what it enumerates and how it answers the creation of a device.
\<close>

section \<open>Lists of names\<close>

definition globalExposedDeviceExtensions :: "string list" where
  "globalExposedDeviceExtensions = [''VK_KHR_surface'', ''VK_KHR_swapchain'', ''VK_KHR_get_physical_device_properties2'',
     ''VK_EXT_transform_feedback'', ''VK_EXT_conditional_rendering'',
     ''VK_EXT_vertex_attribute_divisor'', ''VK_EXT_index_type_uint8'', ''VK_EXT_robustness2'',
     ''VK_EXT_extended_dynamic_state'', ''VK_EXT_host_query_reset'', ''VK_KHR_create_renderpass2'',
     ''VK_KHR_depth_stencil_resolve'', ''VK_KHR_draw_indirect_count'', ''VK_KHR_timeline_semaphore'',
     ''VK_KHR_dedicated_allocation'', ''VK_KHR_get_memory_requirements2'',
     ''VK_KHR_descriptor_update_template'', ''VK_KHR_imageless_framebuffer'',
     ''VK_KHR_driver_properties'', ''VK_KHR_image_format_list'',
     ''VK_EXT_shader_demote_to_helper_invocation'', ''VK_KHR_shader_float_controls'',
     ''VK_EXT_4444_formats'', ''VK_EXT_conservative_rasterization'', ''VK_EXT_custom_border_color'',
     ''VK_EXT_depth_clip_enable'', ''VK_EXT_sample_locations'', ''VK_KHR_sampler_ycbcr_conversion'',
     ''VK_EXT_provoking_vertex'', ''VK_KHR_maintenance1'', ''VK_KHR_maintenance2'',
     ''VK_KHR_maintenance3'', ''VK_EXT_line_rasterization'', ''VK_EXT_border_color_swizzle'',
     ''VK_KHR_external_memory'', ''VK_KHR_external_memory_fd'', ''VK_KHR_external_fence'',
     ''VK_KHR_external_fence_fd'', ''VK_KHR_external_semaphore'', ''VK_KHR_external_semaphore_fd'',
     ''VK_KHR_vulkan_memory_model'', ''VK_KHR_synchronization2'', ''VK_EXT_depth_clip_control'',
     ''VK_KHR_dynamic_rendering'', ''VK_KHR_shader_float16_int8'', ''VK_KHR_push_descriptor'',
     ''VK_EXT_shader_stencil_export'', ''VK_EXT_shader_viewport_index_layer'',
     ''VK_KHR_sampler_mirror_clamp_to_edge'', ''VK_KHR_shader_draw_parameters'',
     ''VK_EXT_scalar_block_layout'', ''VK_EXT_color_write_enable'', ''VK_EXT_extended_dynamic_state3'',
     ''VK_EXT_shader_module_identifier'', ''VK_KHR_portability_subset'']"

definition globalImplementedDeviceExtensions :: "string list" where
  "globalImplementedDeviceExtensions = [''VK_KHR_swapchain'', ''VK_KHR_descriptor_update_template'', ''VK_EXT_private_data'',
     ''VK_EXT_memory_budget'', ''VK_EXT_map_memory_placed'', ''VK_KHR_map_memory2'',
     ''VK_EXT_transform_feedback'', ''VK_EXT_provoking_vertex'']"

definition globalEmulatedDeviceExtensions :: "string list" where
  "globalEmulatedDeviceExtensions = [''VK_KHR_timeline_semaphore'']"

text \<open>What \<open>setupExposedDeviceExtensions\<close> leaves in the context: the exposed list, if any, and the disabled one.\<close>

definition setupExposedDeviceExtensions :: "string option \<Rightarrow> string list option \<Rightarrow> string list option \<times> string list" where
  "setupExposedDeviceExtensions engineName exposed = (
     let disabled = [''VK_KHR_fragment_shading_rate'']
     in case engineName of
          None \<Rightarrow> (exposed, disabled)
        | Some engine \<Rightarrow>
            if engine = ''mesa zink'' then
              (Some globalExposedDeviceExtensions,
               [''VK_KHR_fragment_shading_rate'', ''VK_EXT_extended_dynamic_state'', ''VK_EXT_color_write_enable'',
                ''VK_KHR_push_descriptor''])
            else if engine = ''DXVK'' then
              (exposed, [''VK_KHR_fragment_shading_rate'', ''VK_KHR_shader_float_controls'', ''VK_EXT_hdr_metadata'',
                ''VK_EXT_swapchain_maintenance1''])
            else (exposed, disabled))"

section \<open>Injecting extensions\<close>

text \<open>
  \<open>injectExtensions\<close> works on names, \<open>injectExtensions2\<close> on properties; they differ only in how the name of
  an entry is read and in how an entry is made of a name. \<open>vt_alloc\<close> gives zeroed memory: \<open>None\<close>.
\<close>

fun copy_unskipped :: "'a list \<Rightarrow> bool list \<Rightarrow> nat \<Rightarrow> 'a option list \<Rightarrow> 'a option list option" where
  "copy_unskipped (x # xs) (s # ss) j new =
     (if s then copy_unskipped xs ss j new else do { new \<leftarrow> mem_set j (Some x) new; copy_unskipped xs ss (j + 1) new })"
| "copy_unskipped _ _ j new = Some new"

fun copy_missing :: "(string \<Rightarrow> 'a) \<Rightarrow> string list \<Rightarrow> bool list \<Rightarrow> nat \<Rightarrow> 'a option list \<Rightarrow> 'a option list option" where
  "copy_missing mk (e # es) (f # fs) k new =
     (if f then copy_missing mk es fs k new else do { new \<leftarrow> mem_set k (Some (mk e)) new; copy_missing mk es fs (k + 1) new })"
| "copy_missing mk _ _ k new = Some new"

text \<open>The array as it is used later: an entry that was not filled in is a NULL name.\<close>

definition entries :: "'a option list \<Rightarrow> 'a list option" where
  "entries new = (if None \<in> set new then None else Some (map the new))"

definition without_skipped :: "('a \<Rightarrow> string) \<Rightarrow> string list option \<Rightarrow> 'a list \<Rightarrow> 'a list option" where
  "without_skipped name skip xs = (case skip of
      None \<Rightarrow> Some xs
    | Some skip \<Rightarrow> do {
        let skipped = map (\<lambda>x. list_ex (\<lambda>s. s = name x) skip) xs;
        new \<leftarrow> copy_unskipped xs skipped 0 (replicate (length (filter Not skipped)) None);
        entries new
      })"

definition with_missing :: "('a \<Rightarrow> string) \<Rightarrow> (string \<Rightarrow> 'a) \<Rightarrow> string list \<Rightarrow> 'a list \<Rightarrow> 'a list option" where
  "with_missing name mk extra xs = (
     let founds = map (\<lambda>e. list_ex (\<lambda>x. e = name x) xs) extra;
         newExtensionCount = length xs + length (filter Not founds)
     in if newExtensionCount = length xs then Some xs
        else do {
          new \<leftarrow> copy_missing mk extra founds (length xs) (replicate newExtensionCount None);
          new \<leftarrow> mem_write 0 (map Some xs) new;
          entries new
        })"

definition inject :: "('a \<Rightarrow> string) \<Rightarrow> (string \<Rightarrow> 'a) \<Rightarrow> string list \<Rightarrow> string list option \<Rightarrow> 'a list \<Rightarrow> 'a list option" where
  "inject name mk extra skip xs = do { xs \<leftarrow> without_skipped name skip xs; with_missing name mk extra xs }"

definition injectExtensions :: "string list \<Rightarrow> string list option \<Rightarrow> string list \<Rightarrow> string list option" where
  "injectExtensions = inject (\<lambda>x. x) (\<lambda>x. x)"

type_synonym extension_properties = "string \<times> u32"

definition injectExtensions2 :: "string list \<Rightarrow> string list option \<Rightarrow> extension_properties list \<Rightarrow> extension_properties list option" where
  "injectExtensions2 = inject fst (\<lambda>x. (x, 1))"

section \<open>What the driver enumerates\<close>

text \<open>
  \<open>vkEnumerateDeviceExtensionProperties\<close> is called twice, for the count and for the properties; in between
  the number may change. The second call is given the count and returns at most that many.
\<close>

record enumeration =
  counting :: "int \<times> nat"
  listing :: "nat \<Rightarrow> int \<times> extension_properties list"

text \<open>
  The loop that moves to the front of an array the entries to keep, \<open>extensions[kept++] = extensions[i]\<close>;
  the list is of the indices to go.
\<close>

fun keep_loop :: "('a \<Rightarrow> bool) \<Rightarrow> nat list \<Rightarrow> nat \<Rightarrow> 'a list \<Rightarrow> (nat \<times> 'a list) option" where
  "keep_loop wanted [] kept xs = Some (kept, xs)"
| "keep_loop wanted (i # is) kept xs = do {
     x \<leftarrow> mem_get i xs;
     if wanted x then do { xs \<leftarrow> move_entry kept i xs; keep_loop wanted is (kept + 1) xs }
     else keep_loop wanted is kept xs
   }"

text \<open>\<open>malloc_ok\<close>: this allocation is tested. The result is the count and the array.\<close>

definition retainSupportedDeviceExtensions :: "enumeration \<Rightarrow> bool \<Rightarrow> string list \<Rightarrow> (nat \<times> string list) option" where
  "retainSupportedDeviceExtensions V malloc_ok xs = (
     if length xs = 0 \<or> fst (counting V) \<noteq> VK_SUCCESS \<or> \<not> malloc_ok \<or> fst (listing V (snd (counting V))) \<noteq> VK_SUCCESS
     then Some (length xs, xs)
     else keep_loop (\<lambda>x. list_ex (\<lambda>p. x = fst p) (snd (listing V (snd (counting V))))) [0..<length xs] 0 xs)"

definition deviceHasExtension :: "enumeration \<Rightarrow> bool \<Rightarrow> string \<Rightarrow> bool" where
  "deviceHasExtension V malloc_ok name =
     (fst (counting V) = VK_SUCCESS \<and> malloc_ok \<and> fst (listing V (snd (counting V))) = VK_SUCCESS \<and>
      list_ex (\<lambda>p. fst p = name) (snd (listing V (snd (counting V)))))"

text \<open>
  The loop of \<open>getExposedDeviceExtensionProperties\<close> over \<open>i\<close>: with a list of exposed names over that, otherwise
  over what the driver has. \<open>j\<close> counts what is written.
\<close>

definition exposed_candidate :: "string list option \<Rightarrow> extension_properties list \<Rightarrow> nat \<Rightarrow> extension_properties option option" where
  "exposed_candidate exposed src i = (case exposed of
      Some names \<Rightarrow> do { n \<leftarrow> mem_get i names; Some (List.find (\<lambda>p. n = fst p) src) }
    | None \<Rightarrow> map_option Some (mem_get i src))"

fun expose_loop :: "string list option \<Rightarrow> string list \<Rightarrow> extension_properties list \<Rightarrow> nat list \<Rightarrow> nat \<Rightarrow>
    extension_properties option list \<Rightarrow> (nat \<times> extension_properties option list) option" where
  "expose_loop exposed disabled src [] n dst = Some (n, dst)"
| "expose_loop exposed disabled src (i # is) n dst = do {
     c \<leftarrow> exposed_candidate exposed src i;
     case c of
       None \<Rightarrow> expose_loop exposed disabled src is n dst
     | Some p \<Rightarrow>
         if list_ex (\<lambda>d. fst p = d) disabled then expose_loop exposed disabled src is n dst
         else do { dst \<leftarrow> mem_set n (Some p) dst; expose_loop exposed disabled src is (n + 1) dst }
   }"

text \<open>\<open>Some None\<close> is the result NULL.\<close>

definition getExposedDeviceExtensionProperties ::
  "enumeration \<Rightarrow> string list option \<Rightarrow> string list \<Rightarrow> extension_properties list option option" where
  "getExposedDeviceExtensionProperties V exposed disabled = (
     if fst (counting V) \<noteq> VK_SUCCESS \<or> fst (listing V (snd (counting V))) \<noteq> VK_SUCCESS then Some None
     else let src = snd (listing V (snd (counting V)));
              dstPropertyCount = (case exposed of Some names \<Rightarrow> length names | None \<Rightarrow> length src)
     in do {
       (n, dst) \<leftarrow> expose_loop exposed disabled src [0..<dstPropertyCount] 0 (replicate dstPropertyCount None);
       xs \<leftarrow> entries (take n dst);
       xs \<leftarrow> injectExtensions2 globalImplementedDeviceExtensions None xs;
       xs \<leftarrow> injectExtensions2 globalEmulatedDeviceExtensions None xs;
       Some (Some xs)
     })"

section \<open>Features asked of the driver\<close>

text \<open>
  The \<open>pNext\<close> chain of a \<open>VkDeviceCreateInfo\<close>: of the structures the renderer reads, what it reads. A
  \<open>VkPhysicalDeviceFeatures\<close> is the list of its 55 \<open>VkBool32\<close>, which is how the code walks it.
\<close>

datatype device_structure =
    TimelineSemaphoreFeatures u32
  | Vulkan12Features u32
  | Features2 "u32 list"
  | OtherDeviceStructure nat

definition TIMELINE_SEMAPHORE_FEATURES :: nat where "TIMELINE_SEMAPHORE_FEATURES = 1000207000"
definition VULKAN_1_2_FEATURES :: nat where "VULKAN_1_2_FEATURES = 51"
definition FEATURES_2 :: nat where "FEATURES_2 = 1000059000"
definition TRANSFORM_FEEDBACK_FEATURES :: nat where "TRANSFORM_FEEDBACK_FEATURES = 1000028000"

fun device_sType :: "device_structure \<Rightarrow> nat" where
  "device_sType (TimelineSemaphoreFeatures _) = TIMELINE_SEMAPHORE_FEATURES"
| "device_sType (Vulkan12Features _) = VULKAN_1_2_FEATURES"
| "device_sType (Features2 _) = FEATURES_2"
| "device_sType (OtherDeviceStructure t) = t"

fun removeDeviceStructure :: "nat \<Rightarrow> device_structure list \<Rightarrow> device_structure list" where
  "removeDeviceStructure type [] = []"
| "removeDeviceStructure type (cur # rest) =
    (if device_sType cur = type then rest else cur # removeDeviceStructure type rest)"

text \<open>
  \<open>findNextVkStructure\<close> and what the caller then does to the chain that starts at the structure found;
  nothing when there is none.
\<close>

fun at_structure :: "nat \<Rightarrow> (device_structure list \<Rightarrow> device_structure list) \<Rightarrow> device_structure list \<Rightarrow> device_structure list" where
  "at_structure type f [] = []"
| "at_structure type f (cur # rest) =
    (if device_sType cur = type then f (cur # rest) else cur # at_structure type f rest)"

fun clear_timeline12 :: "device_structure list \<Rightarrow> device_structure list" where
  "clear_timeline12 (Vulkan12Features _ # rest) = Vulkan12Features 0 # rest"
| "clear_timeline12 rest = rest"

definition mask_features :: "u32 list \<Rightarrow> u32 list \<Rightarrow> u32 list" where
  "mask_features supported enabled = map2 (\<lambda>src dst. if dst \<noteq> 0 \<and> src = 0 then 0 else dst) supported enabled"

fun mask_features2 :: "u32 list \<Rightarrow> device_structure list \<Rightarrow> device_structure list" where
  "mask_features2 supported (Features2 fs # rest) = Features2 (mask_features supported fs) # rest"
| "mask_features2 supported rest = rest"

record create_info =
  ci_pNext :: "device_structure list"
  ci_extensions :: "string list"
  ci_features :: "u32 list option"

text \<open>
  The driver: what it enumerates, its \<open>vkGetPhysicalDeviceFeatures2\<close> (absent before Vulkan 1.1), which
  fills in the structures of a chain, its \<open>vkGetPhysicalDeviceFeatures\<close>, and \<open>vkCreateDevice\<close> over a
  state of its own, with the result and the handle.
\<close>

record 'h device_driver =
  enumerates :: enumeration
  getFeatures2 :: "(device_structure list \<Rightarrow> device_structure list) option"
  getFeatures :: "u32 list"
  createDevice :: "create_info \<Rightarrow> 'h \<Rightarrow> (int \<times> u64) \<times> 'h"

definition timeline_supported :: "device_structure list \<Rightarrow> bool" where
  "timeline_supported answer = (case answer of TimelineSemaphoreFeatures v # _ \<Rightarrow> v = 1 | _ \<Rightarrow> False)"

definition hostHasTimeline :: "'h device_driver \<Rightarrow> bool \<Rightarrow> bool" where
  "hostHasTimeline D malloc_ok =
     (if deviceHasExtension (enumerates D) malloc_ok ''VK_KHR_timeline_semaphore'' then
        (case getFeatures2 D of Some query \<Rightarrow> timeline_supported (query [TimelineSemaphoreFeatures 0]) | None \<Rightarrow> True)
      else False)"

text \<open>The first query is not tested for a missing \<open>vkGetPhysicalDeviceFeatures2\<close>: the result is then \<open>None\<close>.\<close>

definition disableUnsupportedDeviceFeatures :: "'h device_driver \<Rightarrow> bool \<Rightarrow> create_info \<Rightarrow> create_info option" where
  "disableUnsupportedDeviceFeatures D malloc_ok ci = do {
     chain \<leftarrow> (if TRANSFORM_FEEDBACK_FEATURES \<in> set (map device_sType (ci_pNext ci))
               then map_option (\<lambda>query. at_structure TRANSFORM_FEEDBACK_FEATURES query (ci_pNext ci)) (getFeatures2 D)
               else Some (ci_pNext ci));
     let chain = (if hostHasTimeline D malloc_ok then chain
                  else at_structure VULKAN_1_2_FEATURES clear_timeline12
                         (removeDeviceStructure TIMELINE_SEMAPHORE_FEATURES chain));
     Some (case ci_features ci of
        Some enabled \<Rightarrow> ci\<lparr>ci_pNext := chain, ci_features := Some (mask_features (getFeatures D) enabled)\<rparr>
      | None \<Rightarrow> ci\<lparr>ci_pNext := at_structure FEATURES_2 (mask_features2 (getFeatures D)) chain\<rparr>)
   }"

section \<open>Creating a device\<close>

definition dropTimelineFromCreateInfo :: "create_info \<Rightarrow> create_info option" where
  "dropTimelineFromCreateInfo ci = do {
     let chain = at_structure VULKAN_1_2_FEATURES clear_timeline12
                   (removeDeviceStructure TIMELINE_SEMAPHORE_FEATURES (ci_pNext ci));
     (kept, xs) \<leftarrow> keep_loop (\<lambda>x. x \<noteq> ''VK_KHR_timeline_semaphore'') [0..<length (ci_extensions ci)] 0 (ci_extensions ci);
     Some (ci\<lparr>ci_pNext := chain, ci_extensions := take kept xs\<rparr>)
   }"

definition extraExtensions :: "string list" where
  "extraExtensions = [''VK_KHR_get_memory_requirements2'', ''VK_KHR_dedicated_allocation'', ''VK_KHR_external_memory'',
     ''VK_KHR_external_memory_fd'', ''VK_KHR_external_fence'', ''VK_KHR_external_fence_fd'',
     ''VK_ANDROID_external_memory_android_hardware_buffer'', ''VK_EXT_queue_family_foreign'']"

text \<open>
  \<open>hostTimeline\<close> is the field of the context, before and after; \<open>None\<close> is a crash. Left out: the loading of
  the device's functions and queues (\<open>initVulkanDevice\<close>) and the reply.
\<close>

definition vt_handle_vkCreateDevice ::
  "'h device_driver \<Rightarrow> bool \<times> bool \<Rightarrow> create_info \<Rightarrow> bool \<Rightarrow> 'h \<Rightarrow> ((int \<times> u64) \<times> bool \<times> 'h) option" where
  "vt_handle_vkCreateDevice D mallocs ci contextTimeline h = do {
     ci \<leftarrow> disableUnsupportedDeviceFeatures D (fst mallocs) ci;
     xs \<leftarrow> injectExtensions extraExtensions (Some globalImplementedDeviceExtensions) (ci_extensions ci);
     (kept, xs) \<leftarrow> retainSupportedDeviceExtensions (enumerates D) (snd mallocs) xs;
     let ci = ci\<lparr>ci_extensions := take kept xs\<rparr>;
     let hostTimeline = list_ex (\<lambda>x. x = ''VK_KHR_timeline_semaphore'') (ci_extensions ci);
     case createDevice D ci h of ((result, device), h) \<Rightarrow>
       if result \<noteq> VK_SUCCESS then do {
         ci \<leftarrow> dropTimelineFromCreateInfo ci;
         case createDevice D (ci\<lparr>ci_pNext := [], ci_features := None\<rparr>) h of (answer, h) \<Rightarrow>
           Some (answer, (if fst answer = VK_SUCCESS then False else contextTimeline), h)
       }
       else Some ((result, device), hostTimeline, h)
   }"

section \<open>What the loops do\<close>

lemma map_nth_filter: "map ((!) xs) (filter (\<lambda>i. P (xs ! i)) [0..<length xs]) = filter P xs"
proof -
  have "filter P (map ((!) xs) [0..<length xs]) = map ((!) xs) (filter (P \<circ> (!) xs) [0..<length xs])"
    by (rule filter_map)
  then show ?thesis by (simp add: map_nth comp_def)
qed

lemma compacted_all:
  "compacted (\<lambda>i. P (xs ! i)) (length xs) xs ys \<Longrightarrow>
     take (length (filter (\<lambda>i. P (xs ! i)) [0..<length xs])) ys = filter P xs"
  by (simp add: compacted_def map_nth_filter)

lemma fill_next:
  "(pre @ replicate (Suc m) None)[length pre := Some x] = (pre @ [Some x]) @ replicate m None"
  by simp

lemma copy_unskipped_spec:
  "copy_unskipped xs (map p xs) (length pre) (pre @ replicate (length (filter (\<lambda>x. \<not> p x) xs)) None) =
     Some (pre @ map Some (filter (\<lambda>x. \<not> p x) xs))"
proof (induction xs arbitrary: pre)
  case (Cons x xs)
  show ?case using Cons.IH [of "pre @ [Some x]"] Cons.IH [of pre]
    by (simp add: mem_set_def del: replicate_Suc) (simp add: fill_next)
qed simp

lemma copy_missing_spec:
  "copy_missing mk es (map f es) (length pre) (pre @ replicate (length (filter (\<lambda>e. \<not> f e) es)) None) =
     Some (pre @ map (\<lambda>e. Some (mk e)) (filter (\<lambda>e. \<not> f e) es))"
proof (induction es arbitrary: pre)
  case (Cons e es)
  show ?case using Cons.IH [of "pre @ [Some (mk e)]"] Cons.IH [of pre]
    by (simp add: mem_set_def del: replicate_Suc) (simp add: fill_next)
qed simp

lemma entries_Some [simp]: "entries (map Some xs) = Some xs"
  by (auto simp: entries_def comp_def)

text \<open>Both phases of an injection: the entries not to skip, and the names that are still missing.\<close>

definition unskipped :: "('a \<Rightarrow> string) \<Rightarrow> string list option \<Rightarrow> 'a list \<Rightarrow> 'a list" where
  "unskipped name skip xs = (case skip of None \<Rightarrow> xs | Some skip \<Rightarrow> filter (\<lambda>x. name x \<notin> set skip) xs)"

definition missing :: "string list \<Rightarrow> string set \<Rightarrow> string list" where
  "missing extra present = filter (\<lambda>e. e \<notin> present) extra"

lemma without_skipped_spec: "without_skipped name skip xs = Some (unskipped name skip xs)"
proof (cases skip)
  case (Some sk)
  have skips: "(\<lambda>x. list_ex (\<lambda>s. s = name x) sk) = (\<lambda>x. name x \<in> set sk)"
    by (auto simp: list_ex_iff)
  have number: "length (filter Not (map (\<lambda>x. name x \<in> set sk) xs)) = length (filter (\<lambda>x. name x \<notin> set sk) xs)"
    by (simp add: filter_map comp_def)
  have "copy_unskipped xs (map (\<lambda>x. name x \<in> set sk) xs) 0
      (replicate (length (filter (\<lambda>x. name x \<notin> set sk) xs)) None) = Some (map Some (filter (\<lambda>x. name x \<notin> set sk) xs))"
    using copy_unskipped_spec [of xs "\<lambda>x. name x \<in> set sk" "[]"] by simp
  then show ?thesis by (simp only: without_skipped_def unskipped_def Some option.case skips number Let_def) simp
qed (simp add: without_skipped_def unskipped_def)

lemma with_missing_spec: "with_missing name mk extra xs = Some (xs @ map mk (missing extra (name ` set xs)))"
proof -
  have founds: "map (\<lambda>e. list_ex (\<lambda>x. e = name x) xs) extra = map (\<lambda>e. e \<in> name ` set xs) extra"
    by (auto simp: list_ex_iff)
  have number: "length (filter Not (map (\<lambda>e. e \<in> name ` set xs) extra)) = length (missing extra (name ` set xs))"
    by (simp add: filter_map comp_def missing_def)
  have copied: "copy_missing mk extra (map (\<lambda>e. e \<in> name ` set xs) extra) (length xs)
      (replicate (length xs + length (missing extra (name ` set xs))) None) =
      Some (replicate (length xs) None @ map (Some \<circ> mk) (missing extra (name ` set xs)))"
    using copy_missing_spec [of mk extra "\<lambda>e. e \<in> name ` set xs" "replicate (length xs) None"]
    by (simp add: missing_def replicate_add comp_def)
  have written: "mem_write 0 (map Some xs) (replicate (length xs) None @ zs) = Some (map Some xs @ zs)" for zs
    by (simp add: mem_write_def splice_def)
  have joined: "entries (map Some xs @ map (Some \<circ> mk) zs) = Some (xs @ map mk zs)" for zs
    using entries_Some [of "xs @ map mk zs"] by simp
  show ?thesis unfolding with_missing_def founds number Let_def
    by (simp add: copied written joined)
qed

lemma inject_spec:
  "inject name mk extra skip xs =
     Some (unskipped name skip xs @ map mk (missing extra (name ` set (unskipped name skip xs))))"
  by (simp add: inject_def without_skipped_spec with_missing_spec)

lemma keep_loop_spec:
  assumes "compacted (\<lambda>i. P (xs0 ! i)) i xs0 xs" and "i \<le> length xs0"
  shows "\<exists>kept ys. keep_loop P [i..<length xs0] (length (filter (\<lambda>i. P (xs0 ! i)) [0..<i])) xs = Some (kept, ys) \<and>
     take kept ys = filter P xs0"
  using assms
proof (induction "length xs0 - i" arbitrary: i xs)
  case 0
  then have "i = length xs0" by simp
  then show ?case using compacted_all [of P] 0 by simp
next
  case (Suc n)
  let ?K = "\<lambda>i. P (xs0 ! i)"
  have i: "i < length xs0" using Suc.hyps by simp
  then have up: "[i..<length xs0] = i # [Suc i..<length xs0]" by (simp add: upt_conv_Cons)
  have got: "mem_get i xs = Some (xs0 ! i)"
    using i compacted_nth [OF Suc.prems(1) i] compacted_length [OF Suc.prems(1)] by (simp add: mem_get_def)
  have n: "n = length xs0 - Suc i" using Suc.hyps by simp
  show ?case
  proof (cases "?K i")
    case True
    obtain zs where "move_entry (length (filter ?K [0..<i])) i xs = Some zs" "compacted ?K (Suc i) xs0 zs"
      using compacted_move [OF Suc.prems(1) True i] by blast
    then show ?thesis using Suc.hyps(1) [OF n, of zs] True i by (simp add: up got)
  next
    case False
    then show ?thesis using Suc.hyps(1) [OF n compacted_skip [OF Suc.prems(1) False]] i by (simp add: up got)
  qed
qed

lemma keep_loop_all:
  "\<exists>kept ys. keep_loop P [0..<length xs] 0 xs = Some (kept, ys) \<and> take kept ys = filter P xs"
  using keep_loop_spec [of P xs 0 xs] by simp

definition names_of :: "enumeration \<Rightarrow> string set" where
  "names_of V = fst ` set (snd (listing V (snd (counting V))))"

definition enumerates_ok :: "enumeration \<Rightarrow> bool" where
  "enumerates_ok V \<longleftrightarrow> fst (counting V) = VK_SUCCESS \<and> fst (listing V (snd (counting V))) = VK_SUCCESS"

lemma retain_spec:
  "\<exists>kept ys. retainSupportedDeviceExtensions V malloc_ok xs = Some (kept, ys) \<and>
     take kept ys = (if enumerates_ok V \<and> malloc_ok then filter (\<lambda>x. x \<in> names_of V) xs else xs)"
proof -
  have P: "(\<lambda>x. list_ex (\<lambda>p. x = fst p) (snd (listing V (snd (counting V))))) = (\<lambda>x. x \<in> names_of V)"
    by (auto simp: names_of_def list_ex_iff fun_eq_iff)
  show ?thesis using keep_loop_all [of "\<lambda>x. x \<in> names_of V" xs]
    by (auto simp: retainSupportedDeviceExtensions_def P enumerates_ok_def)
qed

section \<open>The list shown to a client\<close>

definition shown :: "string list option \<Rightarrow> string list \<Rightarrow> extension_properties list \<Rightarrow> nat \<Rightarrow> extension_properties option" where
  "shown exposed disabled src i = (case exposed_candidate exposed src i of
      Some (Some p) \<Rightarrow> if fst p \<in> set disabled then None else Some p | _ \<Rightarrow> None)"

lemma expose_loop_spec:
  assumes "\<And>i. i \<in> set is \<Longrightarrow> exposed_candidate exposed src i \<noteq> None" and "length is \<le> m"
  shows "\<exists>rest. expose_loop exposed disabled src is (length pre) (map Some pre @ replicate m None) =
      Some (length (pre @ List.map_filter (shown exposed disabled src) is),
            map Some (pre @ List.map_filter (shown exposed disabled src) is) @ rest)"
  using assms
proof (induction "is" arbitrary: pre m)
  case (Cons i "is")
  obtain c where c: "exposed_candidate exposed src i = Some c" using Cons.prems(1) by auto
  obtain m' where m: "m = Suc m'" "length is \<le> m'" using Cons.prems(2) by (cases m) auto
  have tail: "\<And>i. i \<in> set is \<Longrightarrow> exposed_candidate exposed src i \<noteq> None" using Cons.prems(1) by simp
  have dis: "list_ex (\<lambda>d. x = d) disabled \<longleftrightarrow> x \<in> set disabled" for x by (auto simp: list_ex_iff)
  show ?case
  proof (cases "shown exposed disabled src i")
    case None
    then have "c = None \<or> (\<exists>p. c = Some p \<and> fst p \<in> set disabled)"
      using c by (auto simp: shown_def split: option.splits if_splits)
    then show ?thesis using Cons.IH [OF tail, of m pre] Cons.prems(2)
      by (auto simp: c dis None List.map_filter_simps)
  next
    case (Some p)
    then have "c = Some p" "fst p \<notin> set disabled" using c by (auto simp: shown_def split: option.splits if_splits)
    moreover have "(map Some pre @ replicate (Suc m') None)[length pre := Some p] = map Some (pre @ [p]) @ replicate m' None"
      using fill_next [of "map Some pre" m' p] by simp
    ultimately show ?thesis using Cons.IH [OF tail m(2), of "pre @ [p]"]
      by (simp add: c dis Some List.map_filter_simps m(1) mem_set_def del: replicate_Suc)
  qed
qed (simp add: List.map_filter_simps)

text \<open>What of the driver's extensions is shown: those it is allowed to, without the disabled ones.\<close>

definition visible :: "string list option \<Rightarrow> string list \<Rightarrow> extension_properties list \<Rightarrow> extension_properties list" where
  "visible exposed disabled src = filter (\<lambda>p. fst p \<notin> set disabled) (case exposed of
      None \<Rightarrow> src | Some names \<Rightarrow> List.map_filter (\<lambda>n. List.find (\<lambda>p. n = fst p) src) names)"

lemma map_filter_filter:
  "List.map_filter (\<lambda>x. case f x of Some p \<Rightarrow> if P p then None else Some p | None \<Rightarrow> None) xs =
     filter (\<lambda>p. \<not> P p) (List.map_filter f xs)"
  by (induction xs) (auto simp: List.map_filter_simps split: option.split)

lemma map_filter_index:
  assumes "\<And>i. i < length xs \<Longrightarrow> g i = f (xs ! i)"
  shows "List.map_filter g [0..<length xs] = List.map_filter f xs"
proof -
  have "List.map_filter g [0..<length xs] = List.map_filter (f \<circ> (!) xs) [0..<length xs]"
    using assms by (auto simp: List.map_filter_def intro!: map_cong filter_cong)
  also have "\<dots> = List.map_filter f (map ((!) xs) [0..<length xs])"
    by (simp add: List.map_filter_def filter_map comp_def)
  finally show ?thesis by (simp add: map_nth)
qed

lemma visible_shown:
  "List.map_filter (shown exposed disabled src) [0..<(case exposed of Some names \<Rightarrow> length names | None \<Rightarrow> length src)] =
     visible exposed disabled src"
proof (cases exposed)
  case None
  have "List.map_filter (shown exposed disabled src) [0..<length src] =
      List.map_filter (\<lambda>p. if fst p \<in> set disabled then None else Some p) src"
    by (rule map_filter_index) (simp add: None shown_def exposed_candidate_def mem_get_def)
  also have "\<dots> = filter (\<lambda>p. fst p \<notin> set disabled) src"
    by (induction src) (auto simp: List.map_filter_simps)
  finally show ?thesis by (simp add: None visible_def)
next
  case (Some names)
  let ?f = "\<lambda>n. List.find (\<lambda>p. n = fst p) src"
  have "List.map_filter (shown exposed disabled src) [0..<length names] =
      List.map_filter (\<lambda>n. case ?f n of Some p \<Rightarrow> if fst p \<in> set disabled then None else Some p | None \<Rightarrow> None) names"
    by (rule map_filter_index) (simp add: Some shown_def exposed_candidate_def mem_get_def split: option.split)
  then show ?thesis by (simp add: Some visible_def map_filter_filter)
qed

lemma candidates_there:
  "i \<in> set [0..<(case exposed of Some names \<Rightarrow> length names | None \<Rightarrow> length src)] \<Longrightarrow>
     exposed_candidate exposed src i \<noteq> None"
  by (auto simp: exposed_candidate_def mem_get_def split: option.splits)

lemma exposed_list:
  fixes V :: enumeration and exposed :: "string list option" and disabled :: "string list"
  assumes "enumerates_ok V"
  defines "src \<equiv> snd (listing V (snd (counting V)))"
  defines "xs \<equiv> visible exposed disabled src"
  defines "ys \<equiv> xs @ map (\<lambda>e. (e, 1)) (missing globalImplementedDeviceExtensions (fst ` set xs))"
  shows "getExposedDeviceExtensionProperties V exposed disabled =
     Some (Some (ys @ map (\<lambda>e. (e, 1)) (missing globalEmulatedDeviceExtensions (fst ` set ys))))"
proof -
  let ?n = "case exposed of Some names \<Rightarrow> length names | None \<Rightarrow> length src"
  obtain rest where "expose_loop exposed disabled src [0..<?n] 0 (replicate ?n None) =
      Some (length xs, map Some xs @ rest)"
    using expose_loop_spec [of "[0..<?n]" exposed src ?n disabled "[]"] candidates_there [of _ src exposed]
    by (auto simp: visible_shown xs_def)
  then show ?thesis using assms(1)
    by (simp add: getExposedDeviceExtensionProperties_def enumerates_ok_def src_def [symmetric] Let_def
        injectExtensions2_def inject_spec unskipped_def ys_def)
qed

section \<open>Chains\<close>

lemmas sType_defs = TIMELINE_SEMAPHORE_FEATURES_def VULKAN_1_2_FEATURES_def FEATURES_2_def TRANSFORM_FEEDBACK_FEATURES_def

lemma removeDeviceStructure_subset: "set (removeDeviceStructure type xs) \<subseteq> set xs"
  by (induction xs) auto

lemma removeDeviceStructure_gone:
  "distinct (map device_sType xs) \<Longrightarrow> x \<in> set (removeDeviceStructure type xs) \<Longrightarrow> device_sType x \<noteq> type"
  by (induction xs) (auto simp: image_iff split: if_splits)

lemma removeDeviceStructure_distinct:
  "distinct (map device_sType xs) \<Longrightarrow> distinct (map device_sType (removeDeviceStructure type xs))"
  by (induction xs) (use removeDeviceStructure_subset in fastforce)+

text \<open>A change that starts at a structure keeps what every structure is.\<close>

definition keeps_types :: "(device_structure list \<Rightarrow> device_structure list) \<Rightarrow> bool" where
  "keeps_types f \<longleftrightarrow> (\<forall>xs. map device_sType (f xs) = map device_sType xs)"

lemma keeps_clear [simp]: "keeps_types clear_timeline12"
  unfolding keeps_types_def by (intro allI, rule_tac x = xs in clear_timeline12.cases) simp_all

lemma keeps_mask [simp]: "keeps_types (mask_features2 supported)"
  unfolding keeps_types_def
  by (intro allI, rule_tac x = "(supported, xs)" in mask_features2.cases) simp_all

lemma keeps_at: "keeps_types f \<Longrightarrow> keeps_types (at_structure type f)"
  unfolding keeps_types_def
proof (intro allI)
  fix xs assume "\<forall>xs. map device_sType (f xs) = map device_sType xs"
  then show "map device_sType (at_structure type f xs) = map device_sType xs" by (induction xs) auto
qed

lemma keeps_typesD [simp]: "keeps_types f \<Longrightarrow> map device_sType (f xs) = map device_sType xs"
  by (simp add: keeps_types_def)

lemma clear_timeline12_at:
  "distinct (map device_sType xs) \<Longrightarrow>
     set (at_structure VULKAN_1_2_FEATURES clear_timeline12 xs) \<subseteq>
       {x \<in> set xs. device_sType x \<noteq> VULKAN_1_2_FEATURES} \<union> {Vulkan12Features 0} \<union>
       {OtherDeviceStructure VULKAN_1_2_FEATURES}"
proof (induction xs)
  case (Cons x xs)
  then show ?case by (cases x) (auto simp: image_iff sType_defs)
qed simp

lemma mask_features2_at:
  "x \<in> set (at_structure type (mask_features2 supported) xs) \<Longrightarrow> x \<in> set xs \<or> device_sType x = FEATURES_2"
proof (induction xs)
  case (Cons y ys)
  then show ?case by (cases y) (auto split: if_splits)
qed simp

lemma mask_features_nth:
  "i < length (mask_features supported fs) \<Longrightarrow> mask_features supported fs ! i =
     (if supported ! i = 0 then 0 else fs ! i)"
  by (simp add: mask_features_def)

text \<open>No structure of the chain asks for timeline semaphores.\<close>

definition no_timeline :: "device_structure list \<Rightarrow> bool" where
  "no_timeline chain \<longleftrightarrow> (\<forall>v. TimelineSemaphoreFeatures v \<notin> set chain \<and> (Vulkan12Features v \<in> set chain \<longrightarrow> v = 0))"

lemma dropped_timeline:
  assumes "distinct (map device_sType xs)"
  shows "no_timeline (at_structure VULKAN_1_2_FEATURES clear_timeline12 (removeDeviceStructure TIMELINE_SEMAPHORE_FEATURES xs))"
  using clear_timeline12_at [OF removeDeviceStructure_distinct [OF assms, of TIMELINE_SEMAPHORE_FEATURES]]
    removeDeviceStructure_gone [OF assms, of _ TIMELINE_SEMAPHORE_FEATURES]
  by (fastforce simp: no_timeline_def)

lemma no_timeline_mask: "no_timeline chain \<Longrightarrow> no_timeline (at_structure type (mask_features2 supported) chain)"
  using mask_features2_at by (fastforce simp: no_timeline_def sType_defs)

text \<open>A valid chain has no type twice.\<close>

definition chain_ok :: "device_structure list \<Rightarrow> bool" where
  "chain_ok chain \<longleftrightarrow> distinct (map device_sType chain)"

definition features_within :: "u32 list \<Rightarrow> u32 list \<Rightarrow> bool" where
  "features_within supported fs \<longleftrightarrow> (\<forall>i < length fs. fs ! i \<noteq> 0 \<longrightarrow> supported ! i \<noteq> 0)"

lemma features_within_mask: "features_within supported (mask_features supported fs)"
  by (auto simp: features_within_def mask_features_nth split: if_splits)

lemma mask_features2_within:
  assumes "distinct (map device_sType xs)" "Features2 fs \<in> set (at_structure FEATURES_2 (mask_features2 supported) xs)"
  shows "features_within supported fs"
  using assms
proof (induction xs)
  case (Cons y ys)
  show ?case
  proof (cases "device_sType y = FEATURES_2")
    case True
    then have "Features2 fs \<notin> set ys" using Cons.prems(1) by force
    then show ?thesis using Cons.prems(2) True by (cases y) (auto simp: features_within_mask)
  next
    case False
    then show ?thesis using Cons by (auto)
  qed
qed simp

section \<open>Properties\<close>

lemma queried_types:
  assumes "\<forall>query. getFeatures2 D = Some query \<longrightarrow> keeps_types query"
    and "disableUnsupportedDeviceFeatures D malloc_ok ci = Some ci'"
  obtains chain where "map device_sType chain = map device_sType (ci_pNext ci)"
    and "ci' = (let chain = (if hostHasTimeline D malloc_ok then chain
                  else at_structure VULKAN_1_2_FEATURES clear_timeline12
                         (removeDeviceStructure TIMELINE_SEMAPHORE_FEATURES chain))
         in case ci_features ci of
            Some enabled \<Rightarrow> ci\<lparr>ci_pNext := chain, ci_features := Some (mask_features (getFeatures D) enabled)\<rparr>
          | None \<Rightarrow> ci\<lparr>ci_pNext := at_structure FEATURES_2 (mask_features2 (getFeatures D)) chain\<rparr>)"
proof -
  obtain chain where chain: "(if TRANSFORM_FEEDBACK_FEATURES \<in> set (map device_sType (ci_pNext ci))
       then map_option (\<lambda>query. at_structure TRANSFORM_FEEDBACK_FEATURES query (ci_pNext ci)) (getFeatures2 D)
       else Some (ci_pNext ci)) = Some chain"
    using assms(2) by (auto simp: disableUnsupportedDeviceFeatures_def bind_eq_Some_conv simp del: set_map)
  then have "map device_sType chain = map device_sType (ci_pNext ci)"
    using assms(1) keeps_typesD [OF keeps_at] by (auto split: if_splits simp del: set_map)
  moreover note assms(2) [unfolded disableUnsupportedDeviceFeatures_def chain Option.bind.bind_lunit, symmetric]
  ultimately show ?thesis by (intro that) (auto simp: Let_def)
qed

lemma disable_extensions: "disableUnsupportedDeviceFeatures D m ci = Some ci' \<Longrightarrow> ci_extensions ci' = ci_extensions ci"
  by (auto simp: disableUnsupportedDeviceFeatures_def Let_def bind_eq_Some_conv split: option.splits)

lemma drop_spec:
  "\<exists>ci'. dropTimelineFromCreateInfo ci = Some ci' \<and>
     ci_extensions ci' = filter (\<lambda>x. x \<noteq> ''VK_KHR_timeline_semaphore'') (ci_extensions ci)"
proof -
  obtain kept ys where "keep_loop (\<lambda>x. x \<noteq> ''VK_KHR_timeline_semaphore'') [0..<length (ci_extensions ci)] 0 (ci_extensions ci) =
      Some (kept, ys)" "take kept ys = filter (\<lambda>x. x \<noteq> ''VK_KHR_timeline_semaphore'') (ci_extensions ci)"
    using keep_loop_all by blast
  then show ?thesis by (simp add: dropTimelineFromCreateInfo_def Let_def)
qed

text \<open>The names a device is created with, before a second attempt drops the timeline semaphores.\<close>

definition wanted_extensions :: "string list \<Rightarrow> string list" where
  "wanted_extensions xs = (let ys = filter (\<lambda>x. x \<notin> set globalImplementedDeviceExtensions) xs
     in ys @ missing extraExtensions (set ys))"

lemma wanted_injected:
  "injectExtensions extraExtensions (Some globalImplementedDeviceExtensions) xs = Some (wanted_extensions xs)"
  by (simp add: injectExtensions_def inject_spec unskipped_def wanted_extensions_def Let_def)

lemma set_wanted:
  "e \<in> set (wanted_extensions xs) \<longleftrightarrow> (e \<in> set xs \<and> e \<notin> set globalImplementedDeviceExtensions) \<or> e \<in> set extraExtensions"
  by (auto simp: wanted_extensions_def missing_def Let_def)

lemma extra_not_implemented: "set extraExtensions \<inter> set globalImplementedDeviceExtensions = {}"
  by (simp add: extraExtensions_def globalImplementedDeviceExtensions_def)

lemma create_device_steps:
  assumes "disableUnsupportedDeviceFeatures D (fst mallocs) ci = Some ci1"
  obtains asked asked2 where
    "ci_extensions asked = (if enumerates_ok (enumerates D) \<and> snd mallocs
       then filter (\<lambda>x. x \<in> names_of (enumerates D)) (wanted_extensions (ci_extensions ci))
       else wanted_extensions (ci_extensions ci))"
    "ci_extensions asked2 = filter (\<lambda>x. x \<noteq> ''VK_KHR_timeline_semaphore'') (ci_extensions asked)"
    "\<And>contextTimeline h. vt_handle_vkCreateDevice D mallocs ci contextTimeline h = Some (
       case createDevice D asked h of ((result, device), h) \<Rightarrow>
         if result \<noteq> VK_SUCCESS then
           (case createDevice D asked2 h of (answer, h) \<Rightarrow>
              (answer, (if fst answer = VK_SUCCESS then False else contextTimeline), h))
         else ((result, device), ''VK_KHR_timeline_semaphore'' \<in> set (ci_extensions asked), h))"
proof -
  let ?w = "wanted_extensions (ci_extensions ci)"
  obtain kept ys where r: "retainSupportedDeviceExtensions (enumerates D) (snd mallocs) ?w = Some (kept, ys)"
    and t: "take kept ys = (if enumerates_ok (enumerates D) \<and> snd mallocs
       then filter (\<lambda>x. x \<in> names_of (enumerates D)) ?w else ?w)"
    using retain_spec by blast
  let ?asked = "ci1\<lparr>ci_extensions := take kept ys\<rparr>"
  obtain ci2 where c2: "dropTimelineFromCreateInfo ?asked = Some ci2"
    "ci_extensions ci2 = filter (\<lambda>x. x \<noteq> ''VK_KHR_timeline_semaphore'') (ci_extensions ?asked)"
    using drop_spec by blast
  have ex: "list_ex (\<lambda>x. x = ''VK_KHR_timeline_semaphore'') xs \<longleftrightarrow> ''VK_KHR_timeline_semaphore'' \<in> set xs" for xs
    by (auto simp: list_ex_iff)
  have "vt_handle_vkCreateDevice D mallocs ci contextTimeline h = Some (
       case createDevice D ?asked h of ((result, device), h) \<Rightarrow>
         if result \<noteq> VK_SUCCESS then
           (case createDevice D (ci2\<lparr>ci_pNext := [], ci_features := None\<rparr>) h of (answer, h) \<Rightarrow>
              (answer, (if fst answer = VK_SUCCESS then False else contextTimeline), h))
         else ((result, device), ''VK_KHR_timeline_semaphore'' \<in> set (ci_extensions ?asked), h))" for contextTimeline h
    by (simp add: vt_handle_vkCreateDevice_def assms disable_extensions [OF assms] wanted_injected r c2(1) ex Let_def split: prod.split)
  then show ?thesis using c2(2) t by (intro that [of ?asked "ci2\<lparr>ci_pNext := [], ci_features := None\<rparr>"]) simp_all
qed

lemma asked_names:
  assumes "xs = (if ok then filter (\<lambda>x. x \<in> names) (wanted_extensions client) else wanted_extensions client)"
    and "ys = xs \<or> ys = filter (\<lambda>x. x \<noteq> t) xs"
  shows "set ys \<inter> set globalImplementedDeviceExtensions = {} \<and>
    (ok \<longrightarrow> set ys \<subseteq> names \<and> (\<forall>e. e \<noteq> t \<and> e \<in> names \<longrightarrow>
       (e \<in> set ys \<longleftrightarrow> e \<in> set client - set globalImplementedDeviceExtensions \<or> e \<in> set extraExtensions)))"
  using assms extra_not_implemented by (cases ok) (auto simp: set_wanted)


text \<open>
C28: A client is shown the driver's extensions it is allowed to see, with the driver's versions, and after
  them each extension the renderer implements or emulates itself that is not already there, once; an
  extension disabled for the client's engine is never shown.
\<close>
theorem exposed_extensions:
  assumes "enumerates_ok V" and "setupExposedDeviceExtensions engineName configured = (exposed, disabled)"
  shows "\<exists>extra. getExposedDeviceExtensionProperties V exposed disabled =
      Some (Some (visible exposed disabled (snd (listing V (snd (counting V)))) @ map (\<lambda>e. (e, 1)) extra)) \<and>
    distinct extra \<and>
    set extra = set (globalImplementedDeviceExtensions @ globalEmulatedDeviceExtensions) -
      fst ` set (visible exposed disabled (snd (listing V (snd (counting V))))) \<and>
    set disabled \<inter> (set extra \<union> fst ` set (visible exposed disabled (snd (listing V (snd (counting V)))))) = {}"
proof -
  let ?xs = "visible exposed disabled (snd (listing V (snd (counting V))))"
  let ?M = "missing globalImplementedDeviceExtensions (fst ` set ?xs)"
  let ?extra = "?M @ missing globalEmulatedDeviceExtensions (fst ` set (?xs @ map (\<lambda>e. (e, 1::u32)) ?M))"
  have own: "distinct (globalImplementedDeviceExtensions @ globalEmulatedDeviceExtensions)"
    by (simp add: globalImplementedDeviceExtensions_def globalEmulatedDeviceExtensions_def)
  have other: "set disabled \<inter> set (globalImplementedDeviceExtensions @ globalEmulatedDeviceExtensions) = {}"
    using assms(2) by (auto simp: setupExposedDeviceExtensions_def Let_def globalImplementedDeviceExtensions_def
      globalEmulatedDeviceExtensions_def split: option.splits if_splits)
  have s: "set ?extra = set (globalImplementedDeviceExtensions @ globalEmulatedDeviceExtensions) - fst ` set ?xs"
    using own by (auto simp: missing_def image_Un image_image)
  have "set disabled \<inter> fst ` set ?xs = {}" by (auto simp: visible_def)
  then have "set disabled \<inter> (set ?extra \<union> fst ` set ?xs) = {}" using other s by blast
  moreover have "distinct ?extra" using own by (auto simp: missing_def)
  ultimately show ?thesis using exposed_list [OF assms(1), of exposed disabled] s by (intro exI [of _ ?extra]) simp
qed


section \<open>Concrete inputs\<close>

text \<open>A driver that lists the timeline extension and has its feature as given; the state is what it was asked for.\<close>

definition example_enumeration :: enumeration where
  "example_enumeration = \<lparr>counting = (0, 2),
     listing = (\<lambda>n. (0, take n [(''VK_KHR_timeline_semaphore'', 2), (''VK_KHR_push_descriptor'', 1)]))\<rparr>"

fun example_answer :: "u32 \<Rightarrow> device_structure \<Rightarrow> device_structure" where
  "example_answer v (TimelineSemaphoreFeatures _) = TimelineSemaphoreFeatures v"
| "example_answer v s = s"

definition example_driver :: "u32 \<Rightarrow> create_info list device_driver" where
  "example_driver v = \<lparr>enumerates = example_enumeration, getFeatures2 = Some (map (example_answer v)),
     getFeatures = [1, 0], createDevice = (\<lambda>ci asked. ((0, 7), asked @ [ci]))\<rparr>"

definition example_info :: create_info where
  "example_info = \<lparr>ci_pNext = [TimelineSemaphoreFeatures 1, Features2 [1, 1]],
     ci_extensions = [''VK_KHR_timeline_semaphore''], ci_features = None\<rparr>"

lemmas example_defs = example_enumeration_def example_driver_def example_info_def

lemma example_keeps: "keeps_types (map (example_answer v))"
proof -
  have "device_sType (example_answer v x) = device_sType x" for x by (cases x) simp_all
  then show ?thesis by (simp add: keeps_types_def)
qed

lemma example_disabled:
  "disableUnsupportedDeviceFeatures (example_driver 0) True example_info =
     Some \<lparr>ci_pNext = [Features2 [1, 0]], ci_extensions = [''VK_KHR_timeline_semaphore''], ci_features = None\<rparr>"
  by (simp add: disableUnsupportedDeviceFeatures_def example_defs hostHasTimeline_def deviceHasExtension_def
      timeline_supported_def mask_features_def VK_SUCCESS_def sType_defs)


lemma example_ok: "enumerates_ok example_enumeration"
  by (simp add: enumerates_ok_def example_enumeration_def VK_SUCCESS_def)

theorem exposed_extensions_witness:
  "\<exists>extra. getExposedDeviceExtensionProperties example_enumeration
      (fst (setupExposedDeviceExtensions (Some ''mesa zink'') None)) (snd (setupExposedDeviceExtensions (Some ''mesa zink'') None)) =
      Some (Some ([(''VK_KHR_timeline_semaphore'', 2)] @ map (\<lambda>e. (e, 1)) extra)) \<and>
    distinct extra \<and> set extra = set globalImplementedDeviceExtensions"
proof -
  let ?s = "setupExposedDeviceExtensions (Some ''mesa zink'') None"
  have v: "visible (fst ?s) (snd ?s) (snd (listing example_enumeration (snd (counting example_enumeration)))) =
      [(''VK_KHR_timeline_semaphore'', 2)]"
    by (simp add: visible_def setupExposedDeviceExtensions_def Let_def globalExposedDeviceExtensions_def
        List.map_filter_simps example_enumeration_def)
  have "set (globalImplementedDeviceExtensions @ globalEmulatedDeviceExtensions) - {''VK_KHR_timeline_semaphore''} =
      set globalImplementedDeviceExtensions"
    by (auto simp: globalImplementedDeviceExtensions_def globalEmulatedDeviceExtensions_def)
  then show ?thesis
    using exposed_extensions [OF example_ok, of "Some ''mesa zink''" None "fst ?s" "snd ?s"] unfolding v by auto
qed

lemma example_retained:
  "\<exists>kept ys. retainSupportedDeviceExtensions example_enumeration True
      (wanted_extensions [''VK_KHR_timeline_semaphore'']) = Some (kept, ys) \<and> take kept ys = [''VK_KHR_timeline_semaphore'']"
proof -
  have "filter (\<lambda>x. x \<in> names_of example_enumeration) (wanted_extensions [''VK_KHR_timeline_semaphore'']) =
      [''VK_KHR_timeline_semaphore'']"
    by (simp add: names_of_def example_enumeration_def wanted_extensions_def missing_def extraExtensions_def
        globalImplementedDeviceExtensions_def)
  then show ?thesis
    using retain_spec [of example_enumeration True "wanted_extensions [''VK_KHR_timeline_semaphore'']"] example_ok by auto
qed

lemma example_created:
  "vt_handle_vkCreateDevice (example_driver 0) (True, True) example_info False [] =
     Some ((0, 7), True, [\<lparr>ci_pNext = [Features2 [1, 0]], ci_extensions = [''VK_KHR_timeline_semaphore''], ci_features = None\<rparr>])"
proof -
  obtain kept ys where "retainSupportedDeviceExtensions example_enumeration True
      (wanted_extensions [''VK_KHR_timeline_semaphore'']) = Some (kept, ys)" "take kept ys = [''VK_KHR_timeline_semaphore'']"
    using example_retained by blast
  moreover have "enumerates (example_driver 0) = example_enumeration"
    "createDevice (example_driver 0) = (\<lambda>ci asked. ((0, 7), asked @ [ci]))"
    "ci_extensions example_info = [''VK_KHR_timeline_semaphore'']" by (simp_all add: example_defs)
  ultimately show ?thesis
    by (simp add: vt_handle_vkCreateDevice_def example_disabled wanted_injected VK_SUCCESS_def)
qed

text \<open>
  The extension is enabled and the context believes in the driver's timelines, although the driver said that
  it does not support them and the structure that would ask for them was dropped.
\<close>

theorem timeline_without_feature:
  "\<exists>asked. vt_handle_vkCreateDevice (example_driver 0) (True, True) example_info False [] = Some ((0, 7), True, [asked]) \<and>
     ci_extensions asked = [''VK_KHR_timeline_semaphore''] \<and> no_timeline (ci_pNext asked) \<and>
     \<not> hostHasTimeline (example_driver 0) True"
  by (simp add: example_created no_timeline_def)
    (simp add: example_defs hostHasTimeline_def deviceHasExtension_def timeline_supported_def VK_SUCCESS_def)


end
