(* ===== verification/Swapchain.thy ===== *)
theory Swapchain
  imports Prelude
begin

text \<open>
  Presenting images to a window, \<open>vortekrenderer/src/xwindow_swapchain.c\<close>: the client acquires and presents
  images; a present is a blit on the GPU into a buffer which a thread of the swapchain, the waiter, publishes
  to the window when the fence says that the blit is done.

  The state is what the critical sections of \<open>swapchain->lock\<close> read and write. Between them the two threads
  interleave; a step is one critical section or one call of the driver, of \<open>pthread_create\<close> or of
  \<open>publish_pixels\<close>. Recording and submitting a blit is one step.
\<close>

section \<open>The swapchain\<close>

record swapchain =
  imageCount :: nat
  blitFence :: bool
  blitInFlight :: bool
  blitSource :: int
  pendingIndex :: int
  destroying :: bool
  hasWaiter :: bool
  acquireIndex :: u32

definition XWindowSwapchain_create :: "bool \<Rightarrow> swapchain" where
  "XWindowSwapchain_create fence = \<lparr>imageCount = 3, blitFence = fence, blitInFlight = False, blitSource = -1,
     pendingIndex = -1, destroying = False, hasWaiter = False, acquireIndex = 0\<rparr>"

definition image_is_busy :: "swapchain \<Rightarrow> u32 \<Rightarrow> bool" where
  "image_is_busy sw index \<longleftrightarrow> (blitInFlight sw \<and> blitSource sw = sint index) \<or> pendingIndex sw = sint index"

text \<open>The list is of the values of \<open>i\<close> to go.\<close>

fun pick_from :: "swapchain \<Rightarrow> u32 \<Rightarrow> nat list \<Rightarrow> int" where
  "pick_from sw start [] = -1"
| "pick_from sw start (i # is) =
    (let index = (start + of_nat i) mod of_nat (imageCount sw)
     in if \<not> image_is_busy sw index then sint index else pick_from sw start is)"

definition pick_free_image :: "swapchain \<Rightarrow> int" where
  "pick_free_image sw = pick_from sw (acquireIndex sw mod of_nat (imageCount sw)) [0..<imageCount sw]"

text \<open>The critical sections. Of \<open>start_waiter\<close>: whether a thread is to be created.\<close>

definition start_waiter :: "swapchain \<Rightarrow> bool \<times> swapchain" where
  "start_waiter sw = (if hasWaiter sw \<or> destroying sw then (False, sw) else (True, sw\<lparr>hasWaiter := True\<rparr>))"

text \<open>What \<open>finish_blit_locked\<close> returns, and the state when it unlocks, before it publishes.\<close>

definition finish_blit_locked :: "swapchain \<Rightarrow> int \<times> swapchain" where
  "finish_blit_locked sw = (pendingIndex sw, sw\<lparr>blitSource := -1, blitInFlight := False, pendingIndex := -1\<rparr>)"

text \<open>Whether to submit now.\<close>

definition XWindowSwapchain_presentImageIndex :: "nat \<Rightarrow> swapchain \<Rightarrow> bool \<times> swapchain" where
  "XWindowSwapchain_presentImageIndex imageIndex sw =
     (if blitInFlight sw then (False, sw\<lparr>pendingIndex := int imageIndex\<rparr>)
      else (True, sw\<lparr>pendingIndex := -1, blitInFlight := True, blitSource := int imageIndex\<rparr>))"

definition blit_failed :: "swapchain \<Rightarrow> swapchain" where
  "blit_failed sw = sw\<lparr>blitInFlight := False, blitSource := -1\<rparr>"

section \<open>The system\<close>

text \<open>
  Where the client's thread is: outside, or in \<open>submit_blit\<close> (called from a present or from an acquire), in
  \<open>XWindowSwapchain_acquireNextImage\<close> behind the first look for an image, or in \<open>XWindowSwapchain_destroy\<close>.
\<close>

datatype caller = Presenting | Acquiring

datatype client_place =
    Idle
  | Record caller nat | Record_failed caller | Start_waiter caller | Create_thread caller | Create_failed caller
  | Acquire_wait | Acquire_waited | Acquire_publish int | Acquire_relock int | Acquire_pick
  | Destroy_check | Destroy_join | Destroy_wait | Gone

text \<open>Where the waiter is in the loop of \<open>flush_pending_blit\<close>, if there is one.\<close>

datatype wait_status = Signalled | Timed_out | Wait_failed

datatype waiter_place =
    No_waiter
  | Wait | Waited wait_status | Finish | Publish int | Look_again | Take int | Flush nat | Flush_failed

text \<open>
  The GPU works off the blits that were submitted, by their images; the fence is signalled when one is
  done, which is then in the buffer that is published. \<open>held\<close> are the images the client has acquired and not
  presented, \<open>reused\<close> tells whether a blit was ever recorded while the GPU still used the command buffer, or
  with a fence that was not reset.
\<close>

record sys =
  sw :: swapchain
  client :: client_place
  waiter :: waiter_place
  gpu :: "nat list"
  fence :: bool
  published :: "nat option list"
  buffer :: "nat option"
  held :: "nat list"
  answer :: int
  reused :: bool

definition VK_SUCCESS :: int where "VK_SUCCESS = 0"
definition VK_NOT_READY :: int where "VK_NOT_READY = 1"
definition VK_ERROR_DEVICE_LOST :: int where "VK_ERROR_DEVICE_LOST = -4"
definition VK_ERROR_OUT_OF_DATE_KHR :: int where "VK_ERROR_OUT_OF_DATE_KHR = -1000001004"

text \<open>\<open>record_blit\<close>: refused for an index out of range or when the driver refuses (\<open>ok\<close>).\<close>

definition record_blit :: "bool \<Rightarrow> nat \<Rightarrow> sys \<Rightarrow> (bool \<times> sys)" where
  "record_blit ok imageIndex s =
     (if imageIndex \<ge> imageCount (sw s) then (False, s)
      else let s = s\<lparr>reused := reused s \<or> gpu s \<noteq> [] \<or> fence s\<rparr>
      in if ok then (True, s\<lparr>gpu := gpu s @ [imageIndex]\<rparr>) else (False, s))"

definition publish_pixels :: "sys \<Rightarrow> sys" where
  "publish_pixels s = s\<lparr>published := published s @ [buffer s]\<rparr>"

text \<open>What \<open>vkWaitForFences\<close> can answer; \<open>lost\<close>: the device may fail.\<close>

definition can_answer :: "bool \<Rightarrow> sys \<Rightarrow> wait_status \<Rightarrow> bool" where
  "can_answer lost s r = (case r of Signalled \<Rightarrow> fence s | Timed_out \<Rightarrow> \<not> fence s | Wait_failed \<Rightarrow> lost)"

text \<open>The end of an acquire, with what was picked; \<open>ok\<close>: the submit that signals semaphore and fence is accepted.\<close>

definition acquired_image :: "bool \<Rightarrow> int \<Rightarrow> sys \<Rightarrow> sys" where
  "acquired_image ok chosen s =
     (if chosen < 0 then s\<lparr>client := Idle, answer := VK_NOT_READY\<rparr>
      else let s = s\<lparr>client := Idle, sw := (sw s)\<lparr>acquireIndex := (of_int chosen + 1) mod of_nat (imageCount (sw s))\<rparr>\<rparr>
      in if ok then s\<lparr>answer := VK_SUCCESS, held := nat chosen # held s\<rparr> else s\<lparr>answer := VK_ERROR_DEVICE_LOST\<rparr>)"

text \<open>The calls of the client; \<open>size_ok\<close>: the window still has the size of the images.\<close>

definition XWindowSwapchain_acquireNextImage :: "bool \<Rightarrow> bool \<Rightarrow> sys \<Rightarrow> sys" where
  "XWindowSwapchain_acquireNextImage size_ok ok s =
     (if \<not> size_ok then s\<lparr>answer := VK_ERROR_OUT_OF_DATE_KHR\<rparr>
      else let chosen = pick_free_image (sw s)
      in if chosen < 0 \<and> blitInFlight (sw s) \<and> blitFence (sw s) then s\<lparr>client := Acquire_wait\<rparr>
         else acquired_image ok chosen s)"

definition presentImage :: "nat \<Rightarrow> sys \<Rightarrow> sys" where
  "presentImage i s = (case XWindowSwapchain_presentImageIndex i (sw s) of (submit_now, w) \<Rightarrow>
     s\<lparr>sw := w, held := remove1 i (held s), client := (if submit_now then Record Presenting i else Idle)\<rparr>)"

definition XWindowSwapchain_destroy :: "sys \<Rightarrow> sys" where
  "XWindowSwapchain_destroy s = s\<lparr>sw := (sw s)\<lparr>destroying := True, pendingIndex := -1\<rparr>, client := Destroy_check\<rparr>"

definition submitted :: "caller \<Rightarrow> client_place" where
  "submitted c = (case c of Presenting \<Rightarrow> Idle | Acquiring \<Rightarrow> Acquire_pick)"

text \<open>
  The next step of the client in a call, with the outcome of what it calls: of a wait for the fence \<open>r\<close>, of
  anything else \<open>ok\<close>. \<open>None\<close>: it cannot go on now.
\<close>

fun client_step :: "bool \<Rightarrow> wait_status \<Rightarrow> client_place \<Rightarrow> sys \<Rightarrow> sys option" where
  "client_step ok r Idle s = None"
| "client_step ok r (Record c i) s = (case record_blit ok i s of (recorded, s) \<Rightarrow>
     Some (s\<lparr>client := (if \<not> recorded then Record_failed c else if blitFence (sw s) then Start_waiter c else submitted c)\<rparr>))"
| "client_step ok r (Record_failed c) s = Some (s\<lparr>sw := blit_failed (sw s), client := submitted c\<rparr>)"
| "client_step ok r (Start_waiter c) s = (case start_waiter (sw s) of (create, w) \<Rightarrow>
     Some (s\<lparr>sw := w, client := (if create then Create_thread c else submitted c)\<rparr>))"
| "client_step ok r (Create_thread c) s =
     Some (if ok then s\<lparr>waiter := Wait, client := submitted c\<rparr> else s\<lparr>client := Create_failed c\<rparr>)"
| "client_step ok r (Create_failed c) s = Some (s\<lparr>sw := (sw s)\<lparr>hasWaiter := False\<rparr>, client := submitted c\<rparr>)"
| "client_step ok r Acquire_wait s = Some (case r of
      Timed_out \<Rightarrow> s\<lparr>client := Idle, answer := VK_NOT_READY\<rparr>
    | Wait_failed \<Rightarrow> s\<lparr>client := Idle, answer := VK_ERROR_DEVICE_LOST\<rparr>
    | Signalled \<Rightarrow> s\<lparr>client := Acquire_waited\<rparr>)"
| "client_step ok r Acquire_waited s =
     Some (if blitInFlight (sw s) then (case finish_blit_locked (sw s) of (pending, w) \<Rightarrow>
             s\<lparr>sw := w, fence := False, client := Acquire_publish pending\<rparr>)
           else acquired_image ok (pick_free_image (sw s)) s)"
| "client_step ok r (Acquire_publish pending) s = Some ((publish_pixels s)\<lparr>client := Acquire_relock pending\<rparr>)"
| "client_step ok r (Acquire_relock pending) s =
     Some (if 0 \<le> pending then s\<lparr>sw := (sw s)\<lparr>blitInFlight := True, blitSource := pending\<rparr>,
             client := Record Acquiring (nat pending)\<rparr>
           else acquired_image ok (pick_free_image (sw s)) s)"
| "client_step ok r Acquire_pick s = Some (acquired_image ok (pick_free_image (sw s)) s)"
| "client_step ok r Destroy_check s = Some (s\<lparr>client :=
     (if hasWaiter (sw s) then Destroy_join
      else if blitInFlight (sw s) \<and> blitFence (sw s) then Destroy_wait else Gone)\<rparr>)"
| "client_step ok r Destroy_join s = (if waiter s = No_waiter then Some (s\<lparr>client := Gone\<rparr>) else None)"
| "client_step ok r Destroy_wait s = Some (s\<lparr>client := Gone\<rparr>)"
| "client_step ok r Gone s = None"

text \<open>The same of the waiter. Its thread ends where it clears \<open>hasWaiter\<close>.\<close>

definition waiter_ends :: "sys \<Rightarrow> sys" where
  "waiter_ends s = s\<lparr>sw := (sw s)\<lparr>hasWaiter := False\<rparr>, waiter := No_waiter\<rparr>"

definition waiter_stops :: "sys \<Rightarrow> sys" where
  "waiter_stops s = waiter_ends (s\<lparr>sw := (sw s)\<lparr>blitInFlight := False\<rparr>\<rparr>)"

fun flush_pending_blit :: "bool \<Rightarrow> wait_status \<Rightarrow> waiter_place \<Rightarrow> sys \<Rightarrow> sys option" where
  "flush_pending_blit ok r No_waiter s = None"
| "flush_pending_blit ok r Wait s = Some (s\<lparr>waiter := (if blitFence (sw s) then Waited r else Finish)\<rparr>)"
| "flush_pending_blit ok r (Waited status) s =
     Some (if destroying (sw s) then waiter_stops s else s\<lparr>waiter := (if status = Timed_out then Wait else Finish)\<rparr>)"
| "flush_pending_blit ok r Finish s =
     Some (if destroying (sw s) then waiter_stops s
           else if \<not> blitInFlight (sw s) then waiter_ends s
           else case finish_blit_locked (sw s) of (pending, w) \<Rightarrow>
             s\<lparr>sw := w, fence := (if blitFence (sw s) then False else fence s), waiter := Publish pending\<rparr>)"
| "flush_pending_blit ok r (Publish pending) s =
     Some ((publish_pixels s)\<lparr>waiter := (if pending < 0 then Look_again else Take pending)\<rparr>)"
| "flush_pending_blit ok r Look_again s =
     (let pending = pendingIndex (sw s); s = s\<lparr>sw := (sw s)\<lparr>pendingIndex := -1\<rparr>\<rparr>
      in Some (if pending < 0 then waiter_ends s else s\<lparr>waiter := Take pending\<rparr>))"
| "flush_pending_blit ok r (Take pending) s =
     Some (s\<lparr>sw := (sw s)\<lparr>blitInFlight := True, blitSource := pending\<rparr>, waiter := Flush (nat pending)\<rparr>)"
| "flush_pending_blit ok r (Flush pending) s = (case record_blit ok pending s of (recorded, s) \<Rightarrow>
     Some (s\<lparr>waiter := (if recorded then Wait else Flush_failed)\<rparr>))"
| "flush_pending_blit ok r Flush_failed s = Some (waiter_ends (s\<lparr>sw := blit_failed (sw s)\<rparr>))"

text \<open>A swapchain that was just created, and the steps of the system.\<close>

definition start :: "bool \<Rightarrow> sys" where
  "start f = \<lparr>sw = XWindowSwapchain_create f, client = Idle, waiter = No_waiter, gpu = [], fence = False,
     published = [], buffer = None, held = [], answer = 0, reused = False\<rparr>"

datatype action = Acquire bool bool | Present nat | Destroy | Client bool wait_status | Waiter bool wait_status | Gpu

fun act :: "bool \<Rightarrow> action \<Rightarrow> sys \<Rightarrow> sys option" where
  "act lost (Acquire size_ok ok) s =
     (if client s = Idle \<and> (ok \<or> lost) then Some (XWindowSwapchain_acquireNextImage size_ok ok s) else None)"
| "act lost (Present i) s = (if client s = Idle \<and> i \<in> set (held s) then Some (presentImage i s) else None)"
| "act lost Destroy s = (if client s = Idle then Some (XWindowSwapchain_destroy s) else None)"
| "act lost (Client ok r) s =
     (if client s = Acquire_wait \<and> \<not> can_answer lost s r then None else client_step ok r (client s) s)"
| "act lost (Waiter ok r) s =
     (if waiter s = Wait \<and> blitFence (sw s) \<and> \<not> can_answer lost s r then None else flush_pending_blit ok r (waiter s) s)"
| "act lost Gpu s = (case gpu s of [] \<Rightarrow> None | i # is \<Rightarrow> Some (s\<lparr>gpu := is, buffer := Some i, fence := True\<rparr>))"

fun run :: "bool \<Rightarrow> action list \<Rightarrow> sys \<Rightarrow> sys option" where
  "run lost [] s = Some s"
| "run lost (a # as) s = do { s \<leftarrow> act lost a s; run lost as s }"

section \<open>Picking an image\<close>

definition busy :: "swapchain \<Rightarrow> nat \<Rightarrow> bool" where
  "busy w i \<longleftrightarrow> (blitInFlight w \<and> blitSource w = int i) \<or> pendingIndex w = int i"

lemma mod_three: "w mod 3 = 0 \<or> w mod 3 = 1 \<or> w mod 3 = (2::u32)"
proof -
  have "unat (w mod 3) < 3" by (simp add: unat_mod)
  then have "unat (w mod 3) = unat (0::u32) \<or> unat (w mod 3) = unat (1::u32) \<or> unat (w mod 3) = unat (2::u32)"
    by auto
  then show ?thesis by (simp only: word_unat_eq_iff)
qed

lemma pick_cases:
  assumes "imageCount w = 3"
  defines "f \<equiv> \<lambda>i. (unat (acquireIndex w) + i) mod 3"
  shows "pick_free_image w = (if \<not> busy w (f 0) then int (f 0) else if \<not> busy w (f 1) then int (f 1)
     else if \<not> busy w (f 2) then int (f 2) else -1)"
proof -
  have m: "f i = (unat (acquireIndex w mod 3) + i) mod 3" for i
    unfolding f_def by (simp add: unat_mod mod_add_left_eq)
  have three: "[0..<3] = [0, 1, 2::nat]" by (simp add: upt_rec)
  have b: "image_is_busy w 0 = busy w 0" "image_is_busy w 1 = busy w 1" "image_is_busy w 2 = busy w 2"
    by (simp_all add: image_is_busy_def busy_def)
  consider "acquireIndex w mod 3 = 0" | "acquireIndex w mod 3 = 1" | "acquireIndex w mod 3 = 2"
    using mod_three [of "acquireIndex w"] by blast
  then show ?thesis
    by cases (simp_all add: m pick_free_image_def assms(1) three b Let_def numeral_2_eq_2 [symmetric])
qed

text \<open>At most two of three images are busy, so one is found: the first after the one acquired last.\<close>

lemma pick_three:
  assumes "imageCount w = 3"
  shows "\<exists>i<3. pick_free_image w = int ((unat (acquireIndex w) + i) mod 3) \<and>
     \<not> busy w ((unat (acquireIndex w) + i) mod 3) \<and> (\<forall>j<i. busy w ((unat (acquireIndex w) + j) mod 3))"
proof -
  let ?f = "\<lambda>i. (unat (acquireIndex w) + i) mod 3"
  have "?f 0 \<noteq> ?f 1" "?f 1 \<noteq> ?f 2" "?f 0 \<noteq> ?f 2" by presburger+
  then have "\<not> (busy w (?f 0) \<and> busy w (?f 1) \<and> busy w (?f 2))" by (auto simp: busy_def)
  then consider "\<not> busy w (?f 0)" | "busy w (?f 0)" "\<not> busy w (?f 1)" | "busy w (?f 0)" "busy w (?f 1)" "\<not> busy w (?f 2)"
    by blast
  then show ?thesis
  proof cases
    case 1
    then show ?thesis by (intro exI [of _ 0]) (simp add: pick_cases [OF assms])
  next
    case 2
    then show ?thesis by (intro exI [of _ 1]) (simp add: pick_cases [OF assms])
  next
    case 3
    then show ?thesis by (intro exI [of _ 2]) (auto simp: pick_cases [OF assms] less_2_cases_iff)
  qed
qed

section \<open>Every schedule\<close>

inductive reachable :: "bool \<Rightarrow> bool \<Rightarrow> sys \<Rightarrow> bool" for lost f where
  initially: "reachable lost f (start f)"
| step: "\<lbrakk>reachable lost f s; act lost a s = Some s'\<rbrakk> \<Longrightarrow> reachable lost f s'"

definition creating :: "client_place \<Rightarrow> bool" where
  "creating c \<longleftrightarrow> c = Create_thread Presenting \<or> c = Create_failed Presenting"

definition ending :: "client_place \<Rightarrow> bool" where
  "ending c \<longleftrightarrow> c = Destroy_check \<or> c = Destroy_join \<or> c = Destroy_wait \<or> c = Gone"

definition image_or_none :: "int \<Rightarrow> bool" where
  "image_or_none i \<longleftrightarrow> -1 \<le> i \<and> i < 3"

text \<open>Where the two threads can be.\<close>

definition client_at :: "client_place \<Rightarrow> bool" where
  "client_at c \<longleftrightarrow> c = Idle \<or> (\<exists>i<3. c = Record Presenting i) \<or> c = Record_failed Presenting \<or>
     c = Start_waiter Presenting \<or> creating c \<or> ending c"

definition waiter_at :: "waiter_place \<Rightarrow> bool" where
  "waiter_at w \<longleftrightarrow> (case w of Publish i \<Rightarrow> image_or_none i | Take i \<Rightarrow> 0 \<le> i \<and> i < 3 | Flush i \<Rightarrow> i < 3 | _ \<Rightarrow> True)"

definition sound :: "bool \<Rightarrow> sys \<Rightarrow> bool" where
  "sound f s \<longleftrightarrow> imageCount (sw s) = 3 \<and> blitFence (sw s) = f \<and> client_at (client s) \<and> waiter_at (waiter s) \<and>
     image_or_none (blitSource (sw s)) \<and> image_or_none (pendingIndex (sw s)) \<and> set (held s) \<subseteq> {..<3} \<and>
     (hasWaiter (sw s) \<longleftrightarrow> waiter s \<noteq> No_waiter \<or> creating (client s)) \<and>
     (creating (client s) \<longrightarrow> waiter s = No_waiter) \<and>
     (client s = Destroy_wait \<or> client s = Gone \<longrightarrow> waiter s = No_waiter) \<and>
     (destroying (sw s) \<longleftrightarrow> ending (client s))"

lemma sound_start: "sound f (start f)"
  by (simp add: sound_def start_def XWindowSwapchain_create_def client_at_def waiter_at_def image_or_none_def
      creating_def ending_def)

lemmas place_defs = client_at_def creating_def ending_def

lemma acquired_picked:
  assumes "imageCount (sw s) = 3"
  shows "\<exists>i<3. pick_free_image (sw s) = int i \<and> \<not> busy (sw s) i"
  using pick_three [OF assms] by (metis mod_less_divisor zero_less_numeral)

lemma acquire_sound:
  assumes "sound f s" "client s = Idle"
  shows "sound f (XWindowSwapchain_acquireNextImage size_ok ok s)"
proof -
  obtain i where "i < 3" "pick_free_image (sw s) = int i"
    using acquired_picked [of s] assms(1) by (auto simp: sound_def)
  then show ?thesis using assms
    by (auto simp: XWindowSwapchain_acquireNextImage_def acquired_image_def sound_def place_defs Let_def)
qed

lemma present_sound:
  assumes "sound f s" "client s = Idle" "i \<in> set (held s)"
  shows "sound f (presentImage i s)"
proof -
  have "i < 3" using assms by (auto simp: sound_def)
  moreover have "set (remove1 i (held s)) \<subseteq> {..<3}" using assms(1) set_remove1_subset by (fastforce simp: sound_def)
  ultimately show ?thesis using assms
    by (simp add: presentImage_def XWindowSwapchain_presentImageIndex_def sound_def place_defs image_or_none_def)
qed

lemma destroy_sound: "sound f s \<Longrightarrow> client s = Idle \<Longrightarrow> sound f (XWindowSwapchain_destroy s)"
  by (auto simp: XWindowSwapchain_destroy_def sound_def place_defs image_or_none_def)

lemma record_blit_only: "\<exists>d g u. record_blit ok i s = (d, s\<lparr>gpu := g, reused := u\<rparr>)"
  by (cases s) (auto simp: record_blit_def Let_def)

lemma client_sound:
  assumes s: "sound f s" and c: "client_step ok r (client s) s = Some s'"
  shows "sound f s'"
proof (cases "client s")
  case (Record d i)
  obtain fin g u where "record_blit ok i s = (fin, s\<lparr>gpu := g, reused := u\<rparr>)" using record_blit_only by blast
  then have "s' = s\<lparr>gpu := g, reused := u, client :=
      (if \<not> fin then Record_failed d else if blitFence (sw s) then Start_waiter d else submitted d)\<rparr>"
    using c Record by auto
  then show ?thesis using s Record by (simp add: sound_def place_defs submitted_def)
next
  case (Record_failed d)
  then have "s' = s\<lparr>sw := blit_failed (sw s), client := submitted d\<rparr>" using c by simp
  then show ?thesis using s Record_failed
    by (simp add: sound_def place_defs blit_failed_def submitted_def image_or_none_def)
next
  case (Start_waiter d)
  then have "s' = s\<lparr>sw := snd (start_waiter (sw s)),
      client := (if fst (start_waiter (sw s)) then Create_thread d else submitted d)\<rparr>"
    using c by (auto split: prod.splits)
  then show ?thesis using s Start_waiter
    by (cases "hasWaiter (sw s)"; cases "destroying (sw s)") (simp_all add: sound_def place_defs start_waiter_def submitted_def)
next
  case (Create_thread d)
  then have "s' = (if ok then s\<lparr>waiter := Wait, client := submitted d\<rparr> else s\<lparr>client := Create_failed d\<rparr>)"
    using c by simp
  then show ?thesis using s Create_thread by (simp add: sound_def place_defs submitted_def waiter_at_def)
next
  case (Create_failed d)
  then have "s' = s\<lparr>sw := (sw s)\<lparr>hasWaiter := False\<rparr>, client := submitted d\<rparr>" using c by simp
  then show ?thesis using s Create_failed by (simp add: sound_def place_defs submitted_def waiter_at_def)
qed (use assms in \<open>auto simp: sound_def place_defs split: if_splits\<close>)

lemmas waiter_exit_defs = waiter_ends_def waiter_stops_def

lemma waiter_sound:
  assumes s: "sound f s" and c: "flush_pending_blit ok r (waiter s) s = Some s'"
  shows "sound f s'"
proof (cases "waiter s")
  case (Waited status)
  then have "s' = (if destroying (sw s) then waiter_stops s else s\<lparr>waiter := (if status = Timed_out then Wait else Finish)\<rparr>)"
    using c by simp
  then show ?thesis using s Waited by (simp add: sound_def waiter_exit_defs waiter_at_def)
next
  case Finish
  then have "s' = (if destroying (sw s) then waiter_stops s else if \<not> blitInFlight (sw s) then waiter_ends s
      else s\<lparr>sw := snd (finish_blit_locked (sw s)), fence := (if blitFence (sw s) then False else fence s),
        waiter := Publish (pendingIndex (sw s))\<rparr>)"
    using c by (simp add: finish_blit_locked_def split: if_splits)
  then show ?thesis using s Finish
    by (simp add: sound_def waiter_exit_defs finish_blit_locked_def waiter_at_def image_or_none_def)
next
  case (Publish p)
  then have "s' = (publish_pixels s)\<lparr>waiter := (if p < 0 then Look_again else Take p)\<rparr>" using c by simp
  then show ?thesis using s Publish by (simp add: sound_def waiter_at_def image_or_none_def publish_pixels_def)
next
  case Look_again
  then have "s' = (let s1 = s\<lparr>sw := (sw s)\<lparr>pendingIndex := -1\<rparr>\<rparr>
      in if pendingIndex (sw s) < 0 then waiter_ends s1 else s1\<lparr>waiter := Take (pendingIndex (sw s))\<rparr>)"
    using c by (simp add: Let_def split: if_splits)
  then show ?thesis using s Look_again by (simp add: sound_def waiter_at_def image_or_none_def waiter_exit_defs Let_def)
next
  case (Take p)
  then have "s' = s\<lparr>sw := (sw s)\<lparr>blitInFlight := True, blitSource := p\<rparr>, waiter := Flush (nat p)\<rparr>" using c by simp
  then show ?thesis using s Take by (simp add: sound_def waiter_at_def image_or_none_def) linarith
next
  case (Flush i)
  obtain d g u where "record_blit ok i s = (d, s\<lparr>gpu := g, reused := u\<rparr>)" using record_blit_only by blast
  then have "s' = s\<lparr>gpu := g, reused := u, waiter := (if d then Wait else Flush_failed)\<rparr>" using c Flush by simp
  then show ?thesis using s Flush by (simp add: sound_def waiter_at_def)
next
  case Flush_failed
  then have "s' = waiter_ends (s\<lparr>sw := blit_failed (sw s)\<rparr>)" using c by simp
  then show ?thesis using s Flush_failed by (simp add: sound_def waiter_at_def image_or_none_def waiter_exit_defs blit_failed_def)
next
  case Wait
  then have "s' = s\<lparr>waiter := (if blitFence (sw s) then Waited r else Finish)\<rparr>" using c by simp
  then show ?thesis using s Wait by (simp add: sound_def waiter_at_def)
next
  case No_waiter
  then show ?thesis using c by simp
qed

lemma act_sound:
  assumes "sound f s" "act lost a s = Some s'"
  shows "sound f s'"
proof (cases a)
  case Gpu
  then obtain i "is" where "s' = s\<lparr>gpu := is, buffer := Some i, fence := True\<rparr>"
    using assms(2) by (auto split: list.splits)
  then show ?thesis using assms(1) by (simp add: sound_def)
qed (use assms in \<open>auto split: if_splits intro: acquire_sound present_sound destroy_sound client_sound waiter_sound\<close>)

lemma reachable_sound: "reachable lost f s \<Longrightarrow> sound f s"
  by (induction rule: reachable.induct) (auto intro: sound_start act_sound)

section \<open>Orderly schedules\<close>

text \<open>
  The waiter has finished a blit and taken the next image but not yet marked it: what the code leaves
  unprotected. An orderly client does nothing meanwhile, has at most one image and does not destroy the
  swapchain; threads can be created and the device is not lost.
\<close>

definition unprotected :: "sys \<Rightarrow> bool" where
  "unprotected s \<longleftrightarrow> (case waiter s of Publish _ \<Rightarrow> True | Look_again \<Rightarrow> True | Take _ \<Rightarrow> True | _ \<Rightarrow> False)"

definition orderly :: "action \<Rightarrow> sys \<Rightarrow> bool" where
  "orderly a s \<longleftrightarrow> (case a of
      Acquire _ _ \<Rightarrow> \<not> unprotected s \<and> held s = []
    | Present _ \<Rightarrow> \<not> unprotected s
    | Destroy \<Rightarrow> False
    | Client ok _ \<Rightarrow> ok \<or> \<not> creating (client s)
    | _ \<Rightarrow> True)"

inductive orderly_reachable :: "sys \<Rightarrow> bool" where
  initially: "orderly_reachable (start True)"
| step: "\<lbrakk>orderly_reachable s; orderly a s; act False a s = Some s'\<rbrakk> \<Longrightarrow> orderly_reachable s'"

lemma orderly_reachable_reachable: "orderly_reachable s \<Longrightarrow> reachable False True s"
  by (induction rule: orderly_reachable.induct) (auto intro: reachable.intros)

text \<open>The blit of the source is on the GPU, or done and its fence signalled.\<close>

definition blit_done :: "sys \<Rightarrow> bool" where
  "blit_done s \<longleftrightarrow> gpu s = [] \<and> fence s \<and> buffer s = Some (nat (blitSource (sw s)))"

definition blit_out :: "sys \<Rightarrow> bool" where
  "blit_out s \<longleftrightarrow> gpu s = [nat (blitSource (sw s))] \<and> \<not> fence s \<or> blit_done s"

definition gpu_idle :: "sys \<Rightarrow> bool" where
  "gpu_idle s \<longleftrightarrow> gpu s = [] \<and> \<not> fence s"

definition client_alone :: "sys \<Rightarrow> bool" where
  "client_alone s \<longleftrightarrow> (case client s of
      Idle \<Rightarrow> \<not> blitInFlight (sw s) \<and> gpu_idle s
    | Record Presenting i \<Rightarrow> blitInFlight (sw s) \<and> blitSource (sw s) = int i \<and> gpu_idle s
    | Record_failed Presenting \<Rightarrow> blitInFlight (sw s) \<and> gpu_idle s
    | Start_waiter Presenting \<Rightarrow> blitInFlight (sw s) \<and> blit_out s
    | Create_thread Presenting \<Rightarrow> blitInFlight (sw s) \<and> blit_out s
    | _ \<Rightarrow> False)"

definition in_order :: "sys \<Rightarrow> bool" where
  "in_order s \<longleftrightarrow> (case waiter s of
      No_waiter \<Rightarrow> client_alone s
    | Wait \<Rightarrow> client s = Idle \<and> blitInFlight (sw s) \<and> blit_out s
    | Waited r \<Rightarrow> client s = Idle \<and> blitInFlight (sw s) \<and> blit_out s \<and> (r = Signalled \<longrightarrow> blit_done s) \<and> r \<noteq> Wait_failed
    | Finish \<Rightarrow> client s = Idle \<and> blitInFlight (sw s) \<and> blit_done s
    | Flush i \<Rightarrow> client s = Idle \<and> blitInFlight (sw s) \<and> blitSource (sw s) = int i \<and> gpu_idle s
    | Flush_failed \<Rightarrow> client s = Idle \<and> blitInFlight (sw s) \<and> gpu_idle s
    | _ \<Rightarrow> client s = Idle \<and> \<not> blitInFlight (sw s) \<and> gpu_idle s \<and> pendingIndex (sw s) = -1)"

definition held_free :: "sys \<Rightarrow> bool" where
  "held_free s \<longleftrightarrow> length (held s) \<le> 1 \<and>
     (\<forall>i\<in>set (held s). \<not> busy (sw s) i \<and> waiter s \<noteq> Publish (int i) \<and> waiter s \<noteq> Take (int i))"

definition tidy :: "sys \<Rightarrow> bool" where
  "tidy s \<longleftrightarrow> sound True s \<and> in_order s \<and> held_free s \<and> \<not> reused s \<and> \<not> destroying (sw s) \<and>
     (blitInFlight (sw s) \<longrightarrow> 0 \<le> blitSource (sw s))"

lemmas order_defs = in_order_def client_alone_def blit_out_def blit_done_def gpu_idle_def

lemma tidy_start: "tidy (start True)"
  using sound_start [of True]
  by (simp add: tidy_def held_free_def start_def XWindowSwapchain_create_def in_order_def)
    (simp add: client_alone_def gpu_idle_def)

lemma tidy_acquire:
  assumes "tidy s" "client s = Idle" "\<not> unprotected s" "held s = []"
  shows "tidy (XWindowSwapchain_acquireNextImage size_ok True s)"
proof -
  obtain i where i: "i < 3" "pick_free_image (sw s) = int i" "\<not> busy (sw s) i"
    using acquired_picked [of s] assms(1) by (auto simp: sound_def tidy_def)
  have snd: "sound True (XWindowSwapchain_acquireNextImage size_ok True s)"
    using acquire_sound assms(1,2) by (auto simp: tidy_def)
  have e: "XWindowSwapchain_acquireNextImage size_ok True s = (if \<not> size_ok then s\<lparr>answer := VK_ERROR_OUT_OF_DATE_KHR\<rparr>
      else s\<lparr>client := Idle, sw := (sw s)\<lparr>acquireIndex := (of_nat i + 1) mod of_nat (imageCount (sw s))\<rparr>,
        answer := VK_SUCCESS, held := [i]\<rparr>)"
    using i assms(2,4) by (simp add: XWindowSwapchain_acquireNextImage_def acquired_image_def Let_def)
  have w: "waiter s \<noteq> Publish p \<and> waiter s \<noteq> Take p" for p using assms(3) by (auto simp: unprotected_def)
  have "in_order (s\<lparr>client := Idle, sw := (sw s)\<lparr>acquireIndex := a\<rparr>, answer := x, held := h\<rparr>) = in_order s"
    "in_order (s\<lparr>answer := x\<rparr>) = in_order s" for a x h
    using assms(2) by (cases "waiter s"; simp add: order_defs)+
  then show ?thesis using snd assms(1,4) i(3) w unfolding tidy_def e by (auto simp: held_free_def busy_def)
qed

lemma tidy_present:
  assumes "tidy s" "client s = Idle" "\<not> unprotected s" "i \<in> set (held s)"
  shows "tidy (presentImage i s)"
proof -
  have snd: "sound True (presentImage i s)" using present_sound assms by (auto simp: tidy_def)
  have h: "held s = [i]" using assms(1,4) by (cases "held s"; cases "tl (held s)") (auto simp: tidy_def held_free_def)
  have "in_order (presentImage i s)" using assms(1,2,3)
    by (cases "waiter s") (auto simp: tidy_def order_defs presentImage_def XWindowSwapchain_presentImageIndex_def unprotected_def)
  moreover have "held_free (presentImage i s)" using h
    by (simp add: held_free_def presentImage_def split: prod.split)
  ultimately show ?thesis using snd assms(1)
    by (auto simp: tidy_def presentImage_def XWindowSwapchain_presentImageIndex_def)
qed

lemma tidy_record:
  assumes t: "tidy s" and c: "client s = Record c i" "client_step ok r (client s) s = Some s'"
  shows "tidy s'"
proof -
  have w: "waiter s = No_waiter" "c = Presenting" "blitInFlight (sw s)" "blitSource (sw s) = int i" "gpu_idle s"
    using t c(1) by (auto simp: tidy_def in_order_def client_alone_def split: waiter_place.splits caller.splits)
  have "i < 3" "imageCount (sw s) = 3" "blitFence (sw s)" using t c(1) by (auto simp: tidy_def sound_def place_defs)
  then have "s' = (if ok then s\<lparr>gpu := [i], client := Start_waiter c\<rparr> else s\<lparr>client := Record_failed c\<rparr>)"
    using c w(5) by (auto simp: record_blit_def gpu_idle_def Let_def)
  moreover have "sound True s'" using client_sound t c(2) by (auto simp: tidy_def)
  ultimately show ?thesis using t w by (auto simp: tidy_def order_defs held_free_def busy_def)
qed

lemma tidy_client:
  assumes t: "tidy s" and c: "client_step ok r (client s) s = Some s'" and o: "ok \<or> \<not> creating (client s)"
  shows "tidy s'"
proof -
  have snd: "sound True s'" using client_sound t c by (auto simp: tidy_def)
  have place: "waiter s = No_waiter \<or> client s = Idle" using t by (auto simp: tidy_def in_order_def split: waiter_place.splits)
  show ?thesis
  proof (cases "client s")
    case (Record c i)
    then show ?thesis using tidy_record t c by blast
  next
    case (Record_failed d)
    then have "s' = s\<lparr>sw := blit_failed (sw s), client := submitted d\<rparr>" using c by simp
    then show ?thesis using t snd Record_failed place
      by (cases d) (auto simp: tidy_def order_defs held_free_def busy_def blit_failed_def submitted_def)
  next
    case (Start_waiter d)
    then have "d = Presenting" "\<not> hasWaiter (sw s)" "\<not> destroying (sw s)"
      using t place by (auto simp: tidy_def sound_def place_defs)
    then have "s' = s\<lparr>sw := (sw s)\<lparr>hasWaiter := True\<rparr>, client := Create_thread d\<rparr>"
      using c Start_waiter by (simp add: start_waiter_def)
    then show ?thesis using t snd Start_waiter place \<open>d = Presenting\<close>
      by (auto simp: tidy_def order_defs held_free_def busy_def)
  next
    case (Create_thread d)
    then have "d = Presenting" using t place by (auto simp: tidy_def sound_def place_defs)
    then have "s' = s\<lparr>waiter := Wait, client := Idle\<rparr>"
      using c o Create_thread by (simp add: creating_def submitted_def)
    then show ?thesis using t snd Create_thread place \<open>d = Presenting\<close>
      by (auto simp: tidy_def order_defs held_free_def busy_def)
  next
    case Idle
    then show ?thesis using c by simp
  qed (use t place in \<open>auto simp: tidy_def in_order_def client_alone_def\<close>)
qed

lemma tidy_waiter:
  assumes t: "tidy s" and c: "flush_pending_blit ok r (waiter s) s = Some s'"
    and r: "waiter s = Wait \<Longrightarrow> can_answer False s r"
  shows "tidy s'"
proof -
  have snd: "sound True s'" using waiter_sound t c by (auto simp: tidy_def)
  have f: "blitFence (sw s)" "imageCount (sw s) = 3" "\<not> destroying (sw s)" "waiter_at (waiter s)"
    using t by (auto simp: tidy_def sound_def)
  show ?thesis
  proof (cases "waiter s")
    case No_waiter
    then show ?thesis using c by simp
  next
    case Wait
    then have "s' = s\<lparr>waiter := Waited r\<rparr>" using c f by simp
    then show ?thesis using t snd Wait r
      by (auto simp: tidy_def order_defs held_free_def busy_def can_answer_def split: wait_status.splits)
  next
    case (Waited x)
    then have "s' = s\<lparr>waiter := (if x = Timed_out then Wait else Finish)\<rparr>" using c f by simp
    then show ?thesis using t snd Waited by (cases x) (auto simp: tidy_def order_defs held_free_def busy_def)
  next
    case Finish
    then have "s' = s\<lparr>sw := (sw s)\<lparr>blitSource := -1, blitInFlight := False, pendingIndex := -1\<rparr>, fence := False,
        waiter := Publish (pendingIndex (sw s))\<rparr>"
      using c f t by (auto simp: finish_blit_locked_def tidy_def in_order_def)
    then show ?thesis using t snd Finish by (auto simp: tidy_def order_defs held_free_def busy_def)
  next
    case (Publish p)
    then have "s' = (publish_pixels s)\<lparr>waiter := (if p < 0 then Look_again else Take p)\<rparr>" using c by simp
    then show ?thesis using t snd Publish by (auto simp: tidy_def order_defs held_free_def busy_def publish_pixels_def)
  next
    case Look_again
    then have "s' = waiter_ends (s\<lparr>sw := (sw s)\<lparr>pendingIndex := -1\<rparr>\<rparr>)"
      using c t by (auto simp: Let_def tidy_def in_order_def)
    then show ?thesis using t snd Look_again
      by (auto simp: tidy_def order_defs held_free_def busy_def waiter_ends_def)
  next
    case (Take p)
    then have "s' = s\<lparr>sw := (sw s)\<lparr>blitInFlight := True, blitSource := p\<rparr>, waiter := Flush (nat p)\<rparr>" using c by simp
    then show ?thesis using t snd Take f by (auto simp: tidy_def order_defs held_free_def busy_def waiter_at_def)
  next
    case (Flush i)
    then have "s' = (if ok then s\<lparr>gpu := [i], waiter := Wait\<rparr> else s\<lparr>waiter := Flush_failed\<rparr>)"
      using c f t by (auto simp: record_blit_def Let_def tidy_def in_order_def gpu_idle_def waiter_at_def)
    then show ?thesis using t snd Flush by (auto simp: tidy_def order_defs held_free_def busy_def)
  next
    case Flush_failed
    then have "s' = waiter_ends (s\<lparr>sw := blit_failed (sw s)\<rparr>)" using c by simp
    then show ?thesis using t snd Flush_failed
      by (auto simp: tidy_def order_defs held_free_def busy_def blit_failed_def waiter_ends_def)
  qed
qed

lemma tidy_act:
  assumes "tidy s" "orderly a s" "act False a s = Some s'"
  shows "tidy s'"
proof (cases a)
  case (Acquire size_ok ok)
  then show ?thesis using assms tidy_acquire by (auto simp: orderly_def split: if_splits)
next
  case (Present i)
  then show ?thesis using assms tidy_present by (auto simp: orderly_def split: if_splits)
next
  case Destroy
  then show ?thesis using assms by (simp add: orderly_def)
next
  case (Client ok r)
  then show ?thesis using assms tidy_client by (auto simp: orderly_def split: if_splits)
next
  case (Waiter ok r)
  then have "flush_pending_blit ok r (waiter s) s = Some s'" "waiter s = Wait \<Longrightarrow> can_answer False s r"
    using assms by (auto simp: tidy_def sound_def split: if_splits)
  then show ?thesis using assms tidy_waiter by blast
next
  case Gpu
  then obtain i "is" where g: "gpu s = i # is" "s' = s\<lparr>gpu := is, buffer := Some i, fence := True\<rparr>"
    using assms(3) by (auto split: list.splits)
  have snd: "sound True s'" using act_sound assms(1,3) by (auto simp: tidy_def)
  have "in_order s'" using assms(1) g
    by (auto simp: tidy_def order_defs split: waiter_place.splits client_place.splits caller.splits)
  then show ?thesis using assms(1) snd g(2) by (auto simp: tidy_def held_free_def busy_def)
qed

lemma orderly_tidy: "orderly_reachable s \<Longrightarrow> tidy s"
  by (induction rule: orderly_reachable.induct) (auto intro: tidy_start tidy_act)

section \<open>A blit in flight is published\<close>

definition will_publish :: "nat \<Rightarrow> sys \<Rightarrow> bool" where
  "will_publish i s \<longleftrightarrow> (\<exists>as s'. set as \<subseteq> {Gpu, Waiter True Signalled} \<and> run False as s = Some s' \<and>
     published s' = published s @ [Some i])"

lemma will_publish_step:
  assumes "act False a s = Some s1" "a \<in> {Gpu, Waiter True Signalled}" "published s1 = published s" "will_publish i s1"
  shows "will_publish i s"
proof -
  obtain as s' where "set as \<subseteq> {Gpu, Waiter True Signalled}" "run False as s1 = Some s'"
    "published s' = published s1 @ [Some i]"
    using assms(4) by (auto simp: will_publish_def)
  then show ?thesis unfolding will_publish_def using assms(1-3) by (intro exI [of _ "a # as"] exI [of _ s']) auto
qed

lemma publishes_finish:
  assumes "tidy s" "waiter s = Finish"
  shows "will_publish (nat (blitSource (sw s))) s"
  unfolding will_publish_def using assms
  by (intro exI [of _ "[Waiter True Signalled, Waiter True Signalled]"])
    (auto simp: tidy_def order_defs finish_blit_locked_def publish_pixels_def)

lemma publishes_waited:
  assumes "tidy s" "waiter s = Waited Signalled"
  shows "will_publish (nat (blitSource (sw s))) s"
proof -
  have a: "act False (Waiter True Signalled) s = Some (s\<lparr>waiter := Finish\<rparr>)" using assms by (auto simp: tidy_def)
  have "tidy (s\<lparr>waiter := Finish\<rparr>)" using tidy_act [OF assms(1) _ a] by (simp add: orderly_def)
  then show ?thesis using publishes_finish [of "s\<lparr>waiter := Finish\<rparr>"] by (intro will_publish_step [OF a]) auto
qed

lemma publishes_wait_done:
  assumes "tidy s" "waiter s = Wait" "fence s"
  shows "will_publish (nat (blitSource (sw s))) s"
proof -
  have a: "act False (Waiter True Signalled) s = Some (s\<lparr>waiter := Waited Signalled\<rparr>)"
    using assms by (auto simp: tidy_def sound_def can_answer_def)
  have "tidy (s\<lparr>waiter := Waited Signalled\<rparr>)"
    using tidy_act [OF assms(1) _ a] by (simp add: orderly_def)
  then show ?thesis using publishes_waited [of "s\<lparr>waiter := Waited Signalled\<rparr>"]
    by (intro will_publish_step [OF a]) auto
qed

lemma publishes_wait:
  assumes "tidy s" "waiter s = Wait"
  shows "will_publish (nat (blitSource (sw s))) s"
proof (cases "fence s")
  case False
  then have "gpu s = [nat (blitSource (sw s))]" using assms by (auto simp: tidy_def order_defs)
  then have a: "act False Gpu s = Some (s\<lparr>gpu := [], buffer := Some (nat (blitSource (sw s))), fence := True\<rparr>)" by simp
  then have "tidy (s\<lparr>gpu := [], buffer := Some (nat (blitSource (sw s))), fence := True\<rparr>)"
    using tidy_act [OF assms(1) _ a] by (simp add: orderly_def)
  then show ?thesis
    using publishes_wait_done [of "s\<lparr>gpu := [], buffer := Some (nat (blitSource (sw s))), fence := True\<rparr>"] assms(2)
    by (intro will_publish_step [OF a]) auto
qed (use publishes_wait_done assms in blast)

lemma publishes:
  assumes t: "tidy s" and "blitInFlight (sw s)" "waiter s \<noteq> No_waiter" "waiter s \<noteq> Flush_failed"
  shows "will_publish (nat (blitSource (sw s))) s"
proof (cases "waiter s")
  case (Waited r)
  have "will_publish (nat (blitSource (sw s))) s" if "r = Timed_out"
  proof -
    have a: "act False (Waiter True Signalled) s = Some (s\<lparr>waiter := Wait\<rparr>)" using that Waited t by (auto simp: tidy_def)
    have "tidy (s\<lparr>waiter := Wait\<rparr>)" using tidy_act [OF t _ a] by (simp add: orderly_def)
    then show ?thesis using publishes_wait [of "s\<lparr>waiter := Wait\<rparr>"] by (intro will_publish_step [OF a]) auto
  qed
  moreover have "r \<noteq> Wait_failed" using t Waited by (auto simp: tidy_def in_order_def)
  ultimately show ?thesis using publishes_waited [OF t] Waited by (cases r) auto
next
  case (Flush i)
  have f: "blitSource (sw s) = int i" "gpu s = []" "i < 3" "imageCount (sw s) = 3" "\<not> fence s" "\<not> reused s"
    using t Flush by (auto simp: tidy_def sound_def waiter_at_def order_defs)
  then have a: "act False (Waiter True Signalled) s = Some (s\<lparr>reused := False, gpu := [i], waiter := Wait\<rparr>)"
    using Flush by (simp add: record_blit_def Let_def)
  have "tidy (s\<lparr>reused := False, gpu := [i], waiter := Wait\<rparr>)" using tidy_act [OF t _ a] by (simp add: orderly_def)
  then show ?thesis using publishes_wait [of "s\<lparr>reused := False, gpu := [i], waiter := Wait\<rparr>"]
    by (intro will_publish_step [OF a]) auto
qed (use assms publishes_finish publishes_wait in \<open>auto simp: tidy_def in_order_def\<close>)

section \<open>Properties\<close>



section \<open>What a disorderly schedule can do\<close>

text \<open>The first frame: an image is acquired and presented, its blit is recorded, and the waiter is created.\<close>

definition first_frame :: "action list" where
  "first_frame = [Acquire True True, Present 0, Client True Signalled, Client True Signalled, Client True Signalled]"

definition waits_and_finishes :: "action list" where
  "waits_and_finishes = [Gpu, Waiter True Signalled, Waiter True Signalled, Waiter True Signalled]"

text \<open>The next frame is presented while the waiter publishes the first; then the waiter ends.\<close>

definition freezing :: "action list" where
  "freezing = first_frame @ waits_and_finishes @ [Acquire True True, Present 1, Client True Signalled, Client True Signalled,
     Waiter True Signalled, Waiter True Signalled]"

text \<open>
  Three frames are presented while the waiter publishes the first and has taken the second, which it then
  blits while the client has acquired that image again.
\<close>

definition overtaking :: "action list" where
  "overtaking = first_frame @ [Acquire True True, Present 1] @ waits_and_finishes @
     [Acquire True True, Present 2, Client True Signalled, Client True Signalled,
      Acquire True True, Present 0, Acquire True True, Waiter True Signalled, Waiter True Signalled, Waiter True Signalled]"

text \<open>An image is in flight, one is waiting, one is held; the swapchain is destroyed while a blit takes long.\<close>

definition acquiring_twice :: "action list" where
  "acquiring_twice = first_frame @ [Acquire True True, Present 1, Acquire True True, Acquire True True]"

definition destroying_early :: "action list" where
  "destroying_early = first_frame @ [Destroy, Client True Signalled, Waiter True Timed_out, Waiter True Signalled,
     Client True Signalled]"

lemma disorder:
  "case run False overtaking (start True) of None \<Rightarrow> False | Some s \<Rightarrow> held s = [1] \<and> gpu s = [2, 1] \<and> reused s"
  "case run False acquiring_twice (start True) of None \<Rightarrow> False | Some s \<Rightarrow> held s = [2, 2]"
  "case run False destroying_early (start True) of None \<Rightarrow> False | Some s \<Rightarrow> client s = Gone \<and> gpu s = [0]"
  by code_simp+

text \<open>Nobody waits for the fence any more, and the client does not notice.\<close>

definition frozen :: "sys \<Rightarrow> bool" where
  "frozen s \<longleftrightarrow> sound True s \<and> client s = Idle \<and> waiter s = No_waiter \<and> blitInFlight (sw s)"

lemma frozen_act:
  assumes f: "frozen s" and a: "act lost a s = Some s'" "a \<noteq> Destroy"
  shows "frozen s' \<and> published s' = published s"
proof -
  have snd: "sound True s'" using act_sound f a(1) by (auto simp: frozen_def)
  show ?thesis
  proof (cases a)
    case (Acquire size_ok ok)
    obtain i where "pick_free_image (sw s) = int i" using acquired_picked [of s] f by (auto simp: frozen_def sound_def)
    then show ?thesis using f a snd Acquire
      by (auto simp: frozen_def XWindowSwapchain_acquireNextImage_def acquired_image_def Let_def split: if_splits)
  next
    case (Present i)
    then show ?thesis using f a snd
      by (auto simp: frozen_def presentImage_def XWindowSwapchain_presentImageIndex_def split: if_splits)
  next
    case Gpu
    then show ?thesis using f a snd by (auto simp: frozen_def split: list.splits)
  qed (use f a in \<open>auto simp: frozen_def split: if_splits\<close>)
qed

lemma frozen_run:
  "frozen s \<Longrightarrow> run lost as s = Some s' \<Longrightarrow> Destroy \<notin> set as \<Longrightarrow> published s' = published s"
proof (induction "as" arbitrary: s)
  case (Cons a "as")
  then obtain s1 where "act lost a s = Some s1" "run lost as s1 = Some s'" by (auto simp: bind_eq_Some_conv)
  then show ?case using frozen_act [of s lost a s1] Cons by auto
qed simp

lemma run_reachable: "run lost as s = Some s' \<Longrightarrow> reachable lost f s \<Longrightarrow> reachable lost f s'"
  by (induction "as" arbitrary: s) (auto simp: bind_eq_Some_conv intro: reachable.step)

lemma freezes:
  "case run False freezing (start True) of None \<Rightarrow> False
   | Some s \<Rightarrow> client s = Idle \<and> waiter s = No_waiter \<and> blitInFlight (sw s) \<and> published s = [Some 0] \<and> held s = []"
  by code_simp


definition more_frames :: "action list" where
  "more_frames = [Acquire True True, Present 2, Gpu, Acquire True True, Present 0]"


lemma example_states:
  "case run False first_frame (start True) of None \<Rightarrow> False | Some s \<Rightarrow> client s = Idle \<and> acquireIndex (sw s) = 1"
  by code_simp


fun orderly_run :: "action list \<Rightarrow> sys \<Rightarrow> sys option" where
  "orderly_run [] s = Some s"
| "orderly_run (a # as) s = (if orderly a s then do { s \<leftarrow> act False a s; orderly_run as s } else None)"

lemma orderly_run_reachable: "orderly_run as s = Some s' \<Longrightarrow> orderly_reachable s \<Longrightarrow> orderly_reachable s'"
  by (induction "as" arbitrary: s) (auto simp: bind_eq_Some_conv split: if_splits intro: orderly_reachable.step)

lemma first_frame_orderly:
  "case orderly_run first_frame (start True) of None \<Rightarrow> False
   | Some s \<Rightarrow> client s = Idle \<and> waiter s = Wait \<and> blitInFlight (sw s) \<and> blitSource (sw s) = 0"
  by code_simp


end
