(* ===== verification/SwapchainObjects.thy ===== *)
theory SwapchainObjects
  imports VkMemory
begin

text \<open>
  The Vulkan objects of a window's swapchain, \<open>vortekrenderer/src/xwindow_swapchain.c\<close>: what
  \<open>XWindowSwapchain_create\<close> creates, with all its ways to fail, and what \<open>XWindowSwapchain_destroy\<close> gives back.

  The driver is a parameter: it answers each request as it likes, after what was requested before, which a
  log keeps.
\<close>

section \<open>Requests and their ledger\<close>

text \<open>What the renderer asks for: of images format, size and usage, of memory size and type.\<close>

datatype vk_request =
    CreateImage u32 u32 u32 u32
  | AllocateMemory u64 u32
  | BindImageMemory u64 u64
  | CreateBuffer u64 u32
  | BindBufferMemory u64 u64
  | MapMemory u64 u64
  | CreateCommandPool
  | AllocateCommandBuffer u64
  | CreateFence

datatype vk_object = ImageObject u64 | MemoryObject u64 | BufferObject u64 | MappingOf u64 | PoolObject u64 | FenceObject u64

datatype vk_event =
    Answered vk_request u64
  | Refused vk_request
  | Destroyed vk_object

text \<open>A command buffer goes with its pool.\<close>

fun given :: "vk_event \<Rightarrow> vk_object multiset" where
  "given (Answered (CreateImage _ _ _ _) h) = {#ImageObject h#}"
| "given (Answered (AllocateMemory _ _) h) = {#MemoryObject h#}"
| "given (Answered (CreateBuffer _ _) h) = {#BufferObject h#}"
| "given (Answered (MapMemory m _) _) = {#MappingOf m#}"
| "given (Answered CreateCommandPool h) = {#PoolObject h#}"
| "given (Answered CreateFence h) = {#FenceObject h#}"
| "given _ = {#}"

fun taken :: "vk_event \<Rightarrow> vk_object multiset" where
  "taken (Destroyed x) = {#x#}"
| "taken _ = {#}"

fun ledger :: "vk_event list \<Rightarrow> vk_object multiset \<Rightarrow> vk_object multiset option" where
  "ledger [] H = Some H"
| "ledger (e # es) H = (if taken e \<subseteq># H then ledger es (H - taken e + given e) else None)"

record vk_driver =
  answers :: "vk_event list \<Rightarrow> vk_request \<Rightarrow> int \<times> u64"
  imageRequirements :: "vk_event list \<Rightarrow> u64 \<Rightarrow> u64 \<times> u32"
  bufferRequirements :: "vk_event list \<Rightarrow> u64 \<Rightarrow> u64 \<times> u32"

definition vk :: "vk_driver \<Rightarrow> vk_request \<Rightarrow> vk_event list \<Rightarrow> int \<times> u64 \<times> vk_event list" where
  "vk D req log = (case answers D log req of (result, h) \<Rightarrow>
     (result, h, log @ [if result = VK_SUCCESS then Answered req h else Refused req]))"

section \<open>Memory types\<close>

fun first_type :: "nat \<Rightarrow> u32 \<Rightarrow> u32 \<Rightarrow> u32" where
  "first_type 0 i typeBits = 0"
| "first_type (Suc fuel) i typeBits =
    (if typeBits = 0 then 0 else if typeBits AND 1 \<noteq> 0 then i else first_type fuel (i + 1) (drop_bit 1 typeBits))"

text \<open>The loop ends when no bits are left, after 32 rounds at the latest.\<close>

definition memoryTypeForFlags :: "device_memory_info \<Rightarrow> u32 \<Rightarrow> u32 \<Rightarrow> u32" where
  "memoryTypeForFlags I typeBits flags =
     (let index = getMemoryTypeIndex I typeBits flags
      in if typeBits AND push_bit (unat index) 1 \<noteq> 0 then index else first_type 33 0 typeBits)"

definition DEVICE_LOCAL_BIT :: u32 where "DEVICE_LOCAL_BIT = 1"
definition IMAGE_USAGE_TRANSFER_SRC_BIT :: u32 where "IMAGE_USAGE_TRANSFER_SRC_BIT = 1"
definition IMAGE_USAGE_TRANSFER_DST_BIT :: u32 where "IMAGE_USAGE_TRANSFER_DST_BIT = 2"
definition BUFFER_USAGE_TRANSFER_DST_BIT :: u32 where "BUFFER_USAGE_TRANSFER_DST_BIT = 2"
definition FORMAT_R8G8B8A8_UNORM :: u32 where "FORMAT_R8G8B8A8_UNORM = 37"
definition VK_ERROR_INITIALIZATION_FAILED :: int where "VK_ERROR_INITIALIZATION_FAILED = -3"

section \<open>Creating\<close>

record swapchain_image =
  si_image :: u64
  si_memory :: u64

record swapchain_info =
  imageFormat :: u32
  imageUsage :: u32
  width :: u32
  height :: u32

record swapchain_objects =
  images :: "swapchain_image list"
  convertTarget :: swapchain_image
  publishBuffer :: u64
  publishMemory :: u64
  publishMapped :: u64
  publishSize :: u64
  commandPool :: u64
  commandBuffer :: u64
  blitFence :: u64

text \<open>\<open>createDeviceImage\<close> and \<open>createConvertImage\<close> differ in format and usage only.\<close>

definition create_image :: "vk_driver \<Rightarrow> device_memory_info \<Rightarrow> u32 \<Rightarrow> u32 \<Rightarrow> swapchain_info \<Rightarrow> vk_event list \<Rightarrow>
    int \<times> swapchain_image option \<times> vk_event list" where
  "create_image D I format usage info log =
     (let (result, image, log) = vk D (CreateImage format (width info) (height info) usage) log
      in if result \<noteq> VK_SUCCESS then (result, None, log)
      else let (len, typeBits) = imageRequirements D log image;
               (result, memory, log) = vk D (AllocateMemory len (memoryTypeForFlags I typeBits DEVICE_LOCAL_BIT)) log
      in if result \<noteq> VK_SUCCESS then (result, None, log @ [Destroyed (ImageObject image)])
      else let (result, _, log) = vk D (BindImageMemory image memory) log
      in if result \<noteq> VK_SUCCESS then (result, None, log @ [Destroyed (MemoryObject memory), Destroyed (ImageObject image)])
      else (VK_SUCCESS, Some \<lparr>si_image = image, si_memory = memory\<rparr>, log))"

definition createDeviceImage :: "vk_driver \<Rightarrow> device_memory_info \<Rightarrow> swapchain_info \<Rightarrow> vk_event list \<Rightarrow>
    int \<times> swapchain_image option \<times> vk_event list" where
  "createDeviceImage D I info = create_image D I (imageFormat info) (imageUsage info OR IMAGE_USAGE_TRANSFER_SRC_BIT) info"

definition createConvertImage :: "vk_driver \<Rightarrow> device_memory_info \<Rightarrow> swapchain_info \<Rightarrow> vk_event list \<Rightarrow>
    int \<times> swapchain_image option \<times> vk_event list" where
  "createConvertImage D I info = create_image D I FORMAT_R8G8B8A8_UNORM
     (IMAGE_USAGE_TRANSFER_DST_BIT OR IMAGE_USAGE_TRANSFER_SRC_BIT) info"

text \<open>A failure on the way leaves what there is in the swapchain, for \<open>XWindowSwapchain_destroy\<close>.\<close>

definition createPublishBuffer :: "vk_driver \<Rightarrow> device_memory_info \<Rightarrow> swapchain_info \<Rightarrow>
    swapchain_objects \<times> vk_event list \<Rightarrow> int \<times> swapchain_objects \<times> vk_event list" where
  "createPublishBuffer D I info = (\<lambda>(sc, log).
     let len = ucast (width info) * ucast (height info) * 4; sc = sc\<lparr>publishSize := len\<rparr>
     in if len = 0 then (VK_ERROR_INITIALIZATION_FAILED, sc, log)
     else let (result, b, log) = vk D (CreateBuffer len BUFFER_USAGE_TRANSFER_DST_BIT) log; sc = sc\<lparr>publishBuffer := b\<rparr>
     in if result \<noteq> VK_SUCCESS then (result, sc, log)
     else let (need, typeBits) = bufferRequirements D log b;
              (result, m, log) = vk D (AllocateMemory need
                 (memoryTypeForFlags I typeBits (HOST_VISIBLE_BIT OR HOST_COHERENT_BIT))) log;
              sc = sc\<lparr>publishMemory := m\<rparr>
     in if result \<noteq> VK_SUCCESS then (result, sc, log)
     else let (result, _, log) = vk D (BindBufferMemory b m) log
     in if result \<noteq> VK_SUCCESS then (result, sc, log)
     else let (result, p, log) = vk D (MapMemory m len) log
     in (result, sc\<lparr>publishMapped := p\<rparr>, log))"

definition no_image :: swapchain_image where
  "no_image = \<lparr>si_image = 0, si_memory = 0\<rparr>"

definition no_objects :: swapchain_objects where
  "no_objects = \<lparr>images = [no_image, no_image, no_image], convertTarget = no_image, publishBuffer = 0, publishMemory = 0,
     publishMapped = 0, publishSize = 0, commandPool = 0, commandBuffer = 0, blitFence = 0\<rparr>"

text \<open>The list is of the images to go.\<close>

fun create_images :: "vk_driver \<Rightarrow> device_memory_info \<Rightarrow> swapchain_info \<Rightarrow> nat list \<Rightarrow>
    swapchain_objects \<times> vk_event list \<Rightarrow> int \<times> swapchain_objects \<times> vk_event list" where
  "create_images D I info [] (sc, log) = (VK_SUCCESS, sc, log)"
| "create_images D I info (i # is) (sc, log) = (case createDeviceImage D I info log of
      (result, Some im, log) \<Rightarrow> create_images D I info is (sc\<lparr>images := (images sc)[i := im]\<rparr>, log)
    | (result, None, log) \<Rightarrow> (result, sc, log))"

definition create_commands :: "vk_driver \<Rightarrow> swapchain_objects \<times> vk_event list \<Rightarrow> swapchain_objects \<times> vk_event list" where
  "create_commands D = (\<lambda>(sc, log).
     let (result, pool, log) = vk D CreateCommandPool log; sc = sc\<lparr>commandPool := pool\<rparr>
     in if result \<noteq> VK_SUCCESS then (sc, log)
     else let (_, cb, log) = vk D (AllocateCommandBuffer pool) log; (_, f, log) = vk D CreateFence log
     in (sc\<lparr>commandBuffer := cb, blitFence := f\<rparr>, log))"

definition destroy_if :: "bool \<Rightarrow> vk_object \<Rightarrow> vk_event list \<Rightarrow> vk_event list" where
  "destroy_if c x log = (if c then log @ [Destroyed x] else log)"

definition destroy_image :: "swapchain_image \<Rightarrow> vk_event list \<Rightarrow> vk_event list" where
  "destroy_image im log = destroy_if (si_memory im \<noteq> 0) (MemoryObject (si_memory im))
     (destroy_if (si_image im \<noteq> 0) (ImageObject (si_image im)) log)"

text \<open>\<open>XWindowSwapchain_destroy\<close> once nobody uses the swapchain any more.\<close>

definition destroy_objects :: "swapchain_objects \<Rightarrow> vk_event list \<Rightarrow> vk_event list" where
  "destroy_objects sc log = (
     let log = destroy_if (publishMapped sc \<noteq> 0 \<and> publishMemory sc \<noteq> 0) (MappingOf (publishMemory sc)) log;
         log = destroy_if (publishBuffer sc \<noteq> 0) (BufferObject (publishBuffer sc)) log;
         log = destroy_if (publishMemory sc \<noteq> 0) (MemoryObject (publishMemory sc)) log;
         log = destroy_if (blitFence sc \<noteq> 0) (FenceObject (blitFence sc)) log;
         log = destroy_if (commandPool sc \<noteq> 0) (PoolObject (commandPool sc)) log;
         log = destroy_image (convertTarget sc) log
     in fold destroy_image (images sc) log)"

definition XWindowSwapchain_create_objects :: "vk_driver \<Rightarrow> device_memory_info \<Rightarrow> swapchain_info \<Rightarrow> vk_event list \<Rightarrow>
    swapchain_objects option \<times> vk_event list" where
  "XWindowSwapchain_create_objects D I info log =
     (let (result, sc, log) = create_images D I info [0..<3] (no_objects, log)
      in if result \<noteq> VK_SUCCESS then (None, destroy_objects sc log)
      else let (result, target, log) = createConvertImage D I info log;
               sc = (case target of Some im \<Rightarrow> sc\<lparr>convertTarget := im\<rparr> | None \<Rightarrow> sc)
      in if result \<noteq> VK_SUCCESS then (None, destroy_objects sc log)
      else let (result, sc, log) = createPublishBuffer D I info (sc, log)
      in if result \<noteq> VK_SUCCESS then (None, destroy_objects sc log)
      else let (sc, log) = create_commands D (sc, log) in (Some sc, log))"

section \<open>The memory type is one that is allowed\<close>

lemma first_type_bit:
  "bit b k \<Longrightarrow> k < n \<Longrightarrow> \<exists>j\<le>k. first_type n i b = i + of_nat j \<and> bit b j"
proof (induction n arbitrary: i b k)
  case (Suc n)
  have b: "b \<noteq> 0" using Suc.prems(1) by auto
  show ?case
  proof (cases "bit b 0")
    case True
    then show ?thesis using b by (intro exI [of _ 0]) (simp add: and_one_eq odd_iff_mod_2_eq_one bit_0)
  next
    case False
    then obtain k' where k: "k = Suc k'" using Suc.prems(1) by (cases k) auto
    have "bit (drop_bit 1 b) k'" using Suc.prems(1) k by (simp add: bit_drop_bit_eq)
    then obtain j where "j \<le> k'" "first_type n (i + 1) (drop_bit 1 b) = i + 1 + of_nat j" "bit (drop_bit 1 b) j"
      using Suc.IH [of "drop_bit 1 b" k' "i + 1"] Suc.prems(2) k by auto
    then show ?thesis using b False k
      by (intro exI [of _ "Suc j"]) (simp add: and_one_eq odd_iff_mod_2_eq_one bit_0 bit_drop_bit_eq)
  qed
qed simp

lemma memory_type_allowed:
  assumes "typeBits \<noteq> 0"
  shows "bit typeBits (unat (memoryTypeForFlags I typeBits flags))"
proof (cases "typeBits AND push_bit (unat (getMemoryTypeIndex I typeBits flags)) 1 = 0")
  case True
  obtain k where k: "bit typeBits k" "k < 32" using assms bit_word_eqI [of typeBits 0] by auto
  then obtain j where j: "j \<le> k" "first_type 33 0 typeBits = of_nat j" "bit typeBits j"
    using first_type_bit [of typeBits k 33 0] by auto
  then have "unat (first_type 33 0 typeBits) = j" using k(2) by (simp add: unat_of_nat)
  then show ?thesis using True j(3) by (simp add: memoryTypeForFlags_def)
next
  case False
  then obtain n where "bit (typeBits AND push_bit (unat (getMemoryTypeIndex I typeBits flags)) 1) n"
    using bit_word_eqI [of "typeBits AND push_bit (unat (getMemoryTypeIndex I typeBits flags)) 1" 0] by auto
  then show ?thesis using False by (auto simp: memoryTypeForFlags_def bit_and_iff bit_exp_iff)
qed

section \<open>The ledger\<close>

text \<open>A driver gives a handle exactly when it succeeds; a refused request leaves \<open>VK_NULL_HANDLE\<close>, or no address.\<close>

definition driver_ok :: "vk_driver \<Rightarrow> bool" where
  "driver_ok D \<longleftrightarrow> (\<forall>log req. given (Answered req 0) \<noteq> {#} \<longrightarrow> handle_result (answers D log req))"

definition changes :: "vk_event list \<Rightarrow> vk_event list \<Rightarrow> vk_object multiset \<Rightarrow> vk_object multiset \<Rightarrow> bool" where
  "changes log log' H H' \<longleftrightarrow> (\<exists>es. log' = log @ es \<and> ledger es H = Some H')"

lemma ledger_append: "ledger (es @ fs) H = (case ledger es H of None \<Rightarrow> None | Some H' \<Rightarrow> ledger fs H')"
  by (induction es arbitrary: H) auto

lemma changes_refl [simp, intro]: "changes log log H H"
  by (simp add: changes_def)

lemma changes_trans: "changes l1 l2 H1 H2 \<Longrightarrow> changes l2 l3 H2 H3 \<Longrightarrow> changes l1 l3 H1 H3"
  by (auto simp: changes_def ledger_append)

text \<open>What a request brings with its result and handle.\<close>

definition gain :: "vk_request \<Rightarrow> int \<Rightarrow> u64 \<Rightarrow> vk_object multiset" where
  "gain req result h = (if result = VK_SUCCESS then given (Answered req h) else {#})"

lemma gain_ok: "gain req VK_SUCCESS h = given (Answered req h)"
  by (simp add: gain_def)

lemma gain_failed: "result \<noteq> VK_SUCCESS \<Longrightarrow> gain req result h = {#}"
  by (simp add: gain_def)

lemma gain_nothing [simp]:
  "gain (BindImageMemory i m) result h = {#}" "gain (BindBufferMemory b m) result h = {#}"
  "gain (AllocateCommandBuffer p) result h = {#}"
  by (simp_all add: gain_def split: if_split)

lemma vk_changes:
  assumes "vk D req log = (result, h, log')"
  shows "changes log log' H (H + gain req result h)"
  using assms by (auto simp: vk_def changes_def gain_def split: prod.splits)

lemma vk_handle:
  assumes "driver_ok D" "vk D req log = (result, h, log')" "given (Answered req 0) \<noteq> {#}"
  shows "result = VK_SUCCESS \<longleftrightarrow> h \<noteq> 0"
  using assms by (auto simp: vk_def driver_ok_def handle_result_def split: prod.splits) (metis fst_conv snd_conv)+

lemma destroy_one: "changes log (log @ [Destroyed x]) (H + {#x#}) H"
  by (simp add: changes_def)

definition only_if :: "bool \<Rightarrow> vk_object \<Rightarrow> vk_object multiset" where
  "only_if c x = (if c then {#x#} else {#})"

lemma only_if_simps [simp]: "only_if True x = {#x#}" "only_if False x = {#}"
  by (simp_all add: only_if_def)

lemma destroy_if_changes: "changes log (destroy_if c x log) (H + only_if c x) H"
  using destroy_one [of log x H] by (simp add: destroy_if_def only_if_def)

definition image_objects :: "swapchain_image \<Rightarrow> vk_object multiset" where
  "image_objects im = only_if (si_memory im \<noteq> 0) (MemoryObject (si_memory im)) + only_if (si_image im \<noteq> 0) (ImageObject (si_image im))"

lemma destroy_image_changes: "changes log (destroy_image im log) (H + image_objects im) H"
  unfolding destroy_image_def image_objects_def add.assoc [symmetric]
  by (rule changes_trans [OF destroy_if_changes destroy_if_changes])

lemma destroy_images_changes: "changes log (fold destroy_image ims log) (H + (\<Sum>im\<leftarrow>ims. image_objects im)) H"
proof (induction ims arbitrary: log)
  case (Cons im ims)
  have "changes log (destroy_image im log) (H + (\<Sum>im\<leftarrow>im # ims. image_objects im)) (H + (\<Sum>im\<leftarrow>ims. image_objects im))"
    using destroy_image_changes [of log im "H + (\<Sum>im\<leftarrow>ims. image_objects im)"] by (simp add: ac_simps)
  from changes_trans [OF this Cons.IH] show ?case by simp
qed simp

definition owned_objects :: "swapchain_objects \<Rightarrow> vk_object multiset" where
  "owned_objects sc =
     (\<Sum>im\<leftarrow>images sc. image_objects im) + image_objects (convertTarget sc) +
     only_if (commandPool sc \<noteq> 0) (PoolObject (commandPool sc)) + only_if (blitFence sc \<noteq> 0) (FenceObject (blitFence sc)) +
     only_if (publishMemory sc \<noteq> 0) (MemoryObject (publishMemory sc)) +
     only_if (publishBuffer sc \<noteq> 0) (BufferObject (publishBuffer sc)) +
     only_if (publishMapped sc \<noteq> 0 \<and> publishMemory sc \<noteq> 0) (MappingOf (publishMemory sc))"

lemma no_image_objects [simp]: "image_objects no_image = {#}"
  by (simp add: image_objects_def no_image_def)

lemma owned_target:
  "convertTarget sc = no_image \<Longrightarrow> owned_objects (sc\<lparr>convertTarget := im\<rparr>) = owned_objects sc + image_objects im"
  by (simp add: owned_objects_def ac_simps)

lemma destroy_objects_changes: "changes log (destroy_objects sc log) (H + owned_objects sc) H"
  unfolding destroy_objects_def owned_objects_def Let_def add.assoc [symmetric]
  by (rule changes_trans [OF changes_trans [OF changes_trans [OF changes_trans [OF changes_trans [OF changes_trans
    [OF destroy_if_changes destroy_if_changes] destroy_if_changes] destroy_if_changes] destroy_if_changes]
    destroy_image_changes] destroy_images_changes])

section \<open>Creating an image\<close>

lemma create_image_changes:
  assumes D: "driver_ok D" and c: "create_image D I format usage info log = (result, im, log')"
  shows "(case im of
      None \<Rightarrow> result \<noteq> VK_SUCCESS \<and> changes log log' H H
    | Some im \<Rightarrow> result = VK_SUCCESS \<and> si_image im \<noteq> 0 \<and> si_memory im \<noteq> 0 \<and> changes log log' H (H + image_objects im))"
proof -
  obtain r1 image l1 where 1: "vk D (CreateImage format (width info) (height info) usage) log = (r1, image, l1)"
    by (metis prod_cases3)
  obtain len bits where q: "imageRequirements D l1 image = (len, bits)" by (metis surj_pair)
  obtain r2 m l2 where 2: "vk D (AllocateMemory len (memoryTypeForFlags I bits DEVICE_LOCAL_BIT)) l1 = (r2, m, l2)"
    by (metis prod_cases3)
  obtain r3 x l3 where 3: "vk D (BindImageMemory image m) l2 = (r3, x, l3)" by (metis prod_cases3)
  note steps = vk_changes [OF 1, of H] vk_changes [OF 2, of "H + {#ImageObject image#}"]
    vk_changes [OF 3, of "H + {#ImageObject image#} + {#MemoryObject m#}"]
  show ?thesis
  proof (cases "r1 = VK_SUCCESS")
    case False
    then show ?thesis using c steps(1) by (auto simp: create_image_def 1 gain_def)
  next
    case ok1: True
    show ?thesis
    proof (cases "r2 = VK_SUCCESS")
      case False
      have "changes log (l2 @ [Destroyed (ImageObject image)]) H H"
        using changes_trans [OF changes_trans [OF steps(1)] destroy_one [of l2 "ImageObject image" H]] steps(2) ok1 False
        by (simp add: gain_def)
      then show ?thesis using c ok1 False by (auto simp: create_image_def 1 2 q)
    next
      case ok2: True
      have got: "changes log l3 H (H + {#ImageObject image#} + {#MemoryObject m#})"
        using changes_trans [OF changes_trans [OF steps(1)] steps(3)] steps(2) ok1 ok2 by (simp add: gain_ok)
      have nz: "image \<noteq> 0" "m \<noteq> 0" using vk_handle [OF D 1] vk_handle [OF D 2] ok1 ok2 by simp_all
      show ?thesis
      proof (cases "r3 = VK_SUCCESS")
        case False
        have "changes l3 (l3 @ [Destroyed (MemoryObject m), Destroyed (ImageObject image)])
            (H + {#ImageObject image#} + {#MemoryObject m#}) H"
          using changes_trans [OF destroy_one destroy_one [of "l3 @ [Destroyed (MemoryObject m)]"]] by simp
        then show ?thesis using c ok1 ok2 False changes_trans [OF got] by (auto simp: create_image_def 1 2 3 q)
      next
        case True
        then show ?thesis using c ok1 ok2 got nz
          by (auto simp: create_image_def 1 2 3 q image_objects_def only_if_def ac_simps)
      qed
    qed
  qed
qed

lemma create_images_changes:
  assumes D: "driver_ok D" and "create_images D I info is (sc, log) = (result, sc', log')"
    and "\<forall>i\<in>set is. i < length (images sc) \<and> images sc ! i = no_image" and "distinct is"
  shows "changes log log' (H + owned_objects sc) (H + owned_objects sc') \<and>
    (\<exists>ims. sc' = sc\<lparr>images := ims\<rparr> \<and> length ims = length (images sc) \<and>
      (result = VK_SUCCESS \<longrightarrow> (\<forall>i<length ims. (if i \<in> set is then si_image (ims ! i) \<noteq> 0 else ims ! i = images sc ! i))))"
  using assms(2-)
proof (induction "is" arbitrary: sc log)
  case Nil
  then show ?case by (auto intro: exI [of _ "images sc"])
next
  case (Cons i "is")
  obtain r im l1 where c: "createDeviceImage D I info log = (r, im, l1)" by (metis prod_cases3)
  show ?case
  proof (cases im)
    case None
    then have "r \<noteq> VK_SUCCESS" "changes log l1 (H + owned_objects sc) (H + owned_objects sc)"
      using create_image_changes [OF D c [unfolded createDeviceImage_def], of "H + owned_objects sc"] by auto
    then show ?thesis using Cons.prems(1) None by (auto simp: c intro: exI [of _ "images sc"])
  next
    case (Some im)
    let ?sc = "sc\<lparr>images := (images sc)[i := im]\<rparr>"
    have got: "si_image im \<noteq> 0" "changes log l1 (H + owned_objects sc) (H + owned_objects sc + image_objects im)"
      using create_image_changes [OF D c [unfolded createDeviceImage_def], of "H + owned_objects sc"] Some by auto
    have i: "i < length (images sc)" "images sc ! i = no_image" using Cons.prems(2) by auto
    have "(\<Sum>im\<leftarrow>(images sc)[i := im]. image_objects im) = (\<Sum>im\<leftarrow>images sc. image_objects im) + image_objects im"
    proof -
      have e: "images sc = take i (images sc) @ no_image # drop (Suc i) (images sc)" using i id_take_nth_drop by metis
      have "image_objects no_image = {#}" by (simp add: image_objects_def only_if_def no_image_def)
      then have "(\<Sum>im\<leftarrow>images sc. image_objects im) =
          (\<Sum>im\<leftarrow>take i (images sc). image_objects im) + (\<Sum>im\<leftarrow>drop (Suc i) (images sc). image_objects im)"
        by (subst e) simp
      then show ?thesis using i(1) by (simp add: upd_conv_take_nth_drop)
    qed
    then have own: "owned_objects ?sc = owned_objects sc + image_objects im" by (simp add: owned_objects_def)
    have run: "create_images D I info is (?sc, l1) = (result, sc', log')" using Cons.prems(1) Some by (simp add: c)
    have "\<forall>j\<in>set is. j < length (images ?sc) \<and> images ?sc ! j = no_image" "distinct is"
      using Cons.prems(2,3) by (auto simp: nth_list_update)
    from Cons.IH [OF run this] obtain ims where ih: "changes l1 log' (H + owned_objects ?sc) (H + owned_objects sc')"
      "sc' = ?sc\<lparr>images := ims\<rparr>" "length ims = length (images sc)"
      "result = VK_SUCCESS \<longrightarrow> (\<forall>j<length ims. (if j \<in> set is then si_image (ims ! j) \<noteq> 0 else ims ! j = (images sc)[i := im] ! j))"
      by auto
    have "changes log log' (H + owned_objects sc) (H + owned_objects sc')"
      using changes_trans [OF got(2)] ih(1) own by (simp add: add.assoc)
    moreover have "sc' = sc\<lparr>images := ims\<rparr>" using ih(2) by simp
    ultimately show ?thesis using ih(3,4) got(1) i(1) by (auto simp: nth_list_update split: if_splits intro!: exI [of _ ims])
  qed
qed

section \<open>The publish buffer and the commands\<close>

definition bare :: "swapchain_objects \<Rightarrow> bool" where
  "bare sc \<longleftrightarrow> publishBuffer sc = 0 \<and> publishMemory sc = 0 \<and> publishMapped sc = 0 \<and> commandPool sc = 0 \<and> blitFence sc = 0"

lemma createPublishBuffer_changes:
  assumes D: "driver_ok D" and b: "bare sc" and c: "createPublishBuffer D I info (sc, log) = (result, sc', log')"
  shows "changes log log' (H + owned_objects sc) (H + owned_objects sc') \<and> commandPool sc' = 0 \<and> blitFence sc' = 0 \<and>
    images sc' = images sc \<and> convertTarget sc' = convertTarget sc \<and>
    (result = VK_SUCCESS \<longrightarrow> publishBuffer sc' \<noteq> 0 \<and> publishMemory sc' \<noteq> 0 \<and> publishMapped sc' \<noteq> 0 \<and>
       publishSize sc' = ucast (width info) * ucast (height info) * 4 \<and> publishSize sc' \<noteq> 0)"
proof -
  let ?n = "ucast (width info) * ucast (height info) * 4 :: u64"
  obtain r1 bu l1 where 1: "vk D (CreateBuffer ?n BUFFER_USAGE_TRANSFER_DST_BIT) log = (r1, bu, l1)" by (metis prod_cases3)
  obtain need bits where q: "bufferRequirements D l1 bu = (need, bits)" by (metis surj_pair)
  obtain r2 m l2 where 2: "vk D (AllocateMemory need
      (memoryTypeForFlags I bits (HOST_VISIBLE_BIT OR HOST_COHERENT_BIT))) l1 = (r2, m, l2)" by (metis prod_cases3)
  obtain r3 x l3 where 3: "vk D (BindBufferMemory bu m) l2 = (r3, x, l3)" by (metis prod_cases3)
  obtain r4 p l4 where 4: "vk D (MapMemory m ?n) l3 = (r4, p, l4)" by (metis prod_cases3)
  let ?H = "H + owned_objects sc"
  note nz = vk_handle [OF D 1] vk_handle [OF D 2] vk_handle [OF D 4]
  note s1 = vk_changes [OF 1, of ?H] and s2 = vk_changes [OF 2, of "?H + {#BufferObject bu#}"]
    and s3 = vk_changes [OF 3, of "?H + {#BufferObject bu#} + {#MemoryObject m#}"]
    and s4 = vk_changes [OF 4, of "?H + {#BufferObject bu#} + {#MemoryObject m#}"]
  note bare = b [unfolded bare_def]
  note run = createPublishBuffer_def Let_def
  show ?thesis
  proof (cases "?n = 0")
    case True
    then have "result = VK_ERROR_INITIALIZATION_FAILED" "sc' = sc\<lparr>publishSize := 0\<rparr>" "log' = log"
      using c by (simp_all add: run)
    then show ?thesis using bare by (simp add: owned_objects_def VK_ERROR_INITIALIZATION_FAILED_def VK_SUCCESS_def)
  next
    case n: False
    show ?thesis
    proof (cases "r1 = VK_SUCCESS")
      case False
      then have "result = r1" "sc' = sc\<lparr>publishSize := ?n, publishBuffer := bu\<rparr>" "log' = l1" "bu = 0"
        using c n nz(1) by (simp_all add: run 1)
      then show ?thesis using bare s1 False by (simp add: owned_objects_def only_if_def gain_failed)
    next
      case ok1: True
      then have g1: "changes log l1 ?H (?H + {#BufferObject bu#})" "bu \<noteq> 0" using s1 nz(1) by (simp_all add: gain_ok)
      show ?thesis
      proof (cases "r2 = VK_SUCCESS")
        case False
        then have "result = r2" "sc' = sc\<lparr>publishSize := ?n, publishBuffer := bu, publishMemory := m\<rparr>" "log' = l2" "m = 0"
          using c n ok1 nz(2) by (simp_all add: run 1 2 q)
        moreover have "changes log l2 ?H (?H + {#BufferObject bu#})"
          using changes_trans [OF g1(1) s2] False by (simp add: gain_failed)
        ultimately show ?thesis using bare g1(2) False by (simp add: owned_objects_def only_if_def)
      next
        case ok2: True
        have g3: "changes log l3 ?H (?H + {#BufferObject bu#} + {#MemoryObject m#})" "m \<noteq> 0"
          using changes_trans [OF changes_trans [OF g1(1) s2]] s3 ok2 nz(2) by (simp_all add: gain_ok)
        show ?thesis
        proof (cases "r3 = VK_SUCCESS")
          case False
          then have "result = r3" "sc' = sc\<lparr>publishSize := ?n, publishBuffer := bu, publishMemory := m\<rparr>" "log' = l3"
            using c n ok1 ok2 by (simp_all add: run 1 2 3 q)
          then show ?thesis using bare g1(2) g3 False by (simp add: owned_objects_def only_if_def add_mset_commute)
        next
          case True
          then have e: "result = r4" "sc' = sc\<lparr>publishSize := ?n, publishBuffer := bu, publishMemory := m, publishMapped := p\<rparr>"
            "log' = l4" using c n ok1 ok2 by (simp_all add: run 1 2 3 4 q)
          have "changes log l4 ?H (?H + {#BufferObject bu#} + {#MemoryObject m#} + only_if (p \<noteq> 0) (MappingOf m))"
            using changes_trans [OF g3(1) s4] nz(3) by (cases "r4 = VK_SUCCESS") (simp_all add: gain_ok gain_failed only_if_def)
          moreover have "owned_objects sc' = owned_objects sc + {#BufferObject bu#} + {#MemoryObject m#} +
              only_if (p \<noteq> 0) (MappingOf m)"
            using e bare g1(2) g3(2) by (simp add: owned_objects_def add_mset_commute)
          ultimately show ?thesis using e bare n g1(2) g3(2) nz(3) by (simp add: add.assoc)
        qed
      qed
    qed
  qed
qed

lemma create_commands_changes:
  assumes D: "driver_ok D" and b: "commandPool sc = 0" "blitFence sc = 0" and c: "create_commands D (sc, log) = (sc', log')"
  shows "changes log log' (H + owned_objects sc) (H + owned_objects sc') \<and>
    images sc' = images sc \<and> convertTarget sc' = convertTarget sc \<and> publishBuffer sc' = publishBuffer sc \<and>
    publishMapped sc' = publishMapped sc \<and> publishSize sc' = publishSize sc"
proof -
  obtain r1 pool l1 where 1: "vk D CreateCommandPool log = (r1, pool, l1)" by (metis prod_cases3)
  obtain r2 cb l2 where 2: "vk D (AllocateCommandBuffer pool) l1 = (r2, cb, l2)" by (metis prod_cases3)
  obtain r3 f l3 where 3: "vk D CreateFence l2 = (r3, f, l3)" by (metis prod_cases3)
  let ?H = "H + owned_objects sc"
  note nz = vk_handle [OF D 1] vk_handle [OF D 3]
  note s1 = vk_changes [OF 1, of ?H] and s2 = vk_changes [OF 2, of "?H + {#PoolObject pool#}"]
    and s3 = vk_changes [OF 3, of "?H + {#PoolObject pool#}"]
  show ?thesis
  proof (cases "r1 = VK_SUCCESS")
    case False
    then have "sc' = sc\<lparr>commandPool := pool\<rparr>" "log' = l1" "pool = 0" using c nz(1) by (simp_all add: create_commands_def 1 Let_def)
    then show ?thesis using s1 b False by (simp add: owned_objects_def only_if_def gain_failed)
  next
    case True
    then have e: "sc' = sc\<lparr>commandPool := pool, commandBuffer := cb, blitFence := f\<rparr>" "log' = l3" "pool \<noteq> 0"
      using c nz(1) by (simp_all add: create_commands_def 1 2 3 Let_def)
    have "changes log l2 ?H (?H + {#PoolObject pool#})" using changes_trans [OF s1] s2 True by (simp add: gain_ok)
    from changes_trans [OF this s3]
    have "changes log l3 ?H (?H + {#PoolObject pool#} + only_if (f \<noteq> 0) (FenceObject f))"
      using nz(2) by (cases "r3 = VK_SUCCESS") (simp_all add: gain_ok gain_failed only_if_def)
    moreover have "owned_objects sc' = owned_objects sc + {#PoolObject pool#} + only_if (f \<noteq> 0) (FenceObject f)"
      using e b by (simp add: owned_objects_def)
    ultimately show ?thesis using e by (simp add: add.assoc)
  qed
qed

section \<open>The swapchain as a whole\<close>


text \<open>A driver that creates everything but refuses to map memory.\<close>

definition example_vk :: vk_driver where
  "example_vk = \<lparr>answers = (\<lambda>log req. case req of MapMemory _ _ \<Rightarrow> (-5, 0) | _ \<Rightarrow> (0, 7)),
     imageRequirements = (\<lambda>_ _. (4096, 6)), bufferRequirements = (\<lambda>_ _. (4096, 6))\<rparr>"

lemma example_vk_ok: "driver_ok example_vk"
  by (auto simp: driver_ok_def example_vk_def handle_result_def VK_SUCCESS_def split: vk_request.split)

definition example_info :: swapchain_info where
  "example_info = \<lparr>imageFormat = 44, imageUsage = 16, width = 64, height = 64\<rparr>"

definition example_types :: device_memory_info where
  "example_types = \<lparr>memoryTypes = [1, 6], maxAllocationSize = 4096\<rparr>"


end
