(* ===== verification/Spec2Isabelle.thy ===== *)
theory Spec2Isabelle
  imports SysvNames SysvShm RingBuffer ArrayMaps ArrayDeque FhsGuest FhsExec AndroidKernel XStreams Identity Dns GuestTools Drawable ThreadPool TimelineWaits VkAccount VkExtensions Swapchain SwapchainObjects
begin

text \<open>
  A verification development of bionicx, which runs Linux programs natively in an Android
  application: the programs execute unchanged on the Android kernel, a preloaded library
  (\<open>native/runtime\<close>) gives them the file system, the processes and the System V objects that they
  expect, an executor (\<open>native/executor\<close>) starts and supervises them, and the C part of the X server
  (\<open>android/app/src/main/cpp/winlator\<close>, below \<open>winlator\<close>) serves their windows.

  \<^bold>\<open>The parts and how they interact.\<close> The application calls the executor with a command line. The
  executor sets the environment of the child, traces it over its \<open>exec\<close> and then only supervises. The
  dynamic linker loads the runtime library into the child; it captures the runtime variables
  (\<open>BIONICX_ROOTFS\<close>, \<open>BIONICX_TMPDIR\<close>, ...), writes the resolver configuration, and from then on stands
  between the program and the C library: every path that the program names is redirected below the
  private root file system or the temporary directory, every program that it starts is given the
  captured variables, and semaphores and shared memory are emulated on files and sockets. The program
  talks to the X server over a socket (input and output streams) and, for OpenGL, over a ring in
  shared memory; the server keeps its objects in growable arrays and maps.

  \<^bold>\<open>Theories and sources.\<close>
  \<^item> \<^theory_text>\<open>Prelude\<close>: blocks of memory, C strings, \<open>errno\<close>, bytes of integers, decimal and hexadecimal
    text, with the lemmas that the components share.
  \<^item> \<^theory_text>\<open>RuntimeEnv\<close> (\<open>fhs-exec.c\<close>, \<open>runtime-internal.h\<close>): the environment and the captured variables
    (record \<open>renv\<close>), \<open>clearenv\<close>, \<open>unsetenv\<close>, \<open>getenv\<close>, the environment given to \<open>exec\<close>, and the flags put
    into the arguments of browsers.
  \<^item> \<^theory_text>\<open>FhsPath\<close> (\<open>fhs-path.c\<close>): \<open>bionicx_redirect_path\<close> with the files that it makes up.
    \<^theory_text>\<open>FhsCalls\<close>: the interposed calls; the next definitions answer through the record \<open>libc\<close>, and
    \<open>issued\<close> lists the calls that reach them. \<^theory_text>\<open>FhsLinks\<close>: hard links replaced by copies and the table
    of 32 pairs. \<^theory_text>\<open>FhsMetadata\<close> (\<open>fhs-metadata.c\<close>): modes and owners. \<^theory_text>\<open>FhsGuest\<close>: all of them as
    the steps of a guest. \<^theory_text>\<open>FhsExec\<close> (\<open>fhs-exec.c\<close>): starting programs, scripts, \<open>popen\<close>, libraries.
  \<^item> \<^theory_text>\<open>SysvSem\<close>, \<^theory_text>\<open>SysvNames\<close> (\<open>sysv-semaphore.c\<close>): the shared state of a set, its critical sections,
    the processes around them with the futex; the directory of sets. \<^theory_text>\<open>SysvShm\<close> (\<open>sysv-shm.c\<close>).
  \<^item> \<^theory_text>\<open>Identity\<close> (\<open>identity.c\<close>), \<^theory_text>\<open>AndroidKernel\<close> (\<open>android-kernel.c\<close>), \<^theory_text>\<open>Dns\<close> (\<open>dns.c\<close>): the entry of
    the own user, the trapped system calls, the name servers and interfaces.
  \<^item> \<^theory_text>\<open>Executor\<close> (\<open>bionicx-exec.c\<close>): the command line, the child, tracing, diagnosis, supervision.
  \<^item> \<^theory_text>\<open>GuestTools\<close>: the programs \<open>bionicx-open\<close>, \<open>bionicx-relocate\<close> and the library \<open>sigsys-report\<close>.
  \<^item> \<^theory_text>\<open>Arrays\<close>, \<^theory_text>\<open>ArrayMaps\<close>, \<^theory_text>\<open>ArrayDeque\<close> (\<open>winlator/src/arrays.c\<close>), \<^theory_text>\<open>RingBuffer\<close>
    (\<open>ring_buffer.c\<close>, \<open>ring_buffer.h\<close>), \<^theory_text>\<open>XStreams\<close> (\<open>xinput_stream.c\<close>, \<open>xoutput_stream.c\<close>,
    \<open>socket_utils.h\<close>).
  \<^item> \<^theory_text>\<open>Drawable\<close> (\<open>winlator/src/drawable.c\<close>): the drawing primitives on buffers of pixels. \<^theory_text>\<open>ThreadPool\<close>
    (\<open>winlator/include/thread_pool.h\<close>): the worker threads of the renderers as a transition system.
  \<^item> \<^theory_text>\<open>Timelines\<close>, \<^theory_text>\<open>TimelineWaits\<close> (\<open>vortekrenderer/src/timeline_semaphore.c\<close>): emulated timeline
    semaphores, the filtering of submits, and the waiting threads as a transition system.
    \<^theory_text>\<open>VkMemory\<close>, \<^theory_text>\<open>VkAccount\<close> (\<open>vortekrenderer/src/resource_memory.c\<close>, \<open>winlator/include/dma_utils.h\<close>): device
    memory, with a log of every handle that driver and kernel give out or get back.
    \<^theory_text>\<open>VkExtensions\<close> (\<open>vulkan_helper.c\<close>, \<open>request_handler.c\<close>): extensions, features and the creation of devices.
    \<^theory_text>\<open>Swapchain\<close>, \<^theory_text>\<open>SwapchainObjects\<close> (\<open>xwindow_swapchain.c\<close>): the images of a window
    between client, waiter thread and GPU as a transition system, and the objects of a swapchain.
  A definition has the name of the function, macro or structure that it models; one that models a
  part of a function is introduced by a comment. A \<open>struct\<close> is a record, an \<open>int\<close> or \<open>uint32_t\<close> whose
  width matters is a word or carries an explicit bound.

  \<^bold>\<open>Conventions.\<close> Undefined behaviour (an access outside of a block, a signed overflow, \<open>memcpy\<close> of
  overlapping areas) is the outcome \<open>None\<close>, so a theorem that an operation returns \<open>Some\<close> includes its
  memory safety. Errors are values: \<open>Inl e\<close>, or a reply with \<open>-1\<close> and \<open>errno\<close>. Code that is not part of the
  repository (the kernel, the C library's next definitions, \<open>inet_pton\<close>) is a parameter; what is
  assumed of it is a hypothesis that names its documented behaviour, and the witnesses instantiate it.

  \<^bold>\<open>What the lemmas show.\<close>
  \<^item> Confinement: redirection puts a path below the private directories, fails, or leaves it alone, and
    along every sequence of guest calls no path of the Android system directories is reached; what the
    calls answer (temporary names, real paths, socket addresses, raw system calls, links) is stated
    for every branch.
  \<^item> The runtime contract: the captured variables survive every change of the environment and reach every
    program that is started, by whichever of the starting calls; with the executor's side, from the
    command line to the guest.
  \<^item> System V: a \<open>semop\<close> is atomic, waiter counts are exact and no wake-up is lost in any reachable state
    of the transition system (by rule induction); identifiers and segments stay consistent.
  \<^item> Supervision: tracing ends at the exec boundary, the exit code is that of the program, and a
    shutdown ends.
  \<^item> Containers and transport: arrays, maps, deque, ring and streams refine lists, finite maps and
    queues; the concurrent ring and the connection over partial sends are step relations.
  \<^item> The tools: relocation rewrites the occurrences of the prefix and nothing else, URIs open their file,
    the resolver configuration is replaced as a whole or not at all.
  \<^item> Drawing: areas are copied, filled and combined pixel by pixel as the X protocol asks, lines end and
    follow the ideal line, and no access leaves a buffer that the areas fit in. Threads: waiting for the
    pool ends, and only when nothing is left to do.
  \<^item> Vulkan: the driver sees exactly its own semaphores and the emulated ones end up at the values that were
    signalled; no wait is missed. No path of an allocation leaks, and the account of the memory is exact.
    Clients see and devices get exactly the extensions that driver, engine and renderer allow. Images are handed out and published in order
    as long as the client keeps out of the unprotected part of the waiter; what happens otherwise is shown by traces.
  \<^bold>\<open>Interfaces.\<close> Three contracts are locales: \<open>deque\<close> (a queue with two ends, in \<^theory_text>\<open>ArrayDeque\<close>), \<open>finite_map\<close>
  (in \<^theory_text>\<open>ArrayMaps\<close>, where it is interpreted on \<open>SparseArray\<close>, \<open>SparseIntArray\<close> and \<open>ArrayMap\<close>) and
  \<open>bounded_fifo\<close> (in \<^theory_text>\<open>RingBuffer\<close>). Each proves, once, that every sequence of operations answers as the
  abstract structure does; the properties are these facts over the code's definitions.

  \<^bold>\<open>Bounds and fuel.\<close> No recursion is cut short. Loops whose end depends on the kernel take its answers
  as a list (the notices of \<open>waitpid\<close>, the results of \<open>send\<close>, the states that a busy wait observes): the
  value \<open>None\<close> at the end of the list means that the code is still waiting, and liveness is stated for
  lists that contain the awaited event. Copying and relocation are \<open>partial_function\<close>s, and their theorems
  say that they return. The numbers that do bound a loop are the code's: 40 attempts to stop a session,
  32 stack frames, 32 remembered links, 64 semaphores and segments, the identifiers of \<open>2 ^ 20\<close>.

  \<^bold>\<open>Not modelled.\<close>
  \<^item> \<open>execle\<close> (it reads its environment from a \<open>va_list\<close> that it has passed on) and the diagnostic log
    lines of \<open>fhs-exec.c\<close>; messages on standard error everywhere.
  \<^item> Failing allocations, except where the code answers them with a result of its own.
  \<^item> Of the Vulkan renderer all but timeline semaphores and device memory, and the OpenGL renderer: for the
    most part generated serializers, vendored headers and forwarding to the driver.
  \<^item> The JNI parts of \<open>winlator\<close> (GPU images, epoll loop, shared memory client, registry editor), which
    call Java or the Android NDK in sequence, and the Java program itself.
  \<^item> Floating-point geometry (\<open>mat4.h\<close>, \<open>vec3.h\<close>), probe programs under \<open>examples\<close>, tests and scripts.
\<close>

end
